(* ===== verification/Prelude.thy ===== *)
theory Prelude
  imports Main "HOL-Library.Word" "HOL-Library.Monad_Syntax" "HOL-Library.Multiset"
begin

text \<open>
  Shared vocabulary of the development.

  \<^item> \<open>byte\<close> is the C++ \<open>char\<close>/\<open>uint8_t\<close> of the sources.
  \<^item> \<open>check\<close> models \<open>assert\<close> and the other aborting tests: an operation whose
    assertion fails has the value \<open>None\<close>, and a theorem that an operation succeeds
    therefore also says that none of its assertions fires.
  \<^item> \<open>blit dst off src\<close> is \<open>memcpy\<close>/\<open>std::copy\<close> into an array: the cells
    \<open>off ..< off + length src\<close> of \<open>dst\<close> are overwritten.
  \<^item> \<open>seg i j xs\<close> is the range \<open>[begin() + i, begin() + j)\<close> of a vector, and \<open>vresize\<close>
    is \<open>vector::resize\<close>.
\<close>

type_synonym byte = "8 word"

text \<open>Addresses of heap objects.\<close>

type_synonym addr = nat

named_theorems check_simps \<open>facts that run through a sequence of assertions\<close>

subsection \<open>Assertions\<close>

definition check :: "bool \<Rightarrow> unit option" where
  "check b = (if b then Some () else None)"

lemma check_True [simp]: "check True = Some ()"
  by (simp add: check_def)

lemma check_False [simp]: "check False = None"
  by (simp add: check_def)

lemma bind_check [check_simps]: "check b \<bind> f = (if b then f () else None)"
  by (simp add: check_def)

lemma bind_Some_iff [check_simps]: "(m \<bind> f = Some y) \<longleftrightarrow> (\<exists>x. m = Some x \<and> f x = Some y)"
  by (cases m) auto

lemma bind_eq_SomeI: "m = Some x \<Longrightarrow> f x = Some y \<Longrightarrow> m \<bind> f = Some y"
  by simp

subsection \<open>Overwriting a segment of an array\<close>

definition blit :: "'a list \<Rightarrow> nat \<Rightarrow> 'a list \<Rightarrow> 'a list" where
  "blit dst off src = take off dst @ src @ drop (off + length src) dst"

lemma length_blit [simp]: "off + length src \<le> length dst \<Longrightarrow> length (blit dst off src) = length dst"
  by (simp add: blit_def)

lemma blit_Nil [simp]: "blit dst off [] = dst"
  by (simp add: blit_def)

lemma take_blit_before [simp]: "n \<le> off \<Longrightarrow> off \<le> length dst \<Longrightarrow> take n (blit dst off src) = take n dst"
  by (simp add: blit_def)

lemma drop_blit_at:
  "off \<le> length dst \<Longrightarrow> drop off (blit dst off src) = src @ drop (off + length src) dst"
  by (simp add: blit_def)

lemma drop_blit_after [simp]:
  "off + length src \<le> n \<Longrightarrow> off + length src \<le> length dst \<Longrightarrow> drop n (blit dst off src) = drop n dst"
  by (simp add: blit_def drop_append min_def add.commute)

lemma blit_blit: "c + length s \<le> length d \<Longrightarrow> blit (blit d c s) (c + length s) t = blit d c (s @ t)"
  by (simp add: blit_def ac_simps)

lemma blit_same: "length s = length t \<Longrightarrow> off + length t \<le> length d \<Longrightarrow> blit (blit d off s) off t = blit d off t"
  by (simp add: blit_def)

lemma blit_update: "k < length d \<Longrightarrow> blit (d[k := x]) (Suc k) ys = blit d k (x # ys)"
  by (simp add: blit_def take_Suc_conv_app_nth)

subsection \<open>Segments of a list\<close>

definition seg :: "nat \<Rightarrow> nat \<Rightarrow> 'a list \<Rightarrow> 'a list" where
  "seg i j xs = take (j - i) (drop i xs)"

lemma length_seg: "length (seg i j xs) = min (j - i) (length xs - i)"
  by (simp add: seg_def)

lemma length_seg_le [simp]: "j \<le> length xs \<Longrightarrow> length (seg i j xs) = j - i"
  by (simp add: seg_def)

lemma seg_empty [simp]: "seg i i xs = []"
  by (simp add: seg_def)

lemma seg_split: "i \<le> k \<Longrightarrow> k \<le> j \<Longrightarrow> seg i j xs = seg i k xs @ seg k j xs"
proof -
  assume "i \<le> k" "k \<le> j"
  then have "j - i = (k - i) + (j - k)" by simp
  then have "take (j - i) (drop i xs) = take (k - i) (drop i xs) @ take (j - k) (drop (k - i) (drop i xs))"
    by (simp only: take_add)
  with \<open>i \<le> k\<close> show ?thesis by (simp add: seg_def add.commute)
qed

lemma drop_seg: "drop n (seg i j xs) = seg (i + n) j xs"
  by (simp add: seg_def drop_take add.commute)

lemma seg_append_left: "j \<le> length xs \<Longrightarrow> seg i j (xs @ ys) = seg i j xs"
  by (simp add: seg_def)

lemma seg_blit_before:
  "j \<le> off \<Longrightarrow> off \<le> length dst \<Longrightarrow> seg i j (blit dst off src) = seg i j dst"
proof -
  assume "j \<le> off" "off \<le> length dst"
  then have "take j (blit dst off src) = take j dst" by simp
  then show ?thesis by (simp add: seg_def flip: drop_take)
qed

lemma seg_blit_at:
  "off + length src \<le> length dst \<Longrightarrow> seg off (off + length src) (blit dst off src) = src"
  by (simp add: seg_def drop_blit_at)

lemma seg_blit_part:
  assumes "off + length src \<le> length dst" and "b \<le> length src"
  shows "seg (off + a) (off + b) (blit dst off src) = seg a b src"
proof -
  have "length (take off dst) = off" using assms by simp
  then have "drop (off + a) (blit dst off src) = drop a (src @ drop (off + length src) dst)"
    unfolding blit_def by simp
  then show ?thesis using assms(2) by (cases "a \<le> b") (simp_all add: seg_def)
qed

lemma seg_blit_after:
  "off + length src \<le> i \<Longrightarrow> off + length src \<le> length dst \<Longrightarrow>
   seg i j (blit dst off src) = seg i j dst"
  by (simp add: seg_def)

lemma seg_Cons: "i < j \<Longrightarrow> j \<le> length xs \<Longrightarrow> seg i j xs = xs ! i # seg (Suc i) j xs"
proof -
  assume "i < j" "j \<le> length xs"
  then have "drop i xs = xs ! i # drop (Suc i) xs" "j - i = Suc (j - Suc i)"
    by (simp_all add: Cons_nth_drop_Suc)
  then show ?thesis by (simp add: seg_def)
qed

lemma seg_eq_Nil [simp]: "j \<le> i \<Longrightarrow> seg i j xs = []"
  by (simp add: seg_def)

lemma blit_seg: "i \<le> j \<Longrightarrow> j \<le> length xs \<Longrightarrow> blit xs i (seg i j xs) = xs"
  by (simp add: blit_def seg_def) (metis append_take_drop_id drop_drop le_add_diff_inverse2)

subsection \<open>Vectors\<close>

definition vresize :: "'a \<Rightarrow> nat \<Rightarrow> 'a list \<Rightarrow> 'a list" where
  "vresize z n xs = take n xs @ replicate (n - length xs) z"

lemma length_vresize [simp]: "length (vresize z n xs) = n"
  by (simp add: vresize_def)

lemma seg_vresize: "j \<le> length xs \<Longrightarrow> j \<le> n \<Longrightarrow> seg i j (vresize z n xs) = seg i j xs"
proof -
  assume "j \<le> length xs" "j \<le> n"
  then have "take j (vresize z n xs) = take j xs" by (simp add: vresize_def)
  then show ?thesis by (simp add: seg_def flip: drop_take)
qed

subsection \<open>Decimal numerals, as \<open>printf\<close> writes them\<close>

definition digit_char :: "nat \<Rightarrow> char" where
  "digit_char d = char_of (48 + d)"

definition digit_val :: "char \<Rightarrow> nat" where
  "digit_val c = of_char c - 48"

fun decimal :: "nat \<Rightarrow> string" where
  "decimal n = (if n < 10 then [digit_char n] else decimal (n div 10) @ [digit_char (n mod 10)])"

definition decimal_int :: "int \<Rightarrow> string" where
  "decimal_int i = (if i < 0 then CHR ''-'' # decimal (nat (- i)) else decimal (nat i))"

definition undecimal :: "string \<Rightarrow> nat" where
  "undecimal s = foldl (\<lambda>n c. 10 * n + digit_val c) 0 s"

declare decimal.simps [simp del]

lemma of_char_digit: "d < 10 \<Longrightarrow> (of_char (digit_char d) :: nat) = 48 + d"
  unfolding digit_char_def by (subst of_char_of) simp

lemma digit_val_char [simp]: "d < 10 \<Longrightarrow> digit_val (digit_char d) = d"
  by (simp add: digit_val_def of_char_digit)

lemma undecimal_decimal [simp]: "undecimal (decimal n) = n"
proof (induction n rule: decimal.induct)
  case (1 n)
  show ?case
  proof (cases "n < 10")
    case True
    then show ?thesis by (simp add: decimal.simps [of n] undecimal_def)
  next
    case False
    with 1 have "undecimal (decimal (n div 10)) = n div 10" by simp
    with False show ?thesis by (simp add: decimal.simps [of n] undecimal_def)
  qed
qed

lemma decimal_inject [simp]: "decimal m = decimal n \<longleftrightarrow> m = n"
  by (metis undecimal_decimal)

lemma decimal_nonempty [simp]: "decimal n \<noteq> []"
  by (subst decimal.simps) simp

lemma decimal_digits: "c \<in> set (decimal n) \<Longrightarrow> \<exists>d<10. c = digit_char d"
proof (induction n rule: decimal.induct)
  case (1 n)
  have "\<exists>d<10. digit_char (n mod 10) = digit_char d" by (intro exI [of _ "n mod 10"]) simp
  with 1 show ?case by (cases "n < 10") (auto simp: decimal.simps [of n])
qed

lemma digit_not_minus: "d < 10 \<Longrightarrow> digit_char d \<noteq> CHR ''-''"
proof
  assume "d < 10" "digit_char d = CHR ''-''"
  then have "(48 + d :: nat) = of_char (CHR ''-'')" by (metis of_char_digit)
  then show False by simp
qed

lemma decimal_int_inject [simp]: "decimal_int i = decimal_int j \<longleftrightarrow> i = j"
proof -
  have "hd (decimal n) \<noteq> CHR ''-''" for n
    using decimal_digits [of "hd (decimal n)" n] digit_not_minus by (metis decimal_nonempty hd_in_set)
  then have "decimal n \<noteq> CHR ''-'' # s" for n s by (metis list.sel(1))
  then have n1: "decimal n \<noteq> CHR ''-'' # s" "CHR ''-'' # s \<noteq> decimal n" for n s by metis+
  show ?thesis using n1 by (auto simp: decimal_int_def)
qed

subsection \<open>Big-endian 32-bit integers\<close>

unbundle bit_operations_syntax

definition be32_enc :: "32 word \<Rightarrow> byte list" where
  "be32_enc w = [ucast (drop_bit 24 w), ucast (drop_bit 16 w), ucast (drop_bit 8 w), ucast w]"

fun be32_dec :: "byte list \<Rightarrow> 32 word" where
  "be32_dec [b0, b1, b2, b3] =
     push_bit 24 (ucast b0) OR push_bit 16 (ucast b1) OR push_bit 8 (ucast b2) OR ucast b3"
| "be32_dec bs = 0"

lemma be32_dec_enc [simp]: "be32_dec (be32_enc w) = w"
proof (rule bit_word_eqI)
  fix n assume "n < LENGTH(32)"
  then have "n < 8 \<or> 8 \<le> n \<and> n < 16 \<or> 16 \<le> n \<and> n < 24 \<or> 24 \<le> n" by arith
  with \<open>n < LENGTH(32)\<close> show "bit (be32_dec (be32_enc w)) n = bit w n"
    by (auto simp: be32_enc_def bit_simps)
qed

lemma no_high_bit: "\<not> bit (b :: byte) (8 + n)" "\<not> bit (b :: byte) (16 + n)" "\<not> bit (b :: byte) (24 + n)"
  using bit_imp_le_length [of b] by fastforce+

lemma be32_enc_dec4: "be32_enc (be32_dec [b0, b1, b2, b3]) = [b0, b1, b2, b3]"
  by (auto simp: be32_enc_def bit_simps no_high_bit intro!: bit_word_eqI)

lemma be32_enc_dec: "length bs = 4 \<Longrightarrow> be32_enc (be32_dec bs) = bs"
proof -
  assume "length bs = 4"
  then obtain b0 b1 b2 b3 where "bs = [b0, b1, b2, b3]" by (auto simp: length_Suc_conv numeral_eq_Suc)
  then show ?thesis by (simp only: be32_enc_dec4)
qed

lemma length_be32_enc [simp]: "length (be32_enc w) = 4"
  by (simp add: be32_enc_def)

end
