(* ===== verification/NetBuffer.thy ===== *)
theory NetBuffer
  imports Prelude
begin

text \<open>
  \<^verbatim>\<open>reactor/s13/Buffer.h\<close>, \<^verbatim>\<open>reactor/s13/Buffer.cc\<close>: the byte buffer of a TCP connection.

  The state is the byte vector with its two indices; a \<open>char*\<close> into the vector is the
  index it points to.  Sizes are \<open>nat\<close>: they are sizes and indices of a vector in
  memory, and \<open>buf_wf\<close>, which every operation keeps, is what rules out the
  wrap-around of the \<open>size_t\<close> subtractions.  An operation whose \<open>assert\<close> fails is
  \<open>None\<close>.  \<open>contents\<close> is the readable part, the abstraction of the buffer: the
  operations refine a queue of bytes (locale \<open>byte_queue\<close>, interpreted below).
\<close>

definition kCheapPrepend :: nat where "kCheapPrepend = 8"
definition kInitialSize :: nat where "kInitialSize = 1024"

record netbuf =
  bufferv :: "byte list"
  readerIndex :: nat
  writerIndex :: nat

definition Buffer_ctor :: netbuf where
  "Buffer_ctor = \<lparr>bufferv = replicate (kCheapPrepend + kInitialSize) 0,
     readerIndex = kCheapPrepend, writerIndex = kCheapPrepend\<rparr>"

definition buf_swap :: "netbuf \<Rightarrow> netbuf \<Rightarrow> netbuf \<times> netbuf" where
  "buf_swap b rhs =
     (b\<lparr>bufferv := bufferv rhs, readerIndex := readerIndex rhs, writerIndex := writerIndex rhs\<rparr>,
      rhs\<lparr>bufferv := bufferv b, readerIndex := readerIndex b, writerIndex := writerIndex b\<rparr>)"

definition readableBytes :: "netbuf \<Rightarrow> nat" where
  "readableBytes b = writerIndex b - readerIndex b"

definition writableBytes :: "netbuf \<Rightarrow> nat" where
  "writableBytes b = length (bufferv b) - writerIndex b"

definition prependableBytes :: "netbuf \<Rightarrow> nat" where
  "prependableBytes b = readerIndex b"

definition peek :: "netbuf \<Rightarrow> nat" where
  "peek b = readerIndex b"

definition beginWrite :: "netbuf \<Rightarrow> nat" where
  "beginWrite b = writerIndex b"

definition retrieve :: "netbuf \<Rightarrow> nat \<Rightarrow> netbuf option" where
  "retrieve b len = do {
     check (len \<le> readableBytes b);
     Some (b\<lparr>readerIndex := readerIndex b + len\<rparr>) }"

definition retrieveUntil :: "netbuf \<Rightarrow> nat \<Rightarrow> netbuf option" where
  "retrieveUntil b endp = do {
     check (peek b \<le> endp);
     check (endp \<le> beginWrite b);
     retrieve b (endp - peek b) }"

definition retrieveAll :: "netbuf \<Rightarrow> netbuf" where
  "retrieveAll b = b\<lparr>readerIndex := kCheapPrepend, writerIndex := kCheapPrepend\<rparr>"

definition retrieveAsString :: "netbuf \<Rightarrow> byte list \<times> netbuf" where
  "retrieveAsString b = (take (readableBytes b) (drop (peek b) (bufferv b)), retrieveAll b)"

definition makeSpace :: "netbuf \<Rightarrow> nat \<Rightarrow> netbuf option" where
  "makeSpace b len =
     (if writableBytes b + prependableBytes b < len + kCheapPrepend
      then Some (b\<lparr>bufferv := vresize 0 (writerIndex b + len) (bufferv b)\<rparr>)
      else do {
        check (kCheapPrepend < readerIndex b);
        let readable = readableBytes b;
        let b' = b\<lparr>bufferv := blit (bufferv b) kCheapPrepend
                               (seg (readerIndex b) (writerIndex b) (bufferv b)),
                    readerIndex := kCheapPrepend,
                    writerIndex := kCheapPrepend + readable\<rparr>;
        check (readable = readableBytes b');
        Some b' })"

definition ensureWritableBytes :: "netbuf \<Rightarrow> nat \<Rightarrow> netbuf option" where
  "ensureWritableBytes b len = do {
     b' \<leftarrow> (if writableBytes b < len then makeSpace b len else Some b);
     check (len \<le> writableBytes b');
     Some b' }"

definition hasWritten :: "netbuf \<Rightarrow> nat \<Rightarrow> netbuf" where
  "hasWritten b len = b\<lparr>writerIndex := writerIndex b + len\<rparr>"

definition buf_append :: "netbuf \<Rightarrow> byte list \<Rightarrow> netbuf option" where
  "buf_append b data = do {
     b' \<leftarrow> ensureWritableBytes b (length data);
     let b'' = b'\<lparr>bufferv := blit (bufferv b') (beginWrite b') data\<rparr>;
     Some (hasWritten b'' (length data)) }"

definition prepend :: "netbuf \<Rightarrow> byte list \<Rightarrow> netbuf option" where
  "prepend b data = do {
     check (length data \<le> prependableBytes b);
     let b' = b\<lparr>readerIndex := readerIndex b - length data\<rparr>;
     Some (b'\<lparr>bufferv := blit (bufferv b') (readerIndex b') data\<rparr>) }"

definition shrink :: "netbuf \<Rightarrow> nat \<Rightarrow> netbuf" where
  "shrink b reserve =
     (let buf = replicate (kCheapPrepend + readableBytes b + reserve) 0;
          buf' = blit buf kCheapPrepend (take (readableBytes b) (drop (peek b) (bufferv b)))
      in b\<lparr>bufferv := buf'\<rparr>)"

text \<open>
  \<open>readv(2)\<close> either fails with an \<open>errno\<close> or delivers bytes, the first of them into
  the writable part and the rest into \<open>extrabuf\<close>.
\<close>

datatype io_result = IoError int | IoBytes "byte list"

definition extrabuf_size :: nat where "extrabuf_size = 65536"

definition readFd :: "netbuf \<Rightarrow> io_result \<Rightarrow> (netbuf \<times> int \<times> int option) option" where
  "readFd b res =
     (case res of
        IoError e \<Rightarrow> Some (b, -1, Some e)
      | IoBytes bs \<Rightarrow>
          (let writable = writableBytes b;
               b1 = b\<lparr>bufferv := blit (bufferv b) (writerIndex b) (take writable bs)\<rparr>;
               extrabuf = drop writable bs;
               n = length bs
           in if n \<le> writable
              then Some (b1\<lparr>writerIndex := writerIndex b1 + n\<rparr>, int n, None)
              else do {
                b2 \<leftarrow> buf_append (b1\<lparr>writerIndex := length (bufferv b1)\<rparr>)
                                 (take (n - writable) extrabuf);
                Some (b2, int n, None) }))"

subsection \<open>Well-formedness and the readable contents\<close>

definition buf_wf :: "netbuf \<Rightarrow> bool" where
  "buf_wf b \<longleftrightarrow> readerIndex b \<le> writerIndex b \<and> writerIndex b \<le> length (bufferv b)
               \<and> kCheapPrepend \<le> length (bufferv b)"

definition contents :: "netbuf \<Rightarrow> byte list" where
  "contents b = seg (readerIndex b) (writerIndex b) (bufferv b)"

lemmas buf_size_defs = readableBytes_def writableBytes_def prependableBytes_def peek_def beginWrite_def

lemma buf_wf_ctor [simp]: "buf_wf Buffer_ctor"
  by (simp add: buf_wf_def Buffer_ctor_def kCheapPrepend_def)

lemma contents_ctor [simp]: "contents Buffer_ctor = []"
  by (simp add: contents_def Buffer_ctor_def)

lemma readableBytes_contents: "buf_wf b \<Longrightarrow> readableBytes b = length (contents b)"
  by (simp add: buf_wf_def readableBytes_def contents_def)

lemma retrieve_ok:
  assumes "buf_wf b" and "len \<le> readableBytes b"
  shows "\<exists>b'. retrieve b len = Some b' \<and> buf_wf b' \<and> contents b' = drop len (contents b)"
  using assms by (auto simp: retrieve_def readableBytes_def buf_wf_def contents_def drop_seg)

lemma retrieve_assert_fails: "readableBytes b < len \<Longrightarrow> retrieve b len = None"
  by (simp add: retrieve_def)

lemma retrieveUntil_eq:
  assumes "readerIndex b \<le> endp" and "endp \<le> writerIndex b"
  shows "retrieveUntil b endp = retrieve b (endp - readerIndex b)"
  using assms by (simp add: retrieveUntil_def peek_def beginWrite_def)

lemma retrieveAll_ok: "buf_wf b \<Longrightarrow> buf_wf (retrieveAll b) \<and> contents (retrieveAll b) = []"
  by (simp add: retrieveAll_def buf_wf_def contents_def)

lemma retrieveAsString_ok:
  "buf_wf b \<Longrightarrow> fst (retrieveAsString b) = contents b \<and> snd (retrieveAsString b) = retrieveAll b"
  by (simp add: retrieveAsString_def contents_def seg_def readableBytes_def peek_def)

text \<open>
  \<open>makeSpace\<close> is only called when the writable part is too small; its assertion
  \<open>kCheapPrepend < readerIndex\<close> then holds, the bytes survive and there is room.
\<close>

lemma makeSpace_ok:
  assumes wf: "buf_wf b" and small: "writableBytes b < len"
  shows "\<exists>b'. makeSpace b len = Some b' \<and> buf_wf b' \<and> contents b' = contents b \<and> len \<le> writableBytes b'"
proof (cases "writableBytes b + prependableBytes b < len + kCheapPrepend")
  case True
  with wf small show ?thesis
    by (auto simp: makeSpace_def buf_wf_def contents_def buf_size_defs seg_vresize)
next
  case False
  with small have less: "kCheapPrepend < readerIndex b"
    by (simp add: buf_size_defs)
  let ?s = "seg (readerIndex b) (writerIndex b) (bufferv b)"
  from wf have len_s: "length ?s = writerIndex b - readerIndex b"
    by (simp add: buf_wf_def)
  from wf less have fits: "kCheapPrepend + length ?s \<le> length (bufferv b)"
    by (auto simp: len_s buf_wf_def)
  from False have room: "len + kCheapPrepend + length ?s \<le> length (bufferv b)"
    using wf by (auto simp: len_s buf_size_defs buf_wf_def)
  have "seg kCheapPrepend (kCheapPrepend + length ?s) (blit (bufferv b) kCheapPrepend ?s) = ?s"
    by (rule seg_blit_at) (rule fits)
  then show ?thesis
    using False less fits room
    by (auto simp: makeSpace_def buf_wf_def contents_def buf_size_defs len_s Let_def)
qed

lemma ensureWritableBytes_ok:
  assumes "buf_wf b"
  shows "\<exists>b'. ensureWritableBytes b len = Some b' \<and> buf_wf b' \<and> contents b' = contents b
              \<and> len \<le> writableBytes b'"
proof (cases "writableBytes b < len")
  case True
  with makeSpace_ok [OF assms] show ?thesis
    by (fastforce simp: ensureWritableBytes_def)
next
  case False
  with assms show ?thesis by (simp add: ensureWritableBytes_def)
qed

lemma write_at_end:
  assumes "buf_wf b" and "length data \<le> writableBytes b"
  shows "buf_wf (hasWritten (b\<lparr>bufferv := blit (bufferv b) (beginWrite b) data\<rparr>) (length data))"
    and "contents (hasWritten (b\<lparr>bufferv := blit (bufferv b) (beginWrite b) data\<rparr>) (length data))
         = contents b @ data"
proof -
  from assms have le: "writerIndex b + length data \<le> length (bufferv b)"
    by (auto simp: buf_wf_def writableBytes_def)
  show "buf_wf (hasWritten (b\<lparr>bufferv := blit (bufferv b) (beginWrite b) data\<rparr>) (length data))"
    using assms le by (simp add: buf_wf_def hasWritten_def beginWrite_def)
  have "seg (readerIndex b) (writerIndex b + length data) (blit (bufferv b) (writerIndex b) data)
        = seg (readerIndex b) (writerIndex b) (blit (bufferv b) (writerIndex b) data)
          @ seg (writerIndex b) (writerIndex b + length data) (blit (bufferv b) (writerIndex b) data)"
    using assms(1) by (intro seg_split) (simp_all add: buf_wf_def)
  also have "\<dots> = contents b @ data"
    using le by (simp add: seg_blit_before seg_blit_at contents_def)
  finally show "contents (hasWritten (b\<lparr>bufferv := blit (bufferv b) (beginWrite b) data\<rparr>) (length data))
         = contents b @ data"
    by (simp add: contents_def hasWritten_def beginWrite_def)
qed

lemma buf_append_ok:
  assumes "buf_wf b"
  shows "\<exists>b'. buf_append b data = Some b' \<and> buf_wf b' \<and> contents b' = contents b @ data"
proof -
  from ensureWritableBytes_ok [OF assms, of "length data"] obtain b1
    where b1: "ensureWritableBytes b (length data) = Some b1" "buf_wf b1"
      "contents b1 = contents b" "length data \<le> writableBytes b1"
    by blast
  from write_at_end [OF b1(2,4)] b1(1,3) show ?thesis
    by (simp add: buf_append_def Let_def)
qed

lemma prepend_ok:
  assumes "buf_wf b" and "length data \<le> prependableBytes b"
  shows "\<exists>b'. prepend b data = Some b' \<and> buf_wf b' \<and> contents b' = data @ contents b"
proof -
  let ?r = "readerIndex b - length data"
  from assms have le: "length data \<le> readerIndex b" and r: "?r + length data = readerIndex b"
    by (simp_all add: prependableBytes_def)
  have fits: "?r + length data \<le> length (bufferv b)"
    using assms by (auto simp: r buf_wf_def)
  have "seg ?r (writerIndex b) (blit (bufferv b) ?r data)
        = seg ?r (readerIndex b) (blit (bufferv b) ?r data)
          @ seg (readerIndex b) (writerIndex b) (blit (bufferv b) ?r data)"
    using assms(1) le by (intro seg_split) (auto simp: buf_wf_def)
  also have "seg ?r (readerIndex b) (blit (bufferv b) ?r data) = data"
    using seg_blit_at [OF fits] by (simp add: r)
  also have "seg (readerIndex b) (writerIndex b) (blit (bufferv b) ?r data) = contents b"
    using seg_blit_after [OF _ fits, of "readerIndex b" "writerIndex b"] by (simp add: r contents_def)
  finally show ?thesis
    using assms fits by (auto simp: prepend_def contents_def buf_wf_def Let_def)
qed

text \<open>
  Whatever \<open>readv\<close> delivers, at most the two \<open>iovec\<close>s full, ends up at the end of the
  readable part: the overflow into \<open>extrabuf\<close> is invisible to the reader.
\<close>

lemma readFd_ok:
  assumes "buf_wf b"
  shows "\<exists>b'. readFd b (IoBytes bs) = Some (b', int (length bs), None) \<and> buf_wf b'
              \<and> contents b' = contents b @ bs"
proof (cases "length bs \<le> writableBytes b")
  case True
  with write_at_end [OF assms True] show ?thesis
    by (simp add: readFd_def hasWritten_def beginWrite_def Let_def)
next
  case False
  let ?d = "take (writableBytes b) bs" and ?x = "drop (writableBytes b) bs"
  let ?b1 = "hasWritten (b\<lparr>bufferv := blit (bufferv b) (beginWrite b) ?d\<rparr>) (length ?d)"
  have len: "length ?d = writableBytes b" using False by simp
  have wf1: "buf_wf ?b1" and c1: "contents ?b1 = contents b @ ?d"
    using write_at_end [OF assms, of ?d] len by auto
  have eq: "b\<lparr>bufferv := blit (bufferv b) (writerIndex b) ?d,
             writerIndex := length (blit (bufferv b) (writerIndex b) ?d)\<rparr> = ?b1"
    using assms len by (simp add: hasWritten_def beginWrite_def buf_wf_def writableBytes_def)
  from buf_append_ok [OF wf1, of ?x] obtain b2
    where "buf_append ?b1 ?x = Some b2" "buf_wf b2" "contents b2 = contents ?b1 @ ?x"
    by blast
  with False c1 eq show ?thesis
    by (simp add: readFd_def Let_def)
qed

text \<open>
  \<open>shrink\<close> moves the readable bytes to \<open>kCheapPrepend\<close> but leaves the two indices
  alone.  When the reader has consumed \<open>k\<close> bytes beyond \<open>kCheapPrepend\<close>, the
  first \<open>k\<close> readable bytes are lost and as many zero bytes appear at the end.
\<close>

lemma contents_shrink:
  assumes "buf_wf b" and "kCheapPrepend \<le> readerIndex b"
  shows "contents (shrink b reserve)
         = take (readableBytes b) (drop (readerIndex b - kCheapPrepend) (contents b @ replicate reserve 0))"
proof -
  let ?c = "contents b"
  have "bufferv (shrink b reserve) = replicate kCheapPrepend 0 @ ?c @ replicate reserve 0"
    using readableBytes_contents [OF assms(1)]
    by (simp add: shrink_def Let_def blit_def contents_def seg_def readableBytes_def peek_def)
  moreover have "readerIndex (shrink b reserve) = readerIndex b" "writerIndex (shrink b reserve) = writerIndex b"
    by (simp_all add: shrink_def Let_def)
  ultimately have "contents (shrink b reserve)
        = take (writerIndex b - readerIndex b)
            (drop (readerIndex b) (replicate kCheapPrepend 0 @ ?c @ replicate reserve 0))"
    by (simp add: contents_def seg_def)
  with assms(2) show ?thesis
    by (simp add: readableBytes_def)
qed

lemma contents_shrink_fresh:
  "buf_wf b \<Longrightarrow> readerIndex b = kCheapPrepend \<Longrightarrow> contents (shrink b reserve) = contents b"
  by (simp add: contents_shrink readableBytes_contents)

subsection \<open>The interface: a queue of bytes\<close>

text \<open>
  What a connection relies on: appended bytes come out in order, a retrieval within the
  readable length succeeds, and the length is the number of readable bytes.
\<close>

datatype bq_op = Put "byte list" | Get nat

fun bq_run :: "('q \<Rightarrow> byte list) \<Rightarrow> ('q \<Rightarrow> byte list \<Rightarrow> 'q option) \<Rightarrow> ('q \<Rightarrow> nat \<Rightarrow> 'q option)
     \<Rightarrow> 'q \<Rightarrow> bq_op list \<Rightarrow> (byte list \<times> 'q) option" where
  "bq_run obs put get q [] = Some ([], q)"
| "bq_run obs put get q (Put bs # ops) = do { q' \<leftarrow> put q bs; bq_run obs put get q' ops }"
| "bq_run obs put get q (Get n # ops) = do {
     q' \<leftarrow> get q n;
     (out, q'') \<leftarrow> bq_run obs put get q' ops;
     Some (take n (obs q) @ out, q'') }"

fun bq_puts :: "bq_op list \<Rightarrow> byte list" where
  "bq_puts [] = []"
| "bq_puts (Put bs # ops) = bs @ bq_puts ops"
| "bq_puts (Get n # ops) = bq_puts ops"

fun bq_legal :: "nat \<Rightarrow> bq_op list \<Rightarrow> bool" where
  "bq_legal avail [] = True"
| "bq_legal avail (Put bs # ops) = bq_legal (avail + length bs) ops"
| "bq_legal avail (Get n # ops) = (n \<le> avail \<and> bq_legal (avail - n) ops)"

locale byte_queue =
  fixes inv :: "'q \<Rightarrow> bool"
    and obs :: "'q \<Rightarrow> byte list"
    and size_of :: "'q \<Rightarrow> nat"
    and put :: "'q \<Rightarrow> byte list \<Rightarrow> 'q option"
    and get :: "'q \<Rightarrow> nat \<Rightarrow> 'q option"
  assumes size_of: "inv q \<Longrightarrow> size_of q = length (obs q)"
    and put_law: "inv q \<Longrightarrow> \<exists>q'. put q bs = Some q' \<and> inv q' \<and> obs q' = obs q @ bs"
    and get_law: "inv q \<Longrightarrow> n \<le> size_of q \<Longrightarrow>
                   \<exists>q'. get q n = Some q' \<and> inv q' \<and> obs q' = drop n (obs q)"
begin

lemma run_conserves:
  "inv q \<Longrightarrow> bq_legal (length (obs q)) ops \<Longrightarrow>
   \<exists>out q'. bq_run obs put get q ops = Some (out, q') \<and> inv q' \<and> out @ obs q' = obs q @ bq_puts ops"
proof (induction ops arbitrary: q)
  case Nil
  then show ?case by simp
next
  case (Cons op ops)
  show ?case
  proof (cases op)
    case (Put bs)
    from put_law [OF Cons.prems(1), of bs] obtain q1
      where q1: "put q bs = Some q1" "inv q1" "obs q1 = obs q @ bs" by blast
    from Cons.IH [OF q1(2)] Cons.prems(2) Put q1 show ?thesis by simp
  next
    case (Get n)
    with Cons.prems have "n \<le> size_of q" by (simp add: size_of)
    from get_law [OF Cons.prems(1) this] obtain q1
      where q1: "get q n = Some q1" "inv q1" "obs q1 = drop n (obs q)" by blast
    with Cons.prems Get obtain out q2
      where "bq_run obs put get q1 ops = Some (out, q2)" "inv q2" "out @ obs q2 = obs q1 @ bq_puts ops"
      using Cons.IH [OF q1(2)] by auto
    with q1 Get show ?thesis by simp
  qed
qed

end

interpretation netq: byte_queue buf_wf contents readableBytes buf_append retrieve
  by unfold_locales (simp_all add: readableBytes_contents buf_append_ok retrieve_ok)

subsection \<open>Properties\<close>

text \<open>
  Claim C1. A connection's buffer is a byte queue: for every sequence of \<open>append\<close> and
  \<open>retrieve\<close> calls on a fresh buffer in which no retrieval asks for more than what is
  readable, no assertion fails and the bytes retrieved, followed by the bytes still
  readable, are exactly the bytes appended, in order.
\<close>

theorem buffer_stream:
  assumes "bq_legal 0 ops"
  shows "\<exists>out b. bq_run contents buf_append retrieve Buffer_ctor ops = Some (out, b)
               \<and> buf_wf b \<and> out @ contents b = bq_puts ops"
  using netq.run_conserves [OF buf_wf_ctor, of ops] assms by simp

theorem buffer_stream_witness:
  "bq_legal 0 [Put [1, 2, 3], Get 2, Put [4], Get 2]
   \<and> (\<exists>out b. bq_run contents buf_append retrieve Buffer_ctor [Put [1, 2, 3], Get 2, Put [4], Get 2]
        = Some (out, b) \<and> buf_wf b \<and> out @ contents b = [1, 2, 3, 4])"
  using buffer_stream [of "[Put [1, 2, 3], Get 2, Put [4], Get 2]"] by simp

text \<open>
  \<open>Buffer::readFd\<close> on a well-formed buffer never fails an assertion, returns
  the number of bytes that \<open>readv\<close> delivered and puts exactly these bytes behind the
  readable ones, also when they overflow into the stack buffer and the vector has to
  grow; on an error nothing changes and \<open>errno\<close> is saved.
\<close>

lemma readFd_refines:
  assumes "buf_wf b"
  shows "(\<exists>b'. readFd b (IoBytes bs) = Some (b', int (length bs), None) \<and> buf_wf b'
               \<and> contents b' = contents b @ bs)
         \<and> readFd b (IoError e) = Some (b, -1, Some e)"
  using readFd_ok [OF assms, of bs] by (simp add: readFd_def)

text \<open>
  \<open>Buffer::shrink\<close> re-packs the readable bytes at \<open>kCheapPrepend\<close> without
  resetting the reader and writer index: with \<open>k = readerIndex - kCheapPrepend\<close> bytes
  already consumed, the buffer afterwards reads as the old contents without its first
  \<open>k\<close> bytes, followed by zero bytes of the reserve; only for \<open>k = 0\<close> are the
  contents kept.
\<close>

lemma shrink_drops_consumed_prefix:
  assumes "buf_wf b" and "kCheapPrepend \<le> readerIndex b"
  shows "contents (shrink b reserve)
         = take (readableBytes b) (drop (readerIndex b - kCheapPrepend) (contents b @ replicate reserve 0))
         \<and> (readerIndex b = kCheapPrepend \<longrightarrow> contents (shrink b reserve) = contents b)"
  using contents_shrink [OF assms] contents_shrink_fresh [OF assms(1)] by blast

end
