(* ===== verification/Timers.thy ===== *)
theory Timers
  imports Prelude "HOL-Library.Product_Lexorder" "HOL-Library.Signed_Division"
begin

text \<open>
  \<^verbatim>\<open>datetime/Timestamp.h\<close>, \<^verbatim>\<open>reactor/s13/Timer.h\<close>, \<^verbatim>\<open>Timer.cc\<close>, \<^verbatim>\<open>TimerId.h\<close> and
  \<^verbatim>\<open>TimerQueue.cc\<close>: the timers of an event loop.

  A \<open>Timestamp\<close> is its microseconds since the epoch.  A \<open>double\<close> number of seconds
  enters this code in two ways only, \<open>interval > 0.0\<close> and
  \<open>static_cast<int64_t>(seconds * kMicroSecondsPerSecond)\<close>; a value of type \<open>seconds\<close>
  holds both results.  \<open>Timer*\<close> is an address into the heap \<open>theap\<close>; following the
  pointer of a deleted timer is \<open>None\<close>, like a failed \<open>assert\<close>.  The allocator behind
  \<open>new Timer\<close> is the parameter \<open>alloc\<close> (an address may be handed out again after
  \<open>delete\<close>), the user code of a callback is the parameter \<open>beh\<close>: the list of
  \<open>runAt\<close>/\<open>cancel\<close> calls it makes on the queue.  The two \<open>std::set\<close>s are sorted
  lists without duplicates.  Readings of the clock are arguments.
\<close>

type_synonym timestamp = int

definition kMicroSecondsPerSecond :: int where "kMicroSecondsPerSecond = 1000 * 1000"

record seconds =
  is_positive :: bool
  micros :: int

definition ts_invalid :: timestamp where "ts_invalid = 0"

definition ts_valid :: "timestamp \<Rightarrow> bool" where
  "ts_valid t \<longleftrightarrow> t > 0"

definition addTime :: "timestamp \<Rightarrow> seconds \<Rightarrow> timestamp" where
  "addTime t s = t + micros s"

subsection \<open>Timer\<close>

record timer =
  callback :: nat
  expiration :: timestamp
  interval :: seconds
  repeat :: bool
  sequence :: int

definition Timer_ctor :: "nat \<Rightarrow> timestamp \<Rightarrow> seconds \<Rightarrow> int \<Rightarrow> timer" where
  "Timer_ctor cb when intv numCreated =
     \<lparr>callback = cb, expiration = when, interval = intv, repeat = is_positive intv,
      sequence = numCreated + 1\<rparr>"

definition Timer_restart :: "timer \<Rightarrow> timestamp \<Rightarrow> timer" where
  "Timer_restart t now =
     (if repeat t then t\<lparr>expiration := addTime now (interval t)\<rparr>
      else t\<lparr>expiration := ts_invalid\<rparr>)"

record timer_id =
  timer_ptr :: addr
  timer_seq :: int

subsection \<open>TimerQueue\<close>

record timer_queue =
  theap :: "addr \<rightharpoonup> timer"
  numCreated :: int                     \<comment> \<open>\<open>Timer::s_numCreated_\<close>\<close>
  timers :: "(timestamp \<times> addr) list"
  activeTimers :: "(addr \<times> int) list"
  callingExpiredTimers :: bool
  cancelingTimers :: "(addr \<times> int) list"
  timerfd :: "(timestamp \<times> int \<times> int) option"  \<comment> \<open>when it was armed, with which \<open>timespec\<close>\<close>

definition TimerQueue_ctor :: timer_queue where
  "TimerQueue_ctor = \<lparr>theap = Map.empty, numCreated = 0, timers = [], activeTimers = [],
     callingExpiredTimers = False, cancelingTimers = [], timerfd = None\<rparr>"

definition howMuchTimeFromNow :: "timestamp \<Rightarrow> timestamp \<Rightarrow> int \<times> int" where
  "howMuchTimeFromNow when now =
     (let microseconds = when - now;
          microseconds = (if microseconds < 100 then 100 else microseconds)
      in (microseconds sdiv kMicroSecondsPerSecond,
          (microseconds smod kMicroSecondsPerSecond) * 1000))"

text \<open>The timerfd is one-shot: reading its expiration leaves it disarmed.\<close>

definition readTimerfd :: "timer_queue \<Rightarrow> timer_queue" where
  "readTimerfd q = q\<lparr>timerfd := None\<rparr>"

definition resetTimerfd :: "timer_queue \<Rightarrow> timestamp \<Rightarrow> timestamp \<Rightarrow> timer_queue" where
  "resetTimerfd q expir now = q\<lparr>timerfd := Some (now, howMuchTimeFromNow expir now)\<rparr>"

definition tq_insert :: "timer_queue \<Rightarrow> addr \<Rightarrow> (bool \<times> timer_queue) option" where
  "tq_insert q a = do {
     check (length (timers q) = length (activeTimers q));
     t \<leftarrow> theap q a;
     let when = expiration t;
     let earliestChanged = (timers q = [] \<or> when < fst (hd (timers q)));
     check ((when, a) \<notin> set (timers q));
     let q1 = q\<lparr>timers := insort (when, a) (timers q)\<rparr>;
     check ((a, sequence t) \<notin> set (activeTimers q1));
     let q2 = q1\<lparr>activeTimers := insort (a, sequence t) (activeTimers q1)\<rparr>;
     check (length (timers q2) = length (activeTimers q2));
     Some (earliestChanged, q2) }"

definition addTimerInLoop :: "timer_queue \<Rightarrow> addr \<Rightarrow> timestamp \<Rightarrow> timer_queue option" where
  "addTimerInLoop q a now = do {
     (earliestChanged, q') \<leftarrow> tq_insert q a;
     t \<leftarrow> theap q' a;
     Some (if earliestChanged then resetTimerfd q' (expiration t) now else q') }"

text \<open>\<open>addTimer\<close> and \<open>cancel\<close> called in the loop thread, where \<open>runInLoop\<close> runs the functor at once.\<close>

definition addTimer :: "((addr \<rightharpoonup> timer) \<Rightarrow> addr) \<Rightarrow> timer_queue \<Rightarrow> nat \<Rightarrow> timestamp \<Rightarrow> seconds
    \<Rightarrow> timestamp \<Rightarrow> (timer_id \<times> timer_queue) option" where
  "addTimer alloc q cb when intv now = do {
     let a = alloc (theap q);
     let t = Timer_ctor cb when intv (numCreated q);
     let q1 = q\<lparr>theap := (theap q)(a \<mapsto> t), numCreated := numCreated q + 1\<rparr>;
     q2 \<leftarrow> addTimerInLoop q1 a now;
     Some (\<lparr>timer_ptr = a, timer_seq = sequence t\<rparr>, q2) }"

definition cancelInLoop :: "timer_queue \<Rightarrow> timer_id \<Rightarrow> timer_queue option" where
  "cancelInLoop q tid = do {
     check (length (timers q) = length (activeTimers q));
     let tm = (timer_ptr tid, timer_seq tid);
     q' \<leftarrow> (if tm \<in> set (activeTimers q)
            then do {
              t \<leftarrow> theap q (fst tm);
              check ((expiration t, fst tm) \<in> set (timers q));
              Some (q\<lparr>timers := remove1 (expiration t, fst tm) (timers q),
                      theap := (theap q)(fst tm := None),
                      activeTimers := remove1 tm (activeTimers q)\<rparr>) }
            else if callingExpiredTimers q
            then Some (q\<lparr>cancelingTimers :=
                          (if tm \<in> set (cancelingTimers q) then cancelingTimers q
                           else insort tm (cancelingTimers q))\<rparr>)
            else Some q);
     check (length (timers q') = length (activeTimers q'));
     Some q' }"

fun eraseActive :: "timer_queue \<Rightarrow> (timestamp \<times> addr) list \<Rightarrow> timer_queue option" where
  "eraseActive q [] = Some q"
| "eraseActive q (e # es) = do {
     t \<leftarrow> theap q (snd e);
     check ((snd e, sequence t) \<in> set (activeTimers q));
     eraseActive (q\<lparr>activeTimers := remove1 (snd e, sequence t) (activeTimers q)\<rparr>) es }"

text \<open>
  The sentry of \<open>lower_bound\<close> is \<open>(now, UINTPTR_MAX)\<close>: the largest pointer value, at
  which no \<open>Timer\<close> can live.  An entry is below it iff it expires at \<open>now\<close> or earlier.
\<close>

definition before_sentry :: "timestamp \<Rightarrow> timestamp \<times> addr \<Rightarrow> bool" where
  "before_sentry now e \<longleftrightarrow> fst e \<le> now"

definition getExpired :: "timer_queue \<Rightarrow> timestamp \<Rightarrow> ((timestamp \<times> addr) list \<times> timer_queue) option" where
  "getExpired q now = do {
     check (length (timers q) = length (activeTimers q));
     let expired = takeWhile (before_sentry now) (timers q);
     let rest = dropWhile (before_sentry now) (timers q);
     check (rest = [] \<or> now < fst (hd rest));
     q' \<leftarrow> eraseActive (q\<lparr>timers := rest\<rparr>) expired;
     check (length (timers q') = length (activeTimers q'));
     Some (expired, q') }"

fun resetLoop :: "timer_queue \<Rightarrow> (timestamp \<times> addr) list \<Rightarrow> timestamp \<Rightarrow> timer_queue option" where
  "resetLoop q [] now = Some q"
| "resetLoop q (e # es) now = do {
     t \<leftarrow> theap q (snd e);
     q' \<leftarrow> (if repeat t \<and> (snd e, sequence t) \<notin> set (cancelingTimers q)
            then do {
              (_, q') \<leftarrow> tq_insert (q\<lparr>theap := (theap q)(snd e \<mapsto> Timer_restart t now)\<rparr>) (snd e);
              Some q' }
            else Some (q\<lparr>theap := (theap q)(snd e := None)\<rparr>));
     resetLoop q' es now }"

definition tq_reset :: "timer_queue \<Rightarrow> (timestamp \<times> addr) list \<Rightarrow> timestamp \<Rightarrow> timestamp \<Rightarrow> timer_queue option" where
  "tq_reset q expired now clock = do {
     q' \<leftarrow> resetLoop q expired now;
     nextExpire \<leftarrow> (if timers q' \<noteq> []
                    then do { t \<leftarrow> theap q' (snd (hd (timers q'))); Some (expiration t) }
                    else Some ts_invalid);
     Some (if ts_valid nextExpire then resetTimerfd q' nextExpire clock else q') }"

datatype tq_action = RunAt nat timestamp seconds timestamp | CancelTimer timer_id

fun do_actions :: "((addr \<rightharpoonup> timer) \<Rightarrow> addr) \<Rightarrow> timer_queue \<Rightarrow> tq_action list \<Rightarrow> timer_queue option" where
  "do_actions alloc q [] = Some q"
| "do_actions alloc q (RunAt cb when intv clock # as) = do {
     (tid, q') \<leftarrow> addTimer alloc q cb when intv clock;
     do_actions alloc q' as }"
| "do_actions alloc q (CancelTimer tid # as) = do {
     q' \<leftarrow> cancelInLoop q tid;
     do_actions alloc q' as }"

fun runCallbacks :: "((addr \<rightharpoonup> timer) \<Rightarrow> addr) \<Rightarrow> (nat \<Rightarrow> tq_action list) \<Rightarrow> timer_queue
     \<Rightarrow> (timestamp \<times> addr) list \<Rightarrow> timer_queue option" where
  "runCallbacks alloc beh q [] = Some q"
| "runCallbacks alloc beh q (e # es) = do {
     t \<leftarrow> theap q (snd e);
     q' \<leftarrow> do_actions alloc q (beh (callback t));
     runCallbacks alloc beh q' es }"

definition tq_handleRead :: "((addr \<rightharpoonup> timer) \<Rightarrow> addr) \<Rightarrow> (nat \<Rightarrow> tq_action list) \<Rightarrow> timer_queue
     \<Rightarrow> timestamp \<Rightarrow> timestamp \<Rightarrow> ((timestamp \<times> addr) list \<times> timer_queue) option" where
  "tq_handleRead alloc beh q now clock = do {
     (expired, q1) \<leftarrow> getExpired (readTimerfd q) now;
     let q2 = q1\<lparr>callingExpiredTimers := True, cancelingTimers := []\<rparr>;
     q3 \<leftarrow> runCallbacks alloc beh q2 expired;
     let q4 = q3\<lparr>callingExpiredTimers := False\<rparr>;
     q5 \<leftarrow> tq_reset q4 expired now clock;
     Some (expired, q5) }"

subsection \<open>Invariant\<close>

text \<open>
  \<open>X\<close> is the set of timers in flight: expired, out of both sets, not yet deleted or
  re-inserted.  The two sets hold exactly the other timers of the heap, under their
  expiration and under their sequence number.
\<close>

definition tq_inv :: "addr set \<Rightarrow> timer_queue \<Rightarrow> bool" where
  "tq_inv X q \<longleftrightarrow> sorted (timers q) \<and> distinct (timers q) \<and> distinct (activeTimers q)
     \<and> X \<subseteq> dom (theap q)
     \<and> (\<forall>e a. (e, a) \<in> set (timers q) \<longleftrightarrow> a \<notin> X \<and> (\<exists>t. theap q a = Some t \<and> expiration t = e))
     \<and> (\<forall>a s. (a, s) \<in> set (activeTimers q) \<longleftrightarrow> a \<notin> X \<and> (\<exists>t. theap q a = Some t \<and> sequence t = s))
     \<and> (\<forall>a t. theap q a = Some t \<longrightarrow> sequence t \<le> numCreated q)
     \<and> (\<forall>a b t u. theap q a = Some t \<longrightarrow> theap q b = Some u \<longrightarrow> sequence t = sequence u \<longrightarrow> a = b)
     \<and> finite (dom (theap q))"

lemma tq_inv_ctor [simp]: "tq_inv {} TimerQueue_ctor"
  by (simp add: tq_inv_def TimerQueue_ctor_def)

lemma tq_invD:
  assumes "tq_inv X q"
  shows tq_inv_sorted: "sorted (timers q)" and tq_inv_distinct: "distinct (timers q)"
    and tq_inv_distinct_active: "distinct (activeTimers q)"
    and tq_inv_X: "X \<subseteq> dom (theap q)"
    and tq_inv_timers: "(e, a) \<in> set (timers q) \<longleftrightarrow> a \<notin> X \<and> (\<exists>t. theap q a = Some t \<and> expiration t = e)"
    and tq_inv_active: "(a, s) \<in> set (activeTimers q) \<longleftrightarrow> a \<notin> X \<and> (\<exists>t. theap q a = Some t \<and> sequence t = s)"
    and tq_inv_seq: "theap q a = Some t \<Longrightarrow> sequence t \<le> numCreated q"
    and tq_inv_inj: "theap q a = Some t \<Longrightarrow> theap q b = Some u \<Longrightarrow> sequence t = sequence u \<Longrightarrow> a = b"
    and tq_inv_finite: "finite (dom (theap q))"
  using assms unfolding tq_inv_def by blast+

lemma distinct_map_functional:
  assumes "distinct xs" and "\<And>x y. x \<in> set xs \<Longrightarrow> y \<in> set xs \<Longrightarrow> f x = f y \<Longrightarrow> x = y"
  shows "distinct (map f xs)"
  using assms by (simp add: distinct_map inj_on_def)

lemma snd_image_Collect: "snd ` S = {a. \<exists>e. (e, a) \<in> S}"
  by force

lemma fst_image_Collect: "fst ` S = {a. \<exists>e. (a, e) \<in> S}"
  by force

lemma tq_inv_length:
  assumes inv: "tq_inv X q"
  shows "length (timers q) = length (activeTimers q)"
proof -
  have d1: "distinct (map snd (timers q))"
    by (rule distinct_map_functional [OF tq_inv_distinct [OF inv]])
       (auto simp: tq_inv_timers [OF inv])
  have d2: "distinct (map fst (activeTimers q))"
    by (rule distinct_map_functional [OF tq_inv_distinct_active [OF inv]])
       (auto simp: tq_inv_active [OF inv])
  have "set (map snd (timers q)) = dom (theap q) - X"
    by (auto simp: snd_image_Collect tq_inv_timers [OF inv])
  moreover have "set (map fst (activeTimers q)) = dom (theap q) - X"
    by (auto simp: fst_image_Collect tq_inv_active [OF inv])
  ultimately have "length (map snd (timers q)) = length (map fst (activeTimers q))"
    using distinct_card [OF d1] distinct_card [OF d2] by simp
  then show ?thesis by simp
qed

definition linked :: "addr \<Rightarrow> timer \<Rightarrow> timer_queue \<Rightarrow> timer_queue" where
  "linked a t q = q\<lparr>timers := insort (expiration t, a) (timers q),
                    activeTimers := insort (a, sequence t) (activeTimers q)\<rparr>"

lemma linked_fields [simp]:
  "theap (linked a t q) = theap q" "numCreated (linked a t q) = numCreated q"
  "callingExpiredTimers (linked a t q) = callingExpiredTimers q"
  "cancelingTimers (linked a t q) = cancelingTimers q" "timerfd (linked a t q) = timerfd q"
  "set (timers (linked a t q)) = insert (expiration t, a) (set (timers q))"
  "set (activeTimers (linked a t q)) = insert (a, sequence t) (set (activeTimers q))"
  by (simp_all add: linked_def set_insort_key)

lemma tq_insert_ok:
  assumes inv: "tq_inv (insert a X) q" and "a \<notin> X" and t: "theap q a = Some t"
  shows "tq_insert q a = Some (timers q = [] \<or> expiration t < fst (hd (timers q)), linked a t q)"
    and "tq_inv X (linked a t q)"
proof -
  have n1: "(expiration t, a) \<notin> set (timers q)" and n2: "(a, sequence t) \<notin> set (activeTimers q)"
    by (auto simp: tq_inv_timers [OF inv] tq_inv_active [OF inv])
  then show "tq_insert q a = Some (timers q = [] \<or> expiration t < fst (hd (timers q)), linked a t q)"
    using tq_inv_length [OF inv] t by (simp add: tq_insert_def linked_def Let_def)
  show "tq_inv X (linked a t q)"
    unfolding tq_inv_def
  proof (intro conjI)
    show "sorted (timers (linked a t q))" "distinct (timers (linked a t q))"
      "distinct (activeTimers (linked a t q))"
      using tq_invD(1-3) [OF inv] n1 n2 by (simp_all add: linked_def sorted_insort distinct_insort)
    show "X \<subseteq> dom (theap (linked a t q))" using tq_inv_X [OF inv] by simp
    show "\<forall>e b. (e, b) \<in> set (timers (linked a t q)) \<longleftrightarrow>
            b \<notin> X \<and> (\<exists>u. theap (linked a t q) b = Some u \<and> expiration u = e)"
      using assms(2) t by (auto simp: tq_inv_timers [OF inv])
    show "\<forall>b s. (b, s) \<in> set (activeTimers (linked a t q)) \<longleftrightarrow>
            b \<notin> X \<and> (\<exists>u. theap (linked a t q) b = Some u \<and> sequence u = s)"
      using assms(2) t by (auto simp: tq_inv_active [OF inv])
    show "\<forall>b u. theap (linked a t q) b = Some u \<longrightarrow> sequence u \<le> numCreated (linked a t q)"
      using tq_inv_seq [OF inv] by simp
    show "\<forall>b c u v. theap (linked a t q) b = Some u \<longrightarrow> theap (linked a t q) c = Some v \<longrightarrow>
            sequence u = sequence v \<longrightarrow> b = c"
      using tq_inv_inj [OF inv] by simp
    show "finite (dom (theap (linked a t q)))" using tq_inv_finite [OF inv] by simp
  qed
qed

lemma tq_inv_fields [simp]:
  "tq_inv X (q\<lparr>timerfd := x\<rparr>) = tq_inv X q"
  "tq_inv X (q\<lparr>callingExpiredTimers := b\<rparr>) = tq_inv X q"
  "tq_inv X (q\<lparr>cancelingTimers := c\<rparr>) = tq_inv X q"
  by (simp_all add: tq_inv_def)

lemma tq_inv_heap_upd:
  assumes "tq_inv X q" and "a \<in> X" and "theap q a = Some t" and "sequence t' = sequence t"
  shows "tq_inv X (q\<lparr>theap := (theap q)(a \<mapsto> t')\<rparr>)"
  using assms unfolding tq_inv_def by (auto split: if_splits)

lemma tq_inv_heap_del:
  assumes "tq_inv (insert a X) q" and "a \<notin> X"
  shows "tq_inv X (q\<lparr>theap := (theap q)(a := None)\<rparr>)"
  using assms unfolding tq_inv_def by (auto split: if_splits)

lemma tq_inv_new:
  assumes "tq_inv X q" and "theap q a = None" and "sequence t = numCreated q + 1"
  shows "tq_inv (insert a X) (q\<lparr>theap := (theap q)(a \<mapsto> t), numCreated := numCreated q + 1\<rparr>)"
proof -
  have "sequence u \<noteq> sequence t" if "theap q b = Some u" for b u
    using tq_inv_seq [OF assms(1) that] assms(3) by simp
  with assms show ?thesis unfolding tq_inv_def by (fastforce split: if_splits)
qed

definition fresh_alloc :: "((addr \<rightharpoonup> timer) \<Rightarrow> addr) \<Rightarrow> bool" where
  "fresh_alloc alloc \<longleftrightarrow> (\<forall>h. finite (dom h) \<longrightarrow> h (alloc h) = None)"

text \<open>What user code run inside a callback cannot disturb: the timers in flight.\<close>

definition tq_frame :: "addr set \<Rightarrow> timer_queue \<Rightarrow> timer_queue \<Rightarrow> bool" where
  "tq_frame X q q' \<longleftrightarrow> (\<forall>x\<in>X. theap q' x = theap q x)
     \<and> callingExpiredTimers q' = callingExpiredTimers q
     \<and> set (cancelingTimers q) \<subseteq> set (cancelingTimers q')"

lemma tq_frame_refl [simp]: "tq_frame X q q"
  by (simp add: tq_frame_def)

lemma tq_frame_trans: "tq_frame X q q' \<Longrightarrow> tq_frame X q' q'' \<Longrightarrow> tq_frame X q q''"
  by (auto simp: tq_frame_def)

lemma resetTimerfd_fields [simp]:
  "tq_inv X (resetTimerfd q e c) = tq_inv X q" "theap (resetTimerfd q e c) = theap q"
  "timers (resetTimerfd q e c) = timers q" "activeTimers (resetTimerfd q e c) = activeTimers q"
  "callingExpiredTimers (resetTimerfd q e c) = callingExpiredTimers q"
  "cancelingTimers (resetTimerfd q e c) = cancelingTimers q"
  by (simp_all add: resetTimerfd_def)

lemma addTimer_ok:
  assumes inv: "tq_inv X q" and al: "fresh_alloc alloc"
  shows "\<exists>q'. addTimer alloc q cb when intv now
               = Some (\<lparr>timer_ptr = alloc (theap q), timer_seq = numCreated q + 1\<rparr>, q')
             \<and> tq_inv X q' \<and> tq_frame X q q'
             \<and> theap q' = (theap q)(alloc (theap q) \<mapsto> Timer_ctor cb when intv (numCreated q))"
proof -
  let ?a = "alloc (theap q)" and ?t = "Timer_ctor cb when intv (numCreated q)"
  let ?q1 = "q\<lparr>theap := (theap q)(?a \<mapsto> ?t), numCreated := numCreated q + 1\<rparr>"
  have free: "theap q ?a = None"
    using al tq_inv_finite [OF inv] by (simp add: fresh_alloc_def)
  then have nX: "?a \<notin> X" using tq_inv_X [OF inv] by auto
  have seq: "sequence ?t = numCreated q + 1" by (simp add: Timer_ctor_def)
  note inv1 = tq_inv_new [OF inv free seq]
  have h: "theap ?q1 ?a = Some ?t" by simp
  note ins = tq_insert_ok [OF inv1 nX h]
  from ins nX show ?thesis
    by (auto simp: addTimer_def addTimerInLoop_def Let_def seq tq_frame_def)
qed

lemma remove1_sorted_set:
  assumes "sorted xs" and "distinct xs"
  shows "sorted (remove1 x xs)" and "distinct (remove1 x xs)" and "set (remove1 x xs) = set xs - {x}"
  using assms by (simp_all add: sorted_remove1)

lemma cancelInLoop_active:
  assumes inv: "tq_inv X q" and act: "(timer_ptr tid, timer_seq tid) \<in> set (activeTimers q)"
  shows "\<exists>q'. cancelInLoop q tid = Some q' \<and> tq_inv X q' \<and> tq_frame X q q'
             \<and> theap q' = (theap q)(timer_ptr tid := None)"
proof -
  from act obtain t where a: "timer_ptr tid \<notin> X" "theap q (timer_ptr tid) = Some t" "sequence t = timer_seq tid"
    by (auto simp: tq_inv_active [OF inv])
  let ?a = "timer_ptr tid"
  let ?q' = "q\<lparr>timers := remove1 (expiration t, ?a) (timers q), theap := (theap q)(?a := None),
               activeTimers := remove1 (?a, timer_seq tid) (activeTimers q)\<rparr>"
  have inT: "(expiration t, ?a) \<in> set (timers q)"
    using a by (auto simp: tq_inv_timers [OF inv])
  have inv': "tq_inv X ?q'"
    using inv a inT unfolding tq_inv_def
    by (auto simp: remove1_sorted_set sorted_remove1 split: if_splits)
  have "cancelInLoop q tid = Some ?q'"
    using tq_inv_length [OF inv] tq_inv_length [OF inv'] act a inT
    by (simp add: cancelInLoop_def Let_def)
  with inv' a(1) show ?thesis by (auto simp: tq_frame_def)
qed

lemma cancelInLoop_inactive:
  assumes inv: "tq_inv X q" and act: "(timer_ptr tid, timer_seq tid) \<notin> set (activeTimers q)"
  shows "\<exists>q'. cancelInLoop q tid = Some q' \<and> tq_inv X q' \<and> tq_frame X q q' \<and> theap q' = theap q
             \<and> (callingExpiredTimers q \<longrightarrow> (timer_ptr tid, timer_seq tid) \<in> set (cancelingTimers q'))"
  using tq_inv_length [OF inv] act inv
  by (auto simp: cancelInLoop_def Let_def tq_frame_def set_insort_key)

lemma cancelInLoop_ok:
  assumes "tq_inv X q"
  shows "\<exists>q'. cancelInLoop q tid = Some q' \<and> tq_inv X q' \<and> tq_frame X q q'"
  using cancelInLoop_active [OF assms] cancelInLoop_inactive [OF assms] by blast

lemma do_actions_ok:
  assumes "fresh_alloc alloc"
  shows "tq_inv X q \<Longrightarrow> \<exists>q'. do_actions alloc q acts = Some q' \<and> tq_inv X q' \<and> tq_frame X q q'"
proof (induction acts arbitrary: q)
  case Nil
  then show ?case by simp
next
  case (Cons act acts)
  show ?case
  proof (cases act)
    case (RunAt cb w intv clock)
    from addTimer_ok [OF Cons.prems assms, of cb w intv clock] obtain tid q1
      where q1: "addTimer alloc q cb w intv clock = Some (tid, q1)" "tq_inv X q1" "tq_frame X q q1"
      by blast
    from Cons.IH [OF q1(2)] q1 RunAt show ?thesis by (auto intro: tq_frame_trans)
  next
    case (CancelTimer tid)
    from cancelInLoop_ok [OF Cons.prems, of tid] obtain q1
      where q1: "cancelInLoop q tid = Some q1" "tq_inv X q1" "tq_frame X q q1" by blast
    from Cons.IH [OF q1(2)] q1 CancelTimer show ?thesis by (auto intro: tq_frame_trans)
  qed
qed

lemma eraseActive_ok:
  assumes "distinct (map snd es)" and "distinct (activeTimers q)"
    and "\<forall>e\<in>set es. \<exists>t. theap q (snd e) = Some t \<and> (snd e, sequence t) \<in> set (activeTimers q)"
  shows "\<exists>rest. eraseActive q es = Some (q\<lparr>activeTimers := rest\<rparr>) \<and> distinct rest
           \<and> set rest = {p \<in> set (activeTimers q). \<forall>e\<in>set es. \<forall>t. theap q (snd e) = Some t \<longrightarrow> p \<noteq> (snd e, sequence t)}"
  using assms
proof (induction es arbitrary: q)
  case Nil
  then show ?case by (auto intro!: exI [of _ "activeTimers q"])
next
  case (Cons e es)
  from Cons.prems(3) obtain t where t: "theap q (snd e) = Some t" "(snd e, sequence t) \<in> set (activeTimers q)"
    by auto
  let ?q1 = "q\<lparr>activeTimers := remove1 (snd e, sequence t) (activeTimers q)\<rparr>"
  have "\<exists>rest. eraseActive ?q1 es = Some (?q1\<lparr>activeTimers := rest\<rparr>) \<and> distinct rest
           \<and> set rest = {p \<in> set (activeTimers ?q1). \<forall>e\<in>set es. \<forall>t. theap ?q1 (snd e) = Some t \<longrightarrow> p \<noteq> (snd e, sequence t)}"
  proof (rule Cons.IH)
    show "distinct (map snd es)" "distinct (activeTimers ?q1)" using Cons.prems by simp_all
    show "\<forall>e\<in>set es. \<exists>t. theap ?q1 (snd e) = Some t \<and> (snd e, sequence t) \<in> set (activeTimers ?q1)"
    proof
      fix e' assume e': "e' \<in> set es"
      with Cons.prems(3) obtain t' where "theap q (snd e') = Some t'" "(snd e', sequence t') \<in> set (activeTimers q)"
        by auto
      moreover have "snd e \<notin> snd ` set es" using Cons.prems(1) by simp
      then have "snd e' \<noteq> snd e" using e' by (metis image_eqI)
      ultimately show "\<exists>t. theap ?q1 (snd e') = Some t \<and> (snd e', sequence t) \<in> set (activeTimers ?q1)"
        by (simp add: in_set_remove1)
    qed
  qed
  then obtain rest where r: "eraseActive ?q1 es = Some (?q1\<lparr>activeTimers := rest\<rparr>)" "distinct rest"
    "set rest = {p \<in> set (activeTimers ?q1). \<forall>e\<in>set es. \<forall>t. theap ?q1 (snd e) = Some t \<longrightarrow> p \<noteq> (snd e, sequence t)}"
    by blast
  with t Cons.prems(2) show ?case by (auto simp: set_remove1_eq)
qed

lemma dropWhile_sorted_entries:
  fixes es :: "(timestamp \<times> addr) list"
  assumes "sorted es" and "e \<in> set (dropWhile (before_sentry now) es)"
  shows "now < fst e"
  using assms
  by (induction es) (auto simp: before_sentry_def less_eq_prod_def split: if_splits)

lemma takeWhile_sorted_entries:
  "e \<in> set (takeWhile (before_sentry now) es) \<Longrightarrow> fst e \<le> now"
  using set_takeWhileD by (fastforce simp: before_sentry_def)

lemma getExpired_ok:
  assumes inv: "tq_inv {} q"
  shows "\<exists>expired q'. getExpired q now = Some (expired, q') \<and> tq_inv (snd ` set expired) q'
           \<and> theap q' = theap q \<and> sorted expired \<and> distinct (map snd expired)
           \<and> set expired = {e \<in> set (timers q). fst e \<le> now}
           \<and> set (timers q') = {e \<in> set (timers q). now < fst e}"
proof -
  let ?ex = "takeWhile (before_sentry now) (timers q)" and ?rest = "dropWhile (before_sentry now) (timers q)"
  have app: "timers q = ?ex @ ?rest" by simp
  have srt: "sorted (?ex @ ?rest)" and dst: "distinct (?ex @ ?rest)"
    using tq_invD(1,2) [OF inv] by simp_all
  have exle: "\<And>e. e \<in> set ?ex \<Longrightarrow> fst e \<le> now" by (rule takeWhile_sorted_entries)
  have restgt: "\<And>e. e \<in> set ?rest \<Longrightarrow> now < fst e"
    using dropWhile_sorted_entries [OF tq_inv_sorted [OF inv]] by blast
  have un: "set (timers q) = set ?ex \<union> set ?rest" by (metis app set_append)
  have sets: "set ?ex = {e \<in> set (timers q). fst e \<le> now}" "set ?rest = {e \<in> set (timers q). now < fst e}"
    using exle restgt unfolding un by fastforce+
  have dsnd: "distinct (map snd ?ex)"
  proof (rule distinct_map_functional)
    show "distinct ?ex" using dst by simp
    show "\<And>x y. x \<in> set ?ex \<Longrightarrow> y \<in> set ?ex \<Longrightarrow> snd x = snd y \<Longrightarrow> x = y"
      unfolding sets by (auto simp: tq_inv_timers [OF inv])
  qed
  let ?q1 = "q\<lparr>timers := ?rest\<rparr>"
  have "\<exists>rest. eraseActive ?q1 ?ex = Some (?q1\<lparr>activeTimers := rest\<rparr>) \<and> distinct rest
           \<and> set rest = {p \<in> set (activeTimers ?q1). \<forall>e\<in>set ?ex. \<forall>t. theap ?q1 (snd e) = Some t \<longrightarrow> p \<noteq> (snd e, sequence t)}"
  proof (rule eraseActive_ok [OF dsnd])
    show "distinct (activeTimers ?q1)" using tq_inv_distinct_active [OF inv] by simp
    show "\<forall>e\<in>set ?ex. \<exists>t. theap ?q1 (snd e) = Some t \<and> (snd e, sequence t) \<in> set (activeTimers ?q1)"
      unfolding sets by (auto simp: tq_inv_timers [OF inv] tq_inv_active [OF inv])
  qed
  then obtain act where act: "eraseActive ?q1 ?ex = Some (?q1\<lparr>activeTimers := act\<rparr>)" "distinct act"
    "set act = {p \<in> set (activeTimers q). \<forall>e\<in>set ?ex. \<forall>t. theap q (snd e) = Some t \<longrightarrow> p \<noteq> (snd e, sequence t)}"
    by auto
  let ?q2 = "q\<lparr>timers := ?rest, activeTimers := act\<rparr>"
  have mem: "a \<in> snd ` set ?ex \<longleftrightarrow> (\<exists>t. theap q a = Some t \<and> expiration t \<le> now)" for a
    unfolding sets snd_image_Collect by (auto simp: tq_inv_timers [OF inv])
  have inv2: "tq_inv (snd ` set ?ex) ?q2"
    unfolding tq_inv_def
  proof (intro conjI)
    show "sorted (timers ?q2)" "distinct (timers ?q2)" "distinct (activeTimers ?q2)"
      using srt dst act(2) by (simp_all add: sorted_append)
    show "snd ` set ?ex \<subseteq> dom (theap ?q2)" using mem by auto
    show "\<forall>e a. (e, a) \<in> set (timers ?q2) \<longleftrightarrow>
            a \<notin> snd ` set ?ex \<and> (\<exists>t. theap ?q2 a = Some t \<and> expiration t = e)"
      unfolding mem by (auto simp: sets(2) tq_inv_timers [OF inv])
    show "\<forall>a s. (a, s) \<in> set (activeTimers ?q2) \<longleftrightarrow>
            a \<notin> snd ` set ?ex \<and> (\<exists>t. theap ?q2 a = Some t \<and> sequence t = s)"
      unfolding mem by (auto simp: act(3) sets(1) tq_inv_active [OF inv] tq_inv_timers [OF inv])
    show "\<forall>a t. theap ?q2 a = Some t \<longrightarrow> sequence t \<le> numCreated ?q2"
      using tq_inv_seq [OF inv] by simp
    show "\<forall>a b t u. theap ?q2 a = Some t \<longrightarrow> theap ?q2 b = Some u \<longrightarrow> sequence t = sequence u \<longrightarrow> a = b"
      using tq_inv_inj [OF inv] by simp
    show "finite (dom (theap ?q2))" using tq_inv_finite [OF inv] by simp
  qed
  have "?rest = [] \<or> now < fst (hd ?rest)"
    using restgt by (metis hd_in_set)
  then have "getExpired q now = Some (?ex, ?q2)"
    using act(1) tq_inv_length [OF inv] tq_inv_length [OF inv2] by (simp add: getExpired_def Let_def)
  with inv2 sets dsnd srt show ?thesis by (auto simp: sorted_append)
qed

lemma runCallbacks_ok:
  assumes al: "fresh_alloc alloc"
  shows "tq_inv X q \<Longrightarrow> snd ` set es \<subseteq> X \<Longrightarrow>
         \<exists>q'. runCallbacks alloc beh q es = Some q' \<and> tq_inv X q' \<and> tq_frame X q q'"
proof (induction es arbitrary: q)
  case Nil
  then show ?case by simp
next
  case (Cons e es)
  with tq_inv_X [OF Cons.prems(1)] obtain t where t: "theap q (snd e) = Some t" by auto
  from do_actions_ok [OF al Cons.prems(1), of "beh (callback t)"] obtain q1
    where q1: "do_actions alloc q (beh (callback t)) = Some q1" "tq_inv X q1" "tq_frame X q q1" by blast
  from Cons.IH [OF q1(2)] Cons.prems(2) q1 t show ?case by (auto intro: tq_frame_trans)
qed

definition survivor :: "(addr \<times> int) list \<Rightarrow> timestamp \<Rightarrow> addr \<Rightarrow> timer \<Rightarrow> timer option" where
  "survivor canceling now a t =
     (if repeat t \<and> (a, sequence t) \<notin> set canceling then Some (Timer_restart t now) else None)"

lemma sequence_restart [simp]: "sequence (Timer_restart t now) = sequence t"
  by (simp add: Timer_restart_def)

lemma resetLoop_ok:
  "tq_inv (snd ` set es) q \<Longrightarrow> distinct (map snd es) \<Longrightarrow>
   \<exists>q'. resetLoop q es now = Some q' \<and> tq_inv {} q' \<and> cancelingTimers q' = cancelingTimers q
      \<and> (\<forall>a. theap q' a = (if a \<in> snd ` set es then theap q a \<bind> survivor (cancelingTimers q) now a
                            else theap q a))"
proof (induction es arbitrary: q)
  case Nil
  then show ?case by simp
next
  case (Cons e es)
  let ?a = "snd e" and ?X = "snd ` set es"
  from Cons.prems have inv: "tq_inv (insert ?a ?X) q" and nin: "?a \<notin> ?X" and d: "distinct (map snd es)"
    by simp_all
  from tq_inv_X [OF inv] obtain t where t: "theap q ?a = Some t" by auto
  show ?case
  proof (cases "repeat t \<and> (?a, sequence t) \<notin> set (cancelingTimers q)")
    case True
    let ?t = "Timer_restart t now"
    let ?q1 = "q\<lparr>theap := (theap q)(?a \<mapsto> ?t)\<rparr>"
    have inv1: "tq_inv (insert ?a ?X) ?q1" by (rule tq_inv_heap_upd [OF inv _ t]) simp_all
    have h: "theap ?q1 ?a = Some ?t" by simp
    note ins = tq_insert_ok [OF inv1 nin h]
    from Cons.IH [OF ins(2) d] obtain q' where q': "resetLoop (linked ?a ?t ?q1) es now = Some q'"
      "tq_inv {} q'" "cancelingTimers q' = cancelingTimers q"
      "\<forall>a. theap q' a = (if a \<in> ?X then theap ?q1 a \<bind> survivor (cancelingTimers q) now a else theap ?q1 a)"
      by auto
    from True t ins(1) q' nin show ?thesis by (auto simp: survivor_def)
  next
    case False
    let ?q1 = "q\<lparr>theap := (theap q)(?a := None)\<rparr>"
    from Cons.IH [OF tq_inv_heap_del [OF inv nin] d] obtain q' where q': "resetLoop ?q1 es now = Some q'"
      "tq_inv {} q'" "cancelingTimers q' = cancelingTimers q"
      "\<forall>a. theap q' a = (if a \<in> ?X then theap ?q1 a \<bind> survivor (cancelingTimers q) now a else theap ?q1 a)"
      by auto
    from False t q' nin show ?thesis by (auto simp: survivor_def)
  qed
qed

lemma tq_reset_ok:
  assumes inv: "tq_inv (snd ` set es) q" and d: "distinct (map snd es)"
  shows "\<exists>q'. tq_reset q es now clock = Some q' \<and> tq_inv {} q' \<and> cancelingTimers q' = cancelingTimers q
      \<and> (\<forall>a. theap q' a = (if a \<in> snd ` set es then theap q a \<bind> survivor (cancelingTimers q) now a
                            else theap q a))
      \<and> (timers q' \<noteq> [] \<longrightarrow> ts_valid (fst (hd (timers q'))) \<longrightarrow>
          timerfd q' = Some (clock, howMuchTimeFromNow (fst (hd (timers q'))) clock))"
proof -
  from resetLoop_ok [OF assms, of now] obtain q' where q': "resetLoop q es now = Some q'" "tq_inv {} q'"
    "cancelingTimers q' = cancelingTimers q"
    "\<forall>a. theap q' a = (if a \<in> snd ` set es then theap q a \<bind> survivor (cancelingTimers q) now a else theap q a)"
    by blast
  show ?thesis
  proof (cases "timers q' = []")
    case True
    with q' show ?thesis by (simp add: tq_reset_def ts_valid_def ts_invalid_def)
  next
    case False
    then have "(fst (hd (timers q')), snd (hd (timers q'))) \<in> set (timers q')" by simp
    then obtain t where "theap q' (snd (hd (timers q'))) = Some t" "expiration t = fst (hd (timers q'))"
      unfolding tq_inv_timers [OF q'(2)] by blast
    with False q' show ?thesis by (auto simp: tq_reset_def resetTimerfd_def)
  qed
qed

lemma tq_handleRead_ok:
  assumes inv: "tq_inv {} q" and al: "fresh_alloc alloc"
  obtains expired q1 q2 q' where "getExpired (readTimerfd q) now = Some (expired, q1)"
    and "runCallbacks alloc beh (q1\<lparr>callingExpiredTimers := True, cancelingTimers := []\<rparr>) expired = Some q2"
    and "tq_handleRead alloc beh q now clock = Some (expired, q')"
    and "tq_inv (snd ` set expired) q2"
    and "tq_frame (snd ` set expired) (q1\<lparr>callingExpiredTimers := True, cancelingTimers := []\<rparr>) q2"
    and "tq_inv (snd ` set expired) q1" and "theap q1 = theap q"
    and "sorted expired" and "distinct (map snd expired)"
    and "set expired = {e \<in> set (timers q). fst e \<le> now}"
    and "tq_inv {} q'"
    and "\<forall>a. theap q' a = (if a \<in> snd ` set expired then theap q2 a \<bind> survivor (cancelingTimers q2) now a
                          else theap q2 a)"
    and "timers q' \<noteq> [] \<longrightarrow> ts_valid (fst (hd (timers q'))) \<longrightarrow>
          timerfd q' = Some (clock, howMuchTimeFromNow (fst (hd (timers q'))) clock)"
proof -
  have inv0: "tq_inv {} (readTimerfd q)" using inv by (simp add: readTimerfd_def)
  from getExpired_ok [OF inv0, of now] obtain expired q1
    where g: "getExpired (readTimerfd q) now = Some (expired, q1)" "tq_inv (snd ` set expired) q1"
      "theap q1 = theap q" "sorted expired" "distinct (map snd expired)"
      "set expired = {e \<in> set (timers q). fst e \<le> now}"
    by (auto simp: readTimerfd_def)
  let ?q1 = "q1\<lparr>callingExpiredTimers := True, cancelingTimers := []\<rparr>"
  from runCallbacks_ok [OF al, of "snd ` set expired" ?q1 expired beh] g(2) obtain q2
    where r: "runCallbacks alloc beh ?q1 expired = Some q2" "tq_inv (snd ` set expired) q2"
      "tq_frame (snd ` set expired) ?q1 q2" by auto
  have "tq_inv (snd ` set expired) (q2\<lparr>callingExpiredTimers := False\<rparr>)" using r(2) by simp
  from tq_reset_ok [OF this g(5), of now clock] obtain q' where
    t: "tq_reset (q2\<lparr>callingExpiredTimers := False\<rparr>) expired now clock = Some q'" "tq_inv {} q'"
      "\<forall>a. theap q' a = (if a \<in> snd ` set expired then theap q2 a \<bind> survivor (cancelingTimers q2) now a else theap q2 a)"
      "timers q' \<noteq> [] \<longrightarrow> ts_valid (fst (hd (timers q'))) \<longrightarrow>
          timerfd q' = Some (clock, howMuchTimeFromNow (fst (hd (timers q'))) clock)"
    by (auto cong: if_cong)
  have "tq_handleRead alloc beh q now clock = Some (expired, q')"
    using g(1) r(1) t(1) by (simp add: tq_handleRead_def Let_def)
  from that [OF g(1) r(1) this r(2) r(3) g(2) g(3) g(4) g(5) g(6) t(2) t(3) t(4)] show thesis .
qed

text \<open>Cancelling a timer in flight is remembered until \<open>reset\<close>.\<close>

lemma do_actions_records_cancel:
  assumes al: "fresh_alloc alloc" and "a \<in> X"
  shows "tq_inv X q \<Longrightarrow> callingExpiredTimers q \<Longrightarrow> CancelTimer \<lparr>timer_ptr = a, timer_seq = s\<rparr> \<in> set acts \<Longrightarrow>
         do_actions alloc q acts = Some q' \<Longrightarrow> (a, s) \<in> set (cancelingTimers q')"
proof (induction acts arbitrary: q)
  case Nil
  then show ?case by simp
next
  case (Cons act acts)
  have step: "(a, s) \<in> set (cancelingTimers q')"
    if q1: "tq_inv X q1" "tq_frame X q q1" "do_actions alloc q1 acts = Some q'"
      and "(a, s) \<in> set (cancelingTimers q1) \<or> CancelTimer \<lparr>timer_ptr = a, timer_seq = s\<rparr> \<in> set acts" for q1
  proof (cases "CancelTimer \<lparr>timer_ptr = a, timer_seq = s\<rparr> \<in> set acts")
    case True
    with q1 Cons.prems(2) show ?thesis by (intro Cons.IH [of q1]) (auto simp: tq_frame_def)
  next
    case False
    with that do_actions_ok [OF al q1(1), of acts] show ?thesis by (auto simp: tq_frame_def)
  qed
  show ?case
  proof (cases act)
    case (RunAt cb w intv clock)
    from addTimer_ok [OF Cons.prems(1) al, of cb w intv clock] obtain tid q1
      where q1: "addTimer alloc q cb w intv clock = Some (tid, q1)" "tq_inv X q1" "tq_frame X q q1" by blast
    from Cons.prems(3,4) RunAt q1 show ?thesis by (intro step [OF q1(2,3)]) auto
  next
    case (CancelTimer tid)
    from cancelInLoop_ok [OF Cons.prems(1), of tid] obtain q1
      where q1: "cancelInLoop q tid = Some q1" "tq_inv X q1" "tq_frame X q q1" by blast
    have "(a, s) \<in> set (cancelingTimers q1)" if "tid = \<lparr>timer_ptr = a, timer_seq = s\<rparr>"
      using cancelInLoop_inactive [OF Cons.prems(1), of tid] assms(2) Cons.prems(2) q1(1) that
      by (auto simp: tq_inv_active [OF Cons.prems(1)])
    with Cons.prems(3,4) CancelTimer q1 show ?thesis by (intro step [OF q1(2,3)]) auto
  qed
qed

lemma runCallbacks_records_cancel:
  assumes al: "fresh_alloc alloc" and a: "a \<in> X"
  shows "tq_inv X q \<Longrightarrow> callingExpiredTimers q \<Longrightarrow> snd ` set es \<subseteq> X \<Longrightarrow> b \<in> snd ` set es \<Longrightarrow>
         theap q b = Some u \<Longrightarrow> CancelTimer \<lparr>timer_ptr = a, timer_seq = s\<rparr> \<in> set (beh (callback u)) \<Longrightarrow>
         runCallbacks alloc beh q es = Some q' \<Longrightarrow> (a, s) \<in> set (cancelingTimers q')"
proof (induction es arbitrary: q)
  case Nil
  then show ?case by simp
next
  case (Cons e es)
  with tq_inv_X [OF Cons.prems(1)] obtain t where t: "theap q (snd e) = Some t" by auto
  from do_actions_ok [OF al Cons.prems(1), of "beh (callback t)"] obtain q1
    where q1: "do_actions alloc q (beh (callback t)) = Some q1" "tq_inv X q1" "tq_frame X q q1" by blast
  from Cons.prems(7) t q1(1) have run: "runCallbacks alloc beh q1 es = Some q'" by simp
  show ?case
  proof (cases "b = snd e")
    case True
    with t Cons.prems(5) have "u = t" by simp
    with do_actions_records_cancel [OF al a Cons.prems(1,2)] Cons.prems(6) q1(1)
    have "(a, s) \<in> set (cancelingTimers q1)" by blast
    with runCallbacks_ok [OF al q1(2), of es beh] Cons.prems(3) run show ?thesis
      by (auto simp: tq_frame_def)
  next
    case False
    with Cons.prems q1 run show ?thesis by (intro Cons.IH [of q1]) (auto simp: tq_frame_def)
  qed
qed

subsection \<open>Properties\<close>

datatype tq_event = EvRunAt nat timestamp seconds timestamp | EvCancel timer_id | EvExpire timestamp timestamp

fun tq_run :: "((addr \<rightharpoonup> timer) \<Rightarrow> addr) \<Rightarrow> (nat \<Rightarrow> tq_action list) \<Rightarrow> timer_queue \<Rightarrow> tq_event list
     \<Rightarrow> timer_queue option" where
  "tq_run alloc beh q [] = Some q"
| "tq_run alloc beh q (EvRunAt cb when intv clock # evs) = do {
     (tid, q') \<leftarrow> addTimer alloc q cb when intv clock; tq_run alloc beh q' evs }"
| "tq_run alloc beh q (EvCancel tid # evs) = do {
     q' \<leftarrow> cancelInLoop q tid; tq_run alloc beh q' evs }"
| "tq_run alloc beh q (EvExpire now clock # evs) = do {
     (expired, q') \<leftarrow> tq_handleRead alloc beh q now clock; tq_run alloc beh q' evs }"

lemma tq_run_ok:
  assumes al: "fresh_alloc alloc"
  shows "tq_inv {} q \<Longrightarrow> \<exists>q'. tq_run alloc beh q evs = Some q' \<and> tq_inv {} q'"
proof (induction evs arbitrary: q)
  case Nil
  then show ?case by simp
next
  case (Cons ev evs)
  show ?case
  proof (cases ev)
    case (EvRunAt cb w intv clock)
    with addTimer_ok [OF Cons.prems al, of cb w intv clock] Cons.IH show ?thesis by auto
  next
    case (EvCancel tid)
    with cancelInLoop_ok [OF Cons.prems, of tid] Cons.IH show ?thesis by auto
  next
    case (EvExpire now clock)
    show ?thesis
      by (rule tq_handleRead_ok [OF Cons.prems al, of now beh clock]) (use EvExpire Cons.IH in auto)
  qed
qed

text \<open>An allocator that satisfies \<open>fresh_alloc\<close>, for the witnesses.\<close>

definition bump_alloc :: "(addr \<rightharpoonup> timer) \<Rightarrow> addr" where
  "bump_alloc h = (if dom h = {} then 0 else Suc (Max (dom h)))"

lemma fresh_bump_alloc [simp]: "fresh_alloc bump_alloc"
proof -
  have "h (Suc (Max (dom h))) = None" if "finite (dom h)" "dom h \<noteq> {}" for h :: "addr \<rightharpoonup> timer"
    using Max_ge [OF that(1), of "Suc (Max (dom h))"] by fastforce
  then show ?thesis by (auto simp: fresh_alloc_def bump_alloc_def)
qed

text \<open>
  Claim C2. Memory safety and consistency of the timer queue: whatever sequence of
  \<open>runAt\<close>, \<open>cancel\<close> and timer expirations happens, and whatever timers the expired
  callbacks themselves add or cancel, no assertion of \<^verbatim>\<open>TimerQueue.cc\<close> fails, no deleted
  \<open>Timer\<close> is dereferenced, and \<open>timers_\<close> and \<open>activeTimers_\<close> stay the same
  set of live timers.
\<close>

theorem timer_queue_safe:
  assumes "fresh_alloc alloc"
  shows "\<exists>q. tq_run alloc beh TimerQueue_ctor evs = Some q \<and> tq_inv {} q
             \<and> snd ` set (timers q) = dom (theap q) \<and> fst ` set (activeTimers q) = dom (theap q)"
proof -
  from tq_run_ok [OF assms tq_inv_ctor, of beh evs] obtain q
    where q: "tq_run alloc beh TimerQueue_ctor evs = Some q" "tq_inv {} q" by blast
  have "snd ` set (timers q) = dom (theap q)" "fst ` set (activeTimers q) = dom (theap q)"
    by (auto simp: snd_image_Collect fst_image_Collect tq_inv_timers [OF q(2)] tq_inv_active [OF q(2)])
  with q show ?thesis by blast
qed

theorem timer_queue_safe_witness:
  "fresh_alloc bump_alloc \<and>
   (\<exists>q. tq_run bump_alloc (\<lambda>_. [CancelTimer \<lparr>timer_ptr = 0, timer_seq = 1\<rparr>]) TimerQueue_ctor
          [EvRunAt 7 500 \<lparr>is_positive = True, micros = 100\<rparr> 10, EvExpire 600 601]
        = Some q \<and> tq_inv {} q \<and> snd ` set (timers q) = dom (theap q))"
  using timer_queue_safe [OF fresh_bump_alloc] by (metis fresh_bump_alloc)



text \<open>
  A timer cancelled while expired callbacks are running is not queued again: if
  any callback of the batch (its own included) cancels the id of a timer of the batch, the
  timer is deleted by \<open>reset\<close>, also when it repeats.
\<close>

lemma cancel_inside_callback:
  assumes inv: "tq_inv {} q" and al: "fresh_alloc alloc"
    and a: "theap q a = Some t" "expiration t \<le> now"
    and b: "theap q b = Some u" "expiration u \<le> now"
    and cancels: "CancelTimer \<lparr>timer_ptr = a, timer_seq = sequence t\<rparr> \<in> set (beh (callback u))"
    and run: "tq_handleRead alloc beh q now clock = Some (expired, q')"
  shows "theap q' a = None \<and> a \<notin> snd ` set (timers q')"
proof -
  obtain ex0 q1 q2 q0 where
        r: "runCallbacks alloc beh (q1\<lparr>callingExpiredTimers := True, cancelingTimers := []\<rparr>) ex0 = Some q2"
    and h: "tq_handleRead alloc beh q now clock = Some (ex0, q0)"
    and fr: "tq_frame (snd ` set ex0) (q1\<lparr>callingExpiredTimers := True, cancelingTimers := []\<rparr>) q2"
    and i1: "tq_inv (snd ` set ex0) q1" and q1: "theap q1 = theap q"
    and ex: "set ex0 = {e \<in> set (timers q). fst e \<le> now}"
    and i': "tq_inv {} q0"
    and heap: "\<forall>a. theap q0 a = (if a \<in> snd ` set ex0 then theap q2 a \<bind> survivor (cancelingTimers q2) now a
                          else theap q2 a)"
    by (rule tq_handleRead_ok [OF inv al, of now beh clock])
  from h run have q0: "q0 = q'" by simp
  have aX: "a \<in> snd ` set ex0" and bX: "b \<in> snd ` set ex0"
    unfolding ex snd_image_Collect using a b by (auto simp: tq_inv_timers [OF inv])
  have "(a, sequence t) \<in> set (cancelingTimers q2)"
    by (rule runCallbacks_records_cancel [OF al aX _ _ _ bX _ cancels r]) (use i1 q1 b in auto)
  moreover have "theap q2 a = Some t" using fr aX q1 a by (auto simp: tq_frame_def)
  ultimately have "theap q0 a = None" using heap aX by (simp add: survivor_def)
  then show ?thesis unfolding q0 [symmetric] by (auto simp: tq_inv_timers [OF i'])
qed

lemma howMuchTimeFromNow_bounds:
  assumes "howMuchTimeFromNow when now = (sec, nsec)"
  shows "0 \<le> sec" "0 \<le> nsec" "nsec < 10 ^ 9"
    and "sec * 1000000 + nsec div 1000 = max (when - now) 100"
proof -
  let ?us = "max (when - now) 100"
  have "howMuchTimeFromNow when now = (?us div 1000000, (?us mod 1000000) * 1000)"
    by (auto simp: howMuchTimeFromNow_def Let_def kMicroSecondsPerSecond_def signed_divide_int_def
        signed_modulo_int_def max_def sgn_if minus_div_mult_eq_mod mult.commute)
  with assms have e: "sec = ?us div 1000000" "nsec = (?us mod 1000000) * 1000" by simp_all
  have "?us mod 1000000 < 1000000" "0 \<le> ?us mod 1000000" by simp_all
  then show "0 \<le> sec" "0 \<le> nsec" "nsec < 10 ^ 9" unfolding e by simp_all
  show "sec * 1000000 + nsec div 1000 = ?us" unfolding e by simp
qed

lemma earliest_is_Min:
  assumes inv: "tq_inv {} q" and "dom (theap q) \<noteq> {}"
  shows "timers q \<noteq> []" and "fst (hd (timers q)) = Min (expiration ` ran (theap q))"
proof -
  from assms(2) obtain a t where "theap q a = Some t" by blast
  then have "(expiration t, a) \<in> set (timers q)" by (simp add: tq_inv_timers [OF inv])
  then show ne: "timers q \<noteq> []" by auto
  have mem: "fst (hd (timers q)) \<in> fst ` set (timers q)" using ne by simp
  have le: "fst (hd (timers q)) \<le> e" if "e \<in> fst ` set (timers q)" for e
    using that tq_inv_sorted [OF inv] ne by (cases "timers q") (auto simp: less_eq_prod_def)
  have "fst ` set (timers q) = expiration ` ran (theap q)"
    by (auto simp: fst_image_Collect ran_def tq_inv_timers [OF inv])
  with mem le show "fst (hd (timers q)) = Min (expiration ` ran (theap q))"
    using finite_set [of "timers q"] by (intro Min_eqI [symmetric]) (metis finite_imageI, auto)
qed

text \<open>
  Claim C4. The loop never sleeps past a pending timer: after \<open>handleRead\<close>, whatever its
  callbacks did, if timers with valid expirations are alive then the timerfd is armed, from
  the clock reading \<open>clock\<close>, with the delay to the earliest of their expirations (or 100
  microseconds, whichever is more), as a \<open>timespec\<close> with nanoseconds in \<open>[0, 10^9)\<close>.
\<close>

theorem handleRead_rearms:
  assumes inv: "tq_inv {} q" and al: "fresh_alloc alloc"
    and run: "tq_handleRead alloc beh q now clock = Some (expired, q')"
    and alive: "dom (theap q') \<noteq> {}"
    and valid: "\<forall>t\<in>ran (theap q'). ts_valid (expiration t)"
  shows "\<exists>sec nsec. timerfd q' = Some (clock, sec, nsec) \<and> 0 \<le> sec \<and> 0 \<le> nsec \<and> nsec < 10 ^ 9
           \<and> sec * 1000000 + nsec div 1000 = max (Min (expiration ` ran (theap q')) - clock) 100"
proof -
  obtain ex0 q0 where h: "tq_handleRead alloc beh q now clock = Some (ex0, q0)"
    and i': "tq_inv {} q0"
    and fd: "timers q0 \<noteq> [] \<longrightarrow> ts_valid (fst (hd (timers q0))) \<longrightarrow>
          timerfd q0 = Some (clock, howMuchTimeFromNow (fst (hd (timers q0))) clock)"
    by (rule tq_handleRead_ok [OF inv al, of now beh clock])
  from h run have "q0 = q'" by simp
  note i' = i' [unfolded this] and fd = fd [unfolded this]
  have mn: "timers q' \<noteq> []" "fst (hd (timers q')) = Min (expiration ` ran (theap q'))"
    using earliest_is_Min [OF i' alive] by simp_all
  obtain a t where "theap q' a = Some t" using alive by blast
  then have "Min (expiration ` ran (theap q')) \<in> expiration ` ran (theap q')"
    using finite_ran [OF tq_inv_finite [OF i']] by (intro Min_in) (auto intro: ranI)
  with valid mn fd have "timerfd q' = Some (clock, howMuchTimeFromNow (Min (expiration ` ran (theap q'))) clock)"
    by auto
  then show ?thesis
    using howMuchTimeFromNow_bounds by (metis prod.collapse)
qed

theorem handleRead_rearms_witness:
  "\<exists>q expired q'. tq_handleRead bump_alloc (\<lambda>_. []) q 5 6 = Some (expired, q')
     \<and> (\<exists>sec nsec. timerfd q' = Some (6, sec, nsec)
           \<and> sec * 1000000 + nsec div 1000 = max (Min (expiration ` ran (theap q')) - 6) 100)"
proof -
  let ?s = "\<lparr>is_positive = True, micros = 100\<rparr>"
  let ?t = "Timer_ctor 7 30 ?s 0"
  obtain q where q: "tq_inv {} q" "theap q = [0 \<mapsto> ?t]"
    using addTimer_ok [OF tq_inv_ctor fresh_bump_alloc, of 7 30 ?s 1]
    by (auto simp: TimerQueue_ctor_def bump_alloc_def)
  obtain expired q1 q2 q' where h: "tq_handleRead bump_alloc (\<lambda>_. []) q 5 6 = Some (expired, q')"
    and r: "runCallbacks bump_alloc (\<lambda>_. []) (q1\<lparr>callingExpiredTimers := True, cancelingTimers := []\<rparr>) expired = Some q2"
    and q1: "theap q1 = theap q" and ex: "set expired = {e \<in> set (timers q). fst e \<le> 5}"
    and heap: "\<forall>a. theap q' a = (if a \<in> snd ` set expired then theap q2 a \<bind> survivor (cancelingTimers q2) 5 a
                          else theap q2 a)"
    by (rule tq_handleRead_ok [OF q(1) fresh_bump_alloc, of 5 "\<lambda>_. []" 6])
  have "set expired = {}" unfolding ex using tq_inv_timers [OF q(1)] q(2)
    by (auto simp: Timer_ctor_def split: if_splits)
  with r q1 q(2) heap have "theap q' = [0 \<mapsto> ?t]" by (auto simp: fun_eq_iff)
  then have al: "dom (theap q') \<noteq> {}" "\<forall>t\<in>ran (theap q'). ts_valid (expiration t)"
    by (simp_all add: Timer_ctor_def ts_valid_def)
  show ?thesis using handleRead_rearms [OF q(1) fresh_bump_alloc h al] h by blast
qed

end
