(* ===== verification/Pollers.thy ===== *)
theory Pollers
  imports Prelude
begin

text \<open>
  \<^verbatim>\<open>reactor/s13/Channel.h\<close>, \<^verbatim>\<open>Channel.cc\<close>, \<^verbatim>\<open>EPoller.cc\<close> and \<^verbatim>\<open>Poller.cc\<close>: a
  channel (one file descriptor and the events it waits for) and the two multiplexers that
  have the same interface, over \<open>epoll\<close> and over \<open>poll\<close>.

  \<open>Channel*\<close> is an address into the heap \<open>chans\<close>; the multiplexers write the
  \<open>index_\<close> of the channels they hold.  The calls of \<open>epoll_ctl\<close> are recorded in the
  order they are made; what \<open>epoll_wait\<close> and \<open>poll\<close> report is an argument.  The locale
  \<open>multiplexer\<close> states the contract the event loop relies on, in terms of an abstract
  specification of channels, and both classes are shown to keep it.
\<close>

unbundle bit_operations_syntax

type_synonym evmask = "32 word"

subsection \<open>Channel\<close>

definition POLLIN :: evmask where "POLLIN = 0x01"
definition POLLPRI :: evmask where "POLLPRI = 0x02"
definition POLLOUT :: evmask where "POLLOUT = 0x04"
definition POLLERR :: evmask where "POLLERR = 0x08"
definition POLLHUP :: evmask where "POLLHUP = 0x10"
definition POLLNVAL :: evmask where "POLLNVAL = 0x20"
definition POLLRDHUP :: evmask where "POLLRDHUP = 0x2000"

definition kNoneEvent :: evmask where "kNoneEvent = 0"
definition kReadEvent :: evmask where "kReadEvent = POLLIN OR POLLPRI"
definition kWriteEvent :: evmask where "kWriteEvent = POLLOUT"

record channel =
  fd :: int
  events :: evmask
  revents :: evmask
  index :: int
  eventHandling :: bool
  hasReadCallback :: bool
  hasWriteCallback :: bool
  hasErrorCallback :: bool
  hasCloseCallback :: bool

type_synonym chans = "addr \<rightharpoonup> channel"

definition Channel_ctor :: "int \<Rightarrow> channel" where
  "Channel_ctor fdArg = \<lparr>fd = fdArg, events = 0, revents = 0, index = -1, eventHandling = False,
     hasReadCallback = False, hasWriteCallback = False, hasErrorCallback = False, hasCloseCallback = False\<rparr>"

definition isNoneEvent :: "channel \<Rightarrow> bool" where
  "isNoneEvent c \<longleftrightarrow> events c = kNoneEvent"

definition isWriting :: "channel \<Rightarrow> bool" where
  "isWriting c \<longleftrightarrow> events c AND kWriteEvent \<noteq> 0"

datatype ch_call = CloseCb | ErrorCb | ReadCb | WriteCb

definition handleEvent :: "channel \<Rightarrow> ch_call list" where
  "handleEvent c =
     (if revents c AND POLLHUP \<noteq> 0 \<and> \<not> revents c AND POLLIN \<noteq> 0
      then (if hasCloseCallback c then [CloseCb] else []) else [])
   @ (if revents c AND (POLLERR OR POLLNVAL) \<noteq> 0
      then (if hasErrorCallback c then [ErrorCb] else []) else [])
   @ (if revents c AND (POLLIN OR POLLPRI OR POLLRDHUP) \<noteq> 0
      then (if hasReadCallback c then [ReadCb] else []) else [])
   @ (if revents c AND POLLOUT \<noteq> 0
      then (if hasWriteCallback c then [WriteCb] else []) else [])"

text \<open>
  The methods that change the events: each assigns \<open>events_\<close> and calls \<open>update\<close>, which is
  the multiplexer's \<open>updateChannel\<close>, here the argument \<open>upd\<close>.
\<close>

type_synonym 'p upd = "'p \<Rightarrow> chans \<Rightarrow> addr \<Rightarrow> ('p \<times> chans) option"

definition Channel_update :: "'p upd \<Rightarrow> 'p \<Rightarrow> chans \<Rightarrow> addr \<Rightarrow> evmask \<Rightarrow> ('p \<times> chans) option" where
  "Channel_update upd p h a ev = do {
     c \<leftarrow> h a;
     upd p (h(a \<mapsto> c\<lparr>events := ev\<rparr>)) a }"

datatype ch_op = EnableReading | EnableWriting | DisableWriting | DisableAll

fun ch_mask :: "ch_op \<Rightarrow> evmask \<Rightarrow> evmask" where
  "ch_mask EnableReading ev = ev OR kReadEvent"
| "ch_mask EnableWriting ev = ev OR kWriteEvent"
| "ch_mask DisableWriting ev = ev AND NOT kWriteEvent"
| "ch_mask DisableAll ev = kNoneEvent"

definition Channel_op :: "'p upd \<Rightarrow> 'p \<Rightarrow> chans \<Rightarrow> addr \<Rightarrow> ch_op \<Rightarrow> ('p \<times> chans) option" where
  "Channel_op upd p h a k = do { c \<leftarrow> h a; Channel_update upd p h a (ch_mask k (events c)) }"

subsection \<open>EPoller\<close>

definition kNew :: int where "kNew = -1"
definition kAdded :: int where "kAdded = 1"
definition kDeleted :: int where "kDeleted = 2"
definition kInitEventListSize :: nat where "kInitEventListSize = 16"

datatype ctl_op = EPOLL_CTL_ADD | EPOLL_CTL_MOD | EPOLL_CTL_DEL

type_synonym ctl = "ctl_op \<times> int \<times> evmask \<times> addr"

record epoller =
  ep_events :: nat                    \<comment> \<open>size of the vector \<open>events_\<close>\<close>
  ep_channels :: "int \<rightharpoonup> addr"
  ep_log :: "ctl list"                \<comment> \<open>calls of \<open>epoll_ctl\<close>, oldest first\<close>

definition EPoller_ctor :: epoller where
  "EPoller_ctor = \<lparr>ep_events = kInitEventListSize, ep_channels = Map.empty, ep_log = []\<rparr>"

definition ep_update :: "epoller \<Rightarrow> ctl_op \<Rightarrow> addr \<Rightarrow> channel \<Rightarrow> epoller" where
  "ep_update p operation a c = p\<lparr>ep_log := ep_log p @ [(operation, fd c, events c, a)]\<rparr>"

definition ep_updateChannel :: "epoller \<Rightarrow> chans \<Rightarrow> addr \<Rightarrow> (epoller \<times> chans) option" where
  "ep_updateChannel p h a = do {
     c \<leftarrow> h a;
     (if index c = kNew \<or> index c = kDeleted
      then do {
        p' \<leftarrow> (if index c = kNew
               then do {
                 check (ep_channels p (fd c) = None);
                 Some (p\<lparr>ep_channels := (ep_channels p)(fd c \<mapsto> a)\<rparr>) }
               else do {
                 check (ep_channels p (fd c) \<noteq> None);
                 check (ep_channels p (fd c) = Some a);
                 Some p });
        let c' = c\<lparr>index := kAdded\<rparr>;
        Some (ep_update p' EPOLL_CTL_ADD a c', h(a \<mapsto> c')) }
      else do {
        check (ep_channels p (fd c) \<noteq> None);
        check (ep_channels p (fd c) = Some a);
        check (index c = kAdded);
        Some (if isNoneEvent c
              then (ep_update p EPOLL_CTL_DEL a c, h(a \<mapsto> c\<lparr>index := kDeleted\<rparr>))
              else (ep_update p EPOLL_CTL_MOD a c, h)) }) }"

definition ep_removeChannel :: "epoller \<Rightarrow> chans \<Rightarrow> addr \<Rightarrow> (epoller \<times> chans) option" where
  "ep_removeChannel p h a = do {
     c \<leftarrow> h a;
     check (ep_channels p (fd c) \<noteq> None);
     check (ep_channels p (fd c) = Some a);
     check (isNoneEvent c);
     check (index c = kAdded \<or> index c = kDeleted);
     let p1 = p\<lparr>ep_channels := (ep_channels p)(fd c := None)\<rparr>;
     let p2 = (if index c = kAdded then ep_update p1 EPOLL_CTL_DEL a c else p1);
     Some (p2, h(a \<mapsto> c\<lparr>index := kNew\<rparr>)) }"

fun ep_fillActiveChannels :: "epoller \<Rightarrow> chans \<Rightarrow> (addr \<times> evmask) list \<Rightarrow> (addr list \<times> chans) option" where
  "ep_fillActiveChannels p h [] = Some ([], h)"
| "ep_fillActiveChannels p h ((a, revt) # evs) = do {
     c \<leftarrow> h a;
     check (ep_channels p (fd c) \<noteq> None);
     check (ep_channels p (fd c) = Some a);
     (active, h') \<leftarrow> ep_fillActiveChannels p (h(a \<mapsto> c\<lparr>revents := revt\<rparr>)) evs;
     Some (a # active, h') }"

text \<open>\<open>ready = None\<close> is the error result of \<open>epoll_wait\<close>.\<close>

definition ep_poll :: "epoller \<Rightarrow> chans \<Rightarrow> (addr \<times> evmask) list option \<Rightarrow> (addr list \<times> epoller \<times> chans) option" where
  "ep_poll p h ready = (case ready of
     Some evs \<Rightarrow>
       if length evs > 0
       then do {
         check (length evs \<le> ep_events p);
         (active, h') \<leftarrow> ep_fillActiveChannels p h evs;
         Some (active, (if length evs = ep_events p then p\<lparr>ep_events := ep_events p * 2\<rparr> else p), h') }
       else Some ([], p, h)
   | None \<Rightarrow> Some ([], p, h))"

subsection \<open>Poller\<close>

record pollfd =
  pfd_fd :: int
  pfd_events :: "16 word"
  pfd_revents :: "16 word"

record poller =
  pollfds :: "pollfd list"
  po_channels :: "int \<rightharpoonup> addr"

definition Poller_ctor :: poller where
  "Poller_ctor = \<lparr>pollfds = [], po_channels = Map.empty\<rparr>"

definition po_updateChannel :: "poller \<Rightarrow> chans \<Rightarrow> addr \<Rightarrow> (poller \<times> chans) option" where
  "po_updateChannel p h a = do {
     c \<leftarrow> h a;
     (if index c < 0
      then do {
        check (po_channels p (fd c) = None);
        let pfd = \<lparr>pfd_fd = fd c, pfd_events = ucast (events c), pfd_revents = 0\<rparr>;
        let fds = pollfds p @ [pfd];
        let idx = int (length fds) - 1;
        Some (p\<lparr>pollfds := fds, po_channels := (po_channels p)(pfd_fd pfd \<mapsto> a)\<rparr>,
              h(a \<mapsto> c\<lparr>index := idx\<rparr>)) }
      else do {
        check (po_channels p (fd c) \<noteq> None);
        check (po_channels p (fd c) = Some a);
        let idx = index c;
        check (0 \<le> idx \<and> idx < int (length (pollfds p)));
        let pfd = pollfds p ! nat idx;
        check (pfd_fd pfd = fd c \<or> pfd_fd pfd = - fd c - 1);
        let pfd = pfd\<lparr>pfd_events := ucast (events c), pfd_revents := 0\<rparr>;
        let pfd = (if isNoneEvent c then pfd\<lparr>pfd_fd := - fd c - 1\<rparr> else pfd);
        Some (p\<lparr>pollfds := (pollfds p)[nat idx := pfd]\<rparr>, h) }) }"

definition po_removeChannel :: "poller \<Rightarrow> chans \<Rightarrow> addr \<Rightarrow> (poller \<times> chans) option" where
  "po_removeChannel p h a = do {
     c \<leftarrow> h a;
     check (po_channels p (fd c) \<noteq> None);
     check (po_channels p (fd c) = Some a);
     check (isNoneEvent c);
     let idx = index c;
     check (0 \<le> idx \<and> idx < int (length (pollfds p)));
     let pfd = pollfds p ! nat idx;
     check (pfd_fd pfd = - fd c - 1 \<and> pfd_events pfd = ucast (events c));
     let chs = (po_channels p)(fd c := None);
     (if nat idx = length (pollfds p) - 1
      then Some (p\<lparr>pollfds := butlast (pollfds p), po_channels := chs\<rparr>, h)
      else do {
        let channelAtEnd = pfd_fd (last (pollfds p));
        let fds = (pollfds p)[nat idx := last (pollfds p), length (pollfds p) - 1 := pfd];
        let channelAtEnd = (if channelAtEnd < 0 then - channelAtEnd - 1 else channelAtEnd);
        b \<leftarrow> chs channelAtEnd;
        d \<leftarrow> h b;
        Some (p\<lparr>pollfds := butlast fds, po_channels := chs\<rparr>, h(b \<mapsto> d\<lparr>index := idx\<rparr>)) }) }"

text \<open>\<open>revents\<close> is a \<open>short\<close>: the test \<open>> 0\<close> is signed.\<close>

fun po_fillActiveChannels :: "poller \<Rightarrow> chans \<Rightarrow> int \<Rightarrow> pollfd list \<Rightarrow> (addr list \<times> chans) option" where
  "po_fillActiveChannels p h numEvents [] = Some ([], h)"
| "po_fillActiveChannels p h numEvents (pfd # pfds) =
     (if numEvents > 0
      then if sint (pfd_revents pfd) > 0
           then do {
             a \<leftarrow> po_channels p (pfd_fd pfd);
             c \<leftarrow> h a;
             check (fd c = pfd_fd pfd);
             (active, h') \<leftarrow> po_fillActiveChannels p (h(a \<mapsto> c\<lparr>revents := scast (pfd_revents pfd)\<rparr>))
                                (numEvents - 1) pfds;
             Some (a # active, h') }
           else po_fillActiveChannels p h numEvents pfds
      else Some ([], h))"

text \<open>\<open>poll\<close> returns a count and writes the \<open>revents\<close> fields, both arguments here.\<close>

definition po_poll :: "poller \<Rightarrow> chans \<Rightarrow> int \<Rightarrow> (16 word) list \<Rightarrow> (addr list \<times> poller \<times> chans) option" where
  "po_poll p h numEvents revs =
     (let p' = p\<lparr>pollfds := map2 (\<lambda>pfd r. pfd\<lparr>pfd_revents := r\<rparr>) (pollfds p) revs\<rparr>
      in if numEvents > 0
         then do { (active, h') \<leftarrow> po_fillActiveChannels p' h numEvents (pollfds p');
                   Some (active, p', h') }
         else Some ([], p', h))"

subsection \<open>The contract of a multiplexer\<close>

text \<open>
  The specification state: the channels that exist, with descriptor and events, and which
  channel is registered for a descriptor.  A step is \<open>None\<close> where a client breaks the rules:
  two channels for one descriptor, registering a channel again after \<open>removeChannel\<close>, registering
  with no event, removing a channel that still waits for events.
\<close>

record ch_spec =
  sp_fd :: int
  sp_events :: evmask
  sp_fresh :: bool

record mux_spec =
  sp_chans :: "addr \<rightharpoonup> ch_spec"
  sp_reg :: "int \<rightharpoonup> addr"

datatype mux_op = NewChannel addr int | Update addr ch_op | Remove addr

fun spec_step :: "mux_spec \<Rightarrow> mux_op \<Rightarrow> mux_spec option" where
  "spec_step S (NewChannel a f) =
     (if sp_chans S a = None \<and> 0 \<le> f
      then Some (S\<lparr>sp_chans := (sp_chans S)(a \<mapsto> \<lparr>sp_fd = f, sp_events = 0, sp_fresh = True\<rparr>)\<rparr>)
      else None)"
| "spec_step S (Update a k) = do {
     c \<leftarrow> sp_chans S a;
     let ev = ch_mask k (sp_events c);
     check (sp_reg S (sp_fd c) = Some a \<or> sp_reg S (sp_fd c) = None \<and> sp_fresh c \<and> ev \<noteq> 0);
     Some \<lparr>sp_chans = (sp_chans S)(a \<mapsto> c\<lparr>sp_events := ev, sp_fresh := False\<rparr>),
           sp_reg = (sp_reg S)(sp_fd c \<mapsto> a)\<rparr> }"
| "spec_step S (Remove a) = do {
     c \<leftarrow> sp_chans S a;
     check (sp_reg S (sp_fd c) = Some a \<and> sp_events c = 0);
     Some (S\<lparr>sp_reg := (sp_reg S)(sp_fd c := None)\<rparr>) }"

fun spec_run :: "mux_spec \<Rightarrow> mux_op list \<Rightarrow> mux_spec option" where
  "spec_run S [] = Some S"
| "spec_run S (x # xs) = do { S' \<leftarrow> spec_step S x; spec_run S' xs }"

definition spec_init :: mux_spec where
  "spec_init = \<lparr>sp_chans = Map.empty, sp_reg = Map.empty\<rparr>"

fun mux_step :: "'p upd \<Rightarrow> 'p upd \<Rightarrow> 'p \<times> chans \<Rightarrow> mux_op \<Rightarrow> ('p \<times> chans) option" where
  "mux_step upd rem (p, h) (NewChannel a f) = Some (p, h(a \<mapsto> Channel_ctor f))"
| "mux_step upd rem (p, h) (Update a k) = Channel_op upd p h a k"
| "mux_step upd rem (p, h) (Remove a) = rem p h a"

fun mux_run :: "'p upd \<Rightarrow> 'p upd \<Rightarrow> 'p \<times> chans \<Rightarrow> mux_op list \<Rightarrow> ('p \<times> chans) option" where
  "mux_run upd rem s [] = Some s"
| "mux_run upd rem s (x # xs) = do { s' \<leftarrow> mux_step upd rem s x; mux_run upd rem s' xs }"

definition mux_sim :: "('p \<Rightarrow> int \<rightharpoonup> addr) \<Rightarrow> 'p \<Rightarrow> chans \<Rightarrow> mux_spec \<Rightarrow> bool" where
  "mux_sim reg p h S \<longleftrightarrow> reg p = sp_reg S \<and> ran (sp_reg S) \<subseteq> dom (sp_chans S)
     \<and> (\<forall>a. map_option (\<lambda>c. (fd c, events c)) (h a) = map_option (\<lambda>c. (sp_fd c, sp_events c)) (sp_chans S a))
     \<and> (\<forall>a s c. sp_chans S a = Some s \<longrightarrow> sp_fresh s \<longrightarrow> h a = Some c \<longrightarrow> index c = -1 \<and> a \<notin> ran (sp_reg S))"

lemma mux_simD:
  assumes "mux_sim reg p h S"
  shows "reg p = sp_reg S"
    and "h a = None \<longleftrightarrow> sp_chans S a = None"
    and "h a = Some c \<Longrightarrow> \<exists>s. sp_chans S a = Some s \<and> sp_fd s = fd c \<and> sp_events s = events c"
    and "sp_chans S a = Some s \<Longrightarrow> \<exists>c. h a = Some c \<and> sp_fd s = fd c \<and> sp_events s = events c"
  using assms unfolding mux_sim_def
  by (auto dest!: spec [of _ a] simp: map_option_case split: option.splits)

locale multiplexer =
  fixes upd rem :: "'p upd" and inv :: "'p \<Rightarrow> chans \<Rightarrow> bool" and reg :: "'p \<Rightarrow> int \<rightharpoonup> addr"
  assumes new_law: "inv p h \<Longrightarrow> h a = None \<Longrightarrow> 0 \<le> f \<Longrightarrow> inv p (h(a \<mapsto> Channel_ctor f))"
    and upd_law: "inv p h \<Longrightarrow> h a = Some c \<Longrightarrow>
          reg p (fd c) = Some a \<or> reg p (fd c) = None \<and> index c = -1 \<and> ev \<noteq> 0 \<Longrightarrow>
          \<exists>p' i. upd p (h(a \<mapsto> c\<lparr>events := ev\<rparr>)) a = Some (p', h(a \<mapsto> c\<lparr>events := ev, index := i\<rparr>))
              \<and> inv p' (h(a \<mapsto> c\<lparr>events := ev, index := i\<rparr>)) \<and> reg p' = (reg p)(fd c \<mapsto> a)"
    and rem_law: "inv p h \<Longrightarrow> h a = Some c \<Longrightarrow> reg p (fd c) = Some a \<Longrightarrow> events c = 0 \<Longrightarrow>
          \<exists>p' h'. rem p h a = Some (p', h') \<and> inv p' h' \<and> reg p' = (reg p)(fd c := None)
              \<and> (\<forall>b. map_option (\<lambda>c. (fd c, events c)) (h' b) = map_option (\<lambda>c. (fd c, events c)) (h b))
              \<and> (\<forall>b. b \<notin> ran (reg p) \<longrightarrow> h' b = h b)"
begin

lemma step_sim:
  assumes inv: "inv p h" and sim: "mux_sim reg p h S" and st: "spec_step S x = Some S'"
  shows "\<exists>p' h'. mux_step upd rem (p, h) x = Some (p', h') \<and> inv p' h' \<and> mux_sim reg p' h' S'"
proof (cases x)
  case (NewChannel a f)
  with st mux_simD(2) [OF sim, of a] have n: "h a = None" "0 \<le> f" by (auto split: if_splits)
  with NewChannel st sim new_law [OF inv n] show ?thesis
    by (auto simp: mux_sim_def Channel_ctor_def split: if_splits)
next
  case (Update a k)
  with st obtain s where s: "sp_chans S a = Some s"
    and g: "sp_reg S (sp_fd s) = Some a \<or> sp_reg S (sp_fd s) = None \<and> sp_fresh s \<and> ch_mask k (sp_events s) \<noteq> 0"
    and S': "S' = \<lparr>sp_chans = (sp_chans S)(a \<mapsto> s\<lparr>sp_events := ch_mask k (sp_events s), sp_fresh := False\<rparr>),
                  sp_reg = (sp_reg S)(sp_fd s \<mapsto> a)\<rparr>"
    by (auto simp: check_simps Let_def split: if_splits)
  from mux_simD(4) [OF sim s] obtain c where c: "h a = Some c" "fd c = sp_fd s" "events c = sp_events s" by auto
  let ?ev = "ch_mask k (events c)"
  have "reg p (fd c) = Some a \<or> reg p (fd c) = None \<and> index c = -1 \<and> ?ev \<noteq> 0"
    using g c s sim by (auto simp: mux_sim_def)
  from upd_law [OF inv c(1) this] obtain p' i
    where u: "upd p (h(a \<mapsto> c\<lparr>events := ?ev\<rparr>)) a = Some (p', h(a \<mapsto> c\<lparr>events := ?ev, index := i\<rparr>))"
      "inv p' (h(a \<mapsto> c\<lparr>events := ?ev, index := i\<rparr>))" "reg p' = (reg p)(fd c \<mapsto> a)" by blast
  have "mux_sim reg p' (h(a \<mapsto> c\<lparr>events := ?ev, index := i\<rparr>)) S'"
    using sim u(3) c S' unfolding mux_sim_def by (auto simp: ran_def split: if_splits)
  with u Update c show ?thesis by (auto simp: Channel_op_def Channel_update_def)
next
  case (Remove a)
  with st obtain s where s: "sp_chans S a = Some s" "sp_reg S (sp_fd s) = Some a" "sp_events s = 0"
    and S': "S' = S\<lparr>sp_reg := (sp_reg S)(sp_fd s := None)\<rparr>"
    by (auto simp: check_simps split: if_splits)
  from mux_simD(4) [OF sim s(1)] obtain c where c: "h a = Some c" "fd c = sp_fd s" "events c = sp_events s" by auto
  have "reg p (fd c) = Some a" "events c = 0" using s c mux_simD(1) [OF sim] by simp_all
  from rem_law [OF inv c(1) this] obtain p' h' where r: "rem p h a = Some (p', h')" "inv p' h'"
    "reg p' = (reg p)(fd c := None)"
    "\<forall>b. map_option (\<lambda>c. (fd c, events c)) (h' b) = map_option (\<lambda>c. (fd c, events c)) (h b)"
    "\<forall>b. b \<notin> ran (reg p) \<longrightarrow> h' b = h b" by blast
  have "index d = -1 \<and> b \<notin> ran (sp_reg S')"
    if b: "sp_chans S b = Some t" "sp_fresh t" "h' b = Some d" for b t d
  proof -
    from mux_simD(4) [OF sim b(1)] obtain d0 where d0: "h b = Some d0" by blast
    with sim b(1,2) have "index d0 = -1" "b \<notin> ran (sp_reg S)" unfolding mux_sim_def by blast+
    with r(5) d0 b(3) mux_simD(1) [OF sim] S' show ?thesis by (auto simp: ran_def split: if_splits)
  qed
  then have "mux_sim reg p' h' S'"
    using sim r(3,4) c(2) S' unfolding mux_sim_def by (auto simp: ran_def)
  with r Remove show ?thesis by auto
qed

lemma run_sim:
  "inv p h \<Longrightarrow> mux_sim reg p h S \<Longrightarrow> spec_run S xs = Some S' \<Longrightarrow>
   \<exists>p' h'. mux_run upd rem (p, h) xs = Some (p', h') \<and> inv p' h' \<and> mux_sim reg p' h' S'"
proof (induction xs arbitrary: p h S)
  case Nil
  then show ?case by auto
next
  case (Cons x xs)
  from Cons.prems(3) obtain S1 where S1: "spec_step S x = Some S1" "spec_run S1 xs = Some S'"
    by (auto simp: check_simps)
  from step_sim [OF Cons.prems(1,2) S1(1)] obtain p1 h1 where s1:
    "mux_step upd rem (p, h) x = Some (p1, h1)" "inv p1 h1" "mux_sim reg p1 h1 S1" by blast
  from Cons.IH [OF s1(2,3) S1(2)] s1(1) show ?case by auto
qed

end

subsection \<open>EPoller keeps the contract\<close>

text \<open>
  What the recorded \<open>epoll_ctl\<close> calls leave in the interest list, by \<open>epoll_ctl(2)\<close>:
  \<open>ADD\<close> of a present descriptor and \<open>MOD\<close> or \<open>DEL\<close> of an absent one are errors.
\<close>

fun epoll_replay :: "(int \<rightharpoonup> addr \<times> evmask) \<Rightarrow> ctl list \<Rightarrow> (int \<rightharpoonup> addr \<times> evmask) option" where
  "epoll_replay I [] = Some I"
| "epoll_replay I ((k, f, ev, a) # ks) = (case k of
     EPOLL_CTL_ADD \<Rightarrow> if I f = None then epoll_replay (I(f \<mapsto> (a, ev))) ks else None
   | EPOLL_CTL_MOD \<Rightarrow> if I f \<noteq> None then epoll_replay (I(f \<mapsto> (a, ev))) ks else None
   | EPOLL_CTL_DEL \<Rightarrow> if I f \<noteq> None then epoll_replay (I(f := None)) ks else None)"

lemma epoll_replay_append:
  "epoll_replay I (ks @ ks') = epoll_replay I ks \<bind> (\<lambda>I'. epoll_replay I' ks')"
  by (induction ks arbitrary: I) (auto split: ctl_op.splits)

definition interest :: "epoller \<Rightarrow> chans \<Rightarrow> int \<rightharpoonup> addr \<times> evmask" where
  "interest p h f = do { a \<leftarrow> ep_channels p f; c \<leftarrow> h a;
     if index c = kAdded then Some (a, events c) else None }"

definition ep_inv :: "epoller \<Rightarrow> chans \<Rightarrow> bool" where
  "ep_inv p h \<longleftrightarrow>
     (\<forall>f a. ep_channels p f = Some a \<longrightarrow>
        (\<exists>c. h a = Some c \<and> fd c = f \<and> (index c = kAdded \<or> index c = kDeleted \<and> events c = 0)))
     \<and> (\<forall>a c. h a = Some c \<longrightarrow> ep_channels p (fd c) \<noteq> Some a \<longrightarrow> index c = kNew)
     \<and> epoll_replay Map.empty (ep_log p) = Some (interest p h)"

lemma ep_invD:
  assumes "ep_inv p h"
  shows "ep_channels p f = Some a \<Longrightarrow>
           \<exists>c. h a = Some c \<and> fd c = f \<and> (index c = kAdded \<or> index c = kDeleted \<and> events c = 0)"
    and "h a = Some c \<Longrightarrow> ep_channels p (fd c) \<noteq> Some a \<Longrightarrow> index c = kNew"
    and "epoll_replay Map.empty (ep_log p) = Some (interest p h)"
  using assms unfolding ep_inv_def by blast+

lemmas ep_index_defs = kNew_def kAdded_def kDeleted_def kNoneEvent_def isNoneEvent_def

lemma ep_inv_init [simp]: "ep_inv EPoller_ctor Map.empty"
  by (simp add: ep_inv_def EPoller_ctor_def interest_def fun_eq_iff)

lemma ep_new:
  assumes "ep_inv p h" and "h a = None"
  shows "ep_inv p (h(a \<mapsto> Channel_ctor f))"
proof -
  have na: "ep_channels p g \<noteq> Some a" for g using ep_invD(1) [OF assms(1), of g a] assms(2) by auto
  then have "interest p (h(a \<mapsto> Channel_ctor f)) = interest p h"
    by (auto simp: interest_def fun_eq_iff split: option.splits intro!: bind_option_cong)
  with assms na show ?thesis unfolding ep_inv_def
    by (auto simp: Channel_ctor_def kNew_def)
qed

lemma interest_upd:
  assumes "ep_inv p h" and "h a = Some c" and "ep_channels p (fd c) = Some a"
  shows "interest p (h(a \<mapsto> c\<lparr>events := ev, index := i\<rparr>))
          = (interest p h)(fd c := (if i = kAdded then Some (a, ev) else None))"
proof
  fix f
  have "f = fd c" if "ep_channels p f = Some a" using ep_invD(1) [OF assms(1) that] assms(2) by auto
  then show "interest p (h(a \<mapsto> c\<lparr>events := ev, index := i\<rparr>)) f
          = ((interest p h)(fd c := (if i = kAdded then Some (a, ev) else None))) f"
    using assms by (cases "ep_channels p f") (auto simp: interest_def)
qed

lemma ep_inv_upd:
  assumes inv: "ep_inv p h" and c: "h a = Some c" and reg: "ep_channels p (fd c) = Some a"
    and i: "i = kAdded \<or> i = kDeleted \<and> ev = 0"
    and log: "epoll_replay (interest p h) ks = Some ((interest p h)(fd c := (if i = kAdded then Some (a, ev) else None)))"
  shows "ep_inv (p\<lparr>ep_log := ep_log p @ ks\<rparr>) (h(a \<mapsto> c\<lparr>events := ev, index := i\<rparr>))"
proof -
  have "interest (p\<lparr>ep_log := l\<rparr>) h' = interest p h'" for l h' by (simp add: interest_def fun_eq_iff)
  with interest_upd [OF inv c reg, where ev = ev and i = i] log ep_invD(3) [OF inv]
  have "epoll_replay Map.empty (ep_log p @ ks) = Some (interest (p\<lparr>ep_log := ep_log p @ ks\<rparr>) (h(a \<mapsto> c\<lparr>events := ev, index := i\<rparr>)))"
    by (simp add: epoll_replay_append)
  note log' = this
  have own: "fd c = f" if "ep_channels p f = Some a" for f
    using ep_invD(1) [OF inv that] c by auto
  show ?thesis
    unfolding ep_inv_def
  proof (intro conjI allI impI)
    fix f b assume "ep_channels (p\<lparr>ep_log := ep_log p @ ks\<rparr>) f = Some b"
    then show "\<exists>d. (h(a \<mapsto> c\<lparr>events := ev, index := i\<rparr>)) b = Some d \<and> fd d = f
        \<and> (index d = kAdded \<or> index d = kDeleted \<and> events d = 0)"
      using ep_invD(1) [OF inv, of f b] i own by auto
  next
    fix b d
    assume "(h(a \<mapsto> c\<lparr>events := ev, index := i\<rparr>)) b = Some d"
      and "ep_channels (p\<lparr>ep_log := ep_log p @ ks\<rparr>) (fd d) \<noteq> Some b"
    then show "index d = kNew" using ep_invD(2) [OF inv, of b d] reg by (auto split: if_splits)
  qed (simp add: log')
qed

lemma ep_upd:
  assumes inv: "ep_inv p h" and c: "h a = Some c"
    and g: "ep_channels p (fd c) = Some a \<or> ep_channels p (fd c) = None \<and> index c = -1 \<and> ev \<noteq> 0"
  shows "\<exists>p' i. ep_updateChannel p (h(a \<mapsto> c\<lparr>events := ev\<rparr>)) a = Some (p', h(a \<mapsto> c\<lparr>events := ev, index := i\<rparr>))
              \<and> ep_inv p' (h(a \<mapsto> c\<lparr>events := ev, index := i\<rparr>)) \<and> ep_channels p' = (ep_channels p)(fd c \<mapsto> a)"
proof (cases "ep_channels p (fd c) = Some a")
  case True
  have same: "(ep_channels p)(fd c \<mapsto> a) = ep_channels p" using True by (simp add: map_upd_triv)
  have it: "interest p h (fd c) = (if index c = kAdded then Some (a, events c) else None)"
    using True c by (simp add: interest_def)
  from ep_invD(1) [OF inv True] c consider "index c = kDeleted" | "index c = kAdded" "ev = 0" | "index c = kAdded" "ev \<noteq> 0"
    by auto
  then show ?thesis
  proof cases
    case 1
    let ?ks = "[(EPOLL_CTL_ADD, fd c, ev, a)]"
    have "ep_inv (p\<lparr>ep_log := ep_log p @ ?ks\<rparr>) (h(a \<mapsto> c\<lparr>events := ev, index := kAdded\<rparr>))"
      by (rule ep_inv_upd [OF inv c True]) (use 1 it in \<open>simp_all add: ep_index_defs\<close>)
    with 1 True same show ?thesis
      by (auto simp: ep_updateChannel_def ep_update_def ep_index_defs intro!: exI)
  next
    case 2
    let ?ks = "[(EPOLL_CTL_DEL, fd c, ev, a)]"
    have "ep_inv (p\<lparr>ep_log := ep_log p @ ?ks\<rparr>) (h(a \<mapsto> c\<lparr>events := ev, index := kDeleted\<rparr>))"
      by (rule ep_inv_upd [OF inv c True]) (use 2 it in \<open>simp_all add: ep_index_defs\<close>)
    with 2 True same show ?thesis
      by (auto simp: ep_updateChannel_def ep_update_def ep_index_defs intro!: exI)
  next
    case 3
    let ?ks = "[(EPOLL_CTL_MOD, fd c, ev, a)]"
    have "ep_inv (p\<lparr>ep_log := ep_log p @ ?ks\<rparr>) (h(a \<mapsto> c\<lparr>events := ev, index := kAdded\<rparr>))"
      by (rule ep_inv_upd [OF inv c True]) (use 3 it in \<open>simp_all add: ep_index_defs\<close>)
    with 3 True same show ?thesis
      by (auto simp: ep_updateChannel_def ep_update_def ep_index_defs intro!: exI [of _ kAdded])
  qed
next
  case False
  with g have n: "ep_channels p (fd c) = None" "index c = kNew" by (simp_all add: kNew_def)
  let ?p = "p\<lparr>ep_channels := (ep_channels p)(fd c \<mapsto> a), ep_log := ep_log p @ [(EPOLL_CTL_ADD, fd c, ev, a)]\<rparr>"
  let ?h = "h(a \<mapsto> c\<lparr>events := ev, index := kAdded\<rparr>)"
  have na: "ep_channels p f \<noteq> Some a" for f
    using ep_invD(1) [OF inv, of f a] n(2) c by (auto simp: ep_index_defs)
  have "interest ?p ?h = (interest p h)(fd c \<mapsto> (a, ev))"
    using na by (auto simp: interest_def fun_eq_iff intro!: bind_option_cong)
  moreover have "interest p h (fd c) = None" using n by (simp add: interest_def)
  ultimately have log: "epoll_replay Map.empty (ep_log ?p) = Some (interest ?p ?h)"
    using ep_invD(3) [OF inv] by (simp add: epoll_replay_append)
  have "ep_inv ?p ?h"
    unfolding ep_inv_def
  proof (intro conjI)
    show "\<forall>f b. ep_channels ?p f = Some b \<longrightarrow> (\<exists>d. ?h b = Some d \<and> fd d = f
            \<and> (index d = kAdded \<or> index d = kDeleted \<and> events d = 0))"
      using ep_invD(1) [OF inv] na by auto
    show "\<forall>b d. ?h b = Some d \<longrightarrow> ep_channels ?p (fd d) \<noteq> Some b \<longrightarrow> index d = kNew"
      using ep_invD(2) [OF inv] n by (auto split: if_splits)
  qed (rule log)
  with n show ?thesis
    by (auto simp: ep_updateChannel_def ep_update_def intro!: exI [of _ kAdded])
qed

lemma ep_rem:
  assumes inv: "ep_inv p h" and c: "h a = Some c" and reg: "ep_channels p (fd c) = Some a" and "events c = 0"
  shows "\<exists>p' h'. ep_removeChannel p h a = Some (p', h') \<and> ep_inv p' h' \<and> ep_channels p' = (ep_channels p)(fd c := None)
              \<and> (\<forall>b. map_option (\<lambda>c. (fd c, events c)) (h' b) = map_option (\<lambda>c. (fd c, events c)) (h b))
              \<and> (\<forall>b. b \<notin> ran (ep_channels p) \<longrightarrow> h' b = h b)"
proof -
  let ?ks = "if index c = kAdded then [(EPOLL_CTL_DEL, fd c, events c, a)] else []"
  let ?p = "p\<lparr>ep_channels := (ep_channels p)(fd c := None), ep_log := ep_log p @ ?ks\<rparr>"
  let ?h = "h(a \<mapsto> c\<lparr>index := kNew\<rparr>)"
  have own: "f = fd c" if "ep_channels p f = Some a" for f
    using ep_invD(1) [OF inv that] c by auto
  have "interest ?p ?h = (interest p h)(fd c := None)"
    using own by (auto simp: interest_def fun_eq_iff intro!: bind_option_cong)
  moreover have "epoll_replay (interest p h) ?ks = Some ((interest p h)(fd c := None))"
    using c reg by (auto simp: interest_def fun_upd_triv)
  ultimately have log: "epoll_replay Map.empty (ep_log ?p) = Some (interest ?p ?h)"
    using ep_invD(3) [OF inv] by (simp add: epoll_replay_append)
  have inv': "ep_inv ?p ?h"
    unfolding ep_inv_def
  proof (intro conjI)
    show "\<forall>f b. ep_channels ?p f = Some b \<longrightarrow> (\<exists>d. ?h b = Some d \<and> fd d = f
            \<and> (index d = kAdded \<or> index d = kDeleted \<and> events d = 0))"
      using ep_invD(1) [OF inv] own by auto
    show "\<forall>b d. ?h b = Some d \<longrightarrow> ep_channels ?p (fd d) \<noteq> Some b \<longrightarrow> index d = kNew"
      using ep_invD(2) [OF inv] reg by (auto split: if_splits)
  qed (rule log)
  have "ep_removeChannel p h a = Some (?p, ?h)"
    using ep_invD(1) [OF inv reg] c reg assms(4)
    by (auto simp: ep_removeChannel_def ep_update_def ep_index_defs Let_def)
  moreover have "a \<in> ran (ep_channels p)" using reg by (auto simp: ran_def)
  ultimately show ?thesis using inv' c by auto
qed

interpretation epoll: multiplexer ep_updateChannel ep_removeChannel ep_inv ep_channels
  by unfold_locales (rule ep_new, assumption+, rule ep_upd, assumption+, rule ep_rem, assumption+)

subsection \<open>Poller keeps the contract\<close>

definition slot_fd :: "pollfd \<Rightarrow> int" where
  "slot_fd pfd = (if pfd_fd pfd < 0 then - pfd_fd pfd - 1 else pfd_fd pfd)"

text \<open>The pollfd slots and the registered channels are in bijection through \<open>index_\<close>.\<close>

definition po_inv :: "poller \<Rightarrow> chans \<Rightarrow> bool" where
  "po_inv p h \<longleftrightarrow> (\<forall>a c. h a = Some c \<longrightarrow> 0 \<le> fd c)
     \<and> (\<forall>f a. po_channels p f = Some a \<longrightarrow> (\<exists>c i. h a = Some c \<and> fd c = f \<and> index c = int i
           \<and> i < length (pollfds p) \<and> slot_fd (pollfds p ! i) = f
           \<and> pfd_events (pollfds p ! i) = ucast (events c)
           \<and> (events c = 0 \<longrightarrow> pfd_fd (pollfds p ! i) = - f - 1)))
     \<and> (\<forall>i < length (pollfds p). \<exists>a c. po_channels p (slot_fd (pollfds p ! i)) = Some a
           \<and> h a = Some c \<and> index c = int i)"

lemma po_invD:
  assumes "po_inv p h"
  shows "h a = Some c \<Longrightarrow> 0 \<le> fd c"
    and "po_channels p f = Some a \<Longrightarrow> \<exists>c i. h a = Some c \<and> fd c = f \<and> index c = int i
           \<and> i < length (pollfds p) \<and> slot_fd (pollfds p ! i) = f
           \<and> pfd_events (pollfds p ! i) = ucast (events c)
           \<and> (events c = 0 \<longrightarrow> pfd_fd (pollfds p ! i) = - f - 1)"
    and "i < length (pollfds p) \<Longrightarrow> \<exists>a c. po_channels p (slot_fd (pollfds p ! i)) = Some a
           \<and> h a = Some c \<and> index c = int i"
  using assms unfolding po_inv_def by blast+

lemma po_inv_init [simp]: "po_inv Poller_ctor Map.empty"
  by (simp add: po_inv_def Poller_ctor_def)

lemma po_new:
  assumes "po_inv p h" and "h a = None" and "0 \<le> f"
  shows "po_inv p (h(a \<mapsto> Channel_ctor f))"
  using assms unfolding po_inv_def by (auto simp: Channel_ctor_def) (metis option.distinct(1))+

lemma po_owner:
  assumes "po_inv p h" and "po_channels p f = Some a" and "po_channels p g = Some a"
  shows "f = g"
  using po_invD(2) [OF assms(1,2)] po_invD(2) [OF assms(1,3)] by auto

lemma po_index_inj:
  assumes "po_inv p h" and "po_channels p f = Some a" and "po_channels p g = Some b"
    and "h a = Some c" and "h b = Some d" and "index c = index d"
  shows "f = g"
  using po_invD(2) [OF assms(1,2)] po_invD(2) [OF assms(1,3)] assms(4-6) by auto

lemma slot_fd_cases: "slot_fd pfd = f \<Longrightarrow> pfd_fd pfd = f \<or> pfd_fd pfd = - f - 1"
  by (auto simp: slot_fd_def split: if_splits)

lemma po_upd_registered:
  assumes inv: "po_inv p h" and c: "h a = Some c" and reg: "po_channels p (fd c) = Some a"
  shows "\<exists>p'. po_updateChannel p (h(a \<mapsto> c\<lparr>events := ev\<rparr>)) a = Some (p', h(a \<mapsto> c\<lparr>events := ev\<rparr>))
              \<and> po_inv p' (h(a \<mapsto> c\<lparr>events := ev\<rparr>)) \<and> po_channels p' = po_channels p"
proof -
  from po_invD(2) [OF inv reg] c obtain i where i: "index c = int i" "i < length (pollfds p)"
    "slot_fd (pollfds p ! i) = fd c" by auto
  have nn: "0 \<le> fd c" by (rule po_invD(1) [OF inv c])
  let ?e = "pollfds p ! i"
  let ?pfd = "\<lparr>pfd_fd = (if ev = 0 then - fd c - 1 else pfd_fd ?e), pfd_events = ucast ev, pfd_revents = 0\<rparr>"
  let ?p = "p\<lparr>pollfds := (pollfds p)[i := ?pfd]\<rparr>" and ?h = "h(a \<mapsto> c\<lparr>events := ev\<rparr>)"
  have slot: "slot_fd ?pfd = fd c" using i(3) nn by (auto simp: slot_fd_def split: if_splits)
  have "po_updateChannel p ?h a = Some (?p, ?h)"
    using i reg slot_fd_cases [OF i(3)]
    by (cases ?e) (auto simp: po_updateChannel_def Let_def isNoneEvent_def kNoneEvent_def)
  moreover have "po_inv ?p ?h"
    unfolding po_inv_def
  proof (intro conjI allI impI)
    fix b d assume "?h b = Some d"
    then show "0 \<le> fd d" using po_invD(1) [OF inv] nn by (auto split: if_splits)
  next
    fix f b assume fb: "po_channels ?p f = Some b"
    show "\<exists>d j. ?h b = Some d \<and> fd d = f \<and> index d = int j \<and> j < length (pollfds ?p)
        \<and> slot_fd (pollfds ?p ! j) = f \<and> pfd_events (pollfds ?p ! j) = ucast (events d)
        \<and> (events d = 0 \<longrightarrow> pfd_fd (pollfds ?p ! j) = - f - 1)"
    proof (cases "b = a")
      case True
      then have "f = fd c" using po_owner [OF inv _ reg] fb by simp
      with True i slot show ?thesis by auto
    next
      case False
      from po_invD(2) [OF inv] fb obtain d j where d: "h b = Some d" "fd d = f" "index d = int j"
        "j < length (pollfds p)" "slot_fd (pollfds p ! j) = f" "pfd_events (pollfds p ! j) = ucast (events d)"
        "events d = 0 \<longrightarrow> pfd_fd (pollfds p ! j) = - f - 1" by (simp, blast)
      have "j \<noteq> i" using d i False fb reg by auto
      with d False show ?thesis by auto
    qed
  next
    fix j assume j: "j < length (pollfds ?p)"
    have "slot_fd (pollfds ?p ! j) = slot_fd (pollfds p ! j)" using i slot j by (cases "j = i") auto
    moreover from j po_invD(3) [OF inv, of j] obtain b d where "po_channels p (slot_fd (pollfds p ! j)) = Some b"
      "h b = Some d" "index d = int j" by auto
    ultimately show "\<exists>b d. po_channels ?p (slot_fd (pollfds ?p ! j)) = Some b \<and> ?h b = Some d \<and> index d = int j"
      using c by auto
  qed
  ultimately show ?thesis by auto
qed

lemma po_upd_new:
  assumes inv: "po_inv p h" and c: "h a = Some c" and reg: "po_channels p (fd c) = None"
    and ix: "index c = -1" and ev: "ev \<noteq> 0"
  shows "\<exists>p' i. po_updateChannel p (h(a \<mapsto> c\<lparr>events := ev\<rparr>)) a = Some (p', h(a \<mapsto> c\<lparr>events := ev, index := i\<rparr>))
              \<and> po_inv p' (h(a \<mapsto> c\<lparr>events := ev, index := i\<rparr>)) \<and> po_channels p' = (po_channels p)(fd c \<mapsto> a)"
proof -
  let ?n = "length (pollfds p)"
  let ?p = "p\<lparr>pollfds := pollfds p @ [\<lparr>pfd_fd = fd c, pfd_events = ucast ev, pfd_revents = 0\<rparr>],
              po_channels := (po_channels p)(fd c \<mapsto> a)\<rparr>"
  let ?h = "h(a \<mapsto> c\<lparr>events := ev, index := int ?n\<rparr>)"
  have nn: "0 \<le> fd c" by (rule po_invD(1) [OF inv c])
  have na: "po_channels p f \<noteq> Some a" for f
    using po_invD(2) [OF inv, of f a] c ix by auto
  have "po_inv ?p ?h"
    unfolding po_inv_def
  proof (intro conjI allI impI)
    fix b d assume "?h b = Some d"
    then show "0 \<le> fd d" using po_invD(1) [OF inv] nn by (auto split: if_splits)
  next
    fix f b assume fb: "po_channels ?p f = Some b"
    show "\<exists>d j. ?h b = Some d \<and> fd d = f \<and> index d = int j \<and> j < length (pollfds ?p)
        \<and> slot_fd (pollfds ?p ! j) = f \<and> pfd_events (pollfds ?p ! j) = ucast (events d)
        \<and> (events d = 0 \<longrightarrow> pfd_fd (pollfds ?p ! j) = - f - 1)"
    proof (cases "f = fd c")
      case True
      with fb nn ev show ?thesis by (auto simp: slot_fd_def)
    next
      case False
      with fb na have "po_channels p f = Some b" "b \<noteq> a" by auto
      with po_invD(2) [OF inv this(1)] show ?thesis by (auto simp: nth_append)
    qed
  next
    fix j assume j: "j < length (pollfds ?p)"
    show "\<exists>b d. po_channels ?p (slot_fd (pollfds ?p ! j)) = Some b \<and> ?h b = Some d \<and> index d = int j"
    proof (cases "j = ?n")
      case True
      then show ?thesis using nn by (auto simp: slot_fd_def)
    next
      case False
      with j have "j < ?n" by simp
      from po_invD(3) [OF inv this] obtain b d where b: "po_channels p (slot_fd (pollfds p ! j)) = Some b"
        "h b = Some d" "index d = int j" by blast
      with na have "b \<noteq> a" by blast
      with b \<open>j < ?n\<close> reg show ?thesis by (auto simp: nth_append)
    qed
  qed
  moreover have "po_updateChannel p (h(a \<mapsto> c\<lparr>events := ev\<rparr>)) a = Some (?p, ?h)"
    using reg ix by (auto simp: po_updateChannel_def Let_def)
  ultimately show ?thesis by auto
qed

lemma po_upd:
  assumes "po_inv p h" and "h a = Some c"
    and "po_channels p (fd c) = Some a \<or> po_channels p (fd c) = None \<and> index c = -1 \<and> ev \<noteq> 0"
  shows "\<exists>p' i. po_updateChannel p (h(a \<mapsto> c\<lparr>events := ev\<rparr>)) a = Some (p', h(a \<mapsto> c\<lparr>events := ev, index := i\<rparr>))
              \<and> po_inv p' (h(a \<mapsto> c\<lparr>events := ev, index := i\<rparr>)) \<and> po_channels p' = (po_channels p)(fd c \<mapsto> a)"
  using assms(3)
proof
  assume reg: "po_channels p (fd c) = Some a"
  have "c\<lparr>events := ev, index := index c\<rparr> = c\<lparr>events := ev\<rparr>" by simp
  moreover have "(po_channels p)(fd c \<mapsto> a) = po_channels p" using reg by (simp add: map_upd_triv)
  ultimately show ?thesis using po_upd_registered [OF assms(1,2) reg] by metis
next
  assume "po_channels p (fd c) = None \<and> index c = -1 \<and> ev \<noteq> 0"
  then show ?thesis using po_upd_new [OF assms(1,2)] by blast
qed

lemma po_rem_last:
  assumes inv: "po_inv p h" and c: "h a = Some c" and reg: "po_channels p (fd c) = Some a"
    and ix: "index c = int (length (pollfds p) - 1)" and ne: "pollfds p \<noteq> []"
  shows "po_inv (p\<lparr>pollfds := butlast (pollfds p), po_channels := (po_channels p)(fd c := None)\<rparr>) h"
    (is "po_inv ?p h")
  unfolding po_inv_def
proof (intro conjI allI impI)
  fix b d assume "h b = Some d"
  then show "0 \<le> fd d" by (rule po_invD(1) [OF inv])
next
  fix f b assume "po_channels ?p f = Some b"
  then have fb: "po_channels p f = Some b" "f \<noteq> fd c" by (auto split: if_splits)
  from po_invD(2) [OF inv fb(1)] obtain d j where d: "h b = Some d" "fd d = f" "index d = int j"
    "j < length (pollfds p)" "slot_fd (pollfds p ! j) = f" "pfd_events (pollfds p ! j) = ucast (events d)"
    "events d = 0 \<longrightarrow> pfd_fd (pollfds p ! j) = - f - 1" by blast
  have "j \<noteq> length (pollfds p) - 1" using po_index_inj [OF inv fb(1) reg d(1) c] d(3) ix fb(2) by auto
  with d(4) have "j < length (pollfds p) - 1" by simp
  with d show "\<exists>d j. h b = Some d \<and> fd d = f \<and> index d = int j \<and> j < length (pollfds ?p)
        \<and> slot_fd (pollfds ?p ! j) = f \<and> pfd_events (pollfds ?p ! j) = ucast (events d)
        \<and> (events d = 0 \<longrightarrow> pfd_fd (pollfds ?p ! j) = - f - 1)"
    by (auto simp: nth_butlast)
next
  fix j assume "j < length (pollfds ?p)"
  then have j: "j < length (pollfds p)" "j \<noteq> length (pollfds p) - 1" by auto
  from po_invD(3) [OF inv j(1)] obtain b d where b: "po_channels p (slot_fd (pollfds p ! j)) = Some b"
    "h b = Some d" "index d = int j" by blast
  have "slot_fd (pollfds p ! j) \<noteq> fd c" using b reg c ix j(2) by auto
  with b j show "\<exists>b d. po_channels ?p (slot_fd (pollfds ?p ! j)) = Some b \<and> h b = Some d \<and> index d = int j"
    by (auto simp: nth_butlast)
qed

lemma po_rem_swap:
  assumes inv: "po_inv p h" and c: "h a = Some c" and reg: "po_channels p (fd c) = Some a"
    and ix: "index c = int i" "i < length (pollfds p) - 1"
    and b: "po_channels p (slot_fd (last (pollfds p))) = Some b" "h b = Some d"
      "index d = int (length (pollfds p) - 1)"
  shows "po_inv (p\<lparr>pollfds := (butlast (pollfds p))[i := last (pollfds p)],
                   po_channels := (po_channels p)(fd c := None)\<rparr>) (h(b \<mapsto> d\<lparr>index := int i\<rparr>))"
    (is "po_inv ?p ?h")
  unfolding po_inv_def
proof (intro conjI allI impI)
  fix b' e assume "?h b' = Some e"
  then show "0 \<le> fd e" using po_invD(1) [OF inv] b(2) by (auto split: if_splits)
next
  let ?n = "length (pollfds p) - 1"
  have lst: "last (pollfds p) = pollfds p ! ?n" using ix by (intro last_conv_nth) auto
  fix f b' assume "po_channels ?p f = Some b'"
  then have fb: "po_channels p f = Some b'" "f \<noteq> fd c" by (auto split: if_splits)
  from po_invD(2) [OF inv fb(1)] obtain e j where e: "h b' = Some e" "fd e = f" "index e = int j"
    "j < length (pollfds p)" "slot_fd (pollfds p ! j) = f" "pfd_events (pollfds p ! j) = ucast (events e)"
    "events e = 0 \<longrightarrow> pfd_fd (pollfds p ! j) = - f - 1" by blast
  have ji: "j \<noteq> i" using po_index_inj [OF inv fb(1) reg e(1) c] e(3) ix(1) fb(2) by auto
  show "\<exists>e j. ?h b' = Some e \<and> fd e = f \<and> index e = int j \<and> j < length (pollfds ?p)
        \<and> slot_fd (pollfds ?p ! j) = f \<and> pfd_events (pollfds ?p ! j) = ucast (events e)
        \<and> (events e = 0 \<longrightarrow> pfd_fd (pollfds ?p ! j) = - f - 1)"
  proof (cases "b' = b")
    case True
    with e b have "e = d" "j = ?n" by auto
    with e True ix lst show ?thesis by auto
  next
    case False
    have "j \<noteq> ?n" using po_index_inj [OF inv fb(1) b(1) e(1) b(2)] e(3) b(3) False fb(1) b(1) by auto
    with e(4) have "j < ?n" by simp
    with e False ji show ?thesis by (auto simp: nth_butlast)
  qed
next
  let ?n = "length (pollfds p) - 1"
  have lst: "last (pollfds p) = pollfds p ! ?n" using ix by (intro last_conv_nth) auto
  fix j assume "j < length (pollfds ?p)"
  then have j: "j < ?n" by simp
  show "\<exists>b' e. po_channels ?p (slot_fd (pollfds ?p ! j)) = Some b' \<and> ?h b' = Some e \<and> index e = int j"
  proof (cases "j = i")
    case True
    have "slot_fd (last (pollfds p)) \<noteq> fd c" using b reg c ix by auto
    with True b j show ?thesis by auto
  next
    case False
    have "j < length (pollfds p)" using j by simp
    from po_invD(3) [OF inv this] obtain b' e where e: "po_channels p (slot_fd (pollfds p ! j)) = Some b'"
      "h b' = Some e" "index e = int j" by blast
    have "slot_fd (pollfds p ! j) \<noteq> fd c" "b' \<noteq> b" using e reg c ix(1) b(2,3) False j by auto
    with e j False show ?thesis by (auto simp: nth_butlast)
  qed
qed

lemma butlast_swap_last:
  "i < length xs - 1 \<Longrightarrow> butlast (xs[i := last xs, length xs - 1 := y]) = (butlast xs)[i := last xs]"
  by (rule nth_equalityI) (auto simp: nth_butlast nth_list_update)

lemma po_rem:
  assumes inv: "po_inv p h" and c: "h a = Some c" and reg: "po_channels p (fd c) = Some a" and ev: "events c = 0"
  shows "\<exists>p' h'. po_removeChannel p h a = Some (p', h') \<and> po_inv p' h' \<and> po_channels p' = (po_channels p)(fd c := None)
              \<and> (\<forall>b. map_option (\<lambda>c. (fd c, events c)) (h' b) = map_option (\<lambda>c. (fd c, events c)) (h b))
              \<and> (\<forall>b. b \<notin> ran (po_channels p) \<longrightarrow> h' b = h b)"
proof -
  let ?n = "length (pollfds p) - 1"
  from po_invD(2) [OF inv reg] c ev obtain i where i: "index c = int i" "i < length (pollfds p)"
    "pfd_events (pollfds p ! i) = 0" "pfd_fd (pollfds p ! i) = - fd c - 1" by auto
  then have ne: "pollfds p \<noteq> []" by auto
  show ?thesis
  proof (cases "i = ?n")
    case True
    let ?p = "p\<lparr>pollfds := butlast (pollfds p), po_channels := (po_channels p)(fd c := None)\<rparr>"
    have "po_inv ?p h" using po_rem_last [OF inv c reg _ ne] True i(1) by simp
    moreover have k: "nat (index c) = ?n" "0 \<le> index c" "index c < int (length (pollfds p))"
      "pfd_events (pollfds p ! ?n) = 0" "pfd_fd (pollfds p ! ?n) = - fd c - 1" using i True by auto
    have "po_removeChannel p h a = Some (?p, h)"
      using c reg ev k by (simp add: po_removeChannel_def isNoneEvent_def kNoneEvent_def Let_def)
    ultimately show ?thesis by auto
  next
    case False
    with i(2) have lt: "i < ?n" "?n < length (pollfds p)" by auto
    have lst: "last (pollfds p) = pollfds p ! ?n" using ne by (rule last_conv_nth)
    from po_invD(3) [OF inv lt(2)] obtain b d where b: "po_channels p (slot_fd (last (pollfds p))) = Some b"
      "h b = Some d" "index d = int ?n" unfolding lst by blast
    let ?p = "p\<lparr>pollfds := (butlast (pollfds p))[i := last (pollfds p)], po_channels := (po_channels p)(fd c := None)\<rparr>"
    let ?h = "h(b \<mapsto> d\<lparr>index := int i\<rparr>)"
    have ninv: "po_inv ?p ?h" by (rule po_rem_swap [OF inv c reg i(1) lt(1) b])
    have "slot_fd (last (pollfds p)) \<noteq> fd c" using b reg c i lt by auto
    then have b': "((po_channels p)(fd c := None)) (slot_fd (last (pollfds p))) = Some b" using b by simp
    have "po_removeChannel p h a = Some (?p, ?h)"
      using c reg ev i False b b' butlast_swap_last [OF lt(1)]
      by (simp add: po_removeChannel_def isNoneEvent_def kNoneEvent_def Let_def slot_fd_def)
    moreover have "b \<in> ran (po_channels p)" using b by (auto simp: ran_def)
    ultimately show ?thesis using ninv b by auto
  qed
qed

interpretation poll: multiplexer po_updateChannel po_removeChannel po_inv po_channels
  by unfold_locales (rule po_new, assumption+, rule po_upd, assumption+, rule po_rem, assumption+)

lemma ep_fill_ok:
  "\<forall>(a, r)\<in>set evs. \<exists>c. h a = Some c \<and> ep_channels p (fd c) = Some a \<Longrightarrow> distinct (map fst evs) \<Longrightarrow>
   \<exists>h'. ep_fillActiveChannels p h evs = Some (map fst evs, h')
      \<and> (\<forall>(a, r)\<in>set evs. \<exists>c. h a = Some c \<and> h' a = Some (c\<lparr>revents := r\<rparr>))
      \<and> (\<forall>a. a \<notin> fst ` set evs \<longrightarrow> h' a = h a)"
proof (induction evs arbitrary: h)
  case Nil
  then show ?case by simp
next
  case (Cons e evs)
  obtain a r where e: "e = (a, r)" by force
  with Cons.prems obtain c where c: "h a = Some c" "ep_channels p (fd c) = Some a" by auto
  let ?h = "h(a \<mapsto> c\<lparr>revents := r\<rparr>)"
  have na: "a \<notin> fst ` set evs" using Cons.prems(2) e by simp
  have "\<forall>(b, r)\<in>set evs. \<exists>c. ?h b = Some c \<and> ep_channels p (fd c) = Some b"
    using Cons.prems(1) c by auto
  moreover have "distinct (map fst evs)" using Cons.prems(2) by simp
  ultimately obtain h' where
    h': "ep_fillActiveChannels p ?h evs = Some (map fst evs, h')"
      "\<forall>(b, r)\<in>set evs. \<exists>c. ?h b = Some c \<and> h' b = Some (c\<lparr>revents := r\<rparr>)"
      "\<forall>b. b \<notin> fst ` set evs \<longrightarrow> h' b = ?h b" using Cons.IH [of ?h] by blast
  have "\<exists>d. h b = Some d \<and> h' b = Some (d\<lparr>revents := r'\<rparr>)" if "(b, r') \<in> set evs" for b r'
  proof -
    have "b \<noteq> a" using na that by force
    with h'(2) that show ?thesis by fastforce
  qed
  with h' c e na show ?case by auto
qed

subsection \<open>Properties\<close>

lemma mux_sim_init: "reg p = Map.empty \<Longrightarrow> mux_sim reg p Map.empty spec_init"
  by (simp add: mux_sim_def spec_init_def)

text \<open>
  Claim C5. \<open>EPoller\<close> implements the specification of channels: for every client sequence
  the specification allows, no assertion of \<^verbatim>\<open>EPoller.cc\<close> fails, none of the \<open>epoll_ctl\<close> calls
  it makes can be refused with \<open>EEXIST\<close> or \<open>ENOENT\<close>, and the kernel's interest list then holds
  every registered channel that waits for events, with the events it waits for, and no channel
  that is not registered.
\<close>

theorem epoller_refines_spec:
  assumes "spec_run spec_init ops = Some S"
  shows "\<exists>p h I. mux_run ep_updateChannel ep_removeChannel (EPoller_ctor, Map.empty) ops = Some (p, h)
     \<and> ep_channels p = sp_reg S \<and> epoll_replay Map.empty (ep_log p) = Some I
     \<and> (\<forall>f a ev. I f = Some (a, ev) \<longrightarrow> sp_reg S f = Some a \<and> (\<exists>c. sp_chans S a = Some c \<and> sp_events c = ev))
     \<and> (\<forall>f a c. sp_reg S f = Some a \<longrightarrow> sp_chans S a = Some c \<longrightarrow> sp_events c \<noteq> 0 \<longrightarrow> I f = Some (a, sp_events c))"
proof -
  from epoll.run_sim [OF ep_inv_init mux_sim_init assms] obtain p h where
    r: "mux_run ep_updateChannel ep_removeChannel (EPoller_ctor, Map.empty) ops = Some (p, h)"
      "ep_inv p h" "mux_sim ep_channels p h S" by (auto simp: EPoller_ctor_def)
  note sim = mux_simD [OF r(3)]
  have "sp_reg S f = Some a \<and> (\<exists>c. sp_chans S a = Some c \<and> sp_events c = ev)"
    if "interest p h f = Some (a, ev)" for f a ev
    using that sim(1) sim(3) [of a] by (auto simp: interest_def check_simps split: if_splits)
  moreover have "interest p h f = Some (a, sp_events c)"
    if "sp_reg S f = Some a" "sp_chans S a = Some c" "sp_events c \<noteq> 0" for f a c
    using ep_invD(1) [OF r(2), of f a] that sim(1) sim(4) [of a c] by (auto simp: interest_def)
  ultimately show ?thesis using r(1) sim(1) ep_invD(3) [OF r(2)] by blast
qed

theorem epoller_refines_spec_witness:
  "\<exists>p h. mux_run ep_updateChannel ep_removeChannel (EPoller_ctor, Map.empty)
       [NewChannel 0 5, Update 0 EnableReading, Update 0 DisableAll, Update 0 EnableWriting] = Some (p, h)
     \<and> epoll_replay Map.empty (ep_log p) = Some [5 \<mapsto> (0, 4)]"
proof -
  let ?ops = "[NewChannel 0 5, Update 0 EnableReading, Update 0 DisableAll, Update 0 EnableWriting]"
  let ?S = "\<lparr>sp_chans = [0 \<mapsto> \<lparr>sp_fd = 5, sp_events = 4, sp_fresh = False\<rparr>], sp_reg = [5 \<mapsto> 0]\<rparr>"
  have "spec_run spec_init ?ops = Some ?S"
    by (simp add: spec_init_def kReadEvent_def kWriteEvent_def kNoneEvent_def POLLIN_def POLLPRI_def POLLOUT_def)
  from epoller_refines_spec [OF this] obtain p h I where
    p: "mux_run ep_updateChannel ep_removeChannel (EPoller_ctor, Map.empty) ?ops = Some (p, h)"
       "epoll_replay Map.empty (ep_log p) = Some I"
    and I: "\<forall>f a ev. I f = Some (a, ev) \<longrightarrow> sp_reg ?S f = Some a \<and> (\<exists>c. sp_chans ?S a = Some c \<and> sp_events c = ev)"
       "\<forall>f a c. sp_reg ?S f = Some a \<longrightarrow> sp_chans ?S a = Some c \<longrightarrow> sp_events c \<noteq> 0 \<longrightarrow> I f = Some (a, sp_events c)"
    by blast
  have "I f = [5 \<mapsto> (0, 4)] f" for f
    using I(1) [rule_format, of f] I(2) [rule_format, of 5 0] by (cases "I f") (auto split: if_splits)
  then have "I = [5 \<mapsto> (0, 4)]" by auto
  with p show ?thesis by blast
qed

text \<open>
  Claim C6. \<open>Poller\<close> keeps its tables consistent: for every client sequence the specification
  allows, no assertion of \<^verbatim>\<open>Poller.cc\<close> fails, also when \<open>removeChannel\<close> moves the last
  \<open>pollfd\<close> into the freed place, and then the \<open>pollfd\<close> at a registered channel's
  \<open>index_\<close> is the one of its descriptor and asks for its events.
\<close>

theorem poller_index_consistent:
  assumes "spec_run spec_init ops = Some S"
  shows "\<exists>p h. mux_run po_updateChannel po_removeChannel (Poller_ctor, Map.empty) ops = Some (p, h)
     \<and> po_channels p = sp_reg S
     \<and> (\<forall>f a c. sp_reg S f = Some a \<longrightarrow> sp_chans S a = Some c \<longrightarrow>
          (\<exists>d. h a = Some d \<and> 0 \<le> index d \<and> nat (index d) < length (pollfds p)
             \<and> slot_fd (pollfds p ! nat (index d)) = f
             \<and> pfd_events (pollfds p ! nat (index d)) = ucast (sp_events c)))"
proof -
  from poll.run_sim [OF po_inv_init mux_sim_init assms] obtain p h where
    r: "mux_run po_updateChannel po_removeChannel (Poller_ctor, Map.empty) ops = Some (p, h)"
      "po_inv p h" "mux_sim po_channels p h S" by (auto simp: Poller_ctor_def)
  note sim = mux_simD [OF r(3)]
  have "\<exists>d. h a = Some d \<and> 0 \<le> index d \<and> nat (index d) < length (pollfds p)
             \<and> slot_fd (pollfds p ! nat (index d)) = f
             \<and> pfd_events (pollfds p ! nat (index d)) = ucast (sp_events c)"
    if "sp_reg S f = Some a" "sp_chans S a = Some c" for f a c
    using po_invD(2) [OF r(2), of f a] that sim(1) sim(4) [of a c] by auto
  with r(1) sim(1) show ?thesis by blast
qed

theorem poller_index_consistent_witness:
  "\<exists>p h d. mux_run po_updateChannel po_removeChannel (Poller_ctor, Map.empty)
       [NewChannel 0 5, NewChannel 1 6, Update 0 EnableReading, Update 1 EnableReading,
        Update 0 DisableAll, Remove 0] = Some (p, h)
     \<and> h 1 = Some d \<and> slot_fd (pollfds p ! nat (index d)) = 6"
proof -
  let ?ops = "[NewChannel 0 5, NewChannel 1 6, Update 0 EnableReading, Update 1 EnableReading, Update 0 DisableAll, Remove 0]"
  let ?S = "\<lparr>sp_chans = [0 \<mapsto> \<lparr>sp_fd = 5, sp_events = 0, sp_fresh = False\<rparr>, 1 \<mapsto> \<lparr>sp_fd = 6, sp_events = 3, sp_fresh = False\<rparr>],
             sp_reg = [6 \<mapsto> 1]\<rparr>"
  have "spec_run spec_init ?ops = Some ?S"
    by (simp add: spec_init_def kReadEvent_def kNoneEvent_def POLLIN_def POLLPRI_def fun_eq_iff)
  from poller_index_consistent [OF this] obtain p h where
    r: "mux_run po_updateChannel po_removeChannel (Poller_ctor, Map.empty) ?ops = Some (p, h)"
    and c: "\<forall>f a c. sp_reg ?S f = Some a \<longrightarrow> sp_chans ?S a = Some c \<longrightarrow>
          (\<exists>d. h a = Some d \<and> 0 \<le> index d \<and> nat (index d) < length (pollfds p)
             \<and> slot_fd (pollfds p ! nat (index d)) = f
             \<and> pfd_events (pollfds p ! nat (index d)) = ucast (sp_events c))"
    by blast
  from c [rule_format, of 6 1] obtain d where "h 1 = Some d" "slot_fd (pollfds p ! nat (index d)) = 6" by auto
  with r show ?thesis by blast
qed

text \<open>
  A channel that \<open>Poller\<close> was told to ignore stays ignored: after
  \<open>disableAll\<close>, \<open>enableReading\<close> stores the new events but leaves the negated descriptor in
  the \<open>pollfd\<close>, which \<open>poll\<close> skips.  (\<open>EPoller\<close> adds the descriptor again.)
\<close>

lemma poller_reenable_ignored:
  assumes "po_inv p h" and "h a = Some c" and "po_channels p (fd c) = Some a"
  shows "\<exists>p1 h1 p2 h2. Channel_op po_updateChannel p h a DisableAll = Some (p1, h1)
     \<and> Channel_op po_updateChannel p1 h1 a EnableReading = Some (p2, h2)
     \<and> pfd_fd (pollfds p2 ! nat (index c)) < 0 \<and> pfd_events (pollfds p2 ! nat (index c)) = ucast kReadEvent"
proof -
  from po_invD(2) [OF assms(1,3)] assms(2) obtain i where i: "index c = int i" "i < length (pollfds p)"
    "slot_fd (pollfds p ! i) = fd c" by auto
  have "0 \<le> fd c" by (rule po_invD(1) [OF assms(1,2)])
  with i assms(2,3) slot_fd_cases [OF i(3)] show ?thesis
    by (auto simp: Channel_op_def Channel_update_def po_updateChannel_def isNoneEvent_def kNoneEvent_def Let_def
        kReadEvent_def POLLIN_def POLLPRI_def)
qed

text \<open>
  \<open>EPoller::poll\<close> turns what \<open>epoll_wait\<close> reports into the active channels:
  when every reported pointer is a registered channel (all the kernel can report, by the
  interest list) and at most \<open>events_.size()\<close> events are reported, no assertion fails, the active channels
  are the reported ones in order, each with its reported events, and the event list doubles
  exactly when it was full.
\<close>

lemma ep_poll_reports:
  assumes inv: "ep_inv p h" and len: "length evs \<le> ep_events p" "0 < ep_events p"
    and reg: "\<forall>a\<in>set (map fst evs). a \<in> ran (ep_channels p)" and "distinct (map fst evs)"
  shows "\<exists>p' h'. ep_poll p h (Some evs) = Some (map fst evs, p', h')
     \<and> (\<forall>(a, r)\<in>set evs. \<exists>c. h a = Some c \<and> h' a = Some (c\<lparr>revents := r\<rparr>))
     \<and> ep_events p' = (if length evs = ep_events p then 2 * ep_events p else ep_events p)"
proof -
  have reg': "\<forall>(a, r)\<in>set evs. \<exists>c. h a = Some c \<and> ep_channels p (fd c) = Some a"
  proof clarify
    fix a r assume "(a, r) \<in> set evs"
    with reg obtain f where "ep_channels p f = Some a" by (force simp: ran_def)
    with ep_invD(1) [OF inv this] show "\<exists>c. h a = Some c \<and> ep_channels p (fd c) = Some a" by auto
  qed
  from ep_fill_ok [OF reg' assms(5)] obtain h' where
    "ep_fillActiveChannels p h evs = Some (map fst evs, h')"
    "\<forall>(a, r)\<in>set evs. \<exists>c. h a = Some c \<and> h' a = Some (c\<lparr>revents := r\<rparr>)" by blast
  with len show ?thesis by (auto simp: ep_poll_def)
qed

end
