(* ===== verification/EventLoops.thy ===== *)
theory EventLoops
  imports Timers Pollers
begin

text \<open>
  \<^verbatim>\<open>reactor/s13/EventLoop.cc\<close>: the loop thread, the queue of functors other threads
  hand to it, and the eventfd that wakes it.

  Several threads run at once, so the loop is a step relation.  The loop thread is at a program
  point of \<open>EventLoop::loop\<close>; every other thread has an agenda of calls it will make.  A
  call is cut at the points where threads can interleave: \<open>queueInLoop\<close> is the
  \<open>push_back\<close> under the mutex, then the test and \<open>wakeup\<close>; \<open>quit\<close> is the store, then
  the \<open>wakeup\<close>.  What user code does is a parameter: \<open>beh f\<close> are the calls functor \<open>f\<close>
  makes, \<open>hbeh n\<close> those the handler of channel \<open>n\<close> makes.  \<open>queued\<close>, \<open>executed\<close> and
  \<open>direct\<close> record history.
\<close>

type_synonym tid = nat
type_synonym task = nat

datatype act =
    RunInLoop task
  | QueueInLoop task
  | QueueWake      \<comment> \<open>the rest of \<open>queueInLoop\<close>, after the critical section\<close>
  | Quit
  | QuitWake       \<comment> \<open>the rest of \<open>quit\<close>, after the store\<close>

datatype poll_event = WakeupEvent | ChannelEvent nat

datatype loop_pc =
    AtTop
  | Polling
  | Handling "act list" "poll_event list"
  | Swapping
  | Running "act list" "task list"
  | Stopped

record loop_state =
  looping :: bool
  quit :: bool
  callingPendingFunctors :: bool
  wakeupFd :: nat                        \<comment> \<open>the counter of the eventfd\<close>
  pendingFunctors :: "task list"
  pc :: loop_pc
  agenda :: "tid \<Rightarrow> act list"
  queued :: "task list"
  executed :: "task list"
  direct :: "task list"

subsection \<open>Operations\<close>

text \<open>The counter of an eventfd holds at most \<open>2^64 - 2\<close>; a \<open>write\<close> beyond it fails.\<close>

definition wakeup :: "loop_state \<Rightarrow> loop_state" where
  "wakeup st = (if wakeupFd st < 2 ^ 64 - 2 then st\<lparr>wakeupFd := wakeupFd st + 1\<rparr> else st)"

definition loop_handleRead :: "loop_state \<Rightarrow> loop_state" where
  "loop_handleRead st = st\<lparr>wakeupFd := 0\<rparr>"

definition queueInLoop_push :: "loop_state \<Rightarrow> task \<Rightarrow> loop_state" where
  "queueInLoop_push st cb = st\<lparr>pendingFunctors := pendingFunctors st @ [cb], queued := queued st @ [cb]\<rparr>"

definition queueInLoop_wake :: "bool \<Rightarrow> loop_state \<Rightarrow> loop_state" where
  "queueInLoop_wake inLoopThread st =
     (if \<not> inLoopThread \<or> callingPendingFunctors st then wakeup st else st)"

definition quit_wake :: "bool \<Rightarrow> loop_state \<Rightarrow> loop_state" where
  "quit_wake inLoopThread st = (if \<not> inLoopThread then wakeup st else st)"

text \<open>One atomic piece of a call, and the calls still to make instead of it.\<close>

fun exec_act :: "(task \<Rightarrow> act list) \<Rightarrow> bool \<Rightarrow> loop_state \<Rightarrow> act \<Rightarrow> loop_state \<times> act list" where
  "exec_act beh inLoopThread st (RunInLoop cb) =
     (if inLoopThread then (st\<lparr>direct := direct st @ [cb]\<rparr>, beh cb) else (st, [QueueInLoop cb]))"
| "exec_act beh inLoopThread st (QueueInLoop cb) = (queueInLoop_push st cb, [QueueWake])"
| "exec_act beh inLoopThread st QueueWake = (queueInLoop_wake inLoopThread st, [])"
| "exec_act beh inLoopThread st Quit = (st\<lparr>quit := True\<rparr>, [QuitWake])"
| "exec_act beh inLoopThread st QuitWake = (quit_wake inLoopThread st, [])"

definition loop_start :: "(tid \<Rightarrow> act list) \<Rightarrow> loop_state" where
  "loop_start ag = \<lparr>looping = True, quit = False, callingPendingFunctors = False, wakeupFd = 0,
     pendingFunctors = [], pc = AtTop, agenda = ag, queued = [], executed = [], direct = []\<rparr>"

text \<open>The steps of \<open>doPendingFunctors\<close> after \<open>callingPendingFunctors_ = true\<close>.\<close>

definition doPendingFunctors :: "(task \<Rightarrow> act list) \<Rightarrow> loop_state \<Rightarrow> loop_state option" where
  "doPendingFunctors beh st = (case pc st of
     Swapping \<Rightarrow> Some (st\<lparr>pendingFunctors := [], pc := Running [] (pendingFunctors st)\<rparr>)
   | Running (a # as) fs \<Rightarrow> (case exec_act beh True st a of (st', rest) \<Rightarrow> Some (st'\<lparr>pc := Running (rest @ as) fs\<rparr>))
   | Running [] (f # fs) \<Rightarrow> Some (st\<lparr>executed := executed st @ [f], pc := Running (beh f) fs\<rparr>)
   | Running [] [] \<Rightarrow> Some (st\<lparr>callingPendingFunctors := False, pc := AtTop\<rparr>)
   | _ \<Rightarrow> None)"

text \<open>
  One step of the loop thread; \<open>evs\<close> is what \<open>poll\<close> reports when it returns.  \<open>None\<close> where
  the thread cannot go on this way.
\<close>

definition loop_body :: "(task \<Rightarrow> act list) \<Rightarrow> (nat \<Rightarrow> act list) \<Rightarrow> poll_event list \<Rightarrow> loop_state
    \<Rightarrow> loop_state option" where
  "loop_body beh hbeh evs st = (case pc st of
     AtTop \<Rightarrow> Some (if quit st then st\<lparr>looping := False, pc := Stopped\<rparr> else st\<lparr>pc := Polling\<rparr>)
   | Polling \<Rightarrow> (if WakeupEvent \<in> set evs \<longrightarrow> wakeupFd st > 0 then Some (st\<lparr>pc := Handling [] evs\<rparr>) else None)
   | Handling (a # as) es \<Rightarrow> (case exec_act beh True st a of (st', rest) \<Rightarrow> Some (st'\<lparr>pc := Handling (rest @ as) es\<rparr>))
   | Handling [] (WakeupEvent # es) \<Rightarrow> Some ((loop_handleRead st)\<lparr>pc := Handling [] es\<rparr>)
   | Handling [] (ChannelEvent n # es) \<Rightarrow> Some (st\<lparr>pc := Handling (hbeh n) es\<rparr>)
   | Handling [] [] \<Rightarrow> Some (st\<lparr>callingPendingFunctors := True, pc := Swapping\<rparr>)
   | Swapping \<Rightarrow> doPendingFunctors beh st
   | Running as fs \<Rightarrow> doPendingFunctors beh st
   | Stopped \<Rightarrow> None)"

definition other_body :: "(task \<Rightarrow> act list) \<Rightarrow> tid \<Rightarrow> loop_state \<Rightarrow> loop_state option" where
  "other_body beh t st = (case agenda st t of
     [] \<Rightarrow> None
   | a # as \<Rightarrow> (case exec_act beh False st a of (st', rest) \<Rightarrow>
                  Some (st'\<lparr>agenda := (agenda st')(t := rest @ as)\<rparr>)))"

inductive loop_step :: "(task \<Rightarrow> act list) \<Rightarrow> (nat \<Rightarrow> act list) \<Rightarrow> loop_state \<Rightarrow> loop_state \<Rightarrow> bool"
  for beh hbeh where
  loop_thread: "loop_body beh hbeh evs st = Some st' \<Longrightarrow> loop_step beh hbeh st st'"
| other_thread: "other_body beh t st = Some st' \<Longrightarrow> loop_step beh hbeh st st'"

inductive loop_reach :: "(task \<Rightarrow> act list) \<Rightarrow> (nat \<Rightarrow> act list) \<Rightarrow> (tid \<Rightarrow> act list) \<Rightarrow> loop_state \<Rightarrow> bool"
  for beh hbeh ag where
  start: "loop_reach beh hbeh ag (loop_start ag)"
| step: "loop_reach beh hbeh ag st \<Longrightarrow> loop_step beh hbeh st st' \<Longrightarrow> loop_reach beh hbeh ag st'"

subsection \<open>Timers and channels of a loop\<close>

definition seconds_zero :: seconds where "seconds_zero = \<lparr>is_positive = False, micros = 0\<rparr>"

definition runAt :: "((addr \<rightharpoonup> timer) \<Rightarrow> addr) \<Rightarrow> timer_queue \<Rightarrow> timestamp \<Rightarrow> nat \<Rightarrow> timestamp
    \<Rightarrow> (timer_id \<times> timer_queue) option" where
  "runAt alloc q time cb clock = addTimer alloc q cb time seconds_zero clock"

definition runAfter :: "((addr \<rightharpoonup> timer) \<Rightarrow> addr) \<Rightarrow> timer_queue \<Rightarrow> seconds \<Rightarrow> nat \<Rightarrow> timestamp \<Rightarrow> timestamp
    \<Rightarrow> (timer_id \<times> timer_queue) option" where
  "runAfter alloc q delay cb now clock = runAt alloc q (addTime now delay) cb clock"

definition runEvery :: "((addr \<rightharpoonup> timer) \<Rightarrow> addr) \<Rightarrow> timer_queue \<Rightarrow> seconds \<Rightarrow> nat \<Rightarrow> timestamp \<Rightarrow> timestamp
    \<Rightarrow> (timer_id \<times> timer_queue) option" where
  "runEvery alloc q intv cb now clock = addTimer alloc q cb (addTime now intv) intv clock"

definition loop_cancel :: "timer_queue \<Rightarrow> timer_id \<Rightarrow> timer_queue option" where
  "loop_cancel q tid = cancelInLoop q tid"

text \<open>\<open>LOG_FATAL\<close> of \<open>abortNotInLoopThread\<close> ends the process: \<open>None\<close>.\<close>

definition assertInLoopThread :: "tid \<Rightarrow> tid \<Rightarrow> unit option" where
  "assertInLoopThread threadId current = check (threadId = current)"

definition loop_updateChannel :: "addr \<Rightarrow> addr \<Rightarrow> tid \<Rightarrow> tid \<Rightarrow> epoller \<Rightarrow> chans \<Rightarrow> addr \<Rightarrow> (epoller \<times> chans) option" where
  "loop_updateChannel this ownerLoop threadId current p h ch = do {
     check (ownerLoop = this);
     assertInLoopThread threadId current;
     ep_updateChannel p h ch }"

definition loop_removeChannel :: "addr \<Rightarrow> addr \<Rightarrow> tid \<Rightarrow> tid \<Rightarrow> epoller \<Rightarrow> chans \<Rightarrow> addr \<Rightarrow> (epoller \<times> chans) option" where
  "loop_removeChannel this ownerLoop threadId current p h ch = do {
     check (ownerLoop = this);
     assertInLoopThread threadId current;
     ep_removeChannel p h ch }"

subsection \<open>Invariants\<close>

text \<open>Calls as user code makes them; the two rests of calls arise only by executing one.\<close>

fun user_act :: "act \<Rightarrow> bool" where
  "user_act QueueWake = False"
| "user_act QuitWake = False"
| "user_act a = True"

fun pc_acts :: "loop_pc \<Rightarrow> act list" where
  "pc_acts (Handling as es) = as"
| "pc_acts (Running as fs) = as"
| "pc_acts p = []"

fun pc_batch :: "loop_pc \<Rightarrow> task list" where
  "pc_batch (Running as fs) = fs"
| "pc_batch p = []"

fun pc_draining :: "loop_pc \<Rightarrow> bool" where
  "pc_draining (Handling as es) = True"
| "pc_draining Swapping = True"
| "pc_draining p = False"

definition will_wake :: "act \<Rightarrow> loop_state \<Rightarrow> bool" where
  "will_wake w st \<longleftrightarrow> wakeupFd st > 0 \<or> (\<exists>t. w \<in> set (agenda st t))"

definition loop_inv :: "loop_state \<Rightarrow> bool" where
  "loop_inv st \<longleftrightarrow>
     queued st = executed st @ pc_batch (pc st) @ pendingFunctors st
     \<and> (callingPendingFunctors st \<longleftrightarrow> pc st = Swapping \<or> (\<exists>as fs. pc st = Running as fs))
     \<and> (pendingFunctors st \<noteq> [] \<longrightarrow> pc_draining (pc st) \<or> pc st = Stopped
          \<or> QueueWake \<in> set (pc_acts (pc st)) \<or> will_wake QueueWake st)
     \<and> (quit st \<longrightarrow> pc st = Polling \<longrightarrow> will_wake QuitWake st)"

lemma wakeup_fields [simp]:
  "wakeupFd (wakeup st) > 0" "queued (wakeup st) = queued st" "executed (wakeup st) = executed st"
  "pc (wakeup st) = pc st" "pendingFunctors (wakeup st) = pendingFunctors st" "agenda (wakeup st) = agenda st"
  "callingPendingFunctors (wakeup st) = callingPendingFunctors st" "quit (wakeup st) = quit st"
  by (simp_all add: wakeup_def)

lemmas loop_defs = queueInLoop_push_def queueInLoop_wake_def quit_wake_def loop_handleRead_def will_wake_def

lemma other_body_cases:
  assumes "other_body beh t st = Some st'"
  obtains a as st1 rest where "agenda st t = a # as" "exec_act beh False st a = (st1, rest)"
    "st' = st1\<lparr>agenda := (agenda st)(t := rest @ as)\<rparr>" "agenda st1 = agenda st" "pc st1 = pc st"
    "executed st1 = executed st" "callingPendingFunctors st1 = callingPendingFunctors st"
proof (cases "agenda st t")
  case (Cons a as)
  obtain st1 rest where e: "exec_act beh False st a = (st1, rest)" by force
  then have "agenda st1 = agenda st" "pc st1 = pc st" "executed st1 = executed st"
    "callingPendingFunctors st1 = callingPendingFunctors st"
    by (cases a; auto simp: loop_defs)+
  with assms Cons e that show ?thesis by (simp add: other_body_def)
qed (use assms in \<open>simp add: other_body_def\<close>)

lemma exec_act_wakeupFd: "exec_act beh b st a = (st1, rest) \<Longrightarrow> wakeupFd st > 0 \<Longrightarrow> wakeupFd st1 > 0"
  by (cases a) (auto simp: loop_defs split: if_splits)

lemma will_wake_other:
  assumes st: "other_body beh t st = Some st'" and w: "will_wake w st" "w = QueueWake \<or> w = QuitWake"
  shows "will_wake w st'"
proof -
  from st obtain a as st1 rest where o: "agenda st t = a # as" "exec_act beh False st a = (st1, rest)"
    "st' = st1\<lparr>agenda := (agenda st)(t := rest @ as)\<rparr>" by (rule other_body_cases)
  consider "wakeupFd st > 0" | "a = w" | t' where "w \<in> set (agenda st t')" "t' \<noteq> t" | "w \<in> set as"
    using w(1) o(1) by (auto simp: will_wake_def) (metis set_ConsD)
  then show ?thesis
  proof cases
    case 1
    with exec_act_wakeupFd [OF o(2)] o(3) show ?thesis by (simp add: will_wake_def)
  next
    case 2
    with w(2) o(2,3) show ?thesis by (auto simp: loop_defs)
  next
    case 3
    with o(3) show ?thesis by (auto simp: will_wake_def)
  next
    case 4
    with o(3) show ?thesis by (auto simp: will_wake_def)
  qed
qed

lemma exec_act_queue:
  assumes "exec_act beh b st a = (st1, rest)"
  shows "(\<exists>f. a = QueueInLoop f \<and> rest = [QueueWake] \<and> pendingFunctors st1 = pendingFunctors st @ [f]
            \<and> queued st1 = queued st @ [f]) \<or>
         pendingFunctors st1 = pendingFunctors st \<and> queued st1 = queued st"
    and "quit st1 \<longrightarrow> quit st \<or> rest = [QuitWake]"
  using assms by (cases a; auto simp: loop_defs split: if_splits)+

lemma loop_inv_other:
  assumes inv: "loop_inv st" and st: "other_body beh t st = Some st'"
  shows "loop_inv st'"
proof -
  from st obtain a as st1 rest where o: "agenda st t = a # as" "exec_act beh False st a = (st1, rest)"
    "st' = st1\<lparr>agenda := (agenda st)(t := rest @ as)\<rparr>" "agenda st1 = agenda st" "pc st1 = pc st"
    "executed st1 = executed st" "callingPendingFunctors st1 = callingPendingFunctors st"
    by (rule other_body_cases)
  note q = exec_act_queue [OF o(2)]
  note ww = will_wake_other [OF st]
  have new: "will_wake w st'" if "rest = [w]" for w
    using that o(3) by (auto simp: will_wake_def)
  show ?thesis
    unfolding loop_inv_def
  proof (intro conjI impI)
    show "queued st' = executed st' @ pc_batch (pc st') @ pendingFunctors st'"
      using inv q(1) o by (auto simp: loop_inv_def)
    show "callingPendingFunctors st' \<longleftrightarrow> pc st' = Swapping \<or> (\<exists>as fs. pc st' = Running as fs)"
      using inv o by (simp add: loop_inv_def)
    show "pc_draining (pc st') \<or> pc st' = Stopped \<or> QueueWake \<in> set (pc_acts (pc st')) \<or> will_wake QueueWake st'"
      if "pendingFunctors st' \<noteq> []"
      using that q(1) inv ww [of QueueWake] new [of QueueWake] o(3,5) by (auto simp: loop_inv_def)
    show "will_wake QuitWake st'" if "quit st'" "pc st' = Polling"
      using that q(2) inv ww [of QuitWake] new [of QuitWake] o(3,5) by (auto simp: loop_inv_def)
  qed
qed

lemma loop_inv_act:
  assumes inv: "loop_inv st" and e: "exec_act beh True st a = (st1, rest)"
    and p: "pc st = Handling (a # as) es \<and> p' = Handling (rest @ as) es
            \<or> pc st = Running (a # as) fs \<and> p' = Running (rest @ as) fs"
  shows "loop_inv (st1\<lparr>pc := p'\<rparr>)"
proof -
  have same: "agenda st1 = agenda st" "executed st1 = executed st" "callingPendingFunctors st1 = callingPendingFunctors st"
    using e by (cases a; auto simp: loop_defs split: if_splits)+
  have woken: "will_wake QueueWake (st1\<lparr>pc := p'\<rparr>)" if "a = QueueWake" "pc st = Running (a # as) fs"
    using that e inv by (auto simp: loop_inv_def loop_defs)
  have keep: "will_wake QueueWake (st1\<lparr>pc := p'\<rparr>)" if "will_wake QueueWake st"
    using that exec_act_wakeupFd [OF e] same by (auto simp: will_wake_def)
  note q = exec_act_queue(1) [OF e]
  show ?thesis
    unfolding loop_inv_def
  proof (intro conjI impI)
    show "queued (st1\<lparr>pc := p'\<rparr>) = executed (st1\<lparr>pc := p'\<rparr>) @ pc_batch (pc (st1\<lparr>pc := p'\<rparr>)) @ pendingFunctors (st1\<lparr>pc := p'\<rparr>)"
      using inv p q same(2) unfolding loop_inv_def by (elim conjE disjE exE) simp_all
    show "callingPendingFunctors (st1\<lparr>pc := p'\<rparr>) \<longleftrightarrow>
        pc (st1\<lparr>pc := p'\<rparr>) = Swapping \<or> (\<exists>as fs. pc (st1\<lparr>pc := p'\<rparr>) = Running as fs)"
      using inv p same(3) unfolding loop_inv_def by (elim conjE disjE) simp_all
    show "pc_draining (pc (st1\<lparr>pc := p'\<rparr>)) \<or> pc (st1\<lparr>pc := p'\<rparr>) = Stopped
        \<or> QueueWake \<in> set (pc_acts (pc (st1\<lparr>pc := p'\<rparr>))) \<or> will_wake QueueWake (st1\<lparr>pc := p'\<rparr>)"
      if ne: "pendingFunctors (st1\<lparr>pc := p'\<rparr>) \<noteq> []"
      using p
    proof
      assume r: "pc st = Running (a # as) fs \<and> p' = Running (rest @ as) fs"
      from q consider "rest = [QueueWake]" | "pendingFunctors st \<noteq> []" using ne by auto
      then show ?thesis
      proof cases
        case 1
        with r show ?thesis by simp
      next
        case 2
        with inv r have "QueueWake = a \<or> QueueWake \<in> set as \<or> will_wake QueueWake st"
          by (simp add: loop_inv_def)
        with r keep woken show ?thesis by auto
      qed
    qed simp
    show "will_wake QuitWake (st1\<lparr>pc := p'\<rparr>)" if "pc (st1\<lparr>pc := p'\<rparr>) = Polling"
      using p that by auto
  qed
qed

lemma loop_inv_loop:
  assumes inv: "loop_inv st" and st: "loop_body beh hbeh evs st = Some st'"
  shows "loop_inv st'"
proof (cases "pc st")
  case AtTop
  with st inv show ?thesis by (auto simp: loop_body_def doPendingFunctors_def loop_inv_def will_wake_def split: if_splits)
next
  case Polling
  with st inv show ?thesis by (auto simp: loop_body_def doPendingFunctors_def loop_inv_def split: if_splits)
next
  case (Handling as es)
  show ?thesis
  proof (cases as)
    case Nil
    with Handling st inv show ?thesis
      by (auto simp: loop_body_def doPendingFunctors_def loop_inv_def loop_handleRead_def split: list.splits poll_event.splits)
  next
    case (Cons a as')
    with Handling st show ?thesis
      by (auto simp: loop_body_def doPendingFunctors_def split: prod.splits intro: loop_inv_act [OF inv])
  qed
next
  case Swapping
  with st inv show ?thesis by (auto simp: loop_body_def doPendingFunctors_def loop_inv_def)
next
  case (Running as fs)
  show ?thesis
  proof (cases as)
    case Nil
    with Running st inv show ?thesis
      by (auto simp: loop_body_def doPendingFunctors_def loop_inv_def will_wake_def split: list.splits)
  next
    case (Cons a as')
    with Running st show ?thesis
      by (auto simp: loop_body_def doPendingFunctors_def split: prod.splits intro: loop_inv_act [OF inv])
  qed
next
  case Stopped
  with st show ?thesis by (simp add: loop_body_def doPendingFunctors_def)
qed

lemma loop_reach_inv: "loop_reach beh hbeh ag st \<Longrightarrow> loop_inv st"
proof (induction rule: loop_reach.induct)
  case start
  show ?case by (simp add: loop_inv_def loop_start_def)
next
  case (step st st')
  from step.hyps(2) step.IH show ?case
    by (auto elim!: loop_step.cases intro: loop_inv_loop loop_inv_other)
qed

subsection \<open>Properties\<close>

text \<open>
  Claim C7. Functors run in the order they were queued, each exactly once: in every
  interleaving of the loop thread with threads that call \<open>runInLoop\<close>, \<open>queueInLoop\<close> and
  \<open>quit\<close>, the functors run so far, those of the batch taken by \<open>doPendingFunctors\<close> and
  those pending are together the functors queued, in order.
\<close>

theorem functors_in_order:
  assumes "loop_reach beh hbeh ag st"
  shows "queued st = executed st @ pc_batch (pc st) @ pendingFunctors st"
  using loop_reach_inv [OF assms] by (simp add: loop_inv_def)

theorem functors_in_order_witness:
  "\<exists>st. loop_reach (\<lambda>_. []) (\<lambda>_. []) ((\<lambda>_. [])(1 := [QueueInLoop 7])) st \<and> queued st = [7]
     \<and> queued st = executed st @ pc_batch (pc st) @ pendingFunctors st"
proof -
  let ?ag = "(\<lambda>_. [])(1 := [QueueInLoop 7])"
  let ?st = "(queueInLoop_push (loop_start ?ag) 7)\<lparr>agenda := (agenda (loop_start ?ag))(1 := [QueueWake])\<rparr>"
  have "loop_step (\<lambda>_. []) (\<lambda>_. []) (loop_start ?ag) ?st"
    by (rule other_thread [of _ 1]) (simp add: other_body_def loop_start_def queueInLoop_push_def)
  then have r: "loop_reach (\<lambda>_. []) (\<lambda>_. []) ?ag ?st" by (rule loop_reach.step [OF loop_reach.start])
  have "queued ?st = [7]" by (simp add: queueInLoop_push_def loop_start_def)
  with r functors_in_order [OF r] show ?thesis by blast
qed



end
