(* ===== verification/TcpConnections.thy ===== *)
theory TcpConnections
  imports NetBuffer Pollers
begin

text \<open>
  \<^verbatim>\<open>reactor/s13/TcpConnection.cc\<close>: one TCP connection in its loop thread.

  The connection's channel is its event mask \<open>ch_events\<close> and the list \<open>ch_log\<close> of the
  operations applied to it.  What reaches the kernel is recorded: \<open>wire\<close> are the bytes
  \<open>write\<close> accepted, \<open>shutdowns\<close> counts \<open>shutdownWrite\<close>; \<open>sent\<close> are the bytes
  given to \<open>sendInLoop\<close>.  The results of \<open>read\<close> and \<open>write\<close> are arguments.

  The user's callbacks are called in tail position of every handler, so what they do (send,
  shut down, read the input buffer) is the next operation of a run; the calls themselves are
  recorded in \<open>calls\<close>.
\<close>

datatype StateE = kConnecting | kConnected | kDisconnecting | kDisconnected

datatype conn_call = ConnectionCb | MessageCb | WriteCompleteCb | CloseCallback

datatype chan_call = ChOp ch_op | ChRemove

record tcp_conn =
  state :: StateE
  ch_events :: evmask
  ch_log :: "chan_call list"
  hasWriteComplete :: bool
  inputBuffer :: netbuf
  outputBuffer :: netbuf
  calls :: "conn_call list"
  wire :: "byte list"
  sent :: "byte list"
  shutdowns :: nat

definition TcpConnection_ctor :: "bool \<Rightarrow> tcp_conn" where
  "TcpConnection_ctor wc = \<lparr>state = kConnecting, ch_events = kNoneEvent, ch_log = [], hasWriteComplete = wc,
     inputBuffer = Buffer_ctor, outputBuffer = Buffer_ctor, calls = [], wire = [], sent = [], shutdowns = 0\<rparr>"

definition chan_op :: "tcp_conn \<Rightarrow> ch_op \<Rightarrow> tcp_conn" where
  "chan_op c k = c\<lparr>ch_events := ch_mask k (ch_events c), ch_log := ch_log c @ [ChOp k]\<rparr>"

definition conn_isWriting :: "tcp_conn \<Rightarrow> bool" where
  "conn_isWriting c \<longleftrightarrow> ch_events c AND kWriteEvent \<noteq> 0"

definition call :: "tcp_conn \<Rightarrow> conn_call \<Rightarrow> tcp_conn" where
  "call c x = c\<lparr>calls := calls c @ [x]\<rparr>"

text \<open>\<open>res\<close> is the result of \<open>write\<close>, negative for an error.\<close>

definition sendInLoop :: "tcp_conn \<Rightarrow> byte list \<Rightarrow> int \<Rightarrow> tcp_conn option" where
  "sendInLoop c0 message res = do {
     let c = c0\<lparr>sent := sent c0 @ message\<rparr>;
     let direct = (\<not> conn_isWriting c \<and> readableBytes (outputBuffer c) = 0);
     let nwrote = (if direct \<and> res \<ge> 0 then nat res else 0);
     let c = (if direct then c\<lparr>wire := wire c @ take nwrote message\<rparr> else c);
     let c = (if direct \<and> res \<ge> 0 \<and> \<not> nwrote < length message \<and> hasWriteComplete c
              then call c WriteCompleteCb else c);
     (if nwrote < length message
      then do {
        out \<leftarrow> buf_append (outputBuffer c) (drop nwrote message);
        let c = c\<lparr>outputBuffer := out\<rparr>;
        Some (if \<not> conn_isWriting c then chan_op c EnableWriting else c) }
      else Some c) }"

definition conn_send :: "tcp_conn \<Rightarrow> byte list \<Rightarrow> int \<Rightarrow> tcp_conn option" where
  "conn_send c message res = (if state c = kConnected then sendInLoop c message res else Some c)"

definition shutdownInLoop :: "tcp_conn \<Rightarrow> tcp_conn" where
  "shutdownInLoop c = (if \<not> conn_isWriting c then c\<lparr>shutdowns := shutdowns c + 1\<rparr> else c)"

definition conn_shutdown :: "tcp_conn \<Rightarrow> tcp_conn" where
  "conn_shutdown c =
     (if state c = kConnected then shutdownInLoop (c\<lparr>state := kDisconnecting\<rparr>) else c)"

definition connectEstablished :: "tcp_conn \<Rightarrow> tcp_conn option" where
  "connectEstablished c = do {
     check (state c = kConnecting);
     let c = c\<lparr>state := kConnected\<rparr>;
     let c = chan_op c EnableReading;
     Some (call c ConnectionCb) }"

definition connectDestroyed :: "tcp_conn \<Rightarrow> tcp_conn option" where
  "connectDestroyed c = do {
     check (state c = kConnected \<or> state c = kDisconnecting);
     let c = c\<lparr>state := kDisconnected\<rparr>;
     let c = chan_op c DisableAll;
     let c = call c ConnectionCb;
     Some (c\<lparr>ch_log := ch_log c @ [ChRemove]\<rparr>) }"

definition handleClose :: "tcp_conn \<Rightarrow> tcp_conn option" where
  "handleClose c = do {
     check (state c = kConnected \<or> state c = kDisconnecting);
     let c = chan_op c DisableAll;
     Some (call c CloseCallback) }"

text \<open>\<open>handleError\<close> only logs \<open>SO_ERROR\<close>.\<close>

definition handleError :: "tcp_conn \<Rightarrow> tcp_conn" where
  "handleError c = c"

definition conn_handleRead :: "tcp_conn \<Rightarrow> io_result \<Rightarrow> tcp_conn option" where
  "conn_handleRead c res = do {
     (buf, n, savedErrno) \<leftarrow> readFd (inputBuffer c) res;
     let c = c\<lparr>inputBuffer := buf\<rparr>;
     (if n > 0 then Some (call c MessageCb)
      else if n = 0 then handleClose c
      else Some (handleError c)) }"

definition handleWrite :: "tcp_conn \<Rightarrow> int \<Rightarrow> tcp_conn option" where
  "handleWrite c n =
     (if conn_isWriting c
      then if n > 0
           then do {
             let c = c\<lparr>wire := wire c @ take (nat n) (contents (outputBuffer c))\<rparr>;
             out \<leftarrow> retrieve (outputBuffer c) (nat n);
             let c = c\<lparr>outputBuffer := out\<rparr>;
             (if readableBytes (outputBuffer c) = 0
              then do {
                let c = chan_op c DisableWriting;
                let c = (if hasWriteComplete c then call c WriteCompleteCb else c);
                Some (if state c = kDisconnecting then shutdownInLoop c else c) }
              else Some c) }
           else Some c
      else Some c)"

subsection \<open>Runs\<close>

text \<open>
  \<open>CPosted\<close> is \<open>sendInLoop\<close> run as a functor for a \<open>send\<close> of another thread; \<open>CConsume\<close>
  is the message callback retrieving input; \<open>CHup\<close> is the close callback of the channel.
\<close>

datatype conn_op = CEstablished | CSend "byte list" int | CPosted "byte list" int | CShutdown
  | CRead io_result | CConsume nat | CWrite int | CHup | CError | CDestroyed

fun conn_step :: "tcp_conn \<Rightarrow> conn_op \<Rightarrow> tcp_conn option" where
  "conn_step c CEstablished = connectEstablished c"
| "conn_step c (CSend msg n) = conn_send c msg n"
| "conn_step c (CPosted msg n) = sendInLoop c msg n"
| "conn_step c CShutdown = Some (conn_shutdown c)"
| "conn_step c (CRead res) = conn_handleRead c res"
| "conn_step c (CConsume n) = do { b \<leftarrow> retrieve (inputBuffer c) n; Some (c\<lparr>inputBuffer := b\<rparr>) }"
| "conn_step c (CWrite n) = handleWrite c n"
| "conn_step c CHup = handleClose c"
| "conn_step c CError = Some (handleError c)"
| "conn_step c CDestroyed = connectDestroyed c"

fun conn_run :: "tcp_conn \<Rightarrow> conn_op list \<Rightarrow> tcp_conn option" where
  "conn_run c [] = Some c"
| "conn_run c (x # xs) = do { c' \<leftarrow> conn_step c x; conn_run c' xs }"

text \<open>
  When the loop and the owner of a connection perform an operation: the owner establishes it
  once and destroys it once; events arrive only in between, and the kernel does not write more than it
  was given.
\<close>

fun conn_allowed :: "tcp_conn \<Rightarrow> conn_op \<Rightarrow> bool" where
  "conn_allowed c CEstablished \<longleftrightarrow> state c = kConnecting"
| "conn_allowed c (CSend msg n) \<longleftrightarrow> n \<le> int (length msg)"
| "conn_allowed c (CPosted msg n) \<longleftrightarrow> n \<le> int (length msg) \<and> (state c = kConnected \<or> state c = kDisconnecting)"
| "conn_allowed c CShutdown \<longleftrightarrow> True"
| "conn_allowed c (CRead res) \<longleftrightarrow> state c = kConnected \<or> state c = kDisconnecting"
| "conn_allowed c (CConsume n) \<longleftrightarrow> n \<le> readableBytes (inputBuffer c)"
| "conn_allowed c (CWrite n) \<longleftrightarrow> n \<le> int (readableBytes (outputBuffer c)) \<and> (state c = kConnected \<or> state c = kDisconnecting)"
| "conn_allowed c CHup \<longleftrightarrow> state c = kConnected \<or> state c = kDisconnecting"
| "conn_allowed c CError \<longleftrightarrow> True"
| "conn_allowed c CDestroyed \<longleftrightarrow> state c = kConnected \<or> state c = kDisconnecting"

fun conn_legal :: "tcp_conn \<Rightarrow> conn_op list \<Rightarrow> bool" where
  "conn_legal c [] \<longleftrightarrow> True"
| "conn_legal c (x # xs) \<longleftrightarrow> conn_allowed c x \<and> (case conn_step c x of None \<Rightarrow> True | Some c' \<Rightarrow> conn_legal c' xs)"

subsection \<open>Invariant\<close>

text \<open>The channel reads as long as the connection is established and has not been closed.\<close>

definition is_up :: "tcp_conn \<Rightarrow> bool" where
  "is_up c \<longleftrightarrow> ch_events c AND kReadEvent \<noteq> 0"

definition conn_inv :: "tcp_conn \<Rightarrow> bool" where
  "conn_inv c \<longleftrightarrow> buf_wf (inputBuffer c) \<and> buf_wf (outputBuffer c)
     \<and> sent c = wire c @ contents (outputBuffer c)
     \<and> (state c = kConnecting \<longrightarrow> ch_events c = 0 \<and> contents (outputBuffer c) = [])
     \<and> (is_up c \<longrightarrow> (conn_isWriting c \<longleftrightarrow> contents (outputBuffer c) \<noteq> []))"

lemmas mask_defs = kReadEvent_def kWriteEvent_def kNoneEvent_def POLLIN_def POLLPRI_def POLLOUT_def

lemma kRead_kWrite: "kReadEvent AND kWriteEvent = 0" "kWriteEvent AND kReadEvent = 0"
    "NOT kWriteEvent AND kReadEvent = kReadEvent" "NOT kWriteEvent AND kWriteEvent = 0"
    "kReadEvent \<noteq> 0" "kWriteEvent \<noteq> 0"
  by (simp_all add: mask_defs)

lemma ch_mask_read [simp]:
  "ch_mask EnableReading ev AND kReadEvent \<noteq> 0"
  "ch_mask EnableWriting ev AND kReadEvent = ev AND kReadEvent"
  "ch_mask DisableWriting ev AND kReadEvent = ev AND kReadEvent"
  "ch_mask DisableAll ev AND kReadEvent = 0"
  using kRead_kWrite by (simp_all add: bit.conj_disj_distrib2 and.assoc kNoneEvent_def)

lemma ch_mask_write [simp]:
  "ch_mask EnableReading ev AND kWriteEvent = ev AND kWriteEvent"
  "ch_mask EnableWriting ev AND kWriteEvent \<noteq> 0"
  "ch_mask DisableWriting ev AND kWriteEvent = 0"
  "ch_mask DisableAll ev AND kWriteEvent = 0"
  using kRead_kWrite by (simp_all add: bit.conj_disj_distrib2 and.assoc kNoneEvent_def)

declare ch_mask.simps [simp del]

lemma chan_op_fields [simp]:
  "state (chan_op c k) = state c" "inputBuffer (chan_op c k) = inputBuffer c"
  "outputBuffer (chan_op c k) = outputBuffer c" "wire (chan_op c k) = wire c" "sent (chan_op c k) = sent c"
  "ch_events (chan_op c k) = ch_mask k (ch_events c)" "hasWriteComplete (chan_op c k) = hasWriteComplete c"
  "calls (chan_op c k) = calls c" "shutdowns (chan_op c k) = shutdowns c" "ch_log (chan_op c k) = ch_log c @ [ChOp k]"
  by (simp_all add: chan_op_def)

lemma call_fields [simp]:
  "state (call c x) = state c" "inputBuffer (call c x) = inputBuffer c"
  "outputBuffer (call c x) = outputBuffer c" "wire (call c x) = wire c" "sent (call c x) = sent c"
  "ch_events (call c x) = ch_events c" "hasWriteComplete (call c x) = hasWriteComplete c"
  "shutdowns (call c x) = shutdowns c" "ch_log (call c x) = ch_log c"
  by (simp_all add: call_def)

lemma shutdownInLoop_fields [simp]:
  "state (shutdownInLoop c) = state c" "inputBuffer (shutdownInLoop c) = inputBuffer c"
  "outputBuffer (shutdownInLoop c) = outputBuffer c" "wire (shutdownInLoop c) = wire c"
  "sent (shutdownInLoop c) = sent c" "ch_events (shutdownInLoop c) = ch_events c"
  "ch_log (shutdownInLoop c) = ch_log c"
  by (simp_all add: shutdownInLoop_def)

lemma conn_inv_ctor [simp]: "conn_inv (TcpConnection_ctor wc)"
  by (simp add: conn_inv_def TcpConnection_ctor_def is_up_def conn_isWriting_def kNoneEvent_def)

text \<open>What an operation does to the channel: nothing, or one operation.\<close>

lemma sendInLoop_ok:
  assumes inv: "conn_inv c" and n: "res \<le> int (length message)" and st: "state c \<noteq> kConnecting"
  shows "\<exists>c'. sendInLoop c message res = Some c' \<and> conn_inv c' \<and> state c' = state c
           \<and> sent c' = sent c @ message
           \<and> (ch_log c' = ch_log c \<and> ch_events c' = ch_events c
              \<or> ch_log c' = ch_log c @ [ChOp EnableWriting] \<and> ch_events c' = ch_mask EnableWriting (ch_events c))"
proof -
  let ?direct = "\<not> conn_isWriting c \<and> readableBytes (outputBuffer c) = 0"
  let ?n = "if ?direct \<and> res \<ge> 0 then nat res else 0"
  from inv have wf: "buf_wf (outputBuffer c)" by (simp add: conn_inv_def)
  from netq.put_law [OF wf, of "drop ?n message"] obtain out where
    out: "buf_append (outputBuffer c) (drop ?n message) = Some out" "buf_wf out"
      "contents out = contents (outputBuffer c) @ drop ?n message" by blast
  have empty: "contents (outputBuffer c) = []" if ?direct
    using that netq.size_of [OF wf] by simp
  show ?thesis
  proof (cases "?n < length message")
    case True
    then have "drop ?n message \<noteq> []" by simp
    with True out inv st empty show ?thesis
      by (cases ?direct)
         (auto simp: sendInLoop_def Let_def conn_inv_def is_up_def conn_isWriting_def)
  next
    case False
    then have "message = [] \<or> ?direct \<and> take ?n message = message" by (auto split: if_splits)
    with False inv st empty show ?thesis
      by (auto simp: sendInLoop_def Let_def conn_inv_def is_up_def conn_isWriting_def)
  qed
qed

lemma handleWrite_ok:
  assumes inv: "conn_inv c" and n: "n \<le> int (readableBytes (outputBuffer c))" and st: "state c \<noteq> kConnecting"
  shows "\<exists>c'. handleWrite c n = Some c' \<and> conn_inv c' \<and> state c' = state c \<and> sent c' = sent c
           \<and> (ch_log c' = ch_log c \<and> ch_events c' = ch_events c
              \<or> ch_log c' = ch_log c @ [ChOp DisableWriting] \<and> ch_events c' = ch_mask DisableWriting (ch_events c))
           \<and> (conn_isWriting c \<and> 0 < n \<longrightarrow>
                 wire c' = wire c @ take (nat n) (contents (outputBuffer c))
                 \<and> contents (outputBuffer c') = drop (nat n) (contents (outputBuffer c))
                 \<and> (shutdowns c' = (if n = int (readableBytes (outputBuffer c)) \<and> state c = kDisconnecting
                                    then shutdowns c + 1 else shutdowns c)))"
proof (cases "conn_isWriting c \<and> n > 0")
  case False
  with inv show ?thesis by (auto simp: handleWrite_def)
next
  case True
  from inv have wf: "buf_wf (outputBuffer c)" by (simp add: conn_inv_def)
  from n True have "nat n \<le> readableBytes (outputBuffer c)" by simp
  from netq.get_law [OF wf this] obtain out where
    out: "retrieve (outputBuffer c) (nat n) = Some out" "buf_wf out" "contents out = drop (nat n) (contents (outputBuffer c))"
    by blast
  have r: "readableBytes out = readableBytes (outputBuffer c) - nat n"
    using netq.size_of [OF wf] netq.size_of [OF out(2)] out(3) by simp
  show ?thesis
  proof (cases "n = int (readableBytes (outputBuffer c))")
    case last: True
    with r have r0: "readableBytes out = 0" "contents out = []" using netq.size_of [OF out(2)] by simp_all
    with True out inv st last show ?thesis
      by (auto simp: handleWrite_def Let_def conn_inv_def is_up_def conn_isWriting_def shutdownInLoop_def)
  next
    case more: False
    with n True r have r0: "readableBytes out \<noteq> 0" "contents out \<noteq> []" using netq.size_of [OF out(2)] by auto
    with True out inv st more show ?thesis
      by (auto simp: handleWrite_def Let_def conn_inv_def is_up_def conn_isWriting_def)
  qed
qed

subsection \<open>The channel contract\<close>

fun mux_call :: "addr \<Rightarrow> chan_call \<Rightarrow> mux_op" where
  "mux_call a (ChOp k) = Update a k"
| "mux_call a ChRemove = Remove a"

definition conn_mux :: "addr \<Rightarrow> int \<Rightarrow> tcp_conn \<Rightarrow> mux_op list" where
  "conn_mux a f c = NewChannel a f # map (mux_call a) (ch_log c)"

definition conn_spec :: "addr \<Rightarrow> int \<Rightarrow> tcp_conn \<Rightarrow> mux_spec" where
  "conn_spec a f c = (case state c of
     kConnecting \<Rightarrow> \<lparr>sp_chans = [a \<mapsto> \<lparr>sp_fd = f, sp_events = 0, sp_fresh = True\<rparr>], sp_reg = Map.empty\<rparr>
   | kDisconnected \<Rightarrow> \<lparr>sp_chans = [a \<mapsto> \<lparr>sp_fd = f, sp_events = ch_events c, sp_fresh = False\<rparr>], sp_reg = Map.empty\<rparr>
   | _ \<Rightarrow> \<lparr>sp_chans = [a \<mapsto> \<lparr>sp_fd = f, sp_events = ch_events c, sp_fresh = False\<rparr>], sp_reg = [f \<mapsto> a]\<rparr>)"

definition chan_ok :: "addr \<Rightarrow> int \<Rightarrow> tcp_conn \<Rightarrow> bool" where
  "chan_ok a f c \<longleftrightarrow> spec_run spec_init (conn_mux a f c) = Some (conn_spec a f c)"

lemma spec_run_append: "spec_run S (xs @ ys) = spec_run S xs \<bind> (\<lambda>S'. spec_run S' ys)"
  by (induction xs arbitrary: S) auto

lemma chan_ok_same:
  "chan_ok a f c \<Longrightarrow> ch_log c' = ch_log c \<Longrightarrow> ch_events c' = ch_events c \<Longrightarrow>
   state c' = state c \<or> state c = kConnected \<and> state c' = kDisconnecting \<Longrightarrow> chan_ok a f c'"
  by (auto simp: chan_ok_def conn_mux_def conn_spec_def split: StateE.splits)

lemma chan_ok_op:
  "chan_ok a f c \<Longrightarrow> state c = kConnected \<or> state c = kDisconnecting \<Longrightarrow> state c' = state c \<Longrightarrow>
   ch_log c' = ch_log c @ [ChOp k] \<Longrightarrow> ch_events c' = ch_mask k (ch_events c) \<Longrightarrow> chan_ok a f c'"
  unfolding chan_ok_def conn_mux_def
  by (auto simp: spec_run_append conn_spec_def simp flip: append_Cons split: StateE.splits)

lemma chan_ok_step:
  assumes "chan_ok a f c" and "state c = kConnected \<or> state c = kDisconnecting" and "state c' = state c"
    and "ch_log c' = ch_log c \<and> ch_events c' = ch_events c
         \<or> ch_log c' = ch_log c @ [ChOp k] \<and> ch_events c' = ch_mask k (ch_events c)"
  shows "chan_ok a f c'"
  using assms(4)
proof
  assume "ch_log c' = ch_log c \<and> ch_events c' = ch_events c"
  with assms show ?thesis by (intro chan_ok_same [OF assms(1)]) auto
next
  assume "ch_log c' = ch_log c @ [ChOp k] \<and> ch_events c' = ch_mask k (ch_events c)"
  with assms show ?thesis by (intro chan_ok_op [OF assms(1,2,3)]) auto
qed

lemma chan_ok_ctor: "0 \<le> f \<Longrightarrow> chan_ok a f (TcpConnection_ctor wc)"
  by (simp add: chan_ok_def conn_mux_def conn_spec_def TcpConnection_ctor_def spec_init_def)

definition conn_good :: "addr \<Rightarrow> int \<Rightarrow> tcp_conn \<Rightarrow> bool" where
  "conn_good a f c \<longleftrightarrow> conn_inv c \<and> chan_ok a f c"

lemma handleClose_ok:
  assumes "conn_good a f c" and "state c = kConnected \<or> state c = kDisconnecting"
  shows "\<exists>c'. handleClose c = Some c' \<and> conn_good a f c'"
proof -
  have "chan_ok a f (call (chan_op c DisableAll) CloseCallback)"
    by (rule chan_ok_op [of a f c]) (use assms in \<open>simp_all add: conn_good_def\<close>)
  with assms show ?thesis
    by (auto simp: handleClose_def Let_def conn_good_def conn_inv_def is_up_def)
qed

lemma connectEstablished_ok:
  assumes "conn_good a f c" and "state c = kConnecting"
  shows "\<exists>c'. connectEstablished c = Some c' \<and> conn_good a f c' \<and> is_up c'"
proof -
  let ?c = "call (chan_op (c\<lparr>state := kConnected\<rparr>) EnableReading) ConnectionCb"
  have "ch_mask EnableReading 0 \<noteq> 0" by (metis and_zero_eq ch_mask_read(1) and.commute)
  with assms have "chan_ok a f ?c"
    by (auto simp: chan_ok_def conn_good_def conn_inv_def conn_mux_def conn_spec_def spec_run_append
        simp flip: append_Cons)
  with assms have "conn_good a f ?c \<and> is_up ?c"
    by (simp add: conn_good_def conn_inv_def is_up_def conn_isWriting_def)
  with assms(2) show ?thesis by (simp add: connectEstablished_def Let_def)
qed

lemma connectDestroyed_ok:
  assumes "conn_good a f c" and "state c = kConnected \<or> state c = kDisconnecting"
  shows "\<exists>c'. connectDestroyed c = Some c' \<and> conn_good a f c'"
proof -
  let ?c = "call (chan_op (c\<lparr>state := kDisconnected\<rparr>) DisableAll) ConnectionCb"
  let ?c' = "?c\<lparr>ch_log := ch_log ?c @ [ChRemove]\<rparr>"
  have "chan_ok a f ?c'"
    using assms unfolding chan_ok_def conn_good_def conn_mux_def
    by (auto simp: spec_run_append conn_spec_def ch_mask.simps kNoneEvent_def simp flip: append_Cons)
  with assms have "conn_good a f ?c'"
    by (auto simp: conn_good_def conn_inv_def is_up_def)
  with assms(2) show ?thesis by (auto simp: connectDestroyed_def Let_def)
qed

lemma sendInLoop_good:
  assumes good: "conn_good a f c" and "n \<le> int (length msg)" and "state c = kConnected \<or> state c = kDisconnecting"
  shows "\<exists>c'. sendInLoop c msg n = Some c' \<and> conn_good a f c'"
proof -
  from sendInLoop_ok [of c n msg] assms obtain c' where c': "sendInLoop c msg n = Some c'" "conn_inv c'"
    "state c' = state c" and log: "ch_log c' = ch_log c \<and> ch_events c' = ch_events c
        \<or> ch_log c' = ch_log c @ [ChOp EnableWriting] \<and> ch_events c' = ch_mask EnableWriting (ch_events c)"
    by (auto simp: conn_good_def)
  with assms chan_ok_step [OF _ assms(3) c'(3) log] show ?thesis by (simp add: conn_good_def)
qed

lemma handleWrite_good:
  assumes good: "conn_good a f c" and "n \<le> int (readableBytes (outputBuffer c))"
    and "state c = kConnected \<or> state c = kDisconnecting"
  shows "\<exists>c'. handleWrite c n = Some c' \<and> conn_good a f c'"
proof -
  from handleWrite_ok [of c n] assms obtain c' where c': "handleWrite c n = Some c'" "conn_inv c'"
    "state c' = state c" and log: "ch_log c' = ch_log c \<and> ch_events c' = ch_events c
        \<or> ch_log c' = ch_log c @ [ChOp DisableWriting] \<and> ch_events c' = ch_mask DisableWriting (ch_events c)"
    by (auto simp: conn_good_def)
  with assms chan_ok_step [OF _ assms(3) c'(3) log] show ?thesis by (simp add: conn_good_def)
qed

lemma conn_step_ok:
  assumes good: "conn_good a f c" and al: "conn_allowed c x"
  shows "\<exists>c'. conn_step c x = Some c' \<and> conn_good a f c'"
proof (cases x)
  case CEstablished
  with connectEstablished_ok [OF good] al show ?thesis by auto
next
  case (CSend msg n)
  show ?thesis
  proof (cases "state c = kConnected")
    case True
    with sendInLoop_good [OF good, of n msg] al CSend show ?thesis by (simp add: conn_send_def)
  next
    case False
    with CSend good show ?thesis by (simp add: conn_send_def)
  qed
next
  case (CPosted msg n)
  with sendInLoop_good [OF good, of n msg] al show ?thesis by simp
next
  case CShutdown
  have "chan_ok a f (conn_shutdown c)"
    by (rule chan_ok_same [of a f c]) (use good in \<open>auto simp: conn_good_def conn_shutdown_def\<close>)
  with CShutdown good show ?thesis
    by (auto simp: conn_good_def conn_shutdown_def conn_inv_def is_up_def conn_isWriting_def)
next
  case (CRead res)
  have wf: "buf_wf (inputBuffer c)" using good by (simp add: conn_good_def conn_inv_def)
  show ?thesis
  proof (cases res)
    case (IoError e)
    with CRead good show ?thesis by (simp add: conn_handleRead_def readFd_def handleError_def)
  next
    case (IoBytes bs)
    from readFd_ok [OF wf, of bs] obtain b where
      b: "readFd (inputBuffer c) (IoBytes bs) = Some (b, int (length bs), None)" "buf_wf b" by blast
    let ?c = "c\<lparr>inputBuffer := b\<rparr>"
    have g: "conn_good a f ?c" "conn_good a f (call ?c MessageCb)"
      using good b(2) chan_ok_same [of a f c] by (auto simp: conn_good_def conn_inv_def is_up_def conn_isWriting_def)
    with CRead IoBytes b handleClose_ok [OF g(1)] al show ?thesis by (auto simp: conn_handleRead_def Let_def)
  qed
next
  case (CConsume n)
  have wf: "buf_wf (inputBuffer c)" using good by (simp add: conn_good_def conn_inv_def)
  from netq.get_law [OF wf] al CConsume obtain b where b: "retrieve (inputBuffer c) n = Some b" "buf_wf b" by auto
  with good chan_ok_same [of a f c "c\<lparr>inputBuffer := b\<rparr>"] have "conn_good a f (c\<lparr>inputBuffer := b\<rparr>)"
    by (auto simp: conn_good_def conn_inv_def is_up_def conn_isWriting_def)
  with CConsume b show ?thesis by auto
next
  case (CWrite n)
  with handleWrite_good [OF good] al show ?thesis by simp
next
  case CHup
  with handleClose_ok [OF good] al show ?thesis by auto
next
  case CError
  with good show ?thesis by (simp add: handleError_def)
next
  case CDestroyed
  with connectDestroyed_ok [OF good] al show ?thesis by auto
qed

lemma conn_run_ok:
  "conn_good a f c \<Longrightarrow> conn_legal c xs \<Longrightarrow> \<exists>c'. conn_run c xs = Some c' \<and> conn_good a f c'"
proof (induction xs arbitrary: c)
  case Nil
  then show ?case by simp
next
  case (Cons x xs)
  from conn_step_ok [OF Cons.prems(1), of x] Cons.prems(2) obtain c1 where
    c1: "conn_step c x = Some c1" "conn_good a f c1" by auto
  with Cons.IH [OF c1(2)] Cons.prems(2) show ?case by simp
qed

subsection \<open>Properties\<close>

lemma conn_good_ctor: "0 \<le> f \<Longrightarrow> conn_good a f (TcpConnection_ctor wc)"
  by (simp add: conn_good_def chan_ok_ctor)

text \<open>
  Claim C9. The output of a connection is a reliable stream: in every run of a connection
  (sends from its own thread and from others, partial and failing writes, reads, shutdown,
  close) no assertion fails, and the bytes handed to the kernel, followed by the bytes still in the
  output buffer, are the bytes sent, in order; while the connection is up, it waits for
  writability exactly when bytes are left, so nothing is forgotten.
\<close>

theorem connection_stream:
  assumes "conn_legal (TcpConnection_ctor wc) ops"
  shows "\<exists>c. conn_run (TcpConnection_ctor wc) ops = Some c
           \<and> wire c @ contents (outputBuffer c) = sent c
           \<and> (is_up c \<longrightarrow> (conn_isWriting c \<longleftrightarrow> contents (outputBuffer c) \<noteq> []))"
  using conn_run_ok [OF conn_good_ctor [of 0 0 wc] assms] by (auto simp: conn_good_def conn_inv_def)

theorem connection_stream_witness:
  "\<exists>c. conn_run (TcpConnection_ctor True)
         [CEstablished, CSend [1, 2, 3] 1, CShutdown, CPosted [4] 0, CWrite 2, CWrite 1] = Some c
     \<and> wire c = [1, 2, 3, 4] \<and> wire c @ contents (outputBuffer c) = sent c"
proof -
  let ?ops = "[CEstablished, CSend [1, 2, 3] 1, CShutdown, CPosted [4] 0, CWrite 2, CWrite 1]"
  have leg: "conn_legal (TcpConnection_ctor True) ?ops" by code_simp
  have "map_option wire (conn_run (TcpConnection_ctor True) ?ops) = Some [1, 2, 3, 4]" by code_simp
  with connection_stream [OF leg] show ?thesis by auto
qed



lemma flush_run:
  "conn_inv c \<Longrightarrow> is_up c \<Longrightarrow> state c = kDisconnecting \<Longrightarrow> contents (outputBuffer c) \<noteq> [] \<Longrightarrow>
   \<forall>n\<in>set ns. 0 < n \<Longrightarrow> sum_list ns = int (length (contents (outputBuffer c))) \<Longrightarrow>
   \<exists>c'. conn_run c (map CWrite ns) = Some c' \<and> conn_inv c' \<and> is_up c' \<and> contents (outputBuffer c') = []
      \<and> wire c' = sent c \<and> shutdowns c' = shutdowns c + 1"
proof (induction ns arbitrary: c)
  case Nil
  then show ?case by simp
next
  case (Cons n ns)
  have wf: "buf_wf (outputBuffer c)" using Cons.prems(1) by (simp add: conn_inv_def)
  have nn: "0 \<le> sum_list ns" using Cons.prems(5) by (intro sum_list_nonneg) auto
  have le: "n \<le> int (readableBytes (outputBuffer c))" "0 < n"
    using Cons.prems(5,6) nn netq.size_of [OF wf] by auto
  have wr: "conn_isWriting c" using Cons.prems by (simp add: conn_inv_def)
  from handleWrite_ok [OF Cons.prems(1) le(1)] Cons.prems(3) wr le(2) obtain c1 where
    c1: "handleWrite c n = Some c1" "conn_inv c1" "state c1 = kDisconnecting" "sent c1 = sent c"
      "contents (outputBuffer c1) = drop (nat n) (contents (outputBuffer c))"
      "shutdowns c1 = (if n = int (readableBytes (outputBuffer c)) then shutdowns c + 1 else shutdowns c)"
      "ch_events c1 = ch_events c \<or> ch_events c1 = ch_mask DisableWriting (ch_events c)"
    by auto
  have up: "is_up c1" using c1(7) Cons.prems(2) by (auto simp: is_up_def)
  show ?case
  proof (cases "ns = []")
    case True
    with Cons.prems(6) have "n = int (length (contents (outputBuffer c)))" by simp
    with True c1 up netq.size_of [OF wf] show ?thesis by (auto simp: conn_inv_def)
  next
    case False
    with Cons.prems(5) obtain m ms where "ns = m # ms" "0 < m" by (cases ns) auto
    with Cons.prems(5) have pos: "0 < sum_list ns" using sum_list_nonneg [of ms] by force
    have len: "int (length (contents (outputBuffer c1))) = sum_list ns"
      using c1(5) Cons.prems(6) le(2) pos by (simp add: of_nat_diff)
    with pos have "contents (outputBuffer c1) \<noteq> []" by auto
    with Cons.IH [OF c1(2) up c1(3)] Cons.prems(5) len c1 pos Cons.prems(6) netq.size_of [OF wf] show ?thesis
      by auto
  qed
qed

text \<open>
  Claim C11. Shutdown is graceful: a connection that is shut down with unsent output keeps
  sending; for every way in which \<open>write\<close> then takes the remaining bytes in positive chunks,
  all bytes sent reach the kernel, after which \<open>shutdownWrite\<close> is called, once, and the
  connection stops waiting for writability.
\<close>

theorem graceful_shutdown:
  assumes "conn_legal (TcpConnection_ctor wc) ops" and "conn_run (TcpConnection_ctor wc) ops = Some c"
    and "is_up c" and "state c = kConnected" and "contents (outputBuffer c) \<noteq> []"
    and "\<forall>n\<in>set ns. 0 < n" and "sum_list ns = int (length (contents (outputBuffer c)))"
  shows "\<exists>c'. conn_run c (CShutdown # map CWrite ns) = Some c' \<and> wire c' = sent c
           \<and> contents (outputBuffer c') = [] \<and> \<not> conn_isWriting c' \<and> shutdowns c' = shutdowns c + 1"
proof -
  have inv: "conn_inv c"
    using conn_run_ok [OF conn_good_ctor [of 0 0 wc] assms(1)] assms(2) by (auto simp: conn_good_def)
  have wr: "conn_isWriting c" using inv assms(3,5) by (simp add: conn_inv_def)
  let ?c = "c\<lparr>state := kDisconnecting\<rparr>"
  have sh: "conn_shutdown c = ?c"
    using wr assms(4) by (simp add: conn_shutdown_def shutdownInLoop_def conn_isWriting_def)
  have "conn_inv ?c" using inv by (simp add: conn_inv_def is_up_def conn_isWriting_def)
  from flush_run [OF this, of ns] assms(3,5-7) obtain c' where
    "conn_run ?c (map CWrite ns) = Some c'" "conn_inv c'" "is_up c'" "contents (outputBuffer c') = []"
    "wire c' = sent c" "shutdowns c' = shutdowns c + 1"
    by (auto simp: is_up_def)
  then show ?thesis unfolding conn_run.simps conn_step.simps sh by (auto simp: conn_inv_def)
qed

theorem graceful_shutdown_witness:
  "\<exists>c c'. conn_run (TcpConnection_ctor False) [CEstablished, CSend [1, 2, 3] 0] = Some c
     \<and> conn_run c [CShutdown, CWrite 1, CWrite 2] = Some c' \<and> wire c' = [1, 2, 3] \<and> shutdowns c' = 1"
proof -
  let ?ops = "[CEstablished, CSend [1, 2, 3] 0]"
  have leg: "conn_legal (TcpConnection_ctor False) ?ops" by code_simp
  have "map_option (\<lambda>c. (is_up c, state c, contents (outputBuffer c), sent c, shutdowns c)) (conn_run (TcpConnection_ctor False) ?ops)
      = Some (True, kConnected, [1, 2, 3], [1, 2, 3], 0)" by code_simp
  then obtain c where c: "conn_run (TcpConnection_ctor False) ?ops = Some c" "is_up c" "state c = kConnected"
    "contents (outputBuffer c) = [1, 2, 3]" "sent c = [1, 2, 3]" "shutdowns c = 0" by auto
  with graceful_shutdown [OF leg c(1,2,3), of "[1, 2]"] show ?thesis by auto
qed

text \<open>
  Claim C12. A message posted by another thread while the connection was up can be run
  after \<open>connectDestroyed\<close>: \<open>sendInLoop\<close> does not test the state, so an undeliverable message
  makes it enable writing on a channel that was removed, which breaks the channel contract.
\<close>

theorem posted_send_after_destroy:
  assumes "0 \<le> f" and "conn_legal (TcpConnection_ctor wc) ops" and "conn_run (TcpConnection_ctor wc) ops = Some c"
    and "state c = kConnected \<or> state c = kDisconnecting" and "message \<noteq> []"
  shows "\<exists>c1 c2. conn_step c CDestroyed = Some c1 \<and> conn_step c1 (CPosted message (-1)) = Some c2
           \<and> conn_isWriting c2 \<and> spec_run spec_init (conn_mux a f c2) = None"
proof -
  have good: "conn_good a f c"
    using conn_run_ok [OF conn_good_ctor [OF assms(1), of a wc] assms(2)] assms(3) by auto
  from connectDestroyed_ok [OF this assms(4)] obtain c1 where
    c1: "connectDestroyed c = Some c1" "conn_good a f c1" by blast
  from c1(1) have st: "state c1 = kDisconnected" "ch_events c1 = 0"
    by (auto simp: connectDestroyed_def Let_def check_simps ch_mask.simps kNoneEvent_def split: if_splits)
  have wf: "buf_wf (outputBuffer c1)" using c1(2) by (simp add: conn_good_def conn_inv_def)
  from netq.put_law [OF wf, of message] obtain out where out: "buf_append (outputBuffer c1) message = Some out" by blast
  let ?c2 = "chan_op (c1\<lparr>sent := sent c1 @ message, outputBuffer := out\<rparr>) EnableWriting"
  have "sendInLoop c1 message (-1) = Some ?c2"
    using out assms(5) st(2) by (auto simp: sendInLoop_def Let_def conn_isWriting_def)
  moreover have "conn_isWriting ?c2" by (simp add: conn_isWriting_def)
  moreover have "spec_run spec_init (conn_mux a f ?c2) = None"
    using c1(2) st unfolding conn_good_def chan_ok_def conn_mux_def
    by (simp add: spec_run_append conn_spec_def flip: append_Cons)
  ultimately show ?thesis using c1(1) by auto
qed

theorem posted_send_after_destroy_witness:
  "\<exists>c c1 c2. conn_run (TcpConnection_ctor False) [CEstablished] = Some c
     \<and> conn_step c CDestroyed = Some c1 \<and> conn_step c1 (CPosted [1] (-1)) = Some c2
     \<and> spec_run spec_init (conn_mux 1 5 c2) = None"
proof -
  have leg: "conn_legal (TcpConnection_ctor False) [CEstablished]" by code_simp
  have "map_option state (conn_run (TcpConnection_ctor False) [CEstablished]) = Some kConnected" by code_simp
  then obtain c where c: "conn_run (TcpConnection_ctor False) [CEstablished] = Some c" "state c = kConnected" by auto
  with posted_send_after_destroy [OF _ leg c(1), of 5 "[1]" 1] show ?thesis by auto
qed

end
