(* ===== verification/Servers.thy ===== *)
theory Servers
  imports Prelude
begin

text \<open>
  \<^verbatim>\<open>reactor/s13/EventLoopThreadPool.cc\<close>, \<^verbatim>\<open>Acceptor.cc\<close>, \<^verbatim>\<open>SocketsOps.cc\<close> (\<open>accept\<close>) and
  \<^verbatim>\<open>TcpServer.cc\<close>: the side of a server that runs in the acceptor's loop.

  An event loop is an address.  The loops that \<open>EventLoopThread::startLoop\<close> returns, the results of
  \<open>accept4\<close> and its \<open>errno\<close> are arguments.  \<open>runInLoop\<close> and \<open>queueInLoop\<close> of another
  loop are recorded in \<open>posted\<close>, in order.  \<open>nextConnId_\<close> is an \<open>int\<close> of the
  source; the model counts without overflow, that is for the first \<open>2^31 - 2\<close> connections.
\<close>

subsection \<open>EventLoopThreadPool\<close>

record loop_pool =
  baseLoop :: addr
  pool_started :: bool
  numThreads :: int
  next_loop :: nat
  loops :: "addr list"

definition EventLoopThreadPool_ctor :: "addr \<Rightarrow> loop_pool" where
  "EventLoopThreadPool_ctor base = \<lparr>baseLoop = base, pool_started = False, numThreads = 0, next_loop = 0, loops = []\<rparr>"

definition pool_setThreadNum :: "loop_pool \<Rightarrow> int \<Rightarrow> loop_pool" where
  "pool_setThreadNum p n = p\<lparr>numThreads := n\<rparr>"

fun startLoops :: "(nat \<Rightarrow> addr) \<Rightarrow> nat \<Rightarrow> nat \<Rightarrow> addr list" where
  "startLoops startLoop i 0 = []"
| "startLoops startLoop i (Suc k) = startLoop i # startLoops startLoop (i + 1) k"

definition pool_start :: "loop_pool \<Rightarrow> (nat \<Rightarrow> addr) \<Rightarrow> loop_pool option" where
  "pool_start p startLoop = do {
     check (\<not> pool_started p);
     Some (p\<lparr>pool_started := True, loops := loops p @ startLoops startLoop 0 (nat (numThreads p))\<rparr>) }"

definition getNextLoop :: "loop_pool \<Rightarrow> addr \<times> loop_pool" where
  "getNextLoop p =
     (if loops p \<noteq> []
      then let loop = loops p ! next_loop p;
               n = next_loop p + 1;
               n = (if n \<ge> length (loops p) then 0 else n)
           in (loop, p\<lparr>next_loop := n\<rparr>)
      else (baseLoop p, p))"

fun getNextLoops :: "nat \<Rightarrow> loop_pool \<Rightarrow> addr list \<times> loop_pool" where
  "getNextLoops 0 p = ([], p)"
| "getNextLoops (Suc k) p = (let (l, p1) = getNextLoop p; (ls, p2) = getNextLoops k p1 in (l # ls, p2))"

definition pool_wf :: "loop_pool \<Rightarrow> bool" where
  "pool_wf p \<longleftrightarrow> next_loop p = 0 \<or> next_loop p < length (loops p)"

lemma getNextLoop_wf: "pool_wf p \<Longrightarrow> pool_wf (snd (getNextLoop p))"
  by (auto simp: pool_wf_def getNextLoop_def Let_def)

lemma getNextLoop_fields [simp]:
  "loops (snd (getNextLoop p)) = loops p" "baseLoop (snd (getNextLoop p)) = baseLoop p"
  by (simp_all add: getNextLoop_def Let_def)

lemma getNextLoop_eq:
  assumes "pool_wf p" and "loops p \<noteq> []"
  shows "getNextLoop p = (loops p ! next_loop p, p\<lparr>next_loop := (next_loop p + 1) mod length (loops p)\<rparr>)"
proof -
  have "next_loop p < length (loops p)" using assms by (auto simp: pool_wf_def)
  then show ?thesis using assms(2) by (auto simp: getNextLoop_def Let_def not_less le_Suc_eq)
qed

lemma getNextLoops_round_robin:
  "pool_wf p \<Longrightarrow> loops p \<noteq> [] \<Longrightarrow>
   getNextLoops k p = (map (\<lambda>i. loops p ! ((next_loop p + i) mod length (loops p))) [0..<k],
                       p\<lparr>next_loop := (next_loop p + k) mod length (loops p)\<rparr>)"
proof (induction k arbitrary: p)
  case 0
  then have "next_loop p < length (loops p)" by (auto simp: pool_wf_def)
  then show ?case by simp
next
  case (Suc k)
  let ?n = "length (loops p)"
  let ?p = "p\<lparr>next_loop := (next_loop p + 1) mod ?n\<rparr>"
  have "pool_wf ?p" using Suc.prems(2) by (simp add: pool_wf_def)
  with Suc.IH [of ?p] Suc.prems(2) have
    ih: "getNextLoops k ?p = (map (\<lambda>i. loops p ! (((next_loop p + 1) mod ?n + i) mod ?n)) [0..<k],
                              p\<lparr>next_loop := ((next_loop p + 1) mod ?n + k) mod ?n\<rparr>)" by simp
  have "next_loop p mod ?n = next_loop p" using Suc.prems by (auto simp: pool_wf_def)
  moreover have "map (\<lambda>i. loops p ! ((next_loop p + i) mod ?n)) [0..<Suc k]
      = loops p ! (next_loop p mod ?n) # map (\<lambda>i. loops p ! ((next_loop p + Suc i) mod ?n)) [0..<k]"
    by (simp only: upt_conv_Cons [OF zero_less_Suc] list.map map_Suc_upt [symmetric] map_map) simp
  ultimately show ?case
    using ih getNextLoop_eq [OF Suc.prems] by (simp add: mod_simps del: upt_Suc)
qed

subsection \<open>Acceptor\<close>

datatype errno_class = Expected | Unexpected

definition accept_errno :: "int \<Rightarrow> errno_class" where
  "accept_errno e =
     (if e = 11 \<comment> \<open>EAGAIN\<close> \<or> e = 103 \<comment> \<open>ECONNABORTED\<close> \<or> e = 4 \<comment> \<open>EINTR\<close>
         \<or> e = 71 \<comment> \<open>EPROTO\<close> \<or> e = 1 \<comment> \<open>EPERM\<close> \<or> e = 24 \<comment> \<open>EMFILE\<close>
      then Expected else Unexpected)"

text \<open>\<open>LOG_FATAL\<close> aborts the process: \<open>None\<close>.\<close>

definition sockets_accept :: "int \<Rightarrow> int \<Rightarrow> int option" where
  "sockets_accept connfd savedErrno =
     (if connfd < 0 then (case accept_errno savedErrno of Expected \<Rightarrow> Some connfd | Unexpected \<Rightarrow> None)
      else Some connfd)"

record acceptor =
  listenning :: bool
  sock_listening :: bool       \<comment> \<open>\<open>acceptSocket_.listen()\<close> was called\<close>
  acc_reading :: bool          \<comment> \<open>\<open>acceptChannel_\<close> waits for readability\<close>
  hasNewConnectionCallback :: bool
  acc_closed :: "int list"

definition acc_listen :: "acceptor \<Rightarrow> acceptor" where
  "acc_listen a = a\<lparr>listenning := True, sock_listening := True, acc_reading := True\<rparr>"

text \<open>The descriptor to hand to the callback, if any.\<close>

definition acc_handleRead :: "acceptor \<Rightarrow> int \<Rightarrow> int \<Rightarrow> (acceptor \<times> int option) option" where
  "acc_handleRead a fd4 savedErrno = do {
     connfd \<leftarrow> sockets_accept fd4 savedErrno;
     Some (if connfd \<ge> 0
           then if hasNewConnectionCallback a then (a, Some connfd)
                else (a\<lparr>acc_closed := acc_closed a @ [connfd]\<rparr>, None)
           else (a, None)) }"

subsection \<open>TcpServer\<close>

record server_conn =
  conn_name :: string
  conn_loop :: addr
  conn_fd :: int

datatype post_call = PostEstablished server_conn | PostDestroyed server_conn

record tcp_server =
  server_name :: string
  serv_started :: bool
  nextConnId :: nat
  threadPool :: loop_pool
  serv_acceptor :: acceptor
  connections :: "string \<rightharpoonup> server_conn"
  posted :: "(addr \<times> post_call) list"

definition TcpServer_ctor :: "addr \<Rightarrow> string \<Rightarrow> tcp_server" where
  "TcpServer_ctor loop hostport = \<lparr>server_name = hostport, serv_started = False, nextConnId = 1,
     threadPool = EventLoopThreadPool_ctor loop,
     serv_acceptor = \<lparr>listenning = False, sock_listening = False, acc_reading = False, hasNewConnectionCallback = True, acc_closed = []\<rparr>,
     connections = Map.empty, posted = []\<rparr>"

definition serv_setThreadNum :: "tcp_server \<Rightarrow> int \<Rightarrow> tcp_server option" where
  "serv_setThreadNum s n = do { check (0 \<le> n); Some (s\<lparr>threadPool := pool_setThreadNum (threadPool s) n\<rparr>) }"

definition serv_start :: "tcp_server \<Rightarrow> (nat \<Rightarrow> addr) \<Rightarrow> tcp_server option" where
  "serv_start s startLoop = do {
     s1 \<leftarrow> (if \<not> serv_started s
            then do { p \<leftarrow> pool_start (threadPool s) startLoop; Some (s\<lparr>serv_started := True, threadPool := p\<rparr>) }
            else Some s);
     Some (if \<not> listenning (serv_acceptor s1)
           then s1\<lparr>serv_acceptor := acc_listen (serv_acceptor s1)\<rparr> else s1) }"

definition newConnection :: "tcp_server \<Rightarrow> int \<Rightarrow> tcp_server" where
  "newConnection s sockfd =
     (let buf = ''#'' @ decimal (nextConnId s);
          connName = server_name s @ buf;
          (ioLoop, pool) = getNextLoop (threadPool s);
          conn = \<lparr>conn_name = connName, conn_loop = ioLoop, conn_fd = sockfd\<rparr>
      in s\<lparr>nextConnId := nextConnId s + 1, threadPool := pool,
           connections := (connections s)(connName \<mapsto> conn),
           posted := posted s @ [(ioLoop, PostEstablished conn)]\<rparr>)"

definition removeConnectionInLoop :: "tcp_server \<Rightarrow> server_conn \<Rightarrow> tcp_server option" where
  "removeConnectionInLoop s conn = do {
     check (connections s (conn_name conn) \<noteq> None);
     Some (s\<lparr>connections := (connections s)(conn_name conn := None),
            posted := posted s @ [(conn_loop conn, PostDestroyed conn)]\<rparr>) }"

text \<open>
  A run of the acceptor's loop: a connection is accepted, or the close callback of a connection
  asks for its removal, which each connection does once.
\<close>

datatype serv_op = Accepted int | Closed server_conn

fun serv_step :: "tcp_server \<Rightarrow> serv_op \<Rightarrow> tcp_server option" where
  "serv_step s (Accepted sockfd) = Some (newConnection s sockfd)"
| "serv_step s (Closed conn) = removeConnectionInLoop s conn"

fun serv_run :: "tcp_server \<Rightarrow> serv_op list \<Rightarrow> tcp_server option" where
  "serv_run s [] = Some s"
| "serv_run s (x # xs) = do { s' \<leftarrow> serv_step s x; serv_run s' xs }"

fun serv_legal :: "tcp_server \<Rightarrow> serv_op list \<Rightarrow> bool" where
  "serv_legal s [] = True"
| "serv_legal s (x # xs) = ((case x of Closed conn \<Rightarrow> connections s (conn_name conn) = Some conn | _ \<Rightarrow> True)
     \<and> (case serv_step s x of None \<Rightarrow> True | Some s' \<Rightarrow> serv_legal s' xs))"

definition is_server_name :: "tcp_server \<Rightarrow> string \<Rightarrow> nat \<Rightarrow> bool" where
  "is_server_name s n i \<longleftrightarrow> n = server_name s @ ''#'' @ decimal i"

text \<open>The calls posted for one connection, in order.\<close>

fun post_conn :: "addr \<times> post_call \<Rightarrow> server_conn" where
  "post_conn (l, PostEstablished c) = c"
| "post_conn (l, PostDestroyed c) = c"

definition posted_for :: "tcp_server \<Rightarrow> server_conn \<Rightarrow> (addr \<times> post_call) list" where
  "posted_for s c = filter (\<lambda>p. post_conn p = c) (posted s)"

definition serv_inv :: "tcp_server \<Rightarrow> bool" where
  "serv_inv s \<longleftrightarrow>
     (\<forall>n c. connections s n = Some c \<longrightarrow> conn_name c = n)
     \<and> (\<forall>p\<in>set (posted s). \<exists>i<nextConnId s. is_server_name s (conn_name (post_conn p)) i)
     \<and> (\<forall>p\<in>set (posted s). \<forall>q\<in>set (posted s). conn_name (post_conn p) = conn_name (post_conn q)
          \<longrightarrow> post_conn p = post_conn q)
     \<and> (\<forall>c. connections s (conn_name c) = Some c \<longrightarrow> posted_for s c = [(conn_loop c, PostEstablished c)])
     \<and> (\<forall>c. connections s (conn_name c) \<noteq> Some c \<longrightarrow>
          posted_for s c \<in> {[], [(conn_loop c, PostEstablished c), (conn_loop c, PostDestroyed c)]})"

lemma serv_inv_gone:
  "serv_inv s \<Longrightarrow> connections s (conn_name c) \<noteq> Some c \<Longrightarrow>
   posted_for s c \<in> {[], [(conn_loop c, PostEstablished c), (conn_loop c, PostDestroyed c)]}"
  unfolding serv_inv_def by blast

lemma serv_inv_live:
  "serv_inv s \<Longrightarrow> connections s (conn_name c) = Some c \<Longrightarrow> posted_for s c = [(conn_loop c, PostEstablished c)]"
  unfolding serv_inv_def by blast

lemma serv_inv_uniq:
  "serv_inv s \<Longrightarrow> p \<in> set (posted s) \<Longrightarrow> q \<in> set (posted s) \<Longrightarrow>
   conn_name (post_conn p) = conn_name (post_conn q) \<Longrightarrow> post_conn p = post_conn q"
  unfolding serv_inv_def by blast

lemma posted_for_Nil: "c \<notin> post_conn ` set (posted s) \<Longrightarrow> posted_for s c = []"
  by (auto simp: posted_for_def filter_empty_conv)

lemma posted_for_mem: "posted_for s c \<noteq> [] \<Longrightarrow> c \<in> post_conn ` set (posted s)"
  using posted_for_Nil by blast

lemma serv_inv_ctor: "serv_inv (TcpServer_ctor loop hostport)"
  by (simp add: serv_inv_def TcpServer_ctor_def posted_for_def)

lemma serv_inv_new:
  assumes inv: "serv_inv s"
  shows "serv_inv (newConnection s sockfd)"
proof -
  obtain l pool where gl: "getNextLoop (threadPool s) = (l, pool)" by force
  let ?n = "server_name s @ ''#'' @ decimal (nextConnId s)"
  let ?c = "\<lparr>conn_name = ?n, conn_loop = l, conn_fd = sockfd\<rparr>"
  let ?s = "newConnection s sockfd"
  have s': "connections ?s = (connections s)(?n \<mapsto> ?c)" "posted ?s = posted s @ [(l, PostEstablished ?c)]"
    "nextConnId ?s = nextConnId s + 1" "server_name ?s = server_name s"
    by (simp_all add: newConnection_def gl Let_def)
  have fresh: "conn_name (post_conn p) \<noteq> ?n" if "p \<in> set (posted s)" for p
  proof -
    from inv that obtain i where "i < nextConnId s" "conn_name (post_conn p) = server_name s @ ''#'' @ decimal i"
      unfolding serv_inv_def is_server_name_def by blast
    then show ?thesis by auto
  qed
  have new: "posted_for s c = []" if "conn_name c = ?n" for c
    using fresh that by (auto intro: posted_for_Nil)
  have pf: "posted_for ?s c = (if c = ?c then [(l, PostEstablished ?c)] else posted_for s c)" for c
    using new [of ?c] by (auto simp: posted_for_def s')
  show ?thesis
    unfolding serv_inv_def
  proof (intro conjI allI impI ballI)
    show "conn_name c = n" if "connections ?s n = Some c" for n c
      using that inv unfolding s' serv_inv_def by (auto split: if_splits)
    show "\<exists>i<nextConnId ?s. is_server_name ?s (conn_name (post_conn p)) i" if "p \<in> set (posted ?s)" for p
      using that inv unfolding s' serv_inv_def is_server_name_def by (auto simp: less_Suc_eq)
    show "post_conn p = post_conn q" if "p \<in> set (posted ?s)" "q \<in> set (posted ?s)"
      "conn_name (post_conn p) = conn_name (post_conn q)" for p q
      using that serv_inv_uniq [OF inv, of p q] fresh [of p] fresh [of q] unfolding s' by auto
    show "posted_for ?s c = [(conn_loop c, PostEstablished c)]" if "connections ?s (conn_name c) = Some c" for c
      using that serv_inv_live [OF inv, of c] unfolding pf s' by (auto split: if_splits)
    show "posted_for ?s c \<in> {[], [(conn_loop c, PostEstablished c), (conn_loop c, PostDestroyed c)]}"
      if "connections ?s (conn_name c) \<noteq> Some c" for c
    proof (cases "conn_name c = ?n")
      case True
      with that s'(1) have "c \<noteq> ?c" by auto
      with new [OF True] show ?thesis by (simp add: pf)
    next
      case False
      with that s'(1) have "connections s (conn_name c) \<noteq> Some c" "c \<noteq> ?c" by auto
      with serv_inv_gone [OF inv this(1)] show ?thesis by (simp only: pf if_False)
    qed
  qed
qed

lemma serv_inv_remove:
  assumes inv: "serv_inv s" and live: "connections s (conn_name c) = Some c"
  shows "\<exists>s'. removeConnectionInLoop s c = Some s' \<and> serv_inv s'"
proof -
  let ?s = "s\<lparr>connections := (connections s)(conn_name c := None),
              posted := posted s @ [(conn_loop c, PostDestroyed c)]\<rparr>"
  have pc: "posted_for s c = [(conn_loop c, PostEstablished c)]" using inv live unfolding serv_inv_def by blast
  then have cm: "c \<in> post_conn ` set (posted s)" by (intro posted_for_mem) simp
  have pf: "posted_for ?s d = (if d = c then posted_for s c @ [(conn_loop c, PostDestroyed c)] else posted_for s d)" for d
    by (auto simp: posted_for_def)
  have "serv_inv ?s"
    unfolding serv_inv_def
  proof (intro conjI allI impI ballI)
    show "conn_name d = n" if "connections ?s n = Some d" for n d
      using that inv unfolding serv_inv_def by (auto split: if_splits)
    show "\<exists>i<nextConnId ?s. is_server_name ?s (conn_name (post_conn p)) i" if "p \<in> set (posted ?s)" for p
      using that inv cm unfolding serv_inv_def is_server_name_def by auto
    show "post_conn p = post_conn q" if "p \<in> set (posted ?s)" "q \<in> set (posted ?s)"
      "conn_name (post_conn p) = conn_name (post_conn q)" for p q
    proof -
      have "post_conn p \<in> post_conn ` set (posted s)" "post_conn q \<in> post_conn ` set (posted s)"
        using that cm by auto
      with that(3) serv_inv_uniq [OF inv] show ?thesis by (metis imageE)
    qed
    show "posted_for ?s d = [(conn_loop d, PostEstablished d)]" if "connections ?s (conn_name d) = Some d" for d
      using that serv_inv_live [OF inv, of d] unfolding pf by (auto split: if_splits)
    show "posted_for ?s d \<in> {[], [(conn_loop d, PostEstablished d), (conn_loop d, PostDestroyed d)]}"
      if "connections ?s (conn_name d) \<noteq> Some d" for d
    proof (cases "d = c")
      case True
      with pc show ?thesis by (simp add: pf)
    next
      case False
      then have "connections s (conn_name d) \<noteq> Some d" using that live by (auto split: if_splits)
      with False serv_inv_gone [OF inv this] show ?thesis by (simp only: pf if_False)
    qed
  qed
  with live show ?thesis by (auto simp: removeConnectionInLoop_def)
qed

lemma serv_run_ok: "serv_inv s \<Longrightarrow> serv_legal s xs \<Longrightarrow> \<exists>s'. serv_run s xs = Some s' \<and> serv_inv s'"
proof (induction xs arbitrary: s)
  case Nil
  then show ?case by simp
next
  case (Cons x xs)
  have "\<exists>s1. serv_step s x = Some s1 \<and> serv_inv s1"
    using Cons.prems serv_inv_new serv_inv_remove by (cases x) auto
  with Cons show ?case by auto
qed

subsection \<open>Properties\<close>



text \<open>
  Loops are handed out round-robin: \<open>k\<close> calls of \<open>getNextLoop\<close> on a pool that
  was started with \<open>n > 0\<close> threads return loop \<open>i mod n\<close> for the \<open>i\<close>-th call; with no
  threads every call returns the base loop.
\<close>

lemma pool_round_robin:
  assumes "pool_start (pool_setThreadNum (EventLoopThreadPool_ctor base) n) startLoop = Some p"
  shows "fst (getNextLoops k p) =
           (if 0 < n then map (\<lambda>i. startLoop (i mod nat n)) [0..<k] else replicate k base)"
proof -
  have sl: "startLoops startLoop i m = map startLoop [i..<i + m]" for i m
    by (induction m arbitrary: i) (simp_all add: upt_conv_Cons del: upt_Suc)
  have p: "loops p = map startLoop [0..<nat n]" "next_loop p = 0" "baseLoop p = base"
    using assms by (auto simp: pool_start_def pool_setThreadNum_def EventLoopThreadPool_ctor_def sl)
  show ?thesis
  proof (cases "0 < n")
    case True
    with p getNextLoops_round_robin [of p k] show ?thesis by (simp add: pool_wf_def)
  next
    case False
    with p have "loops p = []" by simp
    then have "getNextLoops k p = (replicate k base, p)"
      using p(3) by (induction k) (simp_all add: getNextLoop_def)
    with False show ?thesis by simp
  qed
qed

end
