(* ===== verification/Clients.thy ===== *)
theory Clients
  imports Prelude
begin

text \<open>
  \<^verbatim>\<open>reactor/s13/Connector.cc\<close> and \<^verbatim>\<open>TcpClient.cc\<close>: the client side of a connection.

  The socket \<open>createNonblockingOrDie\<close> returns, the \<open>errno\<close> of \<open>connect\<close> (0 for success),
  \<open>SO_ERROR\<close> and the answer of \<open>isSelfConnect\<close> are arguments.  The connector's \<open>channel_\<close>
  is the descriptor of the \<open>Channel\<close> object, with \<open>registered\<close> telling whether the loop
  watches it.  Descriptors created, closed and handed to the new-connection callback are
  recorded, as are the delays given to \<open>runAfter\<close>; \<open>timerPending\<close> is the retry timer,
  \<open>resetQueued\<close> counts the queued \<open>resetChannel\<close> functors.
\<close>

subsection \<open>Connector\<close>

datatype States = stDisconnected | stConnecting | stConnected

definition kMaxRetryDelayMs :: int where "kMaxRetryDelayMs = 30 * 1000"
definition kInitRetryDelayMs :: int where "kInitRetryDelayMs = 500"

record connector =
  connect_flag :: bool
  con_state :: States
  con_channel :: "int option"
  registered :: bool
  retryDelayMs :: int
  timerPending :: bool
  resetQueued :: nat
  created :: "int list"
  closed_fds :: "int list"
  handed :: "int list"
  delays :: "int list"

definition Connector_ctor :: connector where
  "Connector_ctor = \<lparr>connect_flag = False, con_state = stDisconnected, con_channel = None, registered = False,
     retryDelayMs = kInitRetryDelayMs, timerPending = False, resetQueued = 0,
     created = [], closed_fds = [], handed = [], delays = []\<rparr>"

definition con_retry :: "connector \<Rightarrow> int \<Rightarrow> connector" where
  "con_retry c sockfd =
     (let c = c\<lparr>closed_fds := closed_fds c @ [sockfd]\<rparr>;
          c = c\<lparr>con_state := stDisconnected\<rparr>
      in if connect_flag c
         then c\<lparr>timerPending := True, delays := delays c @ [retryDelayMs c],
                retryDelayMs := min (retryDelayMs c * 2) kMaxRetryDelayMs\<rparr>
         else c)"

definition connecting :: "connector \<Rightarrow> int \<Rightarrow> connector option" where
  "connecting c sockfd = do {
     let c = c\<lparr>con_state := stConnecting\<rparr>;
     check (con_channel c = None);
     Some (c\<lparr>con_channel := Some sockfd, registered := True\<rparr>) }"

definition con_connect :: "connector \<Rightarrow> int \<Rightarrow> int \<Rightarrow> connector option" where
  "con_connect c sockfd savedErrno =
     (let c = c\<lparr>created := created c @ [sockfd]\<rparr>
      in if savedErrno = 0 \<or> savedErrno = 115 \<comment> \<open>EINPROGRESS\<close> \<or> savedErrno = 4 \<comment> \<open>EINTR\<close>
            \<or> savedErrno = 106 \<comment> \<open>EISCONN\<close>
         then connecting c sockfd
         else if savedErrno = 11 \<comment> \<open>EAGAIN\<close> \<or> savedErrno = 98 \<comment> \<open>EADDRINUSE\<close>
            \<or> savedErrno = 99 \<comment> \<open>EADDRNOTAVAIL\<close> \<or> savedErrno = 111 \<comment> \<open>ECONNREFUSED\<close>
            \<or> savedErrno = 101 \<comment> \<open>ENETUNREACH\<close>
         then Some (con_retry c sockfd)
         else Some (c\<lparr>closed_fds := closed_fds c @ [sockfd]\<rparr>))"

definition startInLoop :: "connector \<Rightarrow> int \<Rightarrow> int \<Rightarrow> connector option" where
  "startInLoop c sockfd savedErrno = do {
     check (con_state c = stDisconnected);
     (if connect_flag c then con_connect c sockfd savedErrno else Some c) }"

definition con_start :: "connector \<Rightarrow> int \<Rightarrow> int \<Rightarrow> connector option" where
  "con_start c sockfd savedErrno = startInLoop (c\<lparr>connect_flag := True\<rparr>) sockfd savedErrno"

definition con_restart :: "connector \<Rightarrow> int \<Rightarrow> int \<Rightarrow> connector option" where
  "con_restart c sockfd savedErrno =
     (let c = c\<lparr>con_state := stDisconnected, retryDelayMs := kInitRetryDelayMs, connect_flag := True\<rparr>
      in startInLoop c sockfd savedErrno)"

definition con_stop :: "connector \<Rightarrow> connector" where
  "con_stop c = c\<lparr>connect_flag := False, timerPending := False\<rparr>"

text \<open>The \<open>removeChannel\<close> inside needs a channel that the loop watches.\<close>

definition removeAndResetChannel :: "connector \<Rightarrow> (int \<times> connector) option" where
  "removeAndResetChannel c = do {
     sockfd \<leftarrow> con_channel c;
     check (registered c);
     Some (sockfd, c\<lparr>registered := False, resetQueued := resetQueued c + 1\<rparr>) }"

definition resetChannel :: "connector \<Rightarrow> connector" where
  "resetChannel c = c\<lparr>con_channel := None, resetQueued := resetQueued c - 1\<rparr>"

definition con_handleWrite :: "connector \<Rightarrow> int \<Rightarrow> bool \<Rightarrow> connector option" where
  "con_handleWrite c err selfConnect =
     (if con_state c = stConnecting
      then do {
        (sockfd, c) \<leftarrow> removeAndResetChannel c;
        Some (if err \<noteq> 0 then con_retry c sockfd
              else if selfConnect then con_retry c sockfd
              else let c = c\<lparr>con_state := stConnected\<rparr>
                   in if connect_flag c then c\<lparr>handed := handed c @ [sockfd]\<rparr>
                      else c\<lparr>closed_fds := closed_fds c @ [sockfd]\<rparr>) }
      else do { check (con_state c = stDisconnected); Some c })"

definition con_handleError :: "connector \<Rightarrow> connector option" where
  "con_handleError c = do {
     check (con_state c = stConnecting);
     (sockfd, c) \<leftarrow> removeAndResetChannel c;
     Some (con_retry c sockfd) }"

subsection \<open>TcpClient\<close>

record tcp_client =
  client_connector :: connector
  client_retry :: bool
  client_connect :: bool
  client_nextConnId :: nat
  connection :: "nat option"           \<comment> \<open>the id of the current connection\<close>
  established :: "nat list"            \<comment> \<open>\<open>connectEstablished\<close> was called for these\<close>
  destroyed :: "nat list"              \<comment> \<open>\<open>connectDestroyed\<close> was queued for these\<close>
  shutdown_calls :: "nat list"

definition TcpClient_ctor :: tcp_client where
  "TcpClient_ctor = \<lparr>client_connector = Connector_ctor, client_retry = False, client_connect = True,
     client_nextConnId = 1, connection = None, established = [], destroyed = [], shutdown_calls = []\<rparr>"

definition cl_connect :: "tcp_client \<Rightarrow> int \<Rightarrow> int \<Rightarrow> tcp_client option" where
  "cl_connect t sockfd savedErrno = do {
     c \<leftarrow> con_start (client_connector t) sockfd savedErrno;
     Some (t\<lparr>client_connect := True, client_connector := c\<rparr>) }"

definition cl_disconnect :: "tcp_client \<Rightarrow> tcp_client" where
  "cl_disconnect t =
     (let t = t\<lparr>client_connect := False\<rparr>
      in case connection t of Some i \<Rightarrow> t\<lparr>shutdown_calls := shutdown_calls t @ [i]\<rparr> | None \<Rightarrow> t)"

definition cl_stop :: "tcp_client \<Rightarrow> tcp_client" where
  "cl_stop t = t\<lparr>client_connect := False, client_connector := con_stop (client_connector t)\<rparr>"

definition cl_newConnection :: "tcp_client \<Rightarrow> tcp_client" where
  "cl_newConnection t =
     (let i = client_nextConnId t
      in t\<lparr>client_nextConnId := i + 1, connection := Some i, established := established t @ [i]\<rparr>)"

definition cl_removeConnection :: "tcp_client \<Rightarrow> nat \<Rightarrow> int \<Rightarrow> int \<Rightarrow> tcp_client option" where
  "cl_removeConnection t conn sockfd savedErrno = do {
     check (connection t = Some conn);
     let t = t\<lparr>connection := None, destroyed := destroyed t @ [conn]\<rparr>;
     (if client_retry t \<and> client_connect t
      then do { c \<leftarrow> con_restart (client_connector t) sockfd savedErrno;
                Some (t\<lparr>client_connector := c\<rparr>) }
      else Some t) }"

subsection \<open>Runs of a connector\<close>

datatype cr_op = Start int int | TimerFires int int | Restart int int | Stop
  | WriteReady int bool | ErrorReady | RunFunctors

fun cr_step :: "connector \<Rightarrow> cr_op \<Rightarrow> connector option" where
  "cr_step c (Start fd e) = con_start c fd e"
| "cr_step c (TimerFires fd e) = startInLoop (c\<lparr>timerPending := False\<rparr>) fd e"
| "cr_step c (Restart fd e) = con_restart c fd e"
| "cr_step c Stop = Some (con_stop c)"
| "cr_step c (WriteReady err self) = con_handleWrite c err self"
| "cr_step c ErrorReady = con_handleError c"
| "cr_step c RunFunctors = Some (resetChannel c)"

text \<open>
  When the loop and the owner call: the owner starts a connector that is idle and restarts one whose
  connection ended; the queued functors run at the end of the iteration that queued them, before
  any later timer; events come from a watched channel, and a write event can follow an error
  event of the same iteration.
\<close>

fun cr_allowed :: "connector \<Rightarrow> cr_op \<Rightarrow> bool" where
  "cr_allowed c (Start fd e) \<longleftrightarrow> con_state c = stDisconnected \<and> \<not> timerPending c \<and> resetQueued c = 0"
| "cr_allowed c (TimerFires fd e) \<longleftrightarrow> timerPending c \<and> resetQueued c = 0"
| "cr_allowed c (Restart fd e) \<longleftrightarrow> con_state c = stConnected \<and> resetQueued c = 0"
| "cr_allowed c Stop \<longleftrightarrow> True"
| "cr_allowed c (WriteReady err self) \<longleftrightarrow> registered c \<or> con_channel c \<noteq> None \<and> con_state c = stDisconnected"
| "cr_allowed c ErrorReady \<longleftrightarrow> registered c"
| "cr_allowed c RunFunctors \<longleftrightarrow> resetQueued c > 0"

fun cr_run :: "connector \<Rightarrow> cr_op list \<Rightarrow> connector option" where
  "cr_run c [] = Some c"
| "cr_run c (x # xs) = do { c' \<leftarrow> cr_step c x; cr_run c' xs }"

fun cr_legal :: "connector \<Rightarrow> cr_op list \<Rightarrow> bool" where
  "cr_legal c [] \<longleftrightarrow> True"
| "cr_legal c (x # xs) \<longleftrightarrow> cr_allowed c x \<and> (case cr_step c x of None \<Rightarrow> True | Some c' \<Rightarrow> cr_legal c' xs)"

definition backoff :: "int \<Rightarrow> bool" where
  "backoff d \<longleftrightarrow> (\<exists>k. d = min (500 * 2 ^ k) 30000)"

definition cr_inv :: "connector \<Rightarrow> bool" where
  "cr_inv c \<longleftrightarrow> (con_state c = stConnecting \<longleftrightarrow> registered c)
     \<and> (registered c \<longrightarrow> con_channel c \<noteq> None \<and> resetQueued c = 0)
     \<and> (\<not> registered c \<longrightarrow> resetQueued c = (if con_channel c = None then 0 else 1))
     \<and> (timerPending c \<longrightarrow> con_state c = stDisconnected)
     \<and> backoff (retryDelayMs c) \<and> (\<forall>d\<in>set (delays c). backoff d)
     \<and> mset (created c) = mset (closed_fds c) + mset (handed c)
         + (if registered c then {# the (con_channel c) #} else {#})"

lemma backoff_init [simp]: "backoff kInitRetryDelayMs"
  unfolding backoff_def kInitRetryDelayMs_def by (rule exI [of _ 0]) simp

lemma backoff_double: "backoff d \<Longrightarrow> backoff (min (d * 2) kMaxRetryDelayMs)"
proof -
  assume "backoff d"
  then obtain k where "d = min (500 * 2 ^ k) 30000" by (auto simp: backoff_def)
  then have "min (d * 2) kMaxRetryDelayMs = min (500 * 2 ^ Suc k) 30000" by (simp add: kMaxRetryDelayMs_def min_def)
  then show ?thesis unfolding backoff_def by blast
qed

lemma startInLoop_ok:
  assumes "cr_inv c" and "con_state c = stDisconnected" and "\<not> timerPending c" and "resetQueued c = 0"
  shows "\<exists>c'. startInLoop c fd e = Some c' \<and> cr_inv c'"
proof -
  have r: "\<not> registered c" "con_channel c = None" using assms by (auto simp: cr_inv_def split: if_splits)
  with assms show ?thesis
    using backoff_double [of "retryDelayMs c"]
    by (auto simp: startInLoop_def con_connect_def Let_def connecting_def con_retry_def cr_inv_def)
qed

lemma retry_ok:
  assumes inv: "cr_inv c" and r: "registered c"
  shows "\<exists>sockfd c1. removeAndResetChannel c = Some (sockfd, c1) \<and> cr_inv (con_retry c1 sockfd)
     \<and> cr_inv (c1\<lparr>con_state := stConnected, handed := handed c1 @ [sockfd]\<rparr>)
     \<and> cr_inv (c1\<lparr>con_state := stConnected, closed_fds := closed_fds c1 @ [sockfd]\<rparr>)"
proof -
  obtain fd where "con_channel c = Some fd" using assms by (auto simp: cr_inv_def)
  with assms backoff_double [of "retryDelayMs c"] show ?thesis
    by (auto simp: removeAndResetChannel_def con_retry_def Let_def cr_inv_def)
qed

lemma cr_step_ok:
  assumes inv: "cr_inv c" and al: "cr_allowed c x"
  shows "\<exists>c'. cr_step c x = Some c' \<and> cr_inv c'"
proof (cases x)
  case (Start fd e)
  have "cr_inv (c\<lparr>connect_flag := True\<rparr>)" using inv by (simp add: cr_inv_def)
  with Start al startInLoop_ok [OF this] show ?thesis by (simp add: con_start_def)
next
  case (TimerFires fd e)
  have i: "cr_inv (c\<lparr>timerPending := False\<rparr>)" using inv by (simp add: cr_inv_def)
  have "con_state c = stDisconnected" using inv al TimerFires by (auto simp: cr_inv_def)
  with TimerFires al startInLoop_ok [OF i] show ?thesis by simp
next
  case (Restart fd e)
  let ?c = "c\<lparr>con_state := stDisconnected, retryDelayMs := kInitRetryDelayMs, connect_flag := True\<rparr>"
  have "cr_inv ?c" using inv al Restart by (auto simp: cr_inv_def)
  moreover have "\<not> timerPending c" using inv al Restart by (auto simp: cr_inv_def)
  ultimately show ?thesis using Restart al startInLoop_ok [of ?c] by (simp add: con_restart_def Let_def)
next
  case Stop
  with inv show ?thesis by (auto simp: con_stop_def cr_inv_def)
next
  case (WriteReady err self)
  show ?thesis
  proof (cases "registered c")
    case True
    have "con_state c = stConnecting" using inv True by (simp add: cr_inv_def)
    with WriteReady retry_ok [OF inv True] show ?thesis by (auto simp: con_handleWrite_def Let_def)
  next
    case False
    with WriteReady al inv show ?thesis by (auto simp: con_handleWrite_def)
  qed
next
  case ErrorReady
  have "con_state c = stConnecting" using inv al ErrorReady by (simp add: cr_inv_def)
  with ErrorReady al retry_ok [OF inv] show ?thesis by (auto simp: con_handleError_def)
next
  case RunFunctors
  with al inv have "\<not> registered c" by (auto simp: cr_inv_def)
  with RunFunctors al inv show ?thesis by (auto simp: resetChannel_def cr_inv_def split: if_splits)
qed

lemma cr_run_ok: "cr_inv c \<Longrightarrow> cr_legal c xs \<Longrightarrow> \<exists>c'. cr_run c xs = Some c' \<and> cr_inv c'"
proof (induction xs arbitrary: c)
  case Nil
  then show ?case by simp
next
  case (Cons x xs)
  with cr_step_ok [OF Cons.prems(1), of x] show ?case by auto
qed

lemma cr_inv_ctor: "cr_inv Connector_ctor"
  by (simp add: cr_inv_def Connector_ctor_def)

subsection \<open>Properties\<close>

text \<open>
  Claim C14. A connector neither leaks nor doubly closes a socket: in every run no assertion
  fails and every socket it created was either closed once, or handed to the owner once, or is the
  one watched while connecting; at most one attempt is under way.
\<close>

theorem connector_owns_sockets:
  assumes "cr_legal Connector_ctor ops"
  shows "\<exists>c. cr_run Connector_ctor ops = Some c
     \<and> mset (created c) = mset (closed_fds c) + mset (handed c)
         + (if con_state c = stConnecting then {# the (con_channel c) #} else {#})
     \<and> (con_state c = stConnecting \<longrightarrow> con_channel c \<noteq> None)"
  using cr_run_ok [OF cr_inv_ctor assms] by (auto simp: cr_inv_def)

theorem connector_owns_sockets_witness:
  "\<exists>c. cr_run Connector_ctor [Start 5 115, ErrorReady, WriteReady 0 False, RunFunctors, TimerFires 6 115, WriteReady 0 False] = Some c
     \<and> created c = [5, 6] \<and> mset (created c) = mset (closed_fds c) + mset (handed c)"
proof -
  let ?ops = "[Start 5 115, ErrorReady, WriteReady 0 False, RunFunctors, TimerFires 6 115, WriteReady 0 False]"
  have leg: "cr_legal Connector_ctor ?ops" by code_simp
  have "map_option (\<lambda>c. (created c, con_state c)) (cr_run Connector_ctor ?ops) = Some ([5, 6], stConnected)" by code_simp
  with connector_owns_sockets [OF leg] show ?thesis by auto
qed

lemma refused_run:
  "con_state c = stDisconnected \<Longrightarrow> connect_flag c \<Longrightarrow> retryDelayMs c = min (500 * 2 ^ k) 30000 \<Longrightarrow>
   timerPending c \<Longrightarrow> resetQueued c = 0 \<Longrightarrow>
   \<exists>c'. cr_run c (replicate n (TimerFires fd 111)) = Some c'
      \<and> delays c' = delays c @ map (\<lambda>i. min (500 * 2 ^ (k + i)) 30000) [0..<n]"
proof (induction n arbitrary: c k)
  case 0
  then show ?case by simp
next
  case (Suc n)
  let ?c = "(con_retry (c\<lparr>timerPending := False, created := created c @ [fd]\<rparr>) fd)"
  have st: "startInLoop (c\<lparr>timerPending := False\<rparr>) fd 111 = Some ?c"
    using Suc.prems by (simp add: startInLoop_def con_connect_def)
  have "retryDelayMs ?c = min (500 * 2 ^ Suc k) 30000"
    using Suc.prems by (simp add: con_retry_def Let_def kMaxRetryDelayMs_def min_def)
  with Suc.IH [of ?c "Suc k"] Suc.prems obtain c' where
    c': "cr_run ?c (replicate n (TimerFires fd 111)) = Some c'"
      "delays c' = delays ?c @ map (\<lambda>i. min (500 * 2 ^ (Suc k + i)) 30000) [0..<n]"
    by (auto simp: con_retry_def Let_def)
  have "delays ?c = delays c @ [min (500 * 2 ^ k) 30000]" using Suc.prems by (simp add: con_retry_def Let_def)
  moreover have "map (\<lambda>i. min (500 * 2 ^ (k + i)) 30000 :: int) [0..<Suc n]
      = min (500 * 2 ^ k) 30000 # map (\<lambda>i. min (500 * 2 ^ (Suc k + i)) 30000) [0..<n]"
    by (simp only: upt_conv_Cons [OF zero_less_Suc] map_Suc_upt [symmetric] list.map map_map) simp
  ultimately show ?case using st c' by (simp del: upt_Suc)
qed

text \<open>
  Retries back off: a connector whose every attempt is refused tries again for
  ever, never fails an assertion, and waits 500, 1000, 2000, ... milliseconds between
  attempts, at most 30 seconds.
\<close>

lemma connector_backoff:
  "\<exists>c. cr_run Connector_ctor (Start fd 111 # replicate n (TimerFires fd 111)) = Some c
     \<and> delays c = map (\<lambda>i. min (500 * 2 ^ i) 30000) [0..<Suc n]"
proof -
  let ?c = "con_retry (Connector_ctor\<lparr>connect_flag := True, created := [fd]\<rparr>) fd"
  have st: "con_start Connector_ctor fd 111 = Some ?c"
    by (simp add: con_start_def startInLoop_def con_connect_def Connector_ctor_def)
  have d: "retryDelayMs ?c = min (500 * 2 ^ 1) 30000" "delays ?c = [500]"
    by (simp_all add: con_retry_def Let_def Connector_ctor_def kInitRetryDelayMs_def kMaxRetryDelayMs_def)
  have "con_state ?c = stDisconnected" "connect_flag ?c" "timerPending ?c" "resetQueued ?c = 0"
    by (simp_all add: con_retry_def Let_def Connector_ctor_def)
  from refused_run [OF this(1,2) d(1) this(3,4), of n fd] obtain c where
    c: "cr_run ?c (replicate n (TimerFires fd 111)) = Some c"
      "delays c = delays ?c @ map (\<lambda>i. min (500 * 2 ^ (1 + i)) 30000) [0..<n]" by blast
  have "map (\<lambda>i. min (500 * 2 ^ i) 30000 :: int) [0..<Suc n]
      = 500 # map (\<lambda>i. min (500 * 2 ^ (1 + i)) 30000) [0..<n]"
    by (simp only: upt_conv_Cons [OF zero_less_Suc] map_Suc_upt [symmetric] list.map map_map) simp
  with st c d(2) show ?thesis by (simp del: upt_Suc)
qed

end
