(* ===== verification/Dates.thy ===== *)
theory Dates
  imports Prelude "HOL-Library.Signed_Division"
begin

text \<open>
  \<^verbatim>\<open>datetime/Date.cc\<close>, \<^verbatim>\<open>Date.h\<close> and the UTC part of \<^verbatim>\<open>TimeZone.cc\<close>: Julian day
  numbers, dates of the Gregorian calendar and broken-down time.

  The C++ \<open>int\<close>s are integers and \<open>/\<close>, \<open>%\<close> truncate (\<open>sdiv\<close>, \<open>smod\<close>).  With years in
  \<open>[-4800, 5000000]\<close> all intermediate values fit 32 bits.
\<close>

record ymd =
  year :: int
  month :: int
  day :: int

definition getJulianDayNumber :: "int \<Rightarrow> int \<Rightarrow> int \<Rightarrow> int" where
  "getJulianDayNumber yr mon dy =
     (let a = (14 - mon) sdiv 12;
          y = yr + 4800 - a;
          m = mon + 12 * a - 3
      in dy + (153 * m + 2) sdiv 5 + y * 365 + y sdiv 4 - y sdiv 100 + y sdiv 400 - 32045)"

definition getYearMonthDay :: "int \<Rightarrow> ymd" where
  "getYearMonthDay julianDayNumber =
     (let a = julianDayNumber + 32044;
          b = (4 * a + 3) sdiv 146097;
          c = a - (b * 146097) sdiv 4;
          d = (4 * c + 3) sdiv 1461;
          e = c - (1461 * d) sdiv 4;
          m = (5 * e + 2) sdiv 153
      in \<lparr>year = b * 100 + d - 4800 + m sdiv 10,
          month = m + 3 - 12 * (m sdiv 10),
          day = e - (153 * m + 2) sdiv 5 + 1\<rparr>)"

definition kJulianDayOf1970_01_01 :: int where
  "kJulianDayOf1970_01_01 = getJulianDayNumber 1970 1 1"

definition kDaysPerWeek :: int where "kDaysPerWeek = 7"

definition date_valid :: "int \<Rightarrow> bool" where "date_valid jdn \<longleftrightarrow> jdn > 0"

definition weekDay :: "int \<Rightarrow> int" where
  "weekDay jdn = (jdn + 1) smod kDaysPerWeek"

subsection \<open>The calendar\<close>

definition leap :: "int \<Rightarrow> bool" where
  "leap y \<longleftrightarrow> 4 dvd y \<and> (\<not> 100 dvd y \<or> 400 dvd y)"

definition month_length :: "int \<Rightarrow> int \<Rightarrow> int" where
  "month_length y m = (if m = 2 then if leap y then 29 else 28 else if m \<in> {4, 6, 9, 11} then 30 else 31)"

definition valid_ymd :: "ymd \<Rightarrow> bool" where
  "valid_ymd t \<longleftrightarrow> -4800 \<le> year t \<and> 1 \<le> month t \<and> month t \<le> 12 \<and> 1 \<le> day t \<and> day t \<le> month_length (year t) (month t)
     \<and> (year t = -4800 \<longrightarrow> 3 \<le> month t)"

definition next_day :: "ymd \<Rightarrow> ymd" where
  "next_day t = (if day t < month_length (year t) (month t) then t\<lparr>day := day t + 1\<rparr>
     else if month t < 12 then t\<lparr>month := month t + 1, day := 1\<rparr>
     else \<lparr>year = year t + 1, month = 1, day = 1\<rparr>)"

subsection \<open>Truncating division of numbers that are not negative\<close>

lemma sdiv_nonneg: "0 \<le> x \<Longrightarrow> 0 < n \<Longrightarrow> x sdiv n = x div n" for x n :: int
  by (auto simp: signed_divide_int_def sgn_if)

lemma smod_nonneg: "0 \<le> x \<Longrightarrow> 0 < n \<Longrightarrow> x smod n = x mod n" for x n :: int
  by (cases "x = 0") (auto simp: signed_modulo_int_def sgn_if)

text \<open>Years and months counted from the first of March of the year \<open>-4800\<close>.\<close>

definition shifted :: "int \<Rightarrow> int \<Rightarrow> int \<Rightarrow> int" where
  "shifted y m d = d + (153 * m + 2) div 5 + y * 365 + y div 4 - y div 100 + y div 400 - 32045"

lemma month_cases:
  fixes m :: int
  assumes "1 \<le> m" and "m \<le> 12"
  obtains "m = 1" | "m = 2" | "m = 3" | "m = 4" | "m = 5" | "m = 6" | "m = 7" | "m = 8" | "m = 9"
    | "m = 10" | "m = 11" | "m = 12"
proof -
  have "m = 1 \<or> m = 2 \<or> m = 3 \<or> m = 4 \<or> m = 5 \<or> m = 6 \<or> m = 7 \<or> m = 8 \<or> m = 9 \<or> m = 10 \<or> m = 11 \<or> m = 12"
    using assms by presburger
  then show thesis using that by blast
qed

lemma month_shift:
  fixes m :: int
  assumes "1 \<le> m" and "m \<le> 12"
  shows "(14 - m) sdiv 12 = (if m \<le> 2 then 1 else 0)"
  using assms by (simp add: sdiv_nonneg) presburger

lemma jdn_shifted:
  assumes "1 \<le> m" and "m \<le> 12" and "0 \<le> y + 4800 - (if m \<le> 2 then 1 else 0)"
  shows "getJulianDayNumber y m d
         = (if m \<le> 2 then shifted (y + 4799) (m + 9) d else shifted (y + 4800) (m - 3) d)"
  unfolding getJulianDayNumber_def Let_def month_shift [OF assms(1,2)] using assms
  by (auto simp: shifted_def sdiv_nonneg algebra_simps)

lemma div_bounds: "0 < n \<Longrightarrow> n * (x div n) \<le> x \<and> x < n * (x div n) + n" for x n :: int
  using pos_mod_bound [of n x] pos_mod_sign [of n x] by (simp add: div_mult_mod_eq flip: minus_mod_eq_mult_div)

lemma getYearMonthDay_div:
  assumes "0 \<le> j + 32044"
  defines "a \<equiv> j + 32044"
  defines "b \<equiv> (4 * a + 3) div 146097"
  defines "c \<equiv> a - (b * 146097) div 4"
  defines "d \<equiv> (4 * c + 3) div 1461"
  defines "e \<equiv> c - (1461 * d) div 4"
  defines "m \<equiv> (5 * e + 2) div 153"
  shows "getYearMonthDay j = \<lparr>year = b * 100 + d - 4800 + m div 10, month = m + 3 - 12 * (m div 10),
           day = e - (153 * m + 2) div 5 + 1\<rparr>"
    and "0 \<le> b" "0 \<le> c" "c \<le> 36524" "0 \<le> d" "d \<le> 99" "0 \<le> e" "e \<le> 365" "0 \<le> m" "m \<le> 11"
proof -
  have a: "0 \<le> a" using assms(1) by (simp add: a_def)
  then show b: "0 \<le> b" by (simp add: b_def)
  have bb: "146097 * b \<le> 4 * a + 3" "4 * a + 3 < 146097 * b + 146097"
    using div_bounds [of 146097 "4 * a + 3"] by (simp_all add: b_def)
  show c: "0 \<le> c" "c \<le> 36524" using bb div_bounds [of 4 "b * 146097"] unfolding c_def by linarith+
  have dd: "1461 * d \<le> 4 * c + 3" "4 * c + 3 < 1461 * d + 1461"
    using div_bounds [of 1461 "4 * c + 3"] by (simp_all add: d_def)
  show d: "0 \<le> d" "d \<le> 99" using dd c by linarith+
  show e: "0 \<le> e" "e \<le> 365" using dd div_bounds [of 4 "1461 * d"] unfolding e_def by linarith+
  show m: "0 \<le> m" "m \<le> 11" using div_bounds [of 153 "5 * e + 2"] e unfolding m_def by linarith+
  have 1: "(4 * a + 3) sdiv 146097 = b" "(b * 146097) sdiv 4 = (b * 146097) div 4"
    using a b by (simp_all add: b_def sdiv_nonneg)
  have 2: "(4 * c + 3) sdiv 1461 = d" "(1461 * d) sdiv 4 = (1461 * d) div 4"
    using c d by (simp_all add: d_def sdiv_nonneg)
  have 3: "(5 * e + 2) sdiv 153 = m" "(153 * m + 2) sdiv 5 = (153 * m + 2) div 5" "m sdiv 10 = m div 10"
    using e m by (simp_all add: m_def sdiv_nonneg)
  show "getYearMonthDay j = \<lparr>year = b * 100 + d - 4800 + m div 10, month = m + 3 - 12 * (m div 10),
           day = e - (153 * m + 2) div 5 + 1\<rparr>"
    unfolding getYearMonthDay_def Let_def a_def [symmetric] 1 c_def [symmetric] 2 e_def [symmetric] 3 ..
qed

lemma div_eqI: "n * q \<le> x \<Longrightarrow> x < n * q + n \<Longrightarrow> x div n = q" for x n q :: int
  by (rule int_div_pos_eq [of x n q "x - n * q"]) simp_all

lemma quarter_div: "(b * 146097) div 4 = 36524 * b + b div 4" "(1461 * d) div 4 = 365 * d + d div 4" for b d :: int
proof -
  have "b * 146097 = b + 4 * (36524 * b)" "1461 * d = d + 4 * (365 * d)" by simp_all
  then show "(b * 146097) div 4 = 36524 * b + b div 4" "(1461 * d) div 4 = 365 * d + d div 4"
    by (simp_all only: div_mult_self2 numeral_neq_zero not_False_eq_True)
qed

lemma shifted_century:
  assumes "0 \<le> d" and "d \<le> 99"
  shows "shifted (b * 100 + d) m k
         = k + (153 * m + 2) div 5 + (36524 * b + b div 4) + (365 * d + d div 4) - 32045"
proof -
  have "b * 100 + d = d + 4 * (25 * b)" by simp
  then have "(b * 100 + d) div 4 = 25 * b + d div 4"
    by (simp only: div_mult_self2 numeral_neq_zero not_False_eq_True)
  moreover have c: "(b * 100 + d) div 100 = b" using assms by (intro div_eqI) simp_all
  moreover have "(b * 100 + d) div 400 = b div 4"
    using zdiv_zmult2_eq [of 4 "b * 100 + d" 100] c by simp
  ultimately show ?thesis by (simp add: shifted_def algebra_simps)
qed

text \<open>The two cycles: centuries of 36524 days with a day more every fourth, years of 365.\<close>

lemma cycles:
  fixes b d e :: int
  assumes "0 \<le> b" "0 \<le> d" "d \<le> 99" "0 \<le> e" "e \<le> 365"
    and last: "e = 365 \<longrightarrow> d mod 4 = 3 \<and> (d = 99 \<longrightarrow> b mod 4 = 3)"
  defines "c \<equiv> 365 * d + d div 4 + e"
  defines "a \<equiv> 36524 * b + b div 4 + c"
  shows "(4 * a + 3) div 146097 = b" and "a - (b * 146097) div 4 = c"
    and "(4 * c + 3) div 1461 = d" and "c - (1461 * d) div 4 = e"
proof -
  have d4: "4 * (d div 4) = d - d mod 4" "0 \<le> d mod 4" "d mod 4 \<le> 3" by presburger+
  have b4: "4 * (b div 4) = b - b mod 4" "0 \<le> b mod 4" "b mod 4 \<le> 3" by presburger+
  have c4: "4 * c = 1461 * d - d mod 4 + 4 * e" unfolding c_def using d4 by simp
  have a4: "4 * a = 146097 * b - b mod 4 + 4 * c" unfolding a_def using b4 by simp
  have up: "4 * e + 3 - d mod 4 < 1461" using last d4 assms(5) by (cases "e = 365") auto
  show "(4 * c + 3) div 1461 = d" using c4 up d4 assms(4) by (intro div_eqI) linarith+
  have "4 * c + 3 - b mod 4 < 146097"
  proof (cases "d = 99 \<and> e = 365")
    case True
    with last have "b mod 4 = 3" "d mod 4 = 3" by auto
    with True c4 show ?thesis by simp
  next
    case False
    then have "d \<le> 98 \<or> d = 99 \<and> e \<le> 364" using assms by linarith
    with c4 d4 b4 assms show ?thesis by (elim disjE) auto
  qed
  moreover have "0 \<le> c" unfolding c_def using assms by simp
  ultimately show "(4 * a + 3) div 146097 = b" using a4 b4 by (intro div_eqI) linarith+
  show "a - (b * 146097) div 4 = c" "c - (1461 * d) div 4 = e" by (simp_all add: a_def c_def quarter_div)
qed

text \<open>March-based months: month \<open>m\<close> starts on day \<open>(153 * m + 2) div 5\<close> of the year.\<close>

lemma month_of_day:
  fixes m k :: int
  assumes "0 \<le> m" "m \<le> 11" "1 \<le> k" "k \<le> month_length y (if m \<le> 9 then m + 3 else m - 9)"
  defines "e \<equiv> (153 * m + 2) div 5 + k - 1"
  shows "(5 * e + 2) div 153 = m" and "0 \<le> e" and "e \<le> 365" and "e = 365 \<Longrightarrow> m = 11 \<and> leap y"
proof -
  have "1 \<le> m + 1" "m + 1 \<le> 12" using assms by simp_all
  then have "(5 * e + 2) div 153 = m \<and> 0 \<le> e \<and> e \<le> 365 \<and> (e = 365 \<longrightarrow> m = 11 \<and> leap y)"
    by (rule month_cases)
       (use assms(3,4) in \<open>auto simp: e_def month_length_def intro!: div_eqI split: if_splits\<close>)
  then show "(5 * e + 2) div 153 = m" "0 \<le> e" "e \<le> 365" "e = 365 \<Longrightarrow> m = 11 \<and> leap y" by auto
qed

lemma day_in_month:
  fixes m e :: int
  assumes lp: "m = 11 \<and> e = 365 \<longrightarrow> leap y" and me: "153 * m \<le> 5 * e + 2" "5 * e + 2 < 153 * m + 153"
    and "e \<le> 365" "0 \<le> m" "m \<le> 11"
  shows "e - (153 * m + 2) div 5 + 1 \<le> month_length y (if m \<le> 9 then m + 3 else m - 9)"
proof -
  have "1 \<le> m + 1" "m + 1 \<le> 12" using assms by simp_all
  then show ?thesis
  proof (rule month_cases)
    assume "m + 1 = 12"
    then have "m = 11" by simp
    with me lp assms(4) show ?thesis by (cases "e = 365") (simp_all add: month_length_def)
  qed (use me in \<open>simp_all add: month_length_def\<close>)
qed

lemma leap_cycle:
  assumes "leap (b * 100 + d - 4799)" and "0 \<le> d" "d \<le> 99"
  shows "d mod 4 = 3 \<and> (d = 99 \<longrightarrow> b mod 4 = 3)"
proof
  have "b * 100 + d - 4799 = (d + 1) + 4 * (25 * b - 1200)" by simp
  then have "4 dvd d + 1" using assms(1) by (metis dvd_add_left_iff dvd_triv_left leap_def)
  then show "d mod 4 = 3" by presburger
  show "d = 99 \<longrightarrow> b mod 4 = 3"
  proof
    assume "d = 99"
    then have e: "b * 100 + d - 4799 = 100 * (b - 47)" by simp
    then have "leap (100 * (b - 47))" using assms(1) by metis
    then have "400 dvd 100 * (b - 47)" unfolding leap_def by (metis dvd_triv_left)
    then have "100 * 4 dvd 100 * (b - 47)" by simp
    then have "4 dvd b - 47" by (simp only: dvd_times_left_cancel_iff)
    then show "b mod 4 = 3" by presburger
  qed
qed

definition jdn_of :: "ymd \<Rightarrow> int" where
  "jdn_of t = getJulianDayNumber (year t) (month t) (day t)"

lemma round_trip_ymd:
  assumes v: "valid_ymd t"
  shows "getYearMonthDay (jdn_of t) = t" and "-32044 \<le> jdn_of t"
proof -
  let ?early = "month t \<le> 2"
  define y where "y = (if ?early then year t + 4799 else year t + 4800)"
  define m where "m = (if ?early then month t + 9 else month t - 3)"
  define b where "b = y div 100"
  define d where "d = y mod 100"
  define e where "e = (153 * m + 2) div 5 + day t - 1"
  have y: "y = b * 100 + d" "0 \<le> d" "d \<le> 99" by (simp_all add: b_def d_def)
  have y0: "0 \<le> y" using v by (auto simp: y_def valid_ymd_def)
  then have b: "0 \<le> b" by (simp add: b_def)
  have m: "0 \<le> m" "m \<le> 11" using v by (auto simp: m_def valid_ymd_def)
  have k: "1 \<le> day t" "day t \<le> month_length (year t) (if m \<le> 9 then m + 3 else m - 9)"
    using v by (auto simp: m_def valid_ymd_def)
  note me = month_of_day [OF m k, folded e_def]
  have last: "e = 365 \<longrightarrow> d mod 4 = 3 \<and> (d = 99 \<longrightarrow> b mod 4 = 3)"
  proof
    assume that: "e = 365"
    have "year t = b * 100 + d - 4799" using me(4) [OF that] y(1) v by (auto simp: valid_ymd_def m_def y_def split: if_splits)
    with me(4) [OF that] leap_cycle [of b d, OF _ y(2,3)] show "d mod 4 = 3 \<and> (d = 99 \<longrightarrow> b mod 4 = 3)" by metis
  qed
  note cy = cycles [OF b y(2,3) me(2,3) last]
  have "jdn_of t = shifted y m (day t)"
    using v y0 by (auto simp: jdn_of_def jdn_shifted valid_ymd_def y_def m_def)
  then have j: "jdn_of t + 32044 = 36524 * b + b div 4 + (365 * d + d div 4 + e)"
    unfolding y(1) shifted_century [OF y(2,3)] by (simp add: e_def)
  then have nn: "0 \<le> jdn_of t + 32044" using b y me by simp
  then show "-32044 \<le> jdn_of t" by simp
  have md: "m div 10 = (if ?early then 1 else 0)"
    using m v by (auto simp: m_def valid_ymd_def intro!: div_eqI)
  have yt: "year t = b * 100 + d - 4800 + (if ?early then 1 else 0)"
    unfolding y(1) [symmetric] by (simp add: y_def)
  have mt: "month t = m + 3 - 12 * (if ?early then 1 else 0)" by (simp add: m_def)
  have kt: "day t = e - (153 * m + 2) div 5 + 1" by (simp add: e_def)
  show "getYearMonthDay (jdn_of t) = t"
  proof -
    have "getYearMonthDay (jdn_of t) = \<lparr>year = b * 100 + d - 4800 + m div 10, month = m + 3 - 12 * (m div 10),
           day = e - (153 * m + 2) div 5 + 1\<rparr>"
      using getYearMonthDay_div(1) [OF nn] unfolding j cy me(1) .
    also have "\<dots> = \<lparr>year = year t, month = month t, day = day t\<rparr>"
      unfolding md kt [symmetric] yt [symmetric] mt [symmetric] ..
    finally show ?thesis by simp
  qed
qed

lemma round_trip_jdn:
  assumes "-32044 \<le> j"
  shows "valid_ymd (getYearMonthDay j)" and "jdn_of (getYearMonthDay j) = j"
proof -
  define a where "a = j + 32044"
  define b where "b = (4 * a + 3) div 146097"
  define c where "c = a - (b * 146097) div 4"
  define d where "d = (4 * c + 3) div 1461"
  define e where "e = c - (1461 * d) div 4"
  define m where "m = (5 * e + 2) div 153"
  have nn: "0 \<le> j + 32044" using assms by simp
  note g = getYearMonthDay_div [OF nn, folded a_def, folded b_def, folded c_def, folded d_def, folded e_def, folded m_def]
  define k where "k = e - (153 * m + 2) div 5 + 1"
  have m10: "m div 10 = (if m \<le> 9 then 0 else 1)" using g(9,10) by (auto intro!: div_eqI)
  have t: "getYearMonthDay j = (if m \<le> 9 then \<lparr>year = b * 100 + d - 4800, month = m + 3, day = k\<rparr>
      else \<lparr>year = b * 100 + d - 4799, month = m - 9, day = k\<rparr>)"
    unfolding g(1) m10 by (simp add: k_def)
  have me: "153 * m \<le> 5 * e + 2" "5 * e + 2 < 153 * m + 153"
    using div_bounds [of 153 "5 * e + 2"] by (simp_all add: m_def)
  have k1: "1 \<le> k" using div_bounds [of 5 "153 * m + 2"] me unfolding k_def by linarith
  have leap: "leap (b * 100 + d - 4799)" if "e = 365"
  proof -
    have c: "c = 365 * d + d div 4 + e" by (simp add: e_def quarter_div)
    have a: "a = 36524 * b + b div 4 + c" by (simp add: c_def quarter_div)
    have d3: "d mod 4 = 3"
      using div_bounds [of 1461 "4 * c + 3", folded d_def] c that by presburger
    show ?thesis
    proof (cases "d = 99")
      case True
      then have "c = 36524" using c that by simp
      then have "b mod 4 = 3" using div_bounds [of 146097 "4 * a + 3", folded b_def] a by presburger
      then have "4 dvd b - 47" by presburger
      then have "100 * 4 dvd 100 * (b - 47)" by (rule mult_dvd_mono [OF dvd_refl])
      then have "400 dvd 100 * (b - 47)" by simp
      moreover have "b * 100 + d - 4799 = 100 * (b - 47)" using True by simp
      ultimately have "400 dvd b * 100 + d - 4799" by metis
      moreover have "4 dvd b * 100 + d - 4799" by (rule dvd_trans [OF _ calculation]) simp
      ultimately have "4 dvd b * 100 + d - 4799" "400 dvd b * 100 + d - 4799" by blast+
      then show ?thesis by (simp add: leap_def)
    next
      case False
      have "b * 100 + d - 4799 = (d + 1) + 4 * (25 * b - 1200)" by simp
      moreover have "4 dvd d + 1" using d3 by presburger
      ultimately have "4 dvd b * 100 + d - 4799" by (metis dvd_add dvd_triv_left)
      moreover have "\<not> 100 dvd b * 100 + d - 4799"
      proof
        assume "100 dvd b * 100 + d - 4799"
        moreover have "b * 100 + d - 4799 = (d + 1) + 100 * (b - 48)" by simp
        ultimately have "100 dvd d + 1" by (metis dvd_add_left_iff dvd_triv_left)
        then have "100 \<le> d + 1" using g(5) by (intro zdvd_imp_le) simp_all
        with False g(6) show False by simp
      qed
      ultimately show ?thesis by (simp add: leap_def)
    qed
  qed
  have km: "k \<le> month_length y (if m \<le> 9 then m + 3 else m - 9)" if "m = 11 \<and> e = 365 \<longrightarrow> leap y" for y
    using that me g(8,9,10) unfolding k_def by (rule day_in_month)
  have "k \<le> month_length (if m \<le> 9 then b * 100 + d - 4800 else b * 100 + d - 4799) (if m \<le> 9 then m + 3 else m - 9)"
    by (rule km) (use leap in simp)
  with t k1 g show "valid_ymd (getYearMonthDay j)" by (auto simp: valid_ymd_def)
  have "jdn_of (getYearMonthDay j) = shifted (b * 100 + d) m k"
    using t g by (auto simp: jdn_of_def jdn_shifted)
  also have "\<dots> = j"
    unfolding shifted_century [OF g(5,6)] k_def e_def c_def quarter_div by (simp add: a_def)
  finally show "jdn_of (getYearMonthDay j) = j" .
qed

lemma div_succ: "0 < n \<Longrightarrow> (y + 1) div n = y div n + (if n dvd y + 1 then 1 else 0)" for y n :: int
proof -
  assume n: "0 < n"
  define q where "q = (y + 1) div n"
  define r where "r = (y + 1) mod n"
  have y: "y + 1 = n * q + r" "0 \<le> r" "r < n" using n by (simp_all add: q_def r_def)
  show ?thesis
  proof (cases "n dvd y + 1")
    case True
    then have "r = 0" by (simp add: r_def)
    with y n have "y div n = q - 1" by (intro div_eqI) (simp_all add: algebra_simps)
    with True show ?thesis by (simp add: q_def)
  next
    case False
    then have "1 \<le> r" using y(2) by (simp add: r_def dvd_eq_mod_eq_0)
    with y have "y div n = q" by (intro div_eqI) simp_all
    with False show ?thesis by (simp add: q_def)
  qed
qed

lemma leap_4800: "leap (y + 4800) = leap y"
proof -
  have "n dvd y + 4800 \<longleftrightarrow> n dvd y" if "n dvd 4800" for n :: int
    using that by (simp add: dvd_add_left_iff)
  then show ?thesis by (simp add: leap_def)
qed

lemma leap_count:
  "(if 4 dvd z then 1 else 0) - (if 100 dvd z then 1 else 0) + (if 400 dvd z then 1 else 0)
   = (if leap z then 1 else 0 :: int)"
proof -
  have "100 dvd z \<Longrightarrow> 4 dvd z" by (rule dvd_trans [of _ 100]) simp_all
  moreover have "400 dvd z \<Longrightarrow> 100 dvd z" by (rule dvd_trans [of _ 400]) simp_all
  ultimately show ?thesis unfolding leap_def by (cases "4 dvd z"; cases "100 dvd z"; cases "400 dvd z") simp_all
qed

lemma shifted_year:
  "shifted (y + 4799) 11 (month_length y 2) + 1 = shifted (y + 4800) 0 1"
proof -
  let ?Y = "y + 4799"
  have "shifted (?Y + 1) 0 1 = 1 + (?Y + 1) * 365 + (?Y + 1) div 4 - (?Y + 1) div 100 + (?Y + 1) div 400 - 32045"
    by (simp add: shifted_def)
  also have "\<dots> = 1 + (?Y + 1) * 365 + ?Y div 4 - ?Y div 100 + ?Y div 400 - 32045 + (if leap (?Y + 1) then 1 else 0)"
    unfolding div_succ [OF zero_less_numeral] leap_count [symmetric] by (simp only: algebra_simps)
  finally have "shifted (y + 4800) 0 1
      = 1 + (?Y + 1) * 365 + ?Y div 4 - ?Y div 100 + ?Y div 400 - 32045 + (if leap y then 1 else 0)"
    using leap_4800 [of y] by (simp add: add.assoc)
  then show ?thesis by (auto simp: shifted_def month_length_def)
qed

lemma jdn_next_day:
  assumes v: "valid_ymd t"
  shows "jdn_of (next_day t) = jdn_of t + 1"
proof -
  have m: "1 \<le> month t" "month t \<le> 12" "-4800 \<le> year t" "year t = -4800 \<longrightarrow> 3 \<le> month t"
    using v by (simp_all add: valid_ymd_def)
  show ?thesis
  proof (cases "day t < month_length (year t) (month t)")
    case True
    then show ?thesis by (simp add: next_day_def jdn_of_def getJulianDayNumber_def Let_def)
  next
    case False
    then have k: "day t = month_length (year t) (month t)" using v by (simp add: valid_ymd_def)
    from m(1,2) show ?thesis
    proof (rule month_cases)
      assume "month t = 2"
      with m k shifted_year [of "year t"] show ?thesis
        by (simp add: next_day_def jdn_of_def jdn_shifted)
    qed (use m k in \<open>simp_all add: next_day_def jdn_of_def jdn_shifted shifted_def month_length_def add.commute\<close>)
  qed
qed

subsection \<open>Broken-down time\<close>

definition kSecondsPerDay :: int where "kSecondsPerDay = 24 * 60 * 60"

record tm =
  tm_sec :: int
  tm_min :: int
  tm_hour :: int
  tm_mday :: int
  tm_mon :: int
  tm_year :: int
  tm_wday :: int
  tm_yday :: int

definition tm_zero :: tm where
  "tm_zero = \<lparr>tm_sec = 0, tm_min = 0, tm_hour = 0, tm_mday = 0, tm_mon = 0, tm_year = 0, tm_wday = 0, tm_yday = 0\<rparr>"

text \<open>\<open>seconds\<close> is \<open>unsigned\<close>: the divisions are those of natural numbers.\<close>

definition fillHMS :: "int \<Rightarrow> tm \<Rightarrow> tm" where
  "fillHMS seconds utc =
     (let minutes = seconds div 60
      in utc\<lparr>tm_sec := seconds mod 60, tm_min := minutes mod 60, tm_hour := minutes div 60\<rparr>)"

definition toUtcTime :: "int \<Rightarrow> bool \<Rightarrow> tm" where
  "toUtcTime secondsSinceEpoch yday =
     (let seconds = secondsSinceEpoch smod kSecondsPerDay;
          days = secondsSinceEpoch sdiv kSecondsPerDay;
          (seconds, days) = (if seconds < 0 then (seconds + kSecondsPerDay, days - 1) else (seconds, days));
          utc = fillHMS seconds tm_zero;
          date = days + kJulianDayOf1970_01_01;
          t = getYearMonthDay date;
          utc = utc\<lparr>tm_year := year t - 1900, tm_mon := month t - 1, tm_mday := day t, tm_wday := weekDay date\<rparr>
      in if yday
         then utc\<lparr>tm_yday := date - getJulianDayNumber (year t) 1 1\<rparr>
         else utc)"

definition fromUtcTime6 :: "int \<Rightarrow> int \<Rightarrow> int \<Rightarrow> int \<Rightarrow> int \<Rightarrow> int \<Rightarrow> int" where
  "fromUtcTime6 yr mon dy hour minute seconds =
     (let date = getJulianDayNumber yr mon dy;
          secondsInDay = hour * 3600 + minute * 60 + seconds;
          days = date - kJulianDayOf1970_01_01
      in days * kSecondsPerDay + secondsInDay)"

definition fromUtcTime :: "tm \<Rightarrow> int" where
  "fromUtcTime utc = fromUtcTime6 (tm_year utc + 1900) (tm_mon utc + 1) (tm_mday utc)
     (tm_hour utc) (tm_min utc) (tm_sec utc)"

lemma sdiv_floor:
  fixes x :: int
  assumes "0 < n"
  shows "(if x smod n < 0 then (x smod n + n, x sdiv n - 1) else (x smod n, x sdiv n)) = (x mod n, x div n)"
proof (cases "0 \<le> x")
  case True
  with assms show ?thesis by (simp add: smod_nonneg sdiv_nonneg not_less)
next
  case False
  define q where "q = (- x) div n"
  define r where "r = (- x) mod n"
  have "- x = n * q + r" by (simp add: q_def r_def)
  then have x: "x = n * (- q) - r" "0 \<le> r" "r < n" using assms by (simp_all add: r_def)
  have s: "x sdiv n = - q" "x smod n = - r"
    using False assms by (auto simp: signed_divide_int_def signed_modulo_int_def sgn_if q_def r_def)
  show ?thesis
  proof (cases "r = 0")
    case True
    with x have "x div n = - q" by (intro div_eqI) simp_all
    moreover have "x mod n = 0" using True x by simp
    ultimately show ?thesis using True s by simp
  next
    case rne: False
    with x have "x div n = - q - 1" by (intro div_eqI) (simp_all add: algebra_simps)
    moreover have "x mod n = n - r"
    proof -
      have "x mod n = x - n * (x div n)" by (simp add: minus_mult_div_eq_mod)
      also have "\<dots> = x - n * (- q - 1)" using \<open>x div n = - q - 1\<close> by simp
      also have "\<dots> = n - r" by (subst x(1)) (simp add: algebra_simps)
      finally show ?thesis .
    qed
    ultimately show ?thesis using rne x s by simp
  qed
qed

lemma toUtcTime_floor:
  "toUtcTime s yday =
     (let t = getYearMonthDay (s div 86400 + 2440588);
          r = s mod 86400;
          utc = \<lparr>tm_sec = r mod 60, tm_min = r div 60 mod 60, tm_hour = r div 60 div 60,
                 tm_mday = day t, tm_mon = month t - 1, tm_year = year t - 1900,
                 tm_wday = weekDay (s div 86400 + 2440588), tm_yday = 0\<rparr>
      in if yday then utc\<lparr>tm_yday := s div 86400 + 2440588 - getJulianDayNumber (year t) 1 1\<rparr> else utc)"
proof -
  have k: "kJulianDayOf1970_01_01 = 2440588"
    by (simp add: kJulianDayOf1970_01_01_def jdn_shifted shifted_def)
  have d: "kSecondsPerDay = 86400" by (simp add: kSecondsPerDay_def)
  have f: "(if s smod 86400 < 0 then (s smod 86400 + 86400, s sdiv 86400 - 1) else (s smod 86400, s sdiv 86400))
      = (s mod 86400, s div 86400)"
    by (rule sdiv_floor) simp
  show ?thesis unfolding toUtcTime_def Let_def d f by (simp add: k fillHMS_def tm_zero_def Let_def)
qed

lemma utc_time_ok:
  assumes "-2440588 * 86400 \<le> s"
  shows "fromUtcTime (toUtcTime s yday) = s
     \<and> (let u = toUtcTime s yday
        in 0 \<le> tm_sec u \<and> tm_sec u < 60 \<and> 0 \<le> tm_min u \<and> tm_min u < 60 \<and> 0 \<le> tm_hour u \<and> tm_hour u < 24
           \<and> 0 \<le> tm_mon u \<and> tm_mon u < 12 \<and> 1 \<le> tm_mday u \<and> tm_mday u \<le> 31 \<and> 0 \<le> tm_wday u \<and> tm_wday u < 7)"
proof -
  define q where "q = s div 86400"
  define r where "r = s mod 86400"
  have s: "s = q * 86400 + r" "0 \<le> r" "r < 86400" by (simp_all add: q_def r_def)
  have q: "-2440588 \<le> q" using s assms by linarith
  define t where "t = getYearMonthDay (q + 2440588)"
  have j: "-32044 \<le> q + 2440588" using q by simp
  have t: "valid_ymd t" "getJulianDayNumber (year t) (month t) (day t) = q + 2440588"
    using round_trip_jdn [OF j] by (simp_all add: t_def jdn_of_def)
  have hms: "r div 60 div 60 * 3600 + r div 60 mod 60 * 60 + r mod 60 = r" by presburger
  have k: "kJulianDayOf1970_01_01 = 2440588"
    by (simp add: kJulianDayOf1970_01_01_def jdn_shifted shifted_def)
  have ranges: "0 \<le> r mod 60" "r mod 60 < 60" "0 \<le> r div 60 mod 60" "r div 60 mod 60 < 60"
    "0 \<le> r div 60 div 60" "r div 60 div 60 < 24"
    using s(2,3) by (simp_all add: div_less_iff_less_mult pos_imp_zdiv_nonneg_iff)
  have wd: "0 \<le> weekDay (q + 2440588)" "weekDay (q + 2440588) < 7"
    using q by (simp_all add: weekDay_def kDaysPerWeek_def smod_nonneg)
  have md: "0 \<le> month t - 1" "month t - 1 < 12" "1 \<le> day t" "day t \<le> 31"
    using t(1) by (auto simp: valid_ymd_def month_length_def split: if_splits)
  have u: "tm_sec (toUtcTime s yday) = r mod 60" "tm_min (toUtcTime s yday) = r div 60 mod 60"
    "tm_hour (toUtcTime s yday) = r div 60 div 60" "tm_mon (toUtcTime s yday) = month t - 1"
    "tm_mday (toUtcTime s yday) = day t" "tm_wday (toUtcTime s yday) = weekDay (q + 2440588)"
    "tm_year (toUtcTime s yday) = year t - 1900"
    unfolding toUtcTime_floor Let_def q_def r_def t_def by simp_all
  have "year t - 1900 + 1900 = year t" "month t - 1 + 1 = month t" by simp_all
  then have "fromUtcTime (toUtcTime s yday) = q * 86400 + (r div 60 div 60 * 3600 + r div 60 mod 60 * 60 + r mod 60)"
    unfolding fromUtcTime_def u fromUtcTime6_def Let_def k by (simp only: t(2) kSecondsPerDay_def) simp
  then have inv: "fromUtcTime (toUtcTime s yday) = s" unfolding hms s(1) [symmetric] .
  show ?thesis unfolding Let_def u by (intro conjI inv ranges wd md)
qed

lemma epoch_jdn: "getJulianDayNumber 1970 1 1 = 2440588"
  by (simp add: jdn_shifted shifted_def)

subsection \<open>Properties\<close>



text \<open>
  \<open>fromUtcTime\<close> inverts \<open>toUtcTime\<close>, also before the epoch where C++ division
  truncates the other way: for every time from 24 November 4714 BC on, the fields are in the ranges
  of \<open>struct tm\<close> and converting back gives the time.
\<close>

lemma utc_round_trip:
  assumes "-2440588 * 86400 \<le> s"
  shows "fromUtcTime (toUtcTime s yday) = s
     \<and> (let u = toUtcTime s yday
        in 0 \<le> tm_sec u \<and> tm_sec u < 60 \<and> 0 \<le> tm_min u \<and> tm_min u < 60 \<and> 0 \<le> tm_hour u \<and> tm_hour u < 24
           \<and> 0 \<le> tm_mon u \<and> tm_mon u < 12 \<and> 1 \<le> tm_mday u \<and> tm_mday u \<le> 31 \<and> 0 \<le> tm_wday u \<and> tm_wday u < 7)"
  using assms by (rule utc_time_ok)

end
