(* ===== verification/TimeZones.thy ===== *)
theory TimeZones
  imports Dates
begin

text \<open>
  \<^verbatim>\<open>datetime/TimeZone.cc\<close>: reading a \<open>TZif\<close> file and converting between local time and
  UTC.

  A file is its bytes, or \<open>None\<close> when \<open>fopen\<close> fails.  A reader that throws \<open>logic_error\<close> is
  \<open>None\<close>; \<open>readTimeZoneFile\<close> catches it and keeps what was stored so far.  An outer
  \<open>None\<close> is undefined behaviour: an index beyond a vector.  \<open>lower_bound\<close> is the first
  position that does not compare less, its meaning on a sorted range.  \<open>gmtime_r\<close> and \<open>timegm\<close>
  are arguments.
\<close>

record transition =
  gmttime :: int
  localtime :: int
  localtimeIdx :: nat

record localtype =
  gmtOffset :: int
  isDst :: bool
  arrbIdx :: nat

record tz_data =
  transitions :: "transition list"
  localtimes :: "localtype list"
  abbreviations :: "byte list"

definition tz_empty :: tz_data where
  "tz_empty = \<lparr>transitions = [], localtimes = [], abbreviations = []\<rparr>"

text \<open>\<open>Comp\<close> selects the field by which transitions are compared.\<close>

definition comp_key :: "bool \<Rightarrow> transition \<Rightarrow> int" where
  "comp_key compareGmt t = (if compareGmt then gmttime t else localtime t)"

definition comp_less :: "bool \<Rightarrow> transition \<Rightarrow> transition \<Rightarrow> bool" where
  "comp_less compareGmt lhs rhs \<longleftrightarrow> comp_key compareGmt lhs < comp_key compareGmt rhs"

definition comp_equal :: "bool \<Rightarrow> transition \<Rightarrow> transition \<Rightarrow> bool" where
  "comp_equal compareGmt lhs rhs \<longleftrightarrow> comp_key compareGmt lhs = comp_key compareGmt rhs"

subsection \<open>Reading a file\<close>

definition readBytes :: "int \<Rightarrow> byte list \<Rightarrow> (byte list \<times> byte list) option" where
  "readBytes n bs = (if 0 \<le> n \<and> nat n \<le> length bs then Some (take (nat n) bs, drop (nat n) bs) else None)"

fun readInt32 :: "byte list \<Rightarrow> (int \<times> byte list) option" where
  "readInt32 (b0 # b1 # b2 # b3 # bs) = Some (sint (be32_dec [b0, b1, b2, b3]), bs)"
| "readInt32 bs = None"

fun readUInt8 :: "byte list \<Rightarrow> (nat \<times> byte list) option" where
  "readUInt8 (b # bs) = Some (unat b, bs)"
| "readUInt8 [] = None"

fun readTrans :: "nat \<Rightarrow> byte list \<Rightarrow> (int list \<times> byte list) option" where
  "readTrans 0 bs = Some ([], bs)"
| "readTrans (Suc n) bs = do { (x, bs) \<leftarrow> readInt32 bs; (xs, bs) \<leftarrow> readTrans n bs; Some (x # xs, bs) }"

fun readIdxs :: "nat \<Rightarrow> byte list \<Rightarrow> (nat list \<times> byte list) option" where
  "readIdxs 0 bs = Some ([], bs)"
| "readIdxs (Suc n) bs = do { (x, bs) \<leftarrow> readUInt8 bs; (xs, bs) \<leftarrow> readIdxs n bs; Some (x # xs, bs) }"

definition readLocaltime :: "byte list \<Rightarrow> (localtype \<times> byte list) option" where
  "readLocaltime bs = do {
     (gmtoff, bs) \<leftarrow> readInt32 bs;
     (isdst, bs) \<leftarrow> readUInt8 bs;
     (abbrind, bs) \<leftarrow> readUInt8 bs;
     Some (\<lparr>gmtOffset = gmtoff, isDst = (isdst \<noteq> 0), arrbIdx = abbrind\<rparr>, bs) }"

text \<open>Each \<open>Localtime\<close> is stored as soon as it is read.\<close>

fun readLocaltimes :: "nat \<Rightarrow> tz_data \<Rightarrow> byte list \<Rightarrow> tz_data \<times> byte list option" where
  "readLocaltimes 0 data bs = (data, Some bs)"
| "readLocaltimes (Suc n) data bs = (case readLocaltime bs of
     None \<Rightarrow> (data, None)
   | Some (l, bs) \<Rightarrow> readLocaltimes n (data\<lparr>localtimes := localtimes data @ [l]\<rparr>) bs)"

fun addTransitions :: "int list \<Rightarrow> nat list \<Rightarrow> tz_data \<Rightarrow> tz_data option" where
  "addTransitions (t # transs) (localIdx # idxs) data =
     (if localIdx < length (localtimes data)
      then let lt = t + gmtOffset (localtimes data ! localIdx)
           in addTransitions transs idxs
                (data\<lparr>transitions := transitions data @ [\<lparr>gmttime = t, localtime = lt, localtimeIdx = localIdx\<rparr>]\<rparr>)
      else None)"
| "addTransitions transs idxs data = Some data"

text \<open>A \<open>throw\<close> leaves the data as they are.\<close>

definition or_throw :: "'a option \<Rightarrow> tz_data \<Rightarrow> ('a \<Rightarrow> tz_data option) \<Rightarrow> tz_data option" where
  "or_throw r data f = (case r of None \<Rightarrow> Some data | Some x \<Rightarrow> f x)"

definition TZif :: "byte list" where "TZif = [84, 90, 105, 102]"

definition tz_body :: "byte list \<Rightarrow> tz_data \<Rightarrow> tz_data option" where
  "tz_body bs data =
     or_throw (readBytes 4 bs) data (\<lambda>(head, bs).
     if head \<noteq> TZif then Some data else
     or_throw (readBytes 1 bs) data (\<lambda>(version, bs).
     or_throw (readBytes 15 bs) data (\<lambda>(_, bs).
     or_throw (readInt32 bs) data (\<lambda>(isgmtcnt, bs).
     or_throw (readInt32 bs) data (\<lambda>(isstdcnt, bs).
     or_throw (readInt32 bs) data (\<lambda>(leapcnt, bs).
     or_throw (readInt32 bs) data (\<lambda>(timecnt, bs).
     or_throw (readInt32 bs) data (\<lambda>(typecnt, bs).
     or_throw (readInt32 bs) data (\<lambda>(charcnt, bs).
     if timecnt < 0 then Some data else
     or_throw (readTrans (nat timecnt) bs) data (\<lambda>(transs, bs).
     or_throw (readIdxs (nat timecnt) bs) data (\<lambda>(idxs, bs).
     (let (data, rest) = readLocaltimes (nat typecnt) data bs in
     or_throw rest data (\<lambda>bs. do {
       data \<leftarrow> addTransitions transs idxs data;
       or_throw (readBytes charcnt bs) data (\<lambda>(abbr, bs).
         Some (data\<lparr>abbreviations := abbr\<rparr>)) })))))))))))))"

definition readTimeZoneFile :: "byte list option \<Rightarrow> tz_data \<Rightarrow> (bool \<times> tz_data) option" where
  "readTimeZoneFile file data = (case file of
     None \<Rightarrow> Some (True, data)
   | Some bs \<Rightarrow> do { data' \<leftarrow> tz_body bs data; Some (True, data') })"

text \<open>The constructor: the \<open>Data\<close>, or no data when reading reports failure.\<close>

definition TimeZone_ctor :: "byte list option \<Rightarrow> tz_data option option" where
  "TimeZone_ctor file = do {
     (ok, data) \<leftarrow> readTimeZoneFile file tz_empty;
     Some (if \<not> ok then None else Some data) }"

subsection \<open>Conversions\<close>

definition nth_localtime :: "tz_data \<Rightarrow> nat \<Rightarrow> localtype option" where
  "nth_localtime data i = (if i < length (localtimes data) then Some (localtimes data ! i) else None)"

definition findLocaltime :: "tz_data \<Rightarrow> transition \<Rightarrow> bool \<Rightarrow> localtype option" where
  "findLocaltime data sentry gmt =
     (if transitions data = [] \<or> comp_less gmt sentry (hd (transitions data))
      then nth_localtime data 0
      else let transI = length (takeWhile (\<lambda>t. comp_less gmt t sentry) (transitions data))
           in if transI < length (transitions data)
              then do {
                transI \<leftarrow> (if \<not> comp_equal gmt sentry (transitions data ! transI)
                          then do { check (transI \<noteq> 0); Some (transI - 1) }
                          else Some transI);
                nth_localtime data (localtimeIdx (transitions data ! transI)) }
              else nth_localtime data (localtimeIdx (last (transitions data))))"

record local_tm =
  broken :: tm
  tm_isdst :: bool
  tm_gmtoff :: int
  tm_zone :: nat        \<comment> \<open>offset of the name in the abbreviations\<close>

definition toLocalTime :: "(int \<Rightarrow> tm) \<Rightarrow> tz_data \<Rightarrow> int \<Rightarrow> local_tm option" where
  "toLocalTime gmtime data seconds = do {
     let sentry = \<lparr>gmttime = seconds, localtime = 0, localtimeIdx = 0\<rparr>;
     local \<leftarrow> findLocaltime data sentry True;
     let localSeconds = seconds + gmtOffset local;
     Some \<lparr>broken = gmtime localSeconds, tm_isdst = isDst local, tm_gmtoff = gmtOffset local,
           tm_zone = arrbIdx local\<rparr> }"

definition fromLocalTime :: "(int \<Rightarrow> tm) \<Rightarrow> (tm \<Rightarrow> int) \<Rightarrow> tz_data \<Rightarrow> local_tm \<Rightarrow> int option" where
  "fromLocalTime gmtime timegm data localTm = do {
     let seconds = timegm (broken localTm);
     let sentry = \<lparr>gmttime = 0, localtime = seconds, localtimeIdx = 0\<rparr>;
     local \<leftarrow> findLocaltime data sentry False;
     seconds \<leftarrow> (if tm_isdst localTm
                then do {
                  tryTm \<leftarrow> toLocalTime gmtime data (seconds - gmtOffset local);
                  Some (if \<not> tm_isdst tryTm \<and> tm_hour (broken tryTm) = tm_hour (broken localTm)
                           \<and> tm_min (broken tryTm) = tm_min (broken localTm)
                        then seconds - 3600 else seconds) }
                else Some seconds);
     Some (seconds - gmtOffset local) }"

subsection \<open>Finding the rule in force\<close>

definition tz_wf :: "bool \<Rightarrow> tz_data \<Rightarrow> bool" where
  "tz_wf gmt d \<longleftrightarrow> sorted_wrt (\<lambda>x y. comp_key gmt x < comp_key gmt y) (transitions d) \<and> localtimes d \<noteq> []
     \<and> (\<forall>t\<in>set (transitions d). localtimeIdx t < length (localtimes d))"

text \<open>The rule of the last transition at or before the time, or the first rule before all of them.\<close>

definition rule_at :: "bool \<Rightarrow> tz_data \<Rightarrow> int \<Rightarrow> localtype" where
  "rule_at gmt d s = (case filter (\<lambda>t. comp_key gmt t \<le> s) (transitions d) of
     [] \<Rightarrow> hd (localtimes d)
   | ts \<Rightarrow> localtimes d ! localtimeIdx (last ts))"

lemma sorted_split_at:
  fixes k :: "'a \<Rightarrow> int"
  assumes "sorted_wrt (\<lambda>x y. k x < k y) xs"
  shows "filter (\<lambda>x. k x \<le> s) xs
         = (let i = length (takeWhile (\<lambda>x. k x < s) xs)
            in if i < length xs \<and> k (xs ! i) = s then take (Suc i) xs else take i xs)"
  using assms
proof (induction xs)
  case Nil
  then show ?case by simp
next
  case (Cons x xs)
  then have gt: "\<forall>y\<in>set xs. k x < k y" by simp
  have none: "filter (\<lambda>y. k y \<le> s) xs = []" if "s \<le> k x"
    using that gt by (auto simp: filter_empty_conv)
  show ?case
  proof (cases "k x < s")
    case True
    then have "filter (\<lambda>y. k y \<le> s) (x # xs) = x # filter (\<lambda>y. k y \<le> s) xs" by simp
    with Cons True show ?thesis by (simp add: Let_def)
  next
    case False
    with none show ?thesis by (auto simp: Let_def)
  qed
qed

lemma last_take: "0 < i \<Longrightarrow> i \<le> length xs \<Longrightarrow> last (take i xs) = xs ! (i - 1)"
  by (subst last_conv_nth) (auto simp: min_def)

lemma rule_at_last:
  "filter (\<lambda>t. comp_key gmt t \<le> s) (transitions d) = ts \<Longrightarrow> ts \<noteq> [] \<Longrightarrow>
   rule_at gmt d s = localtimes d ! localtimeIdx (last ts)"
  by (cases ts) (simp_all add: rule_at_def)

lemma findLocaltime_rule:
  assumes wf: "tz_wf gmt d" and key: "comp_key gmt sentry = s"
  shows "findLocaltime d sentry gmt = Some (rule_at gmt d s)"
proof -
  let ?ts = "transitions d"
  let ?i = "length (takeWhile (\<lambda>t. comp_key gmt t < s) ?ts)"
  have idx: "t \<in> set ?ts \<Longrightarrow> nth_localtime d (localtimeIdx t) = Some (localtimes d ! localtimeIdx t)" for t
    using wf by (simp add: tz_wf_def nth_localtime_def)
  have first: "nth_localtime d 0 = Some (hd (localtimes d))"
    using wf by (simp add: tz_wf_def nth_localtime_def hd_conv_nth)
  note sp = sorted_split_at [of "comp_key gmt" ?ts s]
  have srt: "sorted_wrt (\<lambda>x y. comp_key gmt x < comp_key gmt y) ?ts" using wf by (simp add: tz_wf_def)
  note fl = sp [OF srt, unfolded Let_def]
  show ?thesis
  proof (cases "?ts = [] \<or> s < comp_key gmt (hd ?ts)")
    case True
    then have i0: "?i = 0" by (cases ?ts) auto
    have "filter (\<lambda>t. comp_key gmt t \<le> s) ?ts = []"
      using True unfolding fl i0 by (cases ?ts) auto
    with True first key show ?thesis by (simp add: findLocaltime_def rule_at_def comp_less_def)
  next
    case False
    then have ne: "?ts \<noteq> []" and h: "comp_key gmt (hd ?ts) \<le> s" by auto
    have i_le: "?i \<le> length ?ts" by (rule length_takeWhile_le)
    show ?thesis
    proof (cases "?i < length ?ts")
      case True
      show ?thesis
      proof (cases "comp_key gmt (?ts ! ?i) = s")
        case eq: True
        then have "filter (\<lambda>t. comp_key gmt t \<le> s) ?ts = take (Suc ?i) ?ts" using fl True by simp
        moreover have "last (take (Suc ?i) ?ts) = ?ts ! ?i" using last_take [of "Suc ?i" ?ts] True by simp
        moreover have "take (Suc ?i) ?ts \<noteq> []" using ne by simp
        ultimately have "rule_at gmt d s = localtimes d ! localtimeIdx (?ts ! ?i)"
          using rule_at_last by metis
        with False True eq key idx [of "?ts ! ?i"] show ?thesis
          by (simp add: findLocaltime_def comp_less_def comp_equal_def Let_def)
      next
        case neq: False
        have i0: "?i \<noteq> 0"
        proof
          assume "?i = 0"
          with ne have "\<not> comp_key gmt (hd ?ts) < s" by (cases ?ts) (auto split: if_splits)
          with h neq \<open>?i = 0\<close> ne show False by (simp add: hd_conv_nth)
        qed
        have "filter (\<lambda>t. comp_key gmt t \<le> s) ?ts = take ?i ?ts" using fl neq by simp
        moreover have "last (take ?i ?ts) = ?ts ! (?i - 1)" using last_take [of ?i ?ts] i0 i_le by simp
        moreover have "take ?i ?ts \<noteq> []" using ne i0 by simp
        ultimately have "rule_at gmt d s = localtimes d ! localtimeIdx (?ts ! (?i - 1))"
          using rule_at_last by metis
        moreover have "?ts ! (?i - 1) \<in> set ?ts" using i_le i0 by (intro nth_mem) linarith
        moreover have "\<not> comp_equal gmt sentry (?ts ! ?i)" using neq key by (auto simp: comp_equal_def)
        ultimately show ?thesis using False True key idx [of "?ts ! (?i - 1)"] i0
          by (simp add: findLocaltime_def comp_less_def Let_def)
      qed
    next
      case atEnd: False
      then have "filter (\<lambda>t. comp_key gmt t \<le> s) ?ts = ?ts" using fl i_le by simp
      with ne have "rule_at gmt d s = localtimes d ! localtimeIdx (last ?ts)"
        using rule_at_last by metis
      with False atEnd key idx [of "last ?ts"] ne show ?thesis
        by (simp add: findLocaltime_def comp_less_def Let_def)
    qed
  qed
qed

subsection \<open>Files\<close>

definition enc_localtype :: "32 word \<times> byte \<times> byte \<Rightarrow> byte list" where
  "enc_localtype t = (case t of (off, dst, ab) \<Rightarrow> be32_enc off @ [dst, ab])"

definition dec_localtype :: "32 word \<times> byte \<times> byte \<Rightarrow> localtype" where
  "dec_localtype t = (case t of (off, dst, ab) \<Rightarrow> \<lparr>gmtOffset = sint off, isDst = (dst \<noteq> 0), arrbIdx = unat ab\<rparr>)"

text \<open>The layout of a version-1 block: header, counts, transition times, indices, types, names, rest.\<close>

definition tz_encode :: "byte \<Rightarrow> byte list \<Rightarrow> 32 word \<Rightarrow> 32 word \<Rightarrow> 32 word \<Rightarrow> 32 word list \<Rightarrow> byte list
    \<Rightarrow> (32 word \<times> byte \<times> byte) list \<Rightarrow> byte list \<Rightarrow> byte list \<Rightarrow> byte list" where
  "tz_encode version reserved isgmt isstd leaps tms idxs types names rest =
     TZif @ [version] @ reserved @ be32_enc isgmt @ be32_enc isstd @ be32_enc leaps
     @ be32_enc (of_nat (length tms)) @ be32_enc (of_nat (length types)) @ be32_enc (of_nat (length names))
     @ concat (map be32_enc tms) @ idxs @ concat (map enc_localtype types) @ names @ rest"

definition tz_decoded :: "32 word list \<Rightarrow> byte list \<Rightarrow> (32 word \<times> byte \<times> byte) list \<Rightarrow> byte list \<Rightarrow> tz_data" where
  "tz_decoded tms idxs types names =
     \<lparr>transitions = map2 (\<lambda>t i. \<lparr>gmttime = sint t, localtime = sint t + gmtOffset (dec_localtype (types ! unat i)),
                               localtimeIdx = unat i\<rparr>) tms idxs,
      localtimes = map dec_localtype types, abbreviations = names\<rparr>"

lemma readInt32_enc [simp]: "readInt32 (be32_enc w @ bs) = Some (sint w, bs)"
proof -
  have "be32_dec [ucast (drop_bit 24 w), ucast (drop_bit 16 w), ucast (drop_bit 8 w), ucast w] = w"
    using be32_dec_enc [of w] by (simp only: be32_enc_def)
  then show ?thesis by (simp add: be32_enc_def del: be32_dec.simps)
qed

lemma readTrans_enc [simp]:
  "readTrans (length ws) (concat (map be32_enc ws) @ bs) = Some (map sint ws, bs)"
  by (induction ws) simp_all

lemma readIdxs_enc [simp]: "readIdxs (length is) (is @ bs) = Some (map unat is, bs)"
  by (induction "is") simp_all

lemma readLocaltime_enc [simp]: "readLocaltime (enc_localtype t @ bs) = Some (dec_localtype t, bs)"
  by (cases t) (simp add: readLocaltime_def enc_localtype_def dec_localtype_def unat_gt_0)

lemma readLocaltimes_enc [simp]:
  "readLocaltimes (length ts) data (concat (map enc_localtype ts) @ bs)
   = (data\<lparr>localtimes := localtimes data @ map dec_localtype ts\<rparr>, Some bs)"
  by (induction ts arbitrary: data) simp_all

lemma addTransitions_ok:
  "length tms = length idxs \<Longrightarrow> \<forall>i\<in>set idxs. unat i < length (localtimes data) \<Longrightarrow>
   addTransitions (map sint tms) (map unat idxs) data
   = Some (data\<lparr>transitions := transitions data @
       map2 (\<lambda>t i. \<lparr>gmttime = sint t, localtime = sint t + gmtOffset (localtimes data ! unat i),
                  localtimeIdx = unat i\<rparr>) tms idxs\<rparr>)"
proof (induction tms arbitrary: idxs data)
  case Nil
  then show ?case by simp
next
  case (Cons t tms)
  then obtain i idxs' where "idxs = i # idxs'" by (cases idxs) auto
  with Cons show ?case by (simp add: Let_def)
qed

lemma sint_length: "n < 2 ^ 31 \<Longrightarrow> sint (of_nat n :: 32 word) = int n"
  by (simp add: signed_of_nat signed_take_bit_int_eq_self)

lemma or_throw_Some [simp]: "or_throw (Some x) data f = f x"
  by (simp add: or_throw_def)

lemma readBytes_append [simp]: "n = int (length xs) \<Longrightarrow> readBytes n (xs @ ys) = Some (xs, ys)"
  by (simp add: readBytes_def)

lemma tz_body_encode:
  assumes "length reserved = 15" "length idxs = length tms"
    and "length tms < 2 ^ 31" "length types < 2 ^ 31" "length names < 2 ^ 31"
    and "\<forall>i\<in>set idxs. unat i < length types"
  shows "tz_body (tz_encode version reserved isgmt isstd leaps tms idxs types names rest) tz_empty
         = Some (tz_decoded tms idxs types names)"
proof -
  let ?d = "tz_empty\<lparr>localtimes := map dec_localtype types\<rparr>"
  have r4: "readBytes 4 (TZif @ bs) = Some (TZif, bs)" for bs by (simp add: TZif_def readBytes_def)
  have r1: "readBytes 1 ([version] @ bs) = Some ([version], bs)" for bs by (simp add: readBytes_def)
  have r15: "readBytes 15 (reserved @ bs) = Some (reserved, bs)" for bs using assms(1) by simp
  have rn: "readBytes (int (length names)) (names @ bs) = Some (names, bs)" for bs by simp
  have ri: "readIdxs (length tms) (idxs @ bs) = Some (map unat idxs, bs)" for bs
    using readIdxs_enc [of idxs] assms(2) by simp
  have "\<forall>i\<in>set idxs. unat i < length (localtimes ?d)" using assms(6) by simp
  note at = addTransitions_ok [OF assms(2) [symmetric] this]
  have m: "map2 (\<lambda>t i. \<lparr>gmttime = sint t, localtime = sint t + gmtOffset (localtimes ?d ! unat i), localtimeIdx = unat i\<rparr>) tms idxs
      = map2 (\<lambda>t i. \<lparr>gmttime = sint t, localtime = sint t + gmtOffset (dec_localtype (types ! unat i)), localtimeIdx = unat i\<rparr>) tms idxs"
    using assms(6) by (auto simp: set_zip)
  have e0: "localtimes tz_empty = []" "transitions ?d = []" by (simp_all add: tz_empty_def)
  show ?thesis
    unfolding tz_body_def tz_encode_def
    using assms(3-5) at m
    by (simp add: r4 r1 r15 ri rn sint_length e0 del: append.simps) (simp add: tz_decoded_def tz_empty_def)
qed

subsection \<open>Properties\<close>

text \<open>
  A well-formed zone file is read back exactly: for every content (any number of
  transitions, types and names below \<open>2^31\<close>, with every index within the types, whatever leap
  seconds and later blocks follow) the constructor yields that content, signed
  big-endian numbers and local transition times included.
\<close>

lemma tz_file_round_trip:
  assumes "length reserved = 15" "length idxs = length tms"
    and "length tms < 2 ^ 31" "length types < 2 ^ 31" "length names < 2 ^ 31"
    and "\<forall>i\<in>set idxs. unat i < length types"
  shows "TimeZone_ctor (Some (tz_encode version reserved isgmt isstd leaps tms idxs types names rest))
         = Some (Some (tz_decoded tms idxs types names))"
  using tz_body_encode [OF assms] by (simp add: TimeZone_ctor_def readTimeZoneFile_def)

text \<open>
  Claim C16. Converting to local time and back gives the time: in a zone whose transitions are
  in order, \<open>toLocalTime\<close> uses the rule of the last transition not after the time, and
  \<open>fromLocalTime\<close> returns the original time unless that local time is one where the table by local time
  shows another rule (around a transition), given that \<open>timegm\<close> inverts \<open>gmtime_r\<close> there.
\<close>

theorem local_time_round_trip:
  assumes wf: "tz_wf True d" "tz_wf False d"
    and agree: "rule_at False d (s + gmtOffset (rule_at True d s)) = rule_at True d s"
    and gm: "timegm (gmtime (s + gmtOffset (rule_at True d s))) = s + gmtOffset (rule_at True d s)"
  shows "\<exists>l. toLocalTime gmtime d s = Some l \<and> tm_gmtoff l = gmtOffset (rule_at True d s)
           \<and> fromLocalTime gmtime timegm d l = Some s"
proof -
  let ?r = "rule_at True d s"
  have to: "toLocalTime gmtime d s = Some \<lparr>broken = gmtime (s + gmtOffset ?r), tm_isdst = isDst ?r,
      tm_gmtoff = gmtOffset ?r, tm_zone = arrbIdx ?r\<rparr>"
    using findLocaltime_rule [OF wf(1)] by (simp add: toLocalTime_def comp_key_def)
  moreover have "findLocaltime d \<lparr>gmttime = 0, localtime = s + gmtOffset ?r, localtimeIdx = 0\<rparr> False = Some ?r"
    using findLocaltime_rule [OF wf(2)] agree by (simp add: comp_key_def)
  ultimately show ?thesis using gm by (simp add: fromLocalTime_def Let_def)
qed

theorem local_time_round_trip_witness:
  "\<exists>l. toLocalTime (\<lambda>s. toUtcTime s False) (tz_decoded [0] [0] [(3600, 0, 0)] []) 100 = Some l
     \<and> fromLocalTime (\<lambda>s. toUtcTime s False) fromUtcTime (tz_decoded [0] [0] [(3600, 0, 0)] []) l = Some 100"
proof -
  let ?d = "tz_decoded [0] [0] [(3600, 0, 0)] []"
  have d: "transitions ?d = [\<lparr>gmttime = 0, localtime = 3600, localtimeIdx = 0\<rparr>]"
    "localtimes ?d = [\<lparr>gmtOffset = 3600, isDst = False, arrbIdx = 0\<rparr>]"
    by (simp_all add: tz_decoded_def dec_localtype_def)
  then have "tz_wf True ?d" "tz_wf False ?d" by (simp_all add: tz_wf_def)
  moreover have "rule_at True ?d 100 = \<lparr>gmtOffset = 3600, isDst = False, arrbIdx = 0\<rparr>"
    "rule_at False ?d 3700 = \<lparr>gmtOffset = 3600, isDst = False, arrbIdx = 0\<rparr>"
    by (simp_all add: rule_at_def d comp_key_def)
  moreover have "fromUtcTime (toUtcTime 3700 False) = 3700" by code_simp
  ultimately show ?thesis
    using local_time_round_trip [of ?d 100 fromUtcTime "\<lambda>s. toUtcTime s False"] by auto
qed

text \<open>
  A zone file that cannot be opened goes unnoticed: \<open>readTimeZoneFile\<close> returns
  true whatever happens, so the constructor never discards the data and \<open>valid()\<close> holds; for a
  missing file the data are empty, and \<open>toLocalTime\<close> then reads beyond the empty list of rules.
\<close>

lemma missing_zone_file_is_valid:
  "TimeZone_ctor None = Some (Some tz_empty) \<and> TimeZone_ctor file \<noteq> Some None
   \<and> toLocalTime gmtime tz_empty s = None"
proof -
  have "TimeZone_ctor file \<noteq> Some None"
    by (auto simp: TimeZone_ctor_def readTimeZoneFile_def check_simps split: option.splits)
  then show ?thesis
    by (simp add: TimeZone_ctor_def readTimeZoneFile_def toLocalTime_def findLocaltime_def tz_empty_def nth_localtime_def)
qed

end
