(* ===== verification/BigUInts.thy ===== *)
theory BigUInts
  imports Prelude
begin

text \<open>
  \<^verbatim>\<open>basic/uint.h\<close> and \<^verbatim>\<open>basic/uint.cc\<close>: unsigned integers of any size, as vectors of 32-bit
  limbs with the least significant first.

  Limbs are \<open>32 word\<close>s and the intermediate values are \<open>64 word\<close>s, so carries, the borrow
  by wrap-around in \<open>sub\<close> and every possible overflow are those of the code.  A loop over
  the limbs is a recursion over the list, carrying the loop's \<open>carry\<close>; loops from the top run on the
  reversed list.  An \<open>assert\<close> or \<open>abort\<close> is \<open>None\<close>.
\<close>

type_synonym limb = "32 word"
type_synonym u64 = "64 word"

definition kMask :: u64 where "kMask = 0xFFFFFFFF"

abbreviation wide :: "limb \<Rightarrow> u64" where "wide x \<equiv> ucast x"

text \<open>Assigning a \<open>uint64_t\<close> to a limb keeps the low 32 bits.\<close>

abbreviation low :: "u64 \<Rightarrow> limb" where "low s \<equiv> ucast (s AND kMask)"

definition carry_of :: "u64 \<Rightarrow> u64" where
  "carry_of s64 = (if s64 > kMask then 1 else 0)"

definition uint_of_limb :: "limb \<Rightarrow> limb list" where
  "uint_of_limb x = (if x > 0 then [x] else [])"

definition isZero :: "limb list \<Rightarrow> bool" where "isZero ls \<longleftrightarrow> ls = []"

definition isNormal :: "limb list \<Rightarrow> bool" where "isNormal ls \<longleftrightarrow> isZero ls \<or> last ls \<noteq> 0"

fun lexicographical_compare :: "limb list \<Rightarrow> limb list \<Rightarrow> bool" where
  "lexicographical_compare (x # xs) (y # ys) = (x < y \<or> \<not> y < x \<and> lexicographical_compare xs ys)"
| "lexicographical_compare [] (y # ys) = True"
| "lexicographical_compare xs [] = False"

definition lessThan :: "limb list \<Rightarrow> limb list \<Rightarrow> bool" where
  "lessThan limbs rhs \<longleftrightarrow> length rhs > length limbs
     \<or> length rhs = length limbs \<and> lexicographical_compare (rev limbs) (rev rhs)"

definition assign :: "limb \<Rightarrow> limb list" where
  "assign x = (if x = 0 then [] else [x])"

text \<open>The carry loops of both \<open>add\<close>s: they stop when the carry is zero.\<close>

fun add_carry :: "limb list \<Rightarrow> u64 \<Rightarrow> limb list" where
  "add_carry [] carry = (if carry \<noteq> 0 then [ucast carry] else [])"
| "add_carry (l # ls) carry =
     (if carry = 0 then l # ls
      else let s64 = wide l + carry in low s64 # add_carry ls (carry_of s64))"

definition add32 :: "limb list \<Rightarrow> limb \<Rightarrow> limb list" where
  "add32 limbs x = (case limbs of
     [] \<Rightarrow> [x]
   | l # ls \<Rightarrow> let s64 = wide l + wide x in low s64 # add_carry ls (carry_of s64))"

fun add_loop :: "limb list \<Rightarrow> limb list \<Rightarrow> u64 \<Rightarrow> limb list" where
  "add_loop (l # ls) (r # rs) carry =
     (let s64 = wide l + wide r + carry in low s64 # add_loop ls rs (carry_of s64))"
| "add_loop ls rs carry = add_carry ls carry"

definition add :: "limb list \<Rightarrow> limb list \<Rightarrow> limb list" where
  "add limbs rhs =
     (let limbs = (if length rhs > length limbs then vresize 0 (length rhs) limbs else limbs)
      in add_loop limbs rhs 0)"

fun sub_borrow :: "limb list \<Rightarrow> u64 \<Rightarrow> limb list \<times> u64" where
  "sub_borrow [] carry = ([], carry)"
| "sub_borrow (l # ls) carry =
     (if carry = 0 then (l # ls, carry)
      else let s64 = wide l - carry; (ls', c) = sub_borrow ls (carry_of s64) in (low s64 # ls', c))"

fun sub_loop :: "limb list \<Rightarrow> limb list \<Rightarrow> u64 \<Rightarrow> limb list \<times> u64" where
  "sub_loop (l # ls) (r # rs) carry =
     (let s64 = wide l - wide r - carry; (ls', c) = sub_loop ls rs (carry_of s64) in (low s64 # ls', c))"
| "sub_loop ls rs carry = sub_borrow ls carry"

fun pop_zeros :: "limb list \<Rightarrow> limb list" where
  "pop_zeros rls = (case rls of [] \<Rightarrow> [] | x # xs \<Rightarrow> if x = 0 then pop_zeros xs else rls)"

definition sub :: "limb list \<Rightarrow> limb list \<Rightarrow> limb list option" where
  "sub limbs rhs = do {
     check (\<not> lessThan limbs rhs);
     check (length rhs \<le> length limbs);
     let (ls, carry) = sub_loop limbs rhs 0;
     check (carry = 0);
     Some (rev (pop_zeros (rev ls))) }"

fun mul_loop :: "limb list \<Rightarrow> u64 \<Rightarrow> u64 \<Rightarrow> limb list" where
  "mul_loop [] multiplier carry = (if carry \<noteq> 0 then [ucast carry] else [])"
| "mul_loop (l # ls) multiplier carry =
     (let p64 = wide l * multiplier + carry
      in low p64 # mul_loop ls multiplier (p64 div 0x10000 div 0x10000))"

definition multiply32 :: "limb list \<Rightarrow> limb \<Rightarrow> limb list" where
  "multiply32 limbs x = (if wide x = 0 then [] else mul_loop limbs (wide x) 0)"

text \<open>
  Row \<open>i\<close> of the schoolbook product touches \<open>result\<close> from position \<open>i\<close> on, so the outer loop
  hands the rest of the result from row to row.
\<close>

fun mul_row :: "limb \<Rightarrow> limb list \<Rightarrow> limb list \<Rightarrow> u64 \<Rightarrow> limb list" where
  "mul_row r (l # ls) (p # ps) carry =
     (let p64 = wide r * wide l + wide p + carry
      in low p64 # mul_row r ls ps (p64 div 0x10000 div 0x10000))"
| "mul_row r [] (p # ps) carry = ucast carry # ps"
| "mul_row r ls [] carry = []"

fun mul_rows :: "limb list \<Rightarrow> limb list \<Rightarrow> limb list \<Rightarrow> limb list" where
  "mul_rows [] limbs result = result"
| "mul_rows (r # rs) limbs result =
     (let result' = (if r = 0 then result else mul_row r limbs result 0)
      in hd result' # mul_rows rs limbs (tl result'))"

definition multiply :: "limb list \<Rightarrow> limb list \<Rightarrow> limb list" where
  "multiply limbs rhs =
     (if limbs = [] \<or> rhs = [] then []
      else let result = mul_rows rhs limbs (replicate (length limbs + length rhs) 0)
           in if last result = 0 then butlast result else result)"

fun div_loop :: "u64 \<Rightarrow> u64 \<Rightarrow> limb list \<Rightarrow> limb list \<times> u64" where
  "div_loop x carry [] = ([], carry)"
| "div_loop x carry (l # ls) =
     (let p64 = push_bit 32 carry;
          p64 = p64 + wide l;
          (qs, c) = div_loop x (p64 mod x) ls
      in (ucast (p64 div x) # qs, c))"

text \<open>Division by zero is undefined.\<close>

definition devide :: "limb list \<Rightarrow> limb \<Rightarrow> (limb list \<times> limb) option" where
  "devide limbs x = do {
     check (x \<noteq> 0);
     let (qs, carry) = div_loop (wide x) 0 (rev limbs);
     let ls = rev qs;
     let ls = (if ls \<noteq> [] \<and> last ls = 0 then butlast ls else ls);
     check (isNormal ls);
     Some (ls, ucast carry) }"

function power_loop :: "limb list \<Rightarrow> limb list \<Rightarrow> limb \<Rightarrow> limb list" where
  "power_loop result this n =
     (if n = 0 then result
      else power_loop (if n AND 1 \<noteq> 0 then multiply result this else result) (multiply this this) (n div 2))"
  by auto
termination
  by (relation "measure (\<lambda>(_, _, n). unat n)") (auto simp: unat_div unat_gt_0)

declare power_loop.simps [simp del]

definition power_uint :: "limb list \<Rightarrow> limb \<Rightarrow> limb list" where
  "power_uint this n = (if n = 0 then assign 1 else if n > 1 then power_loop (uint_of_limb 1) this n else this)"

subsection \<open>The number denoted\<close>

fun uval :: "limb list \<Rightarrow> nat" where
  "uval [] = 0"
| "uval (l # ls) = unat l + 2 ^ 32 * uval ls"

lemma unat_limb: "unat (x :: limb) < 2 ^ 32"
  using unsigned_less [of x, where ?'a = nat] by simp

lemma unat_u64: "unat (x :: u64) < 2 ^ 64"
  using unsigned_less [of x, where ?'a = nat] by simp

lemma unat_wide [simp]: "unat (wide x) = unat x"
proof -
  have "unat x < 2 ^ 64" using unat_limb [of x] by simp
  then show ?thesis by (simp add: unsigned_ucast_eq take_bit_nat_eq_self)
qed

lemma unat_ucast_limb: "unat (ucast (s :: u64) :: limb) = unat s mod 2 ^ 32"
  by (simp add: unsigned_ucast_eq take_bit_eq_mod)

lemma kMask_mask: "kMask = mask 32"
  by (simp add: kMask_def mask_eq_exp_minus_1)

lemma unat_low [simp]: "unat (low s) = unat s mod 2 ^ 32"
proof -
  have "s AND kMask = take_bit 32 s" by (simp add: kMask_mask take_bit_eq_mask)
  then have "unat (s AND kMask) = unat s mod 2 ^ 32"
    by (simp only: unsigned_take_bit_eq [where ?'a = nat]) (simp add: take_bit_eq_mod)
  then show ?thesis by (simp add: unat_ucast_limb)
qed

lemma unat_kMask: "unat kMask = 2 ^ 32 - 1"
  by (simp add: kMask_def)

lemma unat_carry_of [simp]: "unat (carry_of s) = (if 2 ^ 32 \<le> unat s then 1 else 0)"
  by (auto simp: carry_of_def word_less_nat_alt unat_kMask)

lemma unat_add64: "unat x + unat y < 2 ^ 64 \<Longrightarrow> unat (x + y) = unat x + unat y" for x y :: u64
  by (simp add: unat_plus_if_size size_word_def)

lemma unat_mul64: "unat x * unat y < 2 ^ 64 \<Longrightarrow> unat (x * y) = unat x * unat y" for x y :: u64
  by (simp add: unat_word_ariths)

lemma uval_append: "uval (xs @ ys) = uval xs + 2 ^ (32 * length xs) * uval ys"
  by (induction xs) (simp_all add: power_add algebra_simps)

lemma uval_bound: "uval xs < 2 ^ (32 * length xs)"
proof (induction xs)
  case Nil
  then show ?case by simp
next
  case (Cons x xs)
  have "unat x + 2 ^ 32 * uval xs < 2 ^ 32 * (uval xs + 1)" using unat_limb [of x] by simp
  also have "\<dots> \<le> 2 ^ 32 * 2 ^ (32 * length xs)" using Cons by (intro mult_le_mono2) simp
  finally show ?case by (simp add: power_add)
qed

lemma uval_replicate_0 [simp]: "uval (replicate n 0) = 0"
  by (induction n) simp_all

lemma add_carry_val: "unat c \<le> 1 \<Longrightarrow> uval (add_carry ls c) = uval ls + unat c"
proof (induction ls arbitrary: c)
  case Nil
  then show ?case by (auto simp: unat_ucast_limb unat_eq_zero)
next
  case (Cons l ls)
  let ?s = "wide l + c"
  have s: "unat ?s = unat l + unat c" using unat_limb [of l] Cons.prems by (subst unat_add64) simp_all
  have "uval (add_carry ls (carry_of ?s)) = uval ls + (if 2 ^ 32 \<le> unat ?s then 1 else 0)"
    using Cons.IH [of "carry_of ?s"] by simp
  with s Cons.prems unat_limb [of l] show ?case
    by (auto simp: Let_def mod_if)
qed

lemma add_loop_val:
  "unat c \<le> 1 \<Longrightarrow> length rs \<le> length ls \<Longrightarrow> uval (add_loop ls rs c) = uval ls + uval rs + unat c"
proof (induction ls rs c rule: add_loop.induct)
  case (1 l ls r rs c)
  let ?s = "wide l + wide r + c"
  have lr: "unat (wide l + wide r) = unat l + unat r"
    using unat_limb [of l] unat_limb [of r] by (subst unat_add64) simp_all
  have s: "unat ?s = unat l + unat r + unat c"
    using unat_limb [of l] unat_limb [of r] "1.prems"(1) lr by (subst unat_add64) simp_all
  have "uval (add_loop ls rs (carry_of ?s)) = uval ls + uval rs + (if 2 ^ 32 \<le> unat ?s then 1 else 0)"
    using "1.IH" "1.prems" by simp
  with s "1.prems" unat_limb [of l] unat_limb [of r] show ?case
    by (auto simp: Let_def mod_if)
qed (auto simp: add_carry_val unat_ucast_limb unat_eq_zero)

lemma add_val: "uval (add xs ys) = uval xs + uval ys"
proof -
  have "uval (vresize 0 n xs) = uval xs" if "length xs \<le> n" for n
    using that by (simp add: vresize_def uval_append)
  then show ?thesis by (simp add: add_def Let_def add_loop_val)
qed

lemma add32_val: "uval (add32 xs x) = uval xs + unat x"
proof (cases xs)
  case Nil
  then show ?thesis by (simp add: add32_def)
next
  case (Cons l ls)
  let ?s = "wide l + wide x"
  have s: "unat ?s = unat l + unat x"
    using unat_limb [of l] unat_limb [of x] by (subst unat_add64) simp_all
  with Cons unat_limb [of l] unat_limb [of x] show ?thesis
    by (auto simp: add32_def Let_def add_carry_val mod_if)
qed

subsection \<open>Subtraction\<close>

lemma unat_sub64: "unat (x - y) = (if unat y \<le> unat x then unat x - unat y else unat x + 2 ^ 64 - unat y)"
  for x y :: u64
  by (simp add: unat_sub_if_size size_word_def)

lemma mod_top: "k < 2 ^ 32 \<Longrightarrow> (2 ^ 64 - 2 ^ 32 + k) mod 2 ^ 32 = k" for k :: nat
proof -
  assume "k < 2 ^ 32"
  moreover have "(2 ^ 64 - 2 ^ 32 + k :: nat) = 2 ^ 32 * (2 ^ 32 - 1) + k" by simp
  ultimately show ?thesis by (simp only: mod_mult_self4 mod_less)
qed

lemma sub_step:
  fixes l r :: limb
  assumes "unat c \<le> 1"
  defines "s \<equiv> wide l - wide r - c"
  shows "int (unat (low s)) = int (unat l) - int (unat r) - int (unat c) + 2 ^ 32 * int (unat (carry_of s))"
proof -
  have b: "unat l < 2 ^ 32" "unat r < 2 ^ 32" by (rule unat_limb)+
  show ?thesis
  proof (cases "unat r + unat c \<le> unat l")
    case True
    then have s: "unat s = unat l - unat r - unat c" by (simp add: s_def unat_sub64)
    then have "unat (low s) = unat l - unat r - unat c" using b by (simp add: mod_less)
    moreover have "unat (carry_of s) = 0" using s b by simp
    ultimately show ?thesis using True by simp
  next
    case False
    define k where "k = 2 ^ 32 + unat l - unat r - unat c"
    have k: "k < 2 ^ 32" using b False assms(1) by (simp add: k_def)
    have s: "unat s = 2 ^ 64 - 2 ^ 32 + k"
      using False b assms(1) by (auto simp: s_def k_def unat_sub64)
    then have "unat (low s) = k" using mod_top [OF k] by simp
    moreover have "unat (carry_of s) = 1" using s by simp
    ultimately show ?thesis using b False assms(1) by (simp add: k_def of_nat_diff)
  qed
qed

lemma sub_borrow_val:
  "unat c \<le> 1 \<Longrightarrow> sub_borrow ls c = (ls', c') \<Longrightarrow>
   unat c' \<le> 1 \<and> length ls' = length ls
   \<and> int (uval ls') = int (uval ls) - int (unat c) + 2 ^ (32 * length ls) * int (unat c')"
proof (induction ls arbitrary: c ls')
  case Nil
  then show ?case by simp
next
  case (Cons l ls)
  show ?case
  proof (cases "c = 0")
    case True
    with Cons.prems show ?thesis by auto
  next
    case False
    let ?s = "wide l - c"
    obtain ls1 where r: "sub_borrow ls (carry_of ?s) = (ls1, c')" "ls' = low ?s # ls1"
      using Cons.prems False by (auto simp: Let_def split: prod.splits)
    have st: "int (unat (low ?s)) = int (unat l) - int (unat c) + 2 ^ 32 * int (unat (carry_of ?s))"
      using sub_step [OF Cons.prems(1), of l 0] by simp
    have "unat (carry_of ?s) \<le> 1" by simp
    from Cons.IH [OF this r(1)] r(2) st show ?thesis
      by (simp add: power_add algebra_simps del: unat_low unat_carry_of)
  qed
qed

lemma sub_loop_val:
  "unat c \<le> 1 \<Longrightarrow> length rs \<le> length ls \<Longrightarrow> sub_loop ls rs c = (ls', c') \<Longrightarrow>
   unat c' \<le> 1 \<and> length ls' = length ls
   \<and> int (uval ls') = int (uval ls) - int (uval rs) - int (unat c) + 2 ^ (32 * length ls) * int (unat c')"
proof (induction ls rs c arbitrary: ls' rule: sub_loop.induct)
  case (1 l ls r rs c)
  let ?s = "wide l - wide r - c"
  obtain ls1 where r: "sub_loop ls rs (carry_of ?s) = (ls1, c')" "ls' = low ?s # ls1"
    using "1.prems"(3) by (auto simp: Let_def split: prod.splits)
  note st = sub_step [OF "1.prems"(1), of l r]
  have "unat (carry_of ?s) \<le> 1" by simp
  from "1.IH" [OF refl this _ r(1)] "1.prems"(2) r(2) st show ?case
    by (simp add: power_add algebra_simps del: unat_low unat_carry_of)
qed (use sub_borrow_val in \<open>fastforce+\<close>)

lemma pop_zeros_val: "uval (rev (pop_zeros rls)) = uval (rev rls)"
  by (induction rls) (auto simp: uval_append)

lemma pop_zeros_normal: "isNormal (rev (pop_zeros rls))"
  by (induction rls) (auto simp: isNormal_def isZero_def)

text \<open>For normal operands \<open>lessThan\<close> is the order of the numbers.\<close>

lemma lexicographical_compare_val:
  "length xs = length ys \<Longrightarrow> lexicographical_compare xs ys \<longleftrightarrow> uval (rev xs) < uval (rev ys)"
proof (induction xs ys rule: lexicographical_compare.induct)
  case (1 x xs y ys)
  let ?B = "2 ^ (32 * length xs) :: nat"
  have b: "uval (rev xs) < ?B" "uval (rev ys) < ?B"
    using uval_bound [of "rev xs"] uval_bound [of "rev ys"] "1.prems" by simp_all
  have v: "uval (rev (x # xs)) = uval (rev xs) + ?B * unat x" "uval (rev (y # ys)) = uval (rev ys) + ?B * unat y"
    using "1.prems" by (simp_all add: uval_append)
  have less: "u + ?B * unat a < w + ?B * unat d" if "unat a < unat d" "u < ?B" for u w :: nat and a d :: limb
  proof -
    have "u + ?B * unat a < ?B * (unat a + 1)" using that(2) by simp
    also have "\<dots> \<le> ?B * unat d" using that(1) by (intro mult_le_mono2) simp
    finally show ?thesis by simp
  qed
  consider "unat x < unat y" | "unat y < unat x" | "x = y" by (metis nat_neq_iff unsigned_word_eqI)
  then show ?case
  proof cases
    case 1
    with less [OF 1 b(1), of "uval (rev ys)"] v show ?thesis by (simp add: word_less_nat_alt)
  next
    case 2
    with less [OF 2 b(2), of "uval (rev xs)"] v show ?thesis by (simp add: word_less_nat_alt)
  next
    case 3
    with "1.IH" "1.prems" v show ?thesis by simp
  qed
qed simp_all

lemma uval_lower:
  assumes "isNormal ls" and "ls \<noteq> []"
  shows "2 ^ (32 * (length ls - 1)) \<le> uval ls"
proof -
  have "ls = butlast ls @ [last ls]" using assms by simp
  then have "uval ls = uval (butlast ls) + 2 ^ (32 * (length ls - 1)) * unat (last ls)"
    by (metis length_butlast mult_0_right add_0_right uval.simps uval_append)
  moreover have "0 < unat (last ls)" using assms by (simp add: isNormal_def isZero_def unat_gt_0)
  ultimately show ?thesis by (simp add: trans_le_add2)
qed

lemma lessThan_val:
  assumes "isNormal ys"
  shows "lessThan xs ys \<longrightarrow> uval xs < uval ys"
    and "isNormal xs \<Longrightarrow> uval xs < uval ys \<Longrightarrow> lessThan xs ys"
proof -
  have longer: "uval as < uval bs" if "length as < length bs" "isNormal bs" for as bs
  proof -
    have "uval as < 2 ^ (32 * length as)" by (rule uval_bound)
    also have "\<dots> \<le> 2 ^ (32 * (length bs - 1))" using that(1) by (intro power_increasing) simp_all
    also have "\<dots> \<le> uval bs" using that by (intro uval_lower) auto
    finally show ?thesis .
  qed
  show "lessThan xs ys \<longrightarrow> uval xs < uval ys"
    using longer [of xs ys] assms lexicographical_compare_val [of "rev xs" "rev ys"] by (auto simp: lessThan_def)
  show "lessThan xs ys" if "isNormal xs" "uval xs < uval ys"
    using longer [of ys xs] that lexicographical_compare_val [of "rev xs" "rev ys"]
    by (cases "length xs" "length ys" rule: linorder_cases) (auto simp: lessThan_def)
qed

lemma sub_ok:
  assumes "isNormal xs" and "isNormal ys" and "uval ys \<le> uval xs"
  shows "\<exists>zs. sub xs ys = Some zs \<and> isNormal zs \<and> uval zs = uval xs - uval ys"
proof -
  have nl: "\<not> lessThan xs ys" using lessThan_val(1) [OF assms(2), of xs] assms(3) by auto
  then have len: "length ys \<le> length xs" by (auto simp: lessThan_def)
  obtain ls c where sl: "sub_loop xs ys 0 = (ls, c)" by force
  from sub_loop_val [OF _ len sl] have
    v: "unat c \<le> 1" "length ls = length xs" "int (uval ls) = int (uval xs) - int (uval ys) + 2 ^ (32 * length xs) * int (unat c)"
    by simp_all
  have "unat c = 0"
  proof (rule ccontr)
    assume "unat c \<noteq> 0"
    with v(1) have "unat c = 1" by simp
    with v(3) assms(3) have "2 ^ (32 * length xs) \<le> int (uval ls)" by simp
    moreover have "int (uval ls) < 2 ^ (32 * length xs)"
      using uval_bound [of ls] v(2) by (metis of_nat_less_iff of_nat_numeral of_nat_power)
    ultimately show False by simp
  qed
  with v(3) assms(3) have "uval ls = uval xs - uval ys" "c = 0" by (simp_all add: of_nat_diff unat_eq_zero)
  with nl len sl show ?thesis
    by (simp add: sub_def pop_zeros_val pop_zeros_normal del: pop_zeros.simps)
qed

subsection \<open>Multiplication\<close>

lemma div_2_16_16: "unat (p div 0x10000 div 0x10000) = unat p div 2 ^ 32" for p :: u64
  by (simp add: unat_div div_mult2_eq [symmetric])

lemma limb_product: "unat (x :: limb) * unat (y :: limb) \<le> (2 ^ 32 - 1) * (2 ^ 32 - 1)"
  using unat_limb [of x] unat_limb [of y] by (intro mult_le_mono) simp_all

lemma mul_loop_val:
  "unat m < 2 ^ 32 \<Longrightarrow> unat c < 2 ^ 32 \<Longrightarrow> uval (mul_loop ls m c) = uval ls * unat m + unat c"
proof (induction ls arbitrary: c)
  case Nil
  then show ?case by (auto simp: unat_ucast_limb unat_eq_zero)
next
  case (Cons l ls)
  let ?p = "wide l * m + c"
  have le: "unat l * unat m \<le> (2 ^ 32 - 1) * (2 ^ 32 - 1)"
    using unat_limb [of l] Cons.prems by (intro mult_le_mono) simp_all
  have m: "unat (wide l * m) = unat l * unat m" using le by (subst unat_mul64) simp_all
  have p: "unat ?p = unat l * unat m + unat c" using le Cons.prems m by (subst unat_add64) simp_all
  let ?q = "?p div 0x10000 div 0x10000"
  have q: "unat ?q = unat ?p div 2 ^ 32" by (rule div_2_16_16)
  have "unat ?p < 2 ^ 32 * 2 ^ 32" using p le Cons.prems by simp
  then have "unat ?q < 2 ^ 32" unfolding q by (simp add: less_mult_imp_div_less)
  from Cons.IH [OF Cons.prems(1) this]
  have "uval (mul_loop (l # ls) m c) = unat ?p mod 2 ^ 32 + 2 ^ 32 * (uval ls * unat m + unat ?p div 2 ^ 32)"
    unfolding q by (simp add: Let_def)
  also have "\<dots> = unat ?p + 2 ^ 32 * (uval ls * unat m)"
    using mod_mult_div_eq [of "unat ?p" "2 ^ 32"] by (simp add: algebra_simps)
  finally show ?case unfolding p by (simp add: algebra_simps)
qed

lemma multiply32_val: "uval (multiply32 xs x) = uval xs * unat x"
proof (cases "wide x = 0")
  case True
  then have "unat x = 0" using unat_wide [of x] by simp
  with True show ?thesis by (simp add: multiply32_def)
next
  case False
  then show ?thesis using mul_loop_val [of "wide x" 0 xs] unat_limb [of x] by (simp add: multiply32_def)
qed

lemma mul_row_val:
  "unat c < 2 ^ 32 \<Longrightarrow> length ls < length ps \<Longrightarrow> ps ! length ls = 0 \<Longrightarrow>
   uval (mul_row r ls ps c) = uval ps + unat r * uval ls + unat c
   \<and> length (mul_row r ls ps c) = length ps
   \<and> drop (Suc (length ls)) (mul_row r ls ps c) = drop (Suc (length ls)) ps"
proof (induction r ls ps c rule: mul_row.induct)
  case (1 r l ls p ps c)
  let ?p = "wide r * wide l + wide p + c"
  have le: "unat r * unat l \<le> (2 ^ 32 - 1) * (2 ^ 32 - 1)" by (rule limb_product)
  have m: "unat (wide r * wide l) = unat r * unat l" using le by (subst unat_mul64) simp_all
  have m2: "unat (wide r * wide l + wide p) = unat r * unat l + unat p"
    using le m unat_limb [of p] by (subst unat_add64) simp_all
  have pp: "unat ?p = unat r * unat l + unat p + unat c"
    using le m2 "1.prems"(1) unat_limb [of p] by (subst unat_add64) simp_all
  let ?q = "?p div 0x10000 div 0x10000"
  have q: "unat ?q = unat ?p div 2 ^ 32" by (rule div_2_16_16)
  have "unat ?p < 2 ^ 32 * 2 ^ 32" using pp le "1.prems"(1) unat_limb [of p] by simp
  then have "unat ?q < 2 ^ 32" unfolding q by (simp add: less_mult_imp_div_less)
  with "1.IH" [OF refl this] "1.prems" have
    ih: "uval (mul_row r ls ps ?q) = uval ps + unat r * uval ls + unat ?p div 2 ^ 32"
      "length (mul_row r ls ps ?q) = length ps"
      "drop (Suc (length ls)) (mul_row r ls ps ?q) = drop (Suc (length ls)) ps"
    unfolding q by simp_all
  have "uval (mul_row r (l # ls) (p # ps) c)
      = unat ?p mod 2 ^ 32 + 2 ^ 32 * (uval ps + unat r * uval ls + unat ?p div 2 ^ 32)"
    using ih(1) by (simp add: Let_def)
  also have "\<dots> = unat ?p + 2 ^ 32 * (uval ps + unat r * uval ls)"
    using mod_mult_div_eq [of "unat ?p" "2 ^ 32"] by (simp add: algebra_simps)
  finally have "uval (mul_row r (l # ls) (p # ps) c) = uval (p # ps) + unat r * uval (l # ls) + unat c"
    unfolding pp by (simp add: algebra_simps)
  with ih(2,3) show ?case by (simp add: Let_def)
next
  case (2 r p ps c)
  then show ?case by (simp add: unat_ucast_limb)
next
  case (3 r ls c)
  then show ?case by simp
qed

lemma mul_rows_val:
  "limbs \<noteq> [] \<Longrightarrow> length res = length limbs + length rs \<Longrightarrow> drop (length limbs) res = replicate (length rs) 0 \<Longrightarrow>
   uval (mul_rows rs limbs res) = uval res + uval rs * uval limbs \<and> length (mul_rows rs limbs res) = length res"
proof (induction rs arbitrary: res)
  case Nil
  then show ?case by simp
next
  case (Cons r rs)
  let ?n = "length limbs"
  let ?res = "if r = 0 then res else mul_row r limbs res 0"
  have lt: "?n < length res" using Cons.prems by simp
  have d: "drop ?n res = 0 # replicate (length rs) 0" using Cons.prems by simp
  have "res ! ?n = 0" using d lt by (metis Cons_nth_drop_Suc list.inject)
  moreover have dS: "drop (Suc ?n) res = replicate (length rs) 0" using d lt by (metis Cons_nth_drop_Suc list.inject)
  ultimately have row: "uval ?res = uval res + unat r * uval limbs" "length ?res = length res"
    "drop (Suc ?n) ?res = replicate (length rs) 0"
    using mul_row_val [of 0 limbs res r] lt by auto
  then obtain p ps where ps: "?res = p # ps" using lt by (cases ?res) auto
  have "length ps = ?n + length rs" "drop ?n ps = replicate (length rs) 0"
    using row(2,3) Cons.prems(2) unfolding ps by simp_all
  from Cons.IH [OF Cons.prems(1) this] have
    "uval (mul_rows rs limbs ps) = uval ps + uval rs * uval limbs" "length (mul_rows rs limbs ps) = length ps"
    by simp_all
  moreover have "mul_rows (r # rs) limbs res = p # mul_rows rs limbs ps" using ps by (simp add: Let_def)
  ultimately show ?case using row(1,2) unfolding ps by (simp add: algebra_simps)
qed

lemma multiply_ok:
  assumes "isNormal xs" and "isNormal ys"
  shows "uval (multiply xs ys) = uval xs * uval ys" and "isNormal (multiply xs ys)"
proof -
  have "uval (multiply xs ys) = uval xs * uval ys \<and> isNormal (multiply xs ys)"
  proof (cases "xs = [] \<or> ys = []")
    case True
    then show ?thesis by (auto simp: multiply_def isNormal_def isZero_def)
  next
    case False
    let ?r = "mul_rows ys xs (replicate (length xs + length ys) 0)"
    have r: "uval ?r = uval xs * uval ys" "length ?r = length xs + length ys"
      using mul_rows_val [of xs "replicate (length xs + length ys) 0" ys] False by (simp_all add: mult.commute)
    then have ne: "?r \<noteq> []" using False by auto
    have snoc: "?r = butlast ?r @ [last ?r]" using ne by simp
    show ?thesis
    proof (cases "last ?r = 0")
      case zero: True
      then have v: "uval (butlast ?r) = uval xs * uval ys"
        using r(1) snoc by (metis add_0_right mult_0_right uval.simps uval_append unsigned_0)
      let ?k = "length xs + length ys - 2"
      have "2 ^ (32 * (length xs - 1)) * 2 ^ (32 * (length ys - 1)) \<le> uval xs * uval ys"
        using uval_lower [OF assms(1)] uval_lower [OF assms(2)] False by (intro mult_le_mono) auto
      moreover have "length xs - 1 + (length ys - 1) = ?k" using False by (cases xs; cases ys) auto
      then have "32 * (length xs - 1) + 32 * (length ys - 1) = 32 * ?k" by simp
      ultimately have low: "2 ^ (32 * ?k) \<le> uval (butlast ?r)" unfolding v by (metis power_add)
      have bl: "length (butlast ?r) = Suc ?k" using r(2) False by (cases xs; cases ys) auto
      then have bne: "butlast ?r \<noteq> []" by (metis list.size(3) nat.distinct(1))
      have "last (butlast ?r) \<noteq> 0"
      proof
        assume z: "last (butlast ?r) = 0"
        have "butlast ?r = butlast (butlast ?r) @ [last (butlast ?r)]" using bne by simp
        then have "uval (butlast ?r) = uval (butlast (butlast ?r))"
          using z by (metis add_0_right mult_0_right uval.simps uval_append unsigned_0)
        also have "\<dots> < 2 ^ (32 * ?k)"
          using uval_bound [of "butlast (butlast ?r)"] bl by (metis diff_Suc_1 length_butlast)
        finally show False using low by simp
      qed
      with zero v False show ?thesis by (simp add: multiply_def Let_def isNormal_def)
    next
      case nz: False
      with r False show ?thesis by (simp add: multiply_def Let_def isNormal_def)
    qed
  qed
  then show "uval (multiply xs ys) = uval xs * uval ys" "isNormal (multiply xs ys)" by simp_all
qed

lemma odd_limb: "n AND 1 \<noteq> 0 \<longleftrightarrow> odd (unat n)" for n :: limb
proof -
  have "n AND 1 \<noteq> 0 \<longleftrightarrow> unat (n mod 2) \<noteq> 0" by (simp add: and_one_eq unat_eq_zero del: unat_mod)
  also have "unat (n mod 2) = unat n mod 2" by (simp add: unat_mod)
  finally show ?thesis by (simp add: odd_iff_mod_2_eq_one)
qed

lemma power_loop_val:
  "isNormal res \<Longrightarrow> isNormal this \<Longrightarrow>
   uval (power_loop res this n) = uval res * uval this ^ unat n \<and> isNormal (power_loop res this n)"
proof (induction res this n rule: power_loop.induct)
  case (1 res this n)
  show ?case
  proof (cases "n = 0")
    case True
    with "1.prems" show ?thesis by (subst (1 2) power_loop.simps) simp
  next
    case False
    let ?res = "if n AND 1 \<noteq> 0 then multiply res this else res"
    have half: "unat (n div 2) = unat n div 2" by (simp add: unat_div)
    have res: "isNormal ?res" "uval ?res = uval res * uval this ^ (unat n mod 2)"
      using multiply_ok [OF "1.prems"] "1.prems" odd_limb [of n] by (auto simp: odd_iff_mod_2_eq_one)
    have sq: "isNormal (multiply this this)" "uval (multiply this this) = uval this ^ 2"
      using multiply_ok [OF "1.prems"(2,2)] by (simp_all add: power2_eq_square)
    have "uval (power_loop res this n) = uval ?res * (uval this ^ 2) ^ (unat n div 2)"
      "isNormal (power_loop res this n)"
      using "1.IH" [OF False res(1) sq(1)] False sq(2) half by (simp_all add: power_loop.simps [of res this n])
    moreover have "uval this ^ (unat n mod 2) * (uval this ^ 2) ^ (unat n div 2) = uval this ^ unat n"
      by (simp flip: power_mult power_add)
    ultimately show ?thesis using res(2) by (simp add: mult.assoc)
  qed
qed

lemma power_uint_ok:
  assumes "isNormal this"
  shows "uval (power_uint this n) = uval this ^ unat n" and "isNormal (power_uint this n)"
proof -
  have one: "isNormal (uint_of_limb 1)" "uval (uint_of_limb 1) = 1"
    by (simp_all add: uint_of_limb_def isNormal_def isZero_def word_less_nat_alt)
  consider "n = 0" | "n = 1" | "n > 1"
    by (metis word_less_1 word_not_simps(1) linorder_cases)
  then have "uval (power_uint this n) = uval this ^ unat n \<and> isNormal (power_uint this n)"
  proof cases
    case 1
    then show ?thesis by (simp add: power_uint_def assign_def isNormal_def isZero_def)
  next
    case 2
    with assms show ?thesis by (simp add: power_uint_def)
  next
    case 3
    with power_loop_val [OF one(1) assms, of n] one(2) show ?thesis by (auto simp: power_uint_def)
  qed
  then show "uval (power_uint this n) = uval this ^ unat n" "isNormal (power_uint this n)" by simp_all
qed

subsection \<open>Division\<close>

lemma div_loop_val:
  assumes x: "0 < unat x" "unat x < 2 ^ 32"
  shows "unat c < unat x \<Longrightarrow> div_loop x c ls = (qs, r) \<Longrightarrow>
     length qs = length ls \<and> unat r < unat x
     \<and> uval (rev qs) * unat x + unat r = unat c * 2 ^ (32 * length ls) + uval (rev ls)"
proof (induction ls arbitrary: c qs)
  case Nil
  then show ?case by simp
next
  case (Cons l ls)
  let ?p = "push_bit 32 c + wide l"
  have c32: "unat c < 2 ^ 32" using Cons.prems(1) x(2) by simp
  have sh: "unat (push_bit 32 c) = unat c * 2 ^ 32"
    using c32 by (simp add: push_bit_eq_mult unat_word_ariths)
  have le: "unat c * 2 ^ 32 \<le> (2 ^ 32 - 1) * 2 ^ 32" using c32 by (intro mult_le_mono) simp_all
  have p: "unat ?p = unat c * 2 ^ 32 + unat l"
    using sh le unat_limb [of l] by (subst unat_add64) simp_all
  have lt: "unat ?p < unat x * 2 ^ 32"
  proof -
    have "unat ?p < (unat c + 1) * 2 ^ 32" using p unat_limb [of l] by simp
    also have "\<dots> \<le> unat x * 2 ^ 32" using Cons.prems(1) by (intro mult_le_mono1) simp
    finally show ?thesis .
  qed
  obtain qs1 where q: "div_loop x (?p mod x) ls = (qs1, r)" "qs = ucast (?p div x) # qs1"
    using Cons.prems(2) by (auto simp: Let_def split: prod.splits)
  have m: "unat (?p mod x) = unat ?p mod unat x" "unat (?p div x) = unat ?p div unat x"
    by (simp_all only: unat_mod unat_div)
  have dl: "unat ?p div unat x < 2 ^ 32" using lt by (simp add: less_mult_imp_div_less mult.commute)
  then have d: "unat (ucast (?p div x) :: limb) = unat ?p div unat x"
    unfolding unat_ucast_limb m by simp
  have "unat (?p mod x) < unat x" using x(1) by (simp only: m mod_less_divisor)
  from Cons.IH [OF this q(1)] have
    ih: "length qs1 = length ls" "unat r < unat x"
      "uval (rev qs1) * unat x + unat r = unat ?p mod unat x * 2 ^ (32 * length ls) + uval (rev ls)"
    unfolding m by simp_all
  let ?B = "2 ^ (32 * length ls) :: nat"
  have "uval (rev qs) * unat x + unat r = ?B * (unat ?p div unat x * unat x) + (uval (rev qs1) * unat x + unat r)"
    using q(2) ih(1) d by (simp add: uval_append algebra_simps)
  also have "\<dots> = ?B * (unat ?p div unat x * unat x + unat ?p mod unat x) + uval (rev ls)"
    unfolding ih(3) by (simp only: distrib_left add.assoc mult.commute [of "unat ?p mod unat x" ?B])
  also have "\<dots> = ?B * unat ?p + uval (rev ls)" by (simp only: div_mult_mod_eq)
  also have "\<dots> = unat c * 2 ^ (32 * length (l # ls)) + uval (rev (l # ls))"
    unfolding p by (simp add: uval_append power_add algebra_simps)
  finally show ?case using ih(1,2) q(2) by simp
qed

lemma devide_ok:
  assumes n: "isNormal xs" and x: "x \<noteq> 0"
  shows "\<exists>qs r. devide xs x = Some (qs, r) \<and> isNormal qs \<and> uval qs = uval xs div unat x
           \<and> unat r = uval xs mod unat x \<and> length qs \<le> length xs"
proof -
  obtain qs r where d: "div_loop (wide x) 0 (rev xs) = (qs, r)" by force
  have x0: "0 < unat (wide x)" "unat (wide x) < 2 ^ 32" using x unat_limb [of x] by (simp_all add: unat_gt_0)
  from div_loop_val [OF x0 _ d] x0 have
    v: "length qs = length xs" "unat r < unat x" "uval (rev qs) * unat x + unat r = uval xs" by simp_all
  have q: "uval xs div unat x = uval (rev qs)" "uval xs mod unat x = unat r"
    using v(2,3) by (metis add.commute div_mult_self3 div_less add_0_right gr_implies_not0, metis mod_mult_self3 mod_less)
  let ?ls = "if rev qs \<noteq> [] \<and> last (rev qs) = 0 then butlast (rev qs) else rev qs"
  have val: "uval ?ls = uval (rev qs)"
  proof (cases "rev qs \<noteq> [] \<and> last (rev qs) = 0")
    case True
    then have "uval (rev qs) = uval (butlast (rev qs) @ [0])" by (metis append_butlast_last_id)
    also have "\<dots> = uval (butlast (rev qs))" by (simp add: uval_append)
    finally show ?thesis using True by simp
  next
    case False
    then show ?thesis by (simp only: False if_False)
  qed
  have norm: "isNormal ?ls"
  proof (cases "rev qs \<noteq> [] \<and> last (rev qs) = 0")
    case False
    then show ?thesis by (auto simp: isNormal_def isZero_def)
  next
    case True
    show ?thesis
    proof (cases "length xs \<le> 1")
      case True
      with v(1) have "length qs \<le> 1" by simp
      then have "butlast (rev qs) = []" by (cases qs; cases "tl qs") auto
      with \<open>rev qs \<noteq> [] \<and> last (rev qs) = 0\<close> show ?thesis by (simp add: isNormal_def isZero_def)
    next
      case False
      let ?k = "length xs - 2"
      have lenb: "length (butlast (rev qs)) = Suc ?k" using v(1) False by simp
      then have bne: "butlast (rev qs) \<noteq> []" by (metis list.size(3) nat.distinct(1))
      have "32 * (length xs - 1) = 32 + 32 * ?k" using False by simp
      then have "2 ^ 32 * 2 ^ (32 * ?k) \<le> uval xs"
        using uval_lower [OF n] False by (metis list.size(3) not_one_le_zero power_add zero_le_one le_zero_eq nat_le_linear)
      moreover have "uval xs < (uval (rev qs) + 1) * unat x" using v(2,3) by simp
      moreover have "(uval (rev qs) + 1) * unat x \<le> (uval (rev qs) + 1) * 2 ^ 32" using unat_limb [of x] by (intro mult_le_mono2) simp
      ultimately have "2 ^ 32 * 2 ^ (32 * ?k) < (uval (rev qs) + 1) * 2 ^ 32" by linarith
      then have lowb: "2 ^ (32 * ?k) \<le> uval (rev qs)" by (simp add: mult.commute)
      have "last (butlast (rev qs)) \<noteq> 0"
      proof
        assume z: "last (butlast (rev qs)) = 0"
        have "uval (butlast (rev qs)) = uval (butlast (butlast (rev qs)) @ [last (butlast (rev qs))])"
          by (simp only: append_butlast_last_id [OF bne])
        also have "\<dots> = uval (butlast (butlast (rev qs)))" using z by (simp add: uval_append)
        also have "\<dots> < 2 ^ (32 * ?k)"
          using uval_bound [of "butlast (butlast (rev qs))"] lenb by (metis diff_Suc_1 length_butlast)
        finally show False using lowb val \<open>rev qs \<noteq> [] \<and> last (rev qs) = 0\<close> by simp
      qed
      with \<open>rev qs \<noteq> [] \<and> last (rev qs) = 0\<close> show ?thesis by (simp add: isNormal_def)
    qed
  qed
  have "unat (ucast r :: limb) = unat r" using v(2) unat_limb [of x] by (simp add: unat_ucast_limb)
  moreover have "length ?ls \<le> length xs" using v(1) by simp
  ultimately show ?thesis
    using d x norm val q by (simp add: devide_def Let_def)
qed

lemma devide_decreases:
  assumes "devide xs x = Some (qs, r)" and "length xs > 1" and "x > 1"
  shows "uval qs < uval xs"
proof -
  obtain ls c where d: "div_loop (wide x) 0 (rev xs) = (ls, c)" by force
  have x0: "0 < unat (wide x)" "unat (wide x) < 2 ^ 32" "1 < unat x"
    using assms(3) unat_limb [of x] by (auto simp: word_less_nat_alt)
  from div_loop_val [OF x0(1,2) _ d] have
    v: "length ls = length xs" "uval (rev ls) * unat x + unat c = uval xs" using x0 by simp_all
  let ?ls = "if rev ls \<noteq> [] \<and> last (rev ls) = 0 then butlast (rev ls) else rev ls"
  have qs: "qs = ?ls" "isNormal ?ls"
    using assms(1) d by (auto simp: devide_def Let_def check_simps split: if_splits)
  have "uval ?ls = uval (rev ls)"
  proof (cases "rev ls \<noteq> [] \<and> last (rev ls) = 0")
    case True
    then have "uval (rev ls) = uval (butlast (rev ls) @ [0])" by (metis append_butlast_last_id)
    also have "\<dots> = uval (butlast (rev ls))" by (simp add: uval_append)
    finally show ?thesis using True by simp
  next
    case False
    then show ?thesis by (simp only: False if_False)
  qed
  then have le: "uval qs * unat x \<le> uval xs" using v(2) qs(1) by simp
  have "length qs \<ge> length xs - 1" using qs(1) v(1) by simp
  then have "qs \<noteq> []" using assms(2) by auto
  have "isNormal qs" unfolding qs(1) by (rule qs(2))
  have "0 < (2 :: nat) ^ (32 * (length qs - 1))" by simp
  also have "\<dots> \<le> uval qs" by (rule uval_lower) fact+
  finally have "0 < uval qs" .
  then have "uval qs < uval qs * unat x" using x0(3) by simp
  also note le
  finally show ?thesis .
qed

subsection \<open>Sums are normal\<close>

lemma normal_of_val: "2 ^ (32 * (length ls - 1)) \<le> uval ls \<Longrightarrow> isNormal ls"
proof (rule ccontr)
  assume le: "2 ^ (32 * (length ls - 1)) \<le> uval ls" and "\<not> isNormal ls"
  then have ne: "ls \<noteq> []" and z: "last ls = 0" by (auto simp: isNormal_def isZero_def)
  have "uval ls = uval (butlast ls @ [last ls])" using ne by simp
  also have "\<dots> = uval (butlast ls)" using z by (simp add: uval_append)
  also have "\<dots> < 2 ^ (32 * (length ls - 1))" using uval_bound [of "butlast ls"] by simp
  finally show False using le by simp
qed

lemma add_carry_length:
  "unat c \<le> 1 \<Longrightarrow> length (add_carry ls c) = length ls \<or> add_carry ls c \<noteq> [] \<and> last (add_carry ls c) \<noteq> 0"
proof (induction ls arbitrary: c)
  case Nil
  have "unat (ucast c :: limb) = unat c" using Nil by (simp add: unat_ucast_limb)
  then have "ucast c \<noteq> (0 :: limb)" if "c \<noteq> 0" using that by (metis unat_eq_0)
  then show ?case by simp
next
  case (Cons l ls)
  have "unat (carry_of (wide l + c)) \<le> 1" by simp
  from Cons.IH [OF this] show ?case by (auto simp: Let_def simp del: unat_carry_of)
qed

lemma add_loop_length:
  "unat c \<le> 1 \<Longrightarrow> length rs \<le> length ls \<Longrightarrow>
     length (add_loop ls rs c) = length ls \<or> add_loop ls rs c \<noteq> [] \<and> last (add_loop ls rs c) \<noteq> 0"
proof (induction ls rs c rule: add_loop.induct)
  case (1 l ls r rs carry)
  have "unat (carry_of (wide l + wide r + carry)) \<le> 1" by simp
  with 1 show ?case by (auto simp: Let_def simp del: unat_carry_of)
qed (simp_all only: add_loop.simps add_carry_length)

lemma add_normal:
  assumes "isNormal xs" "isNormal ys"
  shows "isNormal (add xs ys)"
proof (cases "xs = [] \<and> ys = []")
  case True
  then show ?thesis by (simp add: add_def isNormal_def isZero_def)
next
  case False
  let ?ls = "if length ys > length xs then vresize 0 (length ys) xs else xs"
  have len: "length ?ls = max (length xs) (length ys)" by simp
  from add_loop_length [of 0 ys ?ls] len consider
    "length (add xs ys) = max (length xs) (length ys)" | "last (add xs ys) \<noteq> 0"
    by (auto simp: add_def Let_def)
  then show ?thesis
  proof cases
    case 1
    have "2 ^ (32 * (length (add xs ys) - 1)) \<le> max (uval xs) (uval ys)"
    proof (cases "length xs \<le> length ys")
      case True
      with False uval_lower [OF assms(2)] 1 show ?thesis by (force simp: max_def)
    next
      case False
      with uval_lower [OF assms(1)] 1 show ?thesis by (force simp: max_def)
    qed
    also have "\<dots> \<le> uval (add xs ys)" by (simp add: add_val)
    finally show ?thesis by (rule normal_of_val)
  qed (simp add: isNormal_def)
qed

lemma sub_underflow: "isNormal xs \<Longrightarrow> isNormal ys \<Longrightarrow> uval xs < uval ys \<Longrightarrow> sub xs ys = None"
  using lessThan_val(2) [of ys xs] by (simp add: sub_def)

subsection \<open>Properties\<close>

text \<open>
  Claim C17.  On normalised operands the schoolbook routines compute the exact sum, product and power of
  the numbers the limbs denote, whatever their size, and return normalised limbs again; the
  subtraction, which borrows by the wrap-around of 64-bit differences, computes the exact difference
  and aborts exactly when it would be negative; division by a nonzero 32-bit number never trips its
  assertion and leaves the exact quotient and remainder, normalised by dropping at most one limb.
\<close>

theorem uint_arithmetic:
  assumes "isNormal xs" and "isNormal ys" and "d \<noteq> 0"
  shows "uval (add xs ys) = uval xs + uval ys \<and> isNormal (add xs ys)
    \<and> uval (multiply xs ys) = uval xs * uval ys \<and> isNormal (multiply xs ys)
    \<and> uval (power_uint xs n) = uval xs ^ unat n \<and> isNormal (power_uint xs n)
    \<and> (case sub xs ys of
         None \<Rightarrow> uval xs < uval ys
       | Some zs \<Rightarrow> uval ys \<le> uval xs \<and> uval zs = uval xs - uval ys \<and> isNormal zs)
    \<and> (\<exists>qs r. devide xs d = Some (qs, r) \<and> isNormal qs \<and> uval qs = uval xs div unat d
           \<and> unat r = uval xs mod unat d)"
proof -
  have "case sub xs ys of None \<Rightarrow> uval xs < uval ys
        | Some zs \<Rightarrow> uval ys \<le> uval xs \<and> uval zs = uval xs - uval ys \<and> isNormal zs"
  proof (cases "uval ys \<le> uval xs")
    case True
    from sub_ok [OF assms(1,2) True] True show ?thesis by auto
  next
    case False
    with sub_underflow [OF assms(1,2)] show ?thesis by simp
  qed
  then show ?thesis
    using add_val add_normal [OF assms(1,2)] multiply_ok [OF assms(1,2)] power_uint_ok [OF assms(1)]
      devide_ok [OF assms(1,3)] by blast
qed

theorem uint_arithmetic_witness:
  "uval (multiply [0xFFFFFFFF, 1] [0xFFFFFFFF]) = (2 ^ 33 - 1) * (2 ^ 32 - 1)
   \<and> (\<exists>qs r. devide [0xFFFFFFFF, 1] 10 = Some (qs, r) \<and> uval qs = 858993459 \<and> unat r = 1)"
  using uint_arithmetic [of "[0xFFFFFFFF, 1]" "[0xFFFFFFFF]" 10 2]
  by (auto simp: isNormal_def isZero_def)

end
