(* ===== verification/BigUIntText.thy ===== *)
theory BigUIntText
  imports BigUInts
begin

text \<open>
  The conversions of \<^verbatim>\<open>basic/uint.cc\<close> between an \<open>UnsignedInt\<close> and its hexadecimal and decimal
  numerals.  The result string is built in reverse, as in the code, and reversed at the end.
\<close>

definition kDigits :: string where "kDigits = ''0123456789abcdef''"

text \<open>The inner loops: a fixed number of digits, or digits until the value is zero.\<close>

fun push_digits :: "limb \<Rightarrow> nat \<Rightarrow> limb \<Rightarrow> string" where
  "push_digits radix 0 x = []"
| "push_digits radix (Suc n) x = kDigits ! unat (x mod radix) # push_digits radix n (x div radix)"

function push_last :: "limb \<Rightarrow> limb \<Rightarrow> string" where
  "push_last radix x =
     kDigits ! unat (x mod radix) # (if x div radix \<noteq> 0 \<and> radix > 1 then push_last radix (x div radix) else [])"
  by auto
termination
proof (relation "measure (\<lambda>(r, x). unat x)")
  fix radix x :: limb
  assume "x div radix \<noteq> 0 \<and> radix > 1"
  then have "0 < unat x div unat radix" "1 < unat radix"
    by (simp_all add: unat_div flip: unat_gt_0) (simp add: word_less_nat_alt)
  then have "0 < unat x" by (metis div_0 gr_zeroI)
  then have "unat x div unat radix < unat x" using \<open>1 < unat radix\<close> by simp
  then show "((radix, x div radix), radix, x) \<in> measure (\<lambda>(r, x). unat x)" by (simp add: unat_div)
qed simp

declare push_last.simps [simp del]

definition toHex :: "limb list \<Rightarrow> string" where
  "toHex limbs =
     (if limbs = [] then ''0''
      else rev (concat (map (push_digits 16 8) (butlast limbs)) @ push_last 16 (last limbs)))"

function toDec_loop :: "limb list \<Rightarrow> (string \<times> limb list) option" where
  "toDec_loop copy =
     (if length copy > 1
      then (case devide copy 1000000000 of
              None \<Rightarrow> None
            | Some (copy', x) \<Rightarrow> (case toDec_loop copy' of
                None \<Rightarrow> None
              | Some (s, c) \<Rightarrow> Some (push_digits 10 9 x @ s, c)))
      else Some ([], copy))"
  by auto
termination
proof (relation "measure uval")
  fix copy copy' x p
  assume l: "length copy > 1" and d: "devide copy 1000000000 = Some p" and p: "(copy', x) = p"
  have "(1000000000 :: limb) > 1" by (simp add: word_less_nat_alt)
  with devide_decreases [of copy 1000000000 copy' x] l d p have "uval copy' < uval copy" by (simp only:)
  then show "(copy', copy) \<in> measure uval" by (simp only: in_measure)
qed (rule wf_measure)

declare toDec_loop.simps [simp del]

definition toDec :: "limb list \<Rightarrow> string option" where
  "toDec limbs =
     (if limbs = [] then Some ''0''
      else do {
        (s, copy) \<leftarrow> toDec_loop limbs;
        check (copy \<noteq> []);
        Some (rev (s @ push_last 10 (hd copy))) })"

definition fromHex :: "char \<Rightarrow> limb" where
  "fromHex c =
     (let n = of_char c :: nat
      in if 48 \<le> n \<and> n \<le> 57 then of_nat (n - 48)
         else if 97 \<le> n \<and> n \<le> 102 then of_nat (n - 97 + 10)
         else if 65 \<le> n \<and> n \<le> 70 then of_nat (n - 65 + 10)
         else -1)"

definition parseHex_step :: "limb list \<Rightarrow> nat \<Rightarrow> char \<Rightarrow> limb list" where
  "parseHex_step limbs i c =
     (let limbs = (if i mod 8 = 0 then limbs @ [0] else limbs);
          shift = 4 * (i mod 8)
      in butlast limbs @ [last limbs OR push_bit shift (fromHex c)])"

fun parseHex_loop :: "limb list \<Rightarrow> nat \<Rightarrow> string \<Rightarrow> limb list" where
  "parseHex_loop limbs i [] = limbs"
| "parseHex_loop limbs i (c # cs) = parseHex_loop (parseHex_step limbs i c) (i + 1) cs"

definition parseHex :: "string \<Rightarrow> limb list" where
  "parseHex str =
     (let limbs = parseHex_loop [] 0 (rev str)
      in if length limbs = 1 \<and> hd limbs = 0 then [] else limbs)"

definition fromDec :: "char \<Rightarrow> limb" where
  "fromDec c = (let n = of_char c :: nat in if 48 \<le> n \<and> n \<le> 57 then of_nat (n - 48) else -1)"

definition parseSegment :: "string \<Rightarrow> limb" where
  "parseSegment str = foldl (\<lambda>seg c. seg * 10 + fromDec c) 0 str"

fun parseDec_loop :: "limb list \<Rightarrow> string \<Rightarrow> limb list option" where
  "parseDec_loop limbs [] = Some limbs"
| "parseDec_loop limbs (c # cs) = do {
     check (9 \<le> length (c # cs));
     let seg = parseSegment (take 9 (c # cs));
     let limbs = multiply32 limbs 1000000000;
     let limbs = add32 limbs seg;
     parseDec_loop limbs (drop 9 (c # cs)) }"

definition parseDec :: "string \<Rightarrow> limb list option" where
  "parseDec str =
     (let first = length str mod 9;
          limbs = (if first \<noteq> 0 then add32 [] (parseSegment (take first str)) else [])
      in parseDec_loop limbs (drop first str))"

datatype Radix = kDec | kHex

definition UnsignedInt_ctor :: "string \<Rightarrow> Radix \<Rightarrow> limb list option" where
  "UnsignedInt_ctor x r = (case r of kDec \<Rightarrow> parseDec x | kHex \<Rightarrow> Some (parseHex x))"

subsection \<open>Printing decimals\<close>

text \<open>The last \<open>k\<close> decimal digits, least significant first.\<close>

fun low_digits :: "nat \<Rightarrow> nat \<Rightarrow> string" where
  "low_digits 0 n = []"
| "low_digits (Suc k) n = digit_char (n mod 10) # low_digits k (n div 10)"

lemma kDigits_digit: "d < 10 \<Longrightarrow> kDigits ! d = digit_char d"
proof -
  assume "d < 10"
  then have "d \<in> {0, 1, 2, 3, 4, 5, 6, 7, 8, 9}" by auto
  then have "digit_char d = kDigits ! d"
    by (elim insertE emptyE) (simp_all add: kDigits_def digit_char_def char_of_eq_iff)
  then show ?thesis by simp
qed

lemma unat_10 [simp]: "unat (10 :: limb) = 10" by simp

lemma push_digits_low: "push_digits 10 k x = low_digits k (unat x)"
proof (induction k arbitrary: x)
  case (Suc k)
  have "unat (x mod 10) = unat x mod 10" "unat (x div 10) = unat x div 10"
    by (simp_all only: unat_mod unat_div unat_10)
  with Suc show ?case by (simp add: kDigits_digit)
qed simp

lemma push_last_decimal: "rev (push_last 10 x) = decimal (unat x)"
proof (induction "unat x" arbitrary: x rule: less_induct)
  case less
  have u: "unat (x mod 10) = unat x mod 10" "unat (x div 10) = unat x div 10"
    by (simp_all only: unat_mod unat_div unat_10)
  have z: "x div 10 = 0 \<longleftrightarrow> unat x < 10" using u(2) by (auto simp: unat_eq_0 [symmetric] div_eq_0_iff)
  show ?case
  proof (cases "unat x < 10")
    case True
    then have "push_last 10 x = [digit_char (unat x)]"
      using z u(1) by (subst push_last.simps) (simp add: kDigits_digit)
    with True show ?thesis by (simp add: decimal.simps [of "unat x"])
  next
    case False
    then have "unat (x div 10) < unat x" using u(2) by simp
    from less [OF this] have "rev (push_last 10 (x div 10)) = decimal (unat x div 10)" using u(2) by simp
    moreover have "push_last 10 x = digit_char (unat x mod 10) # push_last 10 (x div 10)"
      using z u(1) False by (subst push_last.simps) (simp add: kDigits_digit word_less_nat_alt)
    ultimately show ?thesis using False by (simp add: decimal.simps [of "unat x"])
  qed
qed

lemma decimal_shift:
  "0 < q \<Longrightarrow> r < 10 ^ k \<Longrightarrow> decimal (q * 10 ^ k + r) = decimal q @ rev (low_digits k r)"
proof (induction k arbitrary: r)
  case (Suc k)
  let ?n = "q * 10 ^ Suc k + r"
  have n: "?n = (q * 10 ^ k) * 10 + r" by simp
  have d: "?n div 10 = q * 10 ^ k + r div 10" "?n mod 10 = r mod 10" unfolding n by simp_all
  have "r div 10 < 10 ^ k" using Suc.prems(2) by (simp add: less_mult_imp_div_less mult.commute)
  with Suc.IH Suc.prems have ih: "decimal (?n div 10) = decimal q @ rev (low_digits k (r div 10))"
    unfolding d by blast
  have "1 * 10 \<le> (q * 10 ^ k) * 10" using Suc.prems(1) by (intro mult_le_mono1) (simp add: Suc_leI)
  then have "10 \<le> q * 10 ^ Suc k" by (simp only: mult_1 power_Suc2 mult.assoc)
  then have "\<not> ?n < 10" by linarith
  then have "decimal ?n = decimal (?n div 10) @ [digit_char (?n mod 10)]"
    by (subst decimal.simps) (simp only: if_False)
  then show ?case unfolding ih d(2) by simp
qed simp

lemma unat_segment: "unat (1000000000 :: limb) = 10 ^ 9" by simp

lemma uval_pos: "isNormal xs \<Longrightarrow> xs \<noteq> [] \<Longrightarrow> 0 < uval xs"
  using uval_lower [of xs] by (meson less_le_trans zero_less_numeral zero_less_power)

lemma toDec_loop_ok:
  "isNormal copy \<Longrightarrow> copy \<noteq> [] \<Longrightarrow>
     \<exists>s x. toDec_loop copy = Some (s, [x]) \<and> decimal (uval copy) = decimal (unat x) @ rev s"
proof (induction "uval copy" arbitrary: copy rule: less_induct)
  case less
  show ?case
  proof (cases "length copy > 1")
    case False
    with less.prems(2) obtain x where "copy = [x]" by (cases copy) auto
    then show ?thesis by (subst toDec_loop.simps) simp
  next
    case True
    have s0: "(1000000000 :: limb) \<noteq> 0" "(1000000000 :: limb) > 1" by (simp_all add: word_less_nat_alt)
    from devide_ok [OF less.prems(1) s0(1)] obtain qs r where
      d: "devide copy 1000000000 = Some (qs, r)" "isNormal qs" and
      v: "uval qs = uval copy div 10 ^ 9" "unat r = uval copy mod 10 ^ 9"
      unfolding unat_segment by blast
    have lt: "uval qs < uval copy" by (rule devide_decreases [OF d(1) True s0(2)])
    have "2 ^ 32 \<le> (2 :: nat) ^ (32 * (length copy - 1))" using True by (intro power_increasing) auto
    also have "\<dots> \<le> uval copy" by (rule uval_lower [OF less.prems])
    finally have "0 < uval qs" unfolding v(1) by (simp add: div_greater_zero_iff)
    then have "qs \<noteq> []" by auto
    from less.hyps [OF lt d(2) this] obtain s x where
      ih: "toDec_loop qs = Some (s, [x])" "decimal (uval qs) = decimal (unat x) @ rev s" by blast
    have "toDec_loop copy = Some (push_digits 10 9 r @ s, [x])"
      using True d(1) ih(1) by (subst toDec_loop.simps) simp
    moreover have "uval copy = uval qs * 10 ^ 9 + unat r" unfolding v by (simp only: div_mult_mod_eq)
    moreover have "decimal (uval qs * 10 ^ 9 + unat r) = decimal (uval qs) @ rev (low_digits 9 (unat r))"
      by (rule decimal_shift [OF \<open>0 < uval qs\<close>]) (simp only: v, simp)
    ultimately show ?thesis using ih(2) by (simp add: push_digits_low)
  qed
qed

lemma toDec_decimal: "isNormal xs \<Longrightarrow> toDec xs = Some (decimal (uval xs))"
proof (cases "xs = []")
  case True
  have "digit_char 0 = CHR ''0''" by (simp add: digit_char_def char_of_eq_iff)
  with True show ?thesis by (simp add: toDec_def decimal.simps [of 0])
next
  case False
  assume "isNormal xs"
  from toDec_loop_ok [OF this False] obtain s x where
    "toDec_loop xs = Some (s, [x])" "decimal (uval xs) = decimal (unat x) @ rev s" by blast
  with False show ?thesis by (simp add: toDec_def push_last_decimal)
qed

subsection \<open>Parsing decimals\<close>

lemma low_zero: "low s = 0 \<longleftrightarrow> unat s mod 2 ^ 32 = 0" for s :: u64
  by (metis unat_low unat_eq_0)

lemma carry_of_cases: "carry_of s = 0 \<and> unat s < 2 ^ 32 \<or> carry_of s = 1 \<and> 2 ^ 32 \<le> unat s"
  by (auto simp: carry_of_def word_less_nat_alt unat_kMask)

text \<open>A nonzero sum leaves a nonzero limb or a carry, so the top limb stays nonzero.\<close>

lemma top_limb: "0 < unat s \<Longrightarrow> last (low s # add_carry [] (carry_of s)) \<noteq> 0"
  using carry_of_cases [of s] by (auto simp: low_zero)

lemma add_carry_normal:
  "ls \<noteq> [] \<Longrightarrow> last ls \<noteq> 0 \<Longrightarrow> unat c \<le> 1 \<Longrightarrow> add_carry ls c \<noteq> [] \<and> last (add_carry ls c) \<noteq> 0"
proof (induction ls arbitrary: c)
  case (Cons l ls)
  show ?case
  proof (cases "c = 0 \<or> ls \<noteq> []")
    case True
    have "unat (carry_of (wide l + c)) \<le> 1" by simp
    with True Cons show ?thesis by (auto simp: Let_def simp del: unat_carry_of)
  next
    case False
    have "unat (wide l + c) = unat l + unat c"
      using Cons.prems(3) unat_limb [of l] by (subst unat_add64) simp_all
    moreover have "0 < unat l" using Cons.prems(2) False by (simp add: unat_gt_0)
    ultimately have "last (low (wide l + c) # add_carry [] (carry_of (wide l + c))) \<noteq> 0"
      by (intro top_limb) simp
    with False show ?thesis by (simp add: Let_def)
  qed
qed simp

lemma add32_normal:
  assumes "ls \<noteq> []" "last ls \<noteq> 0"
  shows "add32 ls x \<noteq> [] \<and> last (add32 ls x) \<noteq> 0"
proof (cases ls)
  case (Cons l ms)
  show ?thesis
  proof (cases "ms = []")
    case True
    have "unat (wide l + wide x) = unat l + unat x"
      using unat_limb [of x] unat_limb [of l] by (subst unat_add64) simp_all
    moreover have "0 < unat l" using assms Cons True by (simp add: unat_gt_0)
    ultimately have "last (low (wide l + wide x) # add_carry [] (carry_of (wide l + wide x))) \<noteq> 0"
      by (intro top_limb) simp
    with Cons True show ?thesis by (simp add: add32_def Let_def)
  next
    case False
    have "unat (carry_of (wide l + wide x)) \<le> 1" by simp
    from add_carry_normal [OF False _ this] assms Cons False show ?thesis by (simp add: add32_def Let_def)
  qed
qed (use assms in simp)

lemma mul_loop_normal:
  "ls \<noteq> [] \<Longrightarrow> last ls \<noteq> 0 \<Longrightarrow> 0 < unat m \<Longrightarrow> unat m < 2 ^ 32 \<Longrightarrow> unat c < 2 ^ 32 \<Longrightarrow>
     mul_loop ls m c \<noteq> [] \<and> last (mul_loop ls m c) \<noteq> 0"
proof (induction ls arbitrary: c)
  case (Cons l ls)
  let ?p = "wide l * m + c"
  have le: "unat l * unat m \<le> (2 ^ 32 - 1) * (2 ^ 32 - 1)"
    using unat_limb [of l] Cons.prems by (intro mult_le_mono) simp_all
  have "unat (wide l * m) = unat l * unat m" using le by (subst unat_mul64) simp_all
  then have p: "unat ?p = unat l * unat m + unat c" using le Cons.prems by (subst unat_add64) simp_all
  let ?q = "?p div 0x10000 div 0x10000"
  have q: "unat ?q = unat ?p div 2 ^ 32" by (rule div_2_16_16)
  have "unat ?p < 2 ^ 32 * 2 ^ 32" using p le Cons.prems by simp
  then have q32: "unat ?q < 2 ^ 32" unfolding q by (simp add: less_mult_imp_div_less)
  show ?case
  proof (cases "ls = []")
    case False
    with Cons.IH [OF False _ Cons.prems(3,4) q32] Cons.prems(2) show ?thesis by (simp add: Let_def)
  next
    case True
    then have "0 < unat ?p" using p Cons.prems(2,3) by (simp add: unat_gt_0)
    then have "low ?p \<noteq> 0 \<or> ?q \<noteq> 0"
      using q by (metis low_zero unat_0 div_mult_mod_eq add_0 mult_0 less_irrefl)
    moreover have "(ucast ?q :: limb) = 0 \<longleftrightarrow> ?q = 0"
      using q32 unat_ucast_limb [of ?q] by (metis mod_less unat_eq_0)
    ultimately show ?thesis using True by (auto simp: Let_def)
  qed
qed simp

lemma uval_inject_length: "length xs = length ys \<Longrightarrow> uval xs = uval ys \<Longrightarrow> xs = ys"
proof (induction xs ys rule: list_induct2)
  case (Cons x xs y ys)
  have "unat x = uval (x # xs) mod 2 ^ 32" "unat y = uval (y # ys) mod 2 ^ 32"
    using unat_limb [of x] unat_limb [of y] by simp_all
  moreover have "uval xs = uval (x # xs) div 2 ^ 32" "uval ys = uval (y # ys) div 2 ^ 32"
    using unat_limb [of x] unat_limb [of y] by simp_all
  ultimately show ?case using Cons by (metis unsigned_word_eqI)
qed simp

lemma uval_inject:
  assumes "isNormal xs" "isNormal ys" "uval xs = uval ys"
  shows "xs = ys"
proof -
  have "\<not> lessThan xs ys" "\<not> lessThan ys xs"
    using lessThan_val(1) [OF assms(1), of ys] lessThan_val(1) [OF assms(2), of xs] assms(3) by auto
  then have "length xs = length ys" by (auto simp: lessThan_def)
  then show ?thesis using assms(3) by (rule uval_inject_length)
qed

definition all_digits :: "string \<Rightarrow> bool" where
  "all_digits s \<longleftrightarrow> (\<forall>c\<in>set s. 48 \<le> (of_char c :: nat) \<and> (of_char c :: nat) \<le> 57)"

lemma all_digits_simps [simp]:
  "all_digits []" "all_digits (s @ t) \<longleftrightarrow> all_digits s \<and> all_digits t"
  by (auto simp: all_digits_def)

lemma all_digits_take_drop: "all_digits s \<Longrightarrow> all_digits (take n s) \<and> all_digits (drop n s)"
  by (auto simp: all_digits_def dest: in_set_takeD in_set_dropD)

lemma all_digits_decimal [simp]: "all_digits (decimal n)"
  using decimal_digits [of _ n] by (fastforce simp: all_digits_def of_char_digit)

lemma undecimal_snoc [simp]: "undecimal [] = 0" "undecimal (s @ [c]) = 10 * undecimal s + digit_val c"
  by (simp_all add: undecimal_def)

lemma undecimal_append: "undecimal (s @ t) = undecimal s * 10 ^ length t + undecimal t"
proof (induction t rule: rev_induct)
  case (snoc c t)
  have "undecimal (s @ t @ [c]) = 10 * undecimal (s @ t) + digit_val c"
    by (simp only: append_assoc [symmetric] undecimal_snoc)
  with snoc show ?case by simp
qed simp

lemma undecimal_bound: "all_digits s \<Longrightarrow> undecimal s < 10 ^ length s"
proof (induction s rule: rev_induct)
  case (snoc c s)
  then have "undecimal s < 10 ^ length s" "digit_val c \<le> 9" by (auto simp: all_digits_def digit_val_def)
  then show ?case by simp
qed simp

lemma parseSegment_val: "all_digits s \<Longrightarrow> length s \<le> 9 \<Longrightarrow> unat (parseSegment s) = undecimal s"
proof (induction s rule: rev_induct)
  case Nil
  show ?case by (simp add: parseSegment_def)
next
  case (snoc c s)
  then have ih: "unat (parseSegment s) = undecimal s" and s: "all_digits s" and c: "all_digits [c]" by simp_all
  have f: "fromDec c = of_nat (digit_val c)" and d: "digit_val c \<le> 9"
    using c by (auto simp: all_digits_def fromDec_def digit_val_def Let_def)
  have "undecimal s < 10 ^ length s" by (rule undecimal_bound [OF s])
  also have "(10 :: nat) ^ length s \<le> 10 ^ 8" using snoc.prems(2) by (intro power_increasing) simp_all
  finally have u: "undecimal s < 10 ^ 8" .
  have "unat (fromDec c) = digit_val c" unfolding f using d by (simp add: unat_of_nat)
  moreover have "unat (parseSegment s * 10) = undecimal s * 10"
    using ih u by (simp add: unat_word_ariths)
  moreover have "unat (parseSegment s * 10 + fromDec c) = (unat (parseSegment s * 10) + unat (fromDec c)) mod 2 ^ 32"
    by (simp add: unat_word_ariths)
  ultimately have "unat (parseSegment s * 10 + fromDec c) = undecimal s * 10 + digit_val c"
    using u d by simp
  then show ?case by (simp add: parseSegment_def)
qed

lemma parseDec_step:
  fixes limbs :: "limb list"
  assumes "all_digits s" "length s \<le> 9"
  defines "r \<equiv> add32 (multiply32 limbs 1000000000) (parseSegment s)"
  shows "length s = 9 \<Longrightarrow> uval r = uval limbs * 10 ^ length s + undecimal s"
    and "limbs \<noteq> [] \<Longrightarrow> last limbs \<noteq> 0 \<Longrightarrow> r \<noteq> [] \<and> last r \<noteq> 0"
proof -
  show "uval r = uval limbs * 10 ^ length s + undecimal s" if "length s = 9"
    unfolding r_def add32_val multiply32_val unat_segment parseSegment_val [OF assms(1,2)] that ..
  assume l: "limbs \<noteq> []" "last limbs \<noteq> 0"
  have w: "unat (wide 1000000000) = 10 ^ 9" by (simp only: unat_wide unat_segment)
  then have "wide 1000000000 \<noteq> 0" by (metis unat_0 power_not_zero zero_neq_numeral)
  moreover have "mul_loop limbs (wide 1000000000) 0 \<noteq> [] \<and> last (mul_loop limbs (wide 1000000000) 0) \<noteq> 0"
    by (rule mul_loop_normal [OF l]) (simp_all only: w unat_0, simp_all)
  ultimately show "r \<noteq> [] \<and> last r \<noteq> 0"
    unfolding r_def multiply32_def by (intro add32_normal) simp_all
qed

lemma parseDec_loop_ok:
  "all_digits cs \<Longrightarrow> 9 dvd length cs \<Longrightarrow>
     \<exists>r. parseDec_loop limbs cs = Some r \<and> uval r = uval limbs * 10 ^ length cs + undecimal cs
       \<and> (limbs \<noteq> [] \<and> last limbs \<noteq> 0 \<longrightarrow> r \<noteq> [] \<and> last r \<noteq> 0)"
proof (induction limbs cs rule: parseDec_loop.induct)
  case (1 limbs)
  then show ?case by simp
next
  case (2 limbs c cs)
  let ?s = "take 9 (c # cs)" and ?t = "drop 9 (c # cs)"
  let ?r = "add32 (multiply32 limbs 1000000000) (parseSegment ?s)"
  have len: "9 \<le> length (c # cs)" using "2.prems"(2) by (intro dvd_imp_le) auto
  have dig: "all_digits ?s" "all_digits ?t" using all_digits_take_drop [OF "2.prems"(1), of 9] by blast+
  have l9: "length ?s = 9" using len by (simp only: length_take min_absorb2)
  have "9 dvd length ?t" using "2.prems"(2) by (simp only: length_drop dvd_diff_nat dvd_refl)
  with "2.IH" [of "()" "parseSegment ?s" "multiply32 limbs 1000000000" ?r] dig(2) len
  obtain r where r: "parseDec_loop ?r ?t = Some r" "uval r = uval ?r * 10 ^ length ?t + undecimal ?t"
      "?r \<noteq> [] \<and> last ?r \<noteq> 0 \<longrightarrow> r \<noteq> [] \<and> last r \<noteq> 0"
    by (auto simp del: take_Suc_Cons drop_Suc_Cons take_Cons_numeral drop_Cons_numeral)
  note step = parseDec_step [OF dig(1), of limbs]
  have v: "uval ?r = uval limbs * 10 ^ 9 + undecimal ?s" using step(1) l9 by (metis order_refl)
  have "undecimal (c # cs) = undecimal ?s * 10 ^ length ?t + undecimal ?t"
    by (metis undecimal_append append_take_drop_id)
  moreover have "(10 :: nat) ^ length (c # cs) = 10 ^ 9 * 10 ^ length ?t"
    using l9 by (metis power_add length_append append_take_drop_id)
  ultimately have "uval r = uval limbs * 10 ^ length (c # cs) + undecimal (c # cs)"
    unfolding r(2) v by (simp only: algebra_simps)
  moreover have "parseDec_loop limbs (c # cs) = Some r"
    using r(1) len by (simp only: parseDec_loop.simps check_simps Let_def) (simp del: take_Suc_Cons drop_Suc_Cons take_Cons_numeral drop_Cons_numeral)
  moreover have "limbs \<noteq> [] \<and> last limbs \<noteq> 0 \<longrightarrow> r \<noteq> [] \<and> last r \<noteq> 0"
    using step(2) r(3) l9 by (metis order_refl)
  ultimately show ?case by blast
qed

lemma undecimal_pos:
  assumes "all_digits (c # cs)" and "c \<noteq> CHR ''0''"
  shows "0 < undecimal (c # cs)"
proof -
  have "(of_char c :: nat) \<noteq> of_char (CHR ''0'')" using assms(2) by (metis of_char_eq_iff)
  then have "0 < digit_val c" using assms(1) by (auto simp: all_digits_def digit_val_def)
  then have "0 < undecimal ([] @ [c])" by (simp only: undecimal_snoc)
  then show ?thesis using undecimal_append [of "[c]" cs] by simp
qed

lemma parseDec_ok:
  assumes "all_digits str"
  shows "\<exists>r. parseDec str = Some r \<and> uval r = undecimal str
           \<and> (str \<noteq> [] \<and> hd str \<noteq> CHR ''0'' \<longrightarrow> isNormal r)"
proof -
  let ?f = "length str mod 9"
  have "length (drop ?f str) = length str - ?f" by simp
  then have dv: "9 dvd length (drop ?f str)" by (simp only: dvd_minus_mod)
  have dig: "all_digits (take n str)" "all_digits (drop n str)" for n using all_digits_take_drop [OF assms] by blast+
  have pos: "0 < undecimal (take n str)" if "0 < n" "str \<noteq> []" "hd str \<noteq> CHR ''0''" for n
    using undecimal_pos [of "hd str" "take (n - 1) (tl str)"] dig(1) [of n] that by (cases str; cases n) simp_all
  consider "?f \<noteq> 0" | "?f = 0" "str = []" | "?f = 0" "str \<noteq> []" by blast
  then show ?thesis
  proof cases
    case 1
    let ?seg = "parseSegment (take ?f str)"
    have l: "length (take ?f str) \<le> 9" by (simp add: less_imp_le)
    have seg: "unat ?seg = undecimal (take ?f str)" by (rule parseSegment_val [OF dig(1) l])
    from parseDec_loop_ok [OF dig(2) dv, of "[?seg]"] obtain r where
      r: "parseDec_loop [?seg] (drop ?f str) = Some r"
        "uval r = unat ?seg * 10 ^ length (drop ?f str) + undecimal (drop ?f str)"
        "?seg \<noteq> 0 \<longrightarrow> r \<noteq> [] \<and> last r \<noteq> 0"
      by auto
    have "uval r = undecimal str"
      unfolding r(2) seg undecimal_append [symmetric] append_take_drop_id ..
    moreover have "isNormal r" if "str \<noteq> []" "hd str \<noteq> CHR ''0''"
      using r(3) pos [of ?f] that 1 seg by (auto simp: isNormal_def)
    moreover have "parseDec str = Some r" using r(1) 1 by (simp add: parseDec_def add32_def Let_def)
    ultimately show ?thesis by blast
  next
    case 2
    then show ?thesis by (simp add: parseDec_def isNormal_def isZero_def)
  next
    case 3
    let ?seg = "parseSegment (take 9 str)"
    have len: "9 \<le> length str" using 3 by (intro dvd_imp_le) auto
    then have l: "length (take 9 str) \<le> 9" by simp
    have seg: "unat ?seg = undecimal (take 9 str)" by (rule parseSegment_val [OF dig(1) l])
    have "9 dvd length (drop 9 str)" using 3(1) by (simp only: length_drop) (simp add: mod_eq_0_iff_dvd dvd_diff_nat)
    from parseDec_loop_ok [OF dig(2) this, of "[?seg]"] obtain r where
      r: "parseDec_loop [?seg] (drop 9 str) = Some r"
        "uval r = unat ?seg * 10 ^ length (drop 9 str) + undecimal (drop 9 str)"
        "?seg \<noteq> 0 \<longrightarrow> r \<noteq> [] \<and> last r \<noteq> 0"
      by auto
    obtain c cs where str: "str = c # cs" using 3(2) by (cases str) auto
    have "multiply32 [] 1000000000 = []" by (simp add: multiply32_def)
    then have "parseDec_loop [] str = Some r"
      using r(1) len unfolding str by (simp only: parseDec_loop.simps Let_def add32_def) simp
    then have "parseDec str = Some r" using 3(1) by (simp add: parseDec_def Let_def)
    moreover have "uval r = undecimal str"
      unfolding r(2) seg undecimal_append [symmetric] append_take_drop_id ..
    moreover have "isNormal r" if "str \<noteq> []" "hd str \<noteq> CHR ''0''"
      using r(3) pos [of 9] that seg by (auto simp: isNormal_def)
    ultimately show ?thesis by blast
  qed
qed

subsection \<open>Properties\<close>

text \<open>The numeral \<open>0\<close> is the exception: its segment is pushed as a limb, and the limbs are not normalised.\<close>

lemma parse_zero_not_normal: "parseDec ''0'' = Some [0]" "\<not> isNormal [0]"
  by code_simp+

lemma decimal_leading: "0 < n \<Longrightarrow> hd (decimal n) \<noteq> CHR ''0''"
proof (induction n rule: decimal.induct)
  case (1 n)
  show ?case
  proof (cases "n < 10")
    case True
    have "(of_char (digit_char n) :: nat) \<noteq> of_char (CHR ''0'')" using True 1 by (simp add: of_char_digit)
    with True show ?thesis by (auto simp: decimal.simps [of n])
  next
    case False
    with 1 show ?thesis by (simp add: decimal.simps [of n] div_greater_zero_iff)
  qed
qed

text \<open>
  The decimal conversions are inverse to each other: a normalised nonzero number prints as the
  decimal numeral of its value, without leading zeros, by repeated division by one billion, and parsing that
  numeral by nine-digit segments gives back the very same limbs.
\<close>

lemma decimal_text_round_trip:
  assumes "isNormal xs" and "xs \<noteq> []"
  shows "toDec xs = Some (decimal (uval xs)) \<and> UnsignedInt_ctor (decimal (uval xs)) kDec = Some xs"
proof
  show "toDec xs = Some (decimal (uval xs))" by (rule toDec_decimal [OF assms(1)])
  have hd: "hd (decimal (uval xs)) \<noteq> CHR ''0''" by (rule decimal_leading [OF uval_pos [OF assms]])
  from parseDec_ok [OF all_digits_decimal [of "uval xs"]] hd obtain r where
    r: "parseDec (decimal (uval xs)) = Some r" "uval r = uval xs" "isNormal r" by auto
  then have "r = xs" using assms(1) by (intro uval_inject) simp_all
  with r(1) show "UnsignedInt_ctor (decimal (uval xs)) kDec = Some xs" by (simp add: UnsignedInt_ctor_def)
qed

end
