(* ===== verification/LogStreams.thy ===== *)
theory LogStreams
  imports Prelude "HOL-Library.Signed_Division"
begin

text \<open>
  \<^verbatim>\<open>logging/LogStream.h\<close> and \<^verbatim>\<open>logging/LogStream.cc\<close>: the fixed-size buffer a log line is formatted
  into, and the stream operators that format into it.

  A \<open>FixedBuffer<SIZE>\<close> is its array \<open>data_\<close>, of length \<open>SIZE\<close>, and the offset of
  \<open>cur_\<close> in it.  A write outside the array is \<open>None\<close>.  Integers keep the width of the
  operator's argument type; \<open>int len\<close> arguments are \<open>int\<close>s, converted from
  \<open>size_t\<close> with the wrap-around of the implicit conversion.  The text that \<open>snprintf\<close>
  prints for a floating-point number is an argument.
\<close>

subsection \<open>FixedBuffer\<close>

definition kSmallBuffer :: nat where "kSmallBuffer = 4000"
definition kLargeBuffer :: nat where "kLargeBuffer = 4000 * 1000"
definition kMaxNumericSize :: nat where "kMaxNumericSize = 64"

datatype cookie = cookieStart | cookieEnd

record FixedBuffer =
  fb_cookie :: cookie
  fb_data :: string
  fb_cur :: nat

text \<open>The constructor leaves \<open>data_\<close> uninitialised: \<open>mem\<close> is what it holds.\<close>

definition FixedBuffer_new :: "string \<Rightarrow> FixedBuffer" where
  "FixedBuffer_new mem = \<lparr> fb_cookie = cookieStart, fb_data = mem, fb_cur = 0 \<rparr>"

definition FixedBuffer_destroy :: "FixedBuffer \<Rightarrow> FixedBuffer" where
  "FixedBuffer_destroy b = b\<lparr> fb_cookie := cookieEnd \<rparr>"

definition fb_avail :: "FixedBuffer \<Rightarrow> int" where
  "fb_avail b = int (length (fb_data b)) - int (fb_cur b)"

definition fb_memcpy :: "FixedBuffer \<Rightarrow> nat \<Rightarrow> string \<Rightarrow> FixedBuffer option" where
  "fb_memcpy b off src = do {
     check (off + length src \<le> length (fb_data b));
     Some (b\<lparr> fb_data := blit (fb_data b) off src \<rparr>) }"

definition fb_add :: "nat \<Rightarrow> FixedBuffer \<Rightarrow> FixedBuffer" where
  "fb_add len b = b\<lparr> fb_cur := fb_cur b + len \<rparr>"

text \<open>A negative length passes the guard and makes \<open>memcpy\<close> copy almost \<open>SIZE_MAX\<close> bytes.\<close>

definition fb_append :: "string \<Rightarrow> int \<Rightarrow> FixedBuffer \<Rightarrow> FixedBuffer option" where
  "fb_append buf len b =
     (if fb_avail b > len then do {
        check (0 \<le> len \<and> nat len \<le> length buf);
        b' \<leftarrow> fb_memcpy b (fb_cur b) (take (nat len) buf);
        Some (fb_add (nat len) b') }
      else Some b)"

definition fb_length :: "FixedBuffer \<Rightarrow> nat" where "fb_length b = fb_cur b"

definition fb_reset :: "FixedBuffer \<Rightarrow> FixedBuffer" where "fb_reset b = b\<lparr> fb_cur := 0 \<rparr>"

definition fb_bzero :: "FixedBuffer \<Rightarrow> FixedBuffer" where
  "fb_bzero b = b\<lparr> fb_data := replicate (length (fb_data b)) (CHR 0x00) \<rparr>"

definition fb_asString :: "FixedBuffer \<Rightarrow> string" where
  "fb_asString b = take (fb_length b) (fb_data b)"

definition fb_debugString :: "FixedBuffer \<Rightarrow> FixedBuffer option" where
  "fb_debugString b = fb_memcpy b (fb_cur b) [CHR 0x00]"

subsection \<open>Integer conversion\<close>

definition digits :: string where "digits = ''9876543210123456789''"
definition digitsHex :: string where "digitsHex = ''0123456789abcdef''"

text \<open>
  \<open>i % 10\<close> and \<open>i / 10\<close> truncate towards zero, so the digits of a negative number are indexed
  from \<open>zero = digits + 9\<close> by a negative offset.
\<close>

function convert_loop :: "int \<Rightarrow> string" where
  "convert_loop i =
     digits ! nat (9 + i smod 10) # (if i sdiv 10 \<noteq> 0 then convert_loop (i sdiv 10) else [])"
  by auto
termination
proof (relation "measure (\<lambda>i. nat \<bar>i\<bar>)")
  fix i :: int
  assume "i sdiv 10 \<noteq> 0"
  then have "\<bar>i\<bar> div 10 \<noteq> 0" by (auto simp: signed_divide_int_def)
  then have "\<bar>i\<bar> div 10 < \<bar>i\<bar>" by simp
  moreover have "\<bar>i sdiv 10\<bar> = \<bar>i\<bar> div 10" by (auto simp: signed_divide_int_def sgn_if abs_mult)
  ultimately show "(i sdiv 10, i) \<in> measure (\<lambda>i. nat \<bar>i\<bar>)" by simp
qed simp

declare convert_loop.simps [simp del]

text \<open>
  Both conversions leave the reversed digits and a NUL in \<open>buf\<close>, at offset \<open>off\<close> of the buffer,
  and return the number of characters.
\<close>

definition convert_text :: "int \<Rightarrow> string" where
  "convert_text value = rev (convert_loop value @ (if value < 0 then ''-'' else ''''))"

definition convert :: "FixedBuffer \<Rightarrow> nat \<Rightarrow> int \<Rightarrow> (FixedBuffer \<times> nat) option" where
  "convert b off value = do {
     let s = convert_text value;
     b' \<leftarrow> fb_memcpy b off (s @ [CHR 0x00]);
     Some (b', length s) }"

function convertHex_loop :: "64 word \<Rightarrow> string" where
  "convertHex_loop i =
     digitsHex ! unat (i mod 16) # (if i div 16 \<noteq> 0 then convertHex_loop (i div 16) else [])"
  by auto
termination
proof (relation "measure unat")
  fix i :: "64 word"
  assume "i div 16 \<noteq> 0"
  then have "0 < unat i div 16" by (simp add: unat_div flip: unat_gt_0)
  then have "unat i div 16 < unat i" by (simp add: div_greater_zero_iff)
  then show "(i div 16, i) \<in> measure unat" by (simp add: unat_div)
qed simp

declare convertHex_loop.simps [simp del]

definition convertHex :: "FixedBuffer \<Rightarrow> nat \<Rightarrow> 64 word \<Rightarrow> (FixedBuffer \<times> nat) option" where
  "convertHex b off value = do {
     let s = rev (convertHex_loop value);
     b' \<leftarrow> fb_memcpy b off (s @ [CHR 0x00]);
     Some (b', length s) }"

subsection \<open>LogStream\<close>

text \<open>A \<open>size_t\<close> passed as the \<open>int len\<close> of \<open>append\<close>.\<close>

definition to_int :: "nat \<Rightarrow> int" where
  "to_int n = sint (of_nat n :: 32 word)"

definition LogStream_new :: "string \<Rightarrow> FixedBuffer" where
  "LogStream_new mem = FixedBuffer_new mem"

definition put_bool :: "bool \<Rightarrow> FixedBuffer \<Rightarrow> FixedBuffer option" where
  "put_bool v b = fb_append (if v then ''1'' else ''0'') 1 b"

definition put_char :: "char \<Rightarrow> FixedBuffer \<Rightarrow> FixedBuffer option" where
  "put_char v b = fb_append [v] 1 b"

text \<open>\<open>const char*\<close> (its characters before the NUL), \<open>const string&\<close> and \<open>const T&\<close>.\<close>

definition put_cstr :: "string \<Rightarrow> FixedBuffer \<Rightarrow> FixedBuffer option" where
  "put_cstr v b = fb_append v (to_int (length v)) b"

definition put_string :: "string \<Rightarrow> FixedBuffer \<Rightarrow> FixedBuffer option" where
  "put_string v b = fb_append v (to_int (length v)) b"

record T =
  t_str :: string
  t_len :: nat

definition T_new :: "string \<Rightarrow> nat \<Rightarrow> T option" where
  "T_new str len = do { check (length str = len); Some \<lparr> t_str = str, t_len = len \<rparr> }"

definition put_T :: "T \<Rightarrow> FixedBuffer \<Rightarrow> FixedBuffer option" where
  "put_T v b = fb_append (t_str v) (to_int (t_len v)) b"

definition ls_append :: "string \<Rightarrow> int \<Rightarrow> FixedBuffer \<Rightarrow> FixedBuffer option" where
  "ls_append data len b = fb_append data len b"

definition resetBuffer :: "FixedBuffer \<Rightarrow> FixedBuffer" where
  "resetBuffer b = fb_reset b"

definition formatInteger :: "int \<Rightarrow> FixedBuffer \<Rightarrow> FixedBuffer option" where
  "formatInteger v b =
     (if fb_avail b \<ge> int kMaxNumericSize then do {
        (b', len) \<leftarrow> convert b (fb_cur b) v;
        Some (fb_add len b') }
      else Some b)"

definition put_int :: "32 word \<Rightarrow> FixedBuffer \<Rightarrow> FixedBuffer option" where
  "put_int v b = formatInteger (sint v) b"

definition put_uint :: "32 word \<Rightarrow> FixedBuffer \<Rightarrow> FixedBuffer option" where
  "put_uint v b = formatInteger (uint v) b"

definition put_short :: "16 word \<Rightarrow> FixedBuffer \<Rightarrow> FixedBuffer option" where
  "put_short v b = put_int (scast v) b"

definition put_ushort :: "16 word \<Rightarrow> FixedBuffer \<Rightarrow> FixedBuffer option" where
  "put_ushort v b = put_uint (ucast v) b"

definition put_long :: "64 word \<Rightarrow> FixedBuffer \<Rightarrow> FixedBuffer option" where
  "put_long v b = formatInteger (sint v) b"

definition put_ulong :: "64 word \<Rightarrow> FixedBuffer \<Rightarrow> FixedBuffer option" where
  "put_ulong v b = formatInteger (uint v) b"

definition put_longlong :: "64 word \<Rightarrow> FixedBuffer \<Rightarrow> FixedBuffer option" where
  "put_longlong v b = formatInteger (sint v) b"

definition put_ulonglong :: "64 word \<Rightarrow> FixedBuffer \<Rightarrow> FixedBuffer option" where
  "put_ulonglong v b = formatInteger (uint v) b"

definition put_pointer :: "64 word \<Rightarrow> FixedBuffer \<Rightarrow> FixedBuffer option" where
  "put_pointer v b =
     (if fb_avail b \<ge> int kMaxNumericSize then do {
        b \<leftarrow> fb_memcpy b (fb_cur b) [CHR ''0''];
        b \<leftarrow> fb_memcpy b (fb_cur b + 1) [CHR ''x''];
        (b', len) \<leftarrow> convertHex b (fb_cur b + 2) v;
        Some (fb_add (len + 2) b') }
      else Some b)"

text \<open>\<open>out\<close> is the text \<open>"%.12g"\<close> prints; \<open>snprintf\<close> stores at most \<open>size - 1\<close> characters of it.\<close>

definition put_double :: "string \<Rightarrow> FixedBuffer \<Rightarrow> FixedBuffer option" where
  "put_double out b =
     (if fb_avail b \<ge> int kMaxNumericSize then do {
        b' \<leftarrow> fb_memcpy b (fb_cur b) (take (kMaxNumericSize - 1) out @ [CHR 0x00]);
        Some (fb_add (length out) b') }
      else Some b)"

record Fmt =
  fmt_buf :: string
  fmt_length :: nat

definition Fmt_new :: "string \<Rightarrow> string \<Rightarrow> Fmt option" where
  "Fmt_new mem out = do {
     check (length mem = 32);
     let buf = blit mem 0 (take 31 out @ [CHR 0x00]);
     check (length out < 32);
     Some \<lparr> fmt_buf = buf, fmt_length = length out \<rparr> }"

definition put_Fmt :: "Fmt \<Rightarrow> FixedBuffer \<Rightarrow> FixedBuffer option" where
  "put_Fmt f b = ls_append (fmt_buf f) (int (fmt_length f)) b"

subsection \<open>What the conversions print\<close>

lemma digits_nth: "d < 10 \<Longrightarrow> digits ! (9 + d) = digit_char d \<and> digits ! (9 - d) = digit_char d"
proof -
  assume "d < 10"
  then have "d \<in> {0, 1, 2, 3, 4, 5, 6, 7, 8, 9}" by auto
  then have "digit_char d = digits ! (9 + d)" "digit_char d = digits ! (9 - d)"
    by (elim insertE emptyE; simp add: digits_def digit_char_def char_of_eq_iff)+
  then show ?thesis by simp
qed

lemma smod_10: "nat (9 + i smod 10) = (if i < 0 then 9 - nat (- i) mod 10 else 9 + nat i mod 10)" for i :: int
proof -
  have "i smod 10 = (if i < 0 then - (- i mod 10) else i mod 10)"
    by (simp add: signed_modulo_int_def signed_divide_int_def sgn_if minus_div_mult_eq_mod algebra_simps)
  moreover have "0 \<le> - i mod 10" "- i mod 10 < 10" "0 \<le> i mod 10" by simp_all
  ultimately show ?thesis
    by (cases "i < 0") (auto simp: nat_add_distrib nat_mod_distrib nat_diff_distrib')
qed

lemma sdiv_10: "i sdiv 10 = (if i < 0 then - (- i div 10) else i div 10)" for i :: int
  by (simp add: signed_divide_int_def sgn_if)

lemma convert_loop_decimal: "rev (convert_loop i) = decimal (nat \<bar>i\<bar>)"
proof (induction i rule: convert_loop.induct)
  case (1 i)
  let ?n = "nat \<bar>i\<bar>"
  have d: "digits ! nat (9 + i smod 10) = digit_char (?n mod 10)"
    using digits_nth [of "?n mod 10"] by (auto simp: smod_10)
  have q: "nat \<bar>i sdiv 10\<bar> = ?n div 10" by (simp add: sdiv_10 nat_div_distrib)
  have z: "i sdiv 10 = 0 \<longleftrightarrow> ?n < 10" using q by (metis abs_0 abs_of_pos div_eq_0_iff nat_0 nat_0_iff zero_less_abs_iff not_less zero_neq_numeral)
  show ?case
  proof (cases "?n < 10")
    case True
    with d z show ?thesis by (simp add: convert_loop.simps [of i] decimal.simps [of ?n])
  next
    case False
    with 1 z have "rev (convert_loop (i sdiv 10)) = decimal (?n div 10)" unfolding q by simp
    with False d z show ?thesis by (simp add: convert_loop.simps [of i] decimal.simps [of ?n])
  qed
qed

lemma convert_text_decimal: "convert_text v = decimal_int v"
  by (simp add: convert_text_def decimal_int_def convert_loop_decimal abs_if)

lemma decimal_length: "n < 10 ^ Suc k \<Longrightarrow> length (decimal n) \<le> Suc k"
proof (induction k arbitrary: n)
  case 0
  then show ?case by (simp add: decimal.simps [of n])
next
  case (Suc k)
  have "n div 10 < 10 ^ Suc k" using Suc.prems by (simp add: less_mult_imp_div_less mult.commute)
  from Suc.IH [OF this] show ?case by (subst decimal.simps) simp
qed

lemma convert_length: "\<bar>v\<bar> < 2 ^ 64 \<Longrightarrow> length (convert_text v) \<le> 21"
proof -
  assume "\<bar>v\<bar> < 2 ^ 64"
  then have "nat \<bar>v\<bar> < 10 ^ Suc 19" by simp
  from decimal_length [OF this] show ?thesis
    by (auto simp: convert_text_decimal decimal_int_def split: if_splits)
qed

lemma convertHex_length: "unat i < 16 ^ Suc k \<Longrightarrow> length (convertHex_loop i) \<le> Suc k"
proof (induction k arbitrary: i)
  case 0
  then have "i div 16 = 0" by (simp add: unat_eq_zero [symmetric] unat_div)
  then show ?case by (simp add: convertHex_loop.simps [of i])
next
  case (Suc k)
  have "unat (i div 16) < 16 ^ Suc k" using Suc.prems by (simp add: unat_div less_mult_imp_div_less mult.commute)
  from Suc.IH [OF this] show ?case by (subst convertHex_loop.simps) simp
qed

lemma convertHex_length_16: "length (convertHex_loop i) \<le> 16"
proof -
  have "unat i < 16 ^ Suc 15" using unsigned_less [of i] by simp
  from convertHex_length [OF this] show ?thesis by simp
qed

subsection \<open>The stream as a bounded text\<close>

text \<open>The operators, one constructor each.\<close>

datatype log_item =
    IBool bool | IChar char | ICstr string | IString string | IT T
  | IShort "16 word" | IUShort "16 word" | IInt "32 word" | IUInt "32 word"
  | ILong "64 word" | IULong "64 word" | ILongLong "64 word" | IULongLong "64 word"
  | IPointer "64 word" | IDouble string | IFmt Fmt

fun put :: "log_item \<Rightarrow> FixedBuffer \<Rightarrow> FixedBuffer option" where
  "put (IBool v) = put_bool v"
| "put (IChar v) = put_char v"
| "put (ICstr v) = put_cstr v"
| "put (IString v) = put_string v"
| "put (IT v) = put_T v"
| "put (IShort v) = put_short v"
| "put (IUShort v) = put_ushort v"
| "put (IInt v) = put_int v"
| "put (IUInt v) = put_uint v"
| "put (ILong v) = put_long v"
| "put (IULong v) = put_ulong v"
| "put (ILongLong v) = put_longlong v"
| "put (IULongLong v) = put_ulonglong v"
| "put (IPointer v) = put_pointer v"
| "put (IDouble v) = put_double v"
| "put (IFmt v) = put_Fmt v"

fun put_all :: "log_item list \<Rightarrow> FixedBuffer \<Rightarrow> FixedBuffer option" where
  "put_all [] b = Some b"
| "put_all (i # is) b = put i b \<bind> put_all is"

text \<open>The text of an item, and the room the stream wants before it prints it.\<close>

fun render :: "log_item \<Rightarrow> string" where
  "render (IBool v) = (if v then ''1'' else ''0'')"
| "render (IChar v) = [v]"
| "render (ICstr v) = v"
| "render (IString v) = v"
| "render (IT v) = t_str v"
| "render (IShort v) = decimal_int (sint v)"
| "render (IUShort v) = decimal_int (uint v)"
| "render (IInt v) = decimal_int (sint v)"
| "render (IUInt v) = decimal_int (uint v)"
| "render (ILong v) = decimal_int (sint v)"
| "render (IULong v) = decimal_int (uint v)"
| "render (ILongLong v) = decimal_int (sint v)"
| "render (IULongLong v) = decimal_int (uint v)"
| "render (IPointer v) = ''0x'' @ rev (convertHex_loop v)"
| "render (IDouble out) = out"
| "render (IFmt f) = take (fmt_length f) (fmt_buf f)"

fun room :: "log_item \<Rightarrow> nat" where
  "room (IBool v) = 2"
| "room (IChar v) = 2"
| "room (ICstr v) = length v + 1"
| "room (IString v) = length v + 1"
| "room (IT v) = t_len v + 1"
| "room (IFmt f) = fmt_length f + 1"
| "room i = 64"

definition spec_put :: "nat \<Rightarrow> string \<Rightarrow> log_item \<Rightarrow> string" where
  "spec_put cap txt i = (if length txt + room i \<le> cap then txt @ render i else txt)"

fun item_ok :: "log_item \<Rightarrow> bool" where
  "item_ok (ICstr v) = (length v < 2 ^ 31)"
| "item_ok (IString v) = (length v < 2 ^ 31)"
| "item_ok (IT v) = (length (t_str v) = t_len v \<and> t_len v < 2 ^ 31)"
| "item_ok (IDouble out) = (length out < 64)"
| "item_ok (IFmt f) = (length (fmt_buf f) = 32 \<and> fmt_length f < 32)"
| "item_ok i = True"

definition fb_ok :: "FixedBuffer \<Rightarrow> bool" where
  "fb_ok b \<longleftrightarrow> fb_cur b \<le> length (fb_data b)"

lemma to_int_small: "n < 2 ^ 31 \<Longrightarrow> to_int n = int n"
proof -
  assume "n < 2 ^ 31"
  then have "int n < 2 ^ 31" by simp
  then have "signed_take_bit 31 (int n) = int n" by (intro signed_take_bit_int_eq_self) simp_all
  moreover have "sint (word_of_int (int n) :: 32 word) = signed_take_bit 31 (int n)" by (subst sint_sbintrunc') simp
  ultimately show ?thesis by (simp add: to_int_def)
qed

text \<open>One write: \<open>txt\<close>, followed by a tail of scratch bytes, lands behind the text so far.\<close>

definition extends :: "FixedBuffer \<Rightarrow> string \<Rightarrow> FixedBuffer \<Rightarrow> bool" where
  "extends b txt b' \<longleftrightarrow> fb_asString b' = fb_asString b @ txt \<and> length (fb_data b') = length (fb_data b) \<and> fb_ok b'"

lemma memcpy_extends:
  assumes "fb_ok b" and "fb_cur b + length (txt @ rest) \<le> length (fb_data b)"
  shows "\<exists>b'. fb_memcpy b (fb_cur b) (txt @ rest) = Some b' \<and> fb_cur b' = fb_cur b
           \<and> extends b txt (fb_add (length txt) b')"
proof -
  let ?d = "blit (fb_data b) (fb_cur b) (txt @ rest)"
  have "take (fb_cur b + length txt) ?d = take (fb_cur b) (fb_data b) @ txt"
    using assms by (simp add: blit_def fb_ok_def)
  moreover have "length ?d = length (fb_data b)" using assms by (intro length_blit) simp
  ultimately have "extends b txt (fb_add (length txt) (b\<lparr> fb_data := ?d \<rparr>))"
    using assms by (simp add: extends_def fb_add_def fb_asString_def fb_length_def fb_ok_def)
  with assms show ?thesis by (simp add: fb_memcpy_def)
qed

lemma append_extends:
  assumes "fb_ok b" and "n \<le> length buf"
  shows "\<exists>b'. fb_append buf (int n) b = Some b'
    \<and> (if fb_cur b + n + 1 \<le> length (fb_data b) then extends b (take n buf) b' else b' = b)"
proof (cases "fb_cur b + n + 1 \<le> length (fb_data b)")
  case True
  with memcpy_extends [OF assms(1), of "take n buf" "[]"] assms(2) obtain b' where
    "fb_memcpy b (fb_cur b) (take n buf) = Some b'" "extends b (take n buf) (fb_add n b')"
    by (auto simp: min_absorb2)
  with True assms show ?thesis by (simp add: fb_append_def fb_avail_def)
next
  case False
  then show ?thesis by (simp add: fb_append_def fb_avail_def)
qed

lemma formatInteger_extends:
  assumes "fb_ok b" and "\<bar>v\<bar> < 2 ^ 64"
  shows "\<exists>b'. formatInteger v b = Some b'
    \<and> (if fb_cur b + 64 \<le> length (fb_data b) then extends b (decimal_int v) b' else b' = b)"
proof (cases "fb_cur b + 64 \<le> length (fb_data b)")
  case True
  with convert_length [OF assms(2)] have "fb_cur b + length (convert_text v @ [CHR 0x00]) \<le> length (fb_data b)" by simp
  from memcpy_extends [OF assms(1) this] obtain b' where
    "fb_memcpy b (fb_cur b) (convert_text v @ [CHR 0x00]) = Some b'"
    "extends b (convert_text v) (fb_add (length (convert_text v)) b')" by blast
  with True show ?thesis
    by (simp add: formatInteger_def fb_avail_def kMaxNumericSize_def convert_def convert_text_decimal)
next
  case False
  then show ?thesis by (simp add: formatInteger_def fb_avail_def kMaxNumericSize_def)
qed

lemma memcpy_memcpy:
  "fb_cur b + length (s @ t) \<le> length (fb_data b) \<Longrightarrow>
   fb_memcpy b (fb_cur b) s \<bind> (\<lambda>b. fb_memcpy b (fb_cur b + length s) t) = fb_memcpy b (fb_cur b) (s @ t)"
  by (simp add: fb_memcpy_def blit_blit)

lemma put_pointer_extends:
  assumes "fb_ok b"
  shows "\<exists>b'. put_pointer v b = Some b'
    \<and> (if fb_cur b + 64 \<le> length (fb_data b) then extends b (''0x'' @ rev (convertHex_loop v)) b' else b' = b)"
proof (cases "fb_cur b + 64 \<le> length (fb_data b)")
  case True
  let ?s = "rev (convertHex_loop v)" and ?c = "fb_cur b" and ?d = "fb_data b"
  let ?b = "b\<lparr> fb_data := blit (blit (blit ?d ?c ''0'') (?c + 1) ''x'') (?c + 2) (?s @ [CHR 0x00]) \<rparr>"
  have l: "length ?s \<le> 16" using convertHex_length_16 [of v] by simp
  have b1: "blit (blit ?d ?c ''0'') (?c + 1) ''x'' = blit ?d ?c ''0x''"
    using blit_blit [of ?c "''0''" ?d "''x''"] True by simp
  have b2: "blit (blit ?d ?c ''0x'') (?c + 2) (?s @ [CHR 0x00]) = blit ?d ?c ((''0x'' @ ?s) @ [CHR 0x00])"
    using blit_blit [of ?c "''0x''" ?d "?s @ [CHR 0x00]"] True by simp
  have "fb_cur b + length ((''0x'' @ ?s) @ [CHR 0x00]) \<le> length (fb_data b)" using True l by simp
  from memcpy_extends [OF assms this] this
  have "extends b (''0x'' @ ?s) (fb_add (length ?s + 2) ?b)"
    unfolding b1 b2 by (simp add: fb_memcpy_def check_simps)
  moreover have "put_pointer v b = Some (fb_add (length ?s + 2) ?b)"
    using True l by (simp add: put_pointer_def fb_avail_def kMaxNumericSize_def fb_memcpy_def convertHex_def)
  ultimately show ?thesis using True by simp
next
  case False
  then show ?thesis by (simp add: put_pointer_def fb_avail_def kMaxNumericSize_def)
qed

lemma put_double_extends:
  assumes "fb_ok b" and "length out < 64"
  shows "\<exists>b'. put_double out b = Some b'
    \<and> (if fb_cur b + 64 \<le> length (fb_data b) then extends b out b' else b' = b)"
proof (cases "fb_cur b + 64 \<le> length (fb_data b)")
  case True
  with memcpy_extends [OF assms(1), of out "[CHR 0x00]"] assms(2) show ?thesis
    by (auto simp: put_double_def fb_avail_def kMaxNumericSize_def)
next
  case False
  then show ?thesis by (simp add: put_double_def fb_avail_def kMaxNumericSize_def)
qed

lemma word_magnitudes:
  "\<bar>sint (u :: 16 word)\<bar> < 2 ^ 64" "\<bar>uint (u :: 16 word)\<bar> < 2 ^ 64"
  "\<bar>sint (v :: 32 word)\<bar> < 2 ^ 64" "\<bar>uint (v :: 32 word)\<bar> < 2 ^ 64"
  "\<bar>sint (w :: 64 word)\<bar> < 2 ^ 64" "\<bar>uint (w :: 64 word)\<bar> < 2 ^ 64"
  using sint_ge [of v] sint_lt [of v] uint_lt2p [of v] sint_ge [of w] sint_lt [of w] uint_lt2p [of w]
    sint_ge [of u] sint_lt [of u] uint_lt2p [of u]
  by simp_all

lemma widen_short:
  "sint (scast (v :: 16 word) :: 32 word) = sint v" "uint (ucast (v :: 16 word) :: 32 word) = uint v"
  by (simp_all add: sint_up_scast is_up uint_up_ucast)

lemma put_extends:
  assumes "fb_ok b" and "item_ok i"
  shows "\<exists>b'. put i b = Some b'
    \<and> (if fb_cur b + room i \<le> length (fb_data b) then extends b (render i) b' else b' = b)"
proof (cases i)
  case (IBool v)
  show ?thesis
    using append_extends [OF assms(1), of 1 "''1''"] append_extends [OF assms(1), of 1 "''0''"]
    unfolding IBool by (cases v) (auto simp: put_bool_def split: if_splits)
next
  case (IChar v)
  show ?thesis using append_extends [OF assms(1), of 1 "[v]"] unfolding IChar by (auto simp: put_char_def split: if_splits)
next
  case (ICstr v)
  show ?thesis using append_extends [OF assms(1), of "length v" v] assms(2)
    unfolding ICstr by (auto simp: put_cstr_def to_int_small split: if_splits)
next
  case (IString v)
  show ?thesis using append_extends [OF assms(1), of "length v" v] assms(2)
    unfolding IString by (auto simp: put_string_def to_int_small split: if_splits)
next
  case (IT v)
  show ?thesis using append_extends [OF assms(1), of "t_len v" "t_str v"] assms(2)
    unfolding IT by (auto simp: put_T_def to_int_small split: if_splits)
next
  case (IFmt f)
  show ?thesis using append_extends [OF assms(1), of "fmt_length f" "fmt_buf f"] assms(2)
    unfolding IFmt by (auto simp: put_Fmt_def ls_append_def split: if_splits)
next
  case (IPointer v)
  show ?thesis unfolding IPointer using put_pointer_extends [OF assms(1), of v] by (simp only: put.simps room.simps render.simps)
next
  case (IDouble out)
  show ?thesis unfolding IDouble using put_double_extends [OF assms(1), of out] assms(2) IDouble by auto
qed (simp_all only: put.simps room.simps render.simps put_short_def put_ushort_def put_int_def
      put_uint_def put_long_def put_ulong_def put_longlong_def put_ulonglong_def widen_short
      formatInteger_extends [OF assms(1)] word_magnitudes)

lemma put_refines:
  assumes "fb_ok b" and "item_ok i"
  shows "\<exists>b'. put i b = Some b' \<and> fb_ok b' \<and> length (fb_data b') = length (fb_data b)
    \<and> fb_asString b' = spec_put (length (fb_data b)) (fb_asString b) i"
proof -
  have "length (fb_asString b) = fb_cur b" using assms(1) by (simp add: fb_asString_def fb_length_def fb_ok_def)
  with put_extends [OF assms] assms(1) show ?thesis
    by (auto simp: spec_put_def extends_def split: if_splits)
qed

lemma put_all_refines:
  "fb_ok b \<Longrightarrow> list_all item_ok is \<Longrightarrow>
   \<exists>b'. put_all is b = Some b' \<and> fb_ok b' \<and> length (fb_data b') = length (fb_data b)
     \<and> fb_asString b' = foldl (spec_put (length (fb_data b))) (fb_asString b) is"
proof (induction "is" arbitrary: b)
  case (Cons i "is")
  then obtain b' where "put i b = Some b'" "fb_ok b'" "length (fb_data b') = length (fb_data b)"
      "fb_asString b' = spec_put (length (fb_data b)) (fb_asString b) i"
    using put_refines [of b i] by auto
  with Cons.IH [of b'] Cons.prems show ?case by auto
qed simp



end
