(* ===== verification/LogFiles.thy ===== *)
theory LogFiles
  imports Dates
begin

text \<open>
  \<^verbatim>\<open>logging/LogFile.h\<close> and \<^verbatim>\<open>logging/LogFile.cc\<close>: the log file that is replaced by a new one when
  it has grown past \<open>rollSize\<close> or when the day changes.

  A \<open>LogFile::File\<close> is its name, the text handed to \<open>stdio\<close>, how much of it an explicit
  \<open>fflush\<close> has pushed out, and \<open>writtenBytes_\<close>.  The state of a \<open>LogFile\<close> also keeps the
  files closed so far, oldest first.  What the operating system answers during one \<open>append\<close> is an
  argument: the counts returned by the successive \<open>fwrite_unlocked\<close> calls (a call past the end of
  the list writes everything) and the readings of \<open>time(NULL)\<close> in \<open>append_unlocked\<close> and
  in \<open>getLogFileName\<close>.  A dereference of the null \<open>file_\<close> is \<open>None\<close>.
\<close>

subsection \<open>The file\<close>

record File =
  f_name :: string
  f_text :: string
  f_flushed :: nat
  writtenBytes :: nat

definition File_new :: "string \<Rightarrow> File" where
  "File_new name = \<lparr> f_name = name, f_text = [], f_flushed = 0, writtenBytes = 0 \<rparr>"

text \<open>One \<open>fwrite_unlocked\<close>: the number of characters it takes, at most those offered.\<close>

fun file_write :: "nat list \<Rightarrow> string \<Rightarrow> File \<Rightarrow> nat \<times> nat list \<times> File" where
  "file_write [] s f = (length s, [], f\<lparr> f_text := f_text f @ s \<rparr>)"
| "file_write (w # ws) s f =
     (let n = min w (length s) in (n, ws, f\<lparr> f_text := f_text f @ take n s \<rparr>))"

function append_loop :: "nat list \<Rightarrow> string \<Rightarrow> File \<Rightarrow> File" where
  "append_loop ws s f =
     (if length s > 0
      then let (x, ws', f') = file_write ws s f
           in if x = 0 then f' else append_loop ws' (drop x s) f'
      else f)"
  by auto
termination
proof (relation "measure (\<lambda>(ws, s, f). length s)")
  fix ws s f r x q ws' f'
  assume "length (s :: string) > 0" "r = file_write ws s f" "(x, q) = r" "(ws', f') = q" "x \<noteq> 0"
  then show "((ws', drop x s, f'), ws, s, f) \<in> measure (\<lambda>(ws, s, f). length s)"
    by (cases ws) (auto simp: Let_def)
qed simp

declare append_loop.simps [simp del]

definition file_append :: "nat list \<Rightarrow> string \<Rightarrow> File \<Rightarrow> File" where
  "file_append ws line f =
     (let (n, ws', f') = file_write ws line f;
          f'' = append_loop ws' (drop n line) f'
      in f''\<lparr> writtenBytes := writtenBytes f'' + length line \<rparr>)"

definition file_flush :: "File \<Rightarrow> File" where
  "file_flush f = f\<lparr> f_flushed := length (f_text f) \<rparr>"

subsection \<open>The log\<close>

definition kCheckTimeRoll :: int where "kCheckTimeRoll = 1024"
definition kRollPerSeconds :: int where "kRollPerSeconds = 60 * 60 * 24"

record LogFile =
  lf_basename :: string
  lf_rollSize :: nat
  lf_flushInterval :: int
  lf_count :: int
  lf_threadSafe :: bool
  startOfPeriod :: int
  lastRoll :: int
  lastFlush :: int
  lf_file :: "File option"
  lf_closed :: "File list"

definition pad2 :: "int \<Rightarrow> string" where
  "pad2 n = [digit_char (nat n div 10 mod 10), digit_char (nat n mod 10)]"

text \<open>\<open>gmtime_r\<close> is the conversion of \<open>BreakTime\<close> in \<^verbatim>\<open>datetime/TimeZone.cc\<close>.\<close>

definition getLogFileName :: "string \<Rightarrow> nat \<Rightarrow> int \<Rightarrow> string" where
  "getLogFileName basename pid now =
     (let tm = toUtcTime now True
      in basename
         @ ''.'' @ decimal_int (tm_year tm + 1900) @ pad2 (tm_mon tm + 1) @ pad2 (tm_mday tm)
         @ ''-'' @ pad2 (tm_hour tm) @ pad2 (tm_min tm) @ pad2 (tm_sec tm)
         @ ''.'' @ decimal pid @ ''.log'')"

definition rollFile :: "nat \<Rightarrow> int \<Rightarrow> LogFile \<Rightarrow> LogFile" where
  "rollFile pid now lf =
     (let filename = getLogFileName (lf_basename lf) pid now;
          start = now sdiv kRollPerSeconds * kRollPerSeconds
      in if now > lastRoll lf
         then lf\<lparr> lastRoll := now, lastFlush := now, startOfPeriod := start,
                  lf_file := Some (File_new filename),
                  lf_closed := lf_closed lf @ (case lf_file lf of None \<Rightarrow> [] | Some f \<Rightarrow> [file_flush f]) \<rparr>
         else lf)"

definition LogFile_new :: "string \<Rightarrow> nat \<Rightarrow> bool \<Rightarrow> int \<Rightarrow> nat \<Rightarrow> int \<Rightarrow> LogFile option" where
  "LogFile_new basename rollSize threadSafe flushInterval pid now = do {
     check (CHR ''/'' \<notin> set basename);
     Some (rollFile pid now
       \<lparr> lf_basename = basename, lf_rollSize = rollSize, lf_flushInterval = flushInterval, lf_count = 0,
         lf_threadSafe = threadSafe, startOfPeriod = 0, lastRoll = 0, lastFlush = 0,
         lf_file = None, lf_closed = [] \<rparr>) }"

definition on_file :: "(File \<Rightarrow> File) \<Rightarrow> LogFile \<Rightarrow> LogFile option" where
  "on_file g lf = do { f \<leftarrow> lf_file lf; Some (lf\<lparr> lf_file := Some (g f) \<rparr>) }"

text \<open>What the system answers during one \<open>append\<close>.\<close>

record log_env =
  le_writes :: "nat list"
  le_now :: int
  le_roll_now :: int
  le_pid :: nat

definition append_unlocked :: "log_env \<Rightarrow> string \<Rightarrow> LogFile \<Rightarrow> LogFile option" where
  "append_unlocked e line lf = do {
     lf \<leftarrow> on_file (file_append (le_writes e) line) lf;
     f \<leftarrow> lf_file lf;
     if writtenBytes f > lf_rollSize lf then Some (rollFile (le_pid e) (le_roll_now e) lf)
     else if lf_count lf > kCheckTimeRoll then do {
       let lf = lf\<lparr> lf_count := 0 \<rparr>;
       let now = le_now e;
       let thisPeriod = now sdiv kRollPerSeconds * kRollPerSeconds;
       if thisPeriod \<noteq> startOfPeriod lf then Some (rollFile (le_pid e) (le_roll_now e) lf)
       else if now - lastFlush lf > lf_flushInterval lf
       then on_file file_flush (lf\<lparr> lastFlush := now \<rparr>)
       else Some lf }
     else Some (lf\<lparr> lf_count := lf_count lf + 1 \<rparr>) }"

definition lf_append :: "log_env \<Rightarrow> string \<Rightarrow> LogFile \<Rightarrow> LogFile option" where
  "lf_append e line lf =
     (if lf_threadSafe lf then append_unlocked e line lf else append_unlocked e line lf)"

definition lf_flush :: "LogFile \<Rightarrow> LogFile option" where
  "lf_flush lf = (if lf_threadSafe lf then on_file file_flush lf else on_file file_flush lf)"

subsection \<open>Writing\<close>

lemma file_write_complete:
  "file_write ws s f = (x, ws', f') \<Longrightarrow> x \<le> length s \<and> f_text f' = f_text f @ take x s \<and> writtenBytes f' = writtenBytes f"
  by (cases ws) (auto simp: Let_def)

lemma file_write_progress:
  "file_write ws s f = (x, ws', f') \<Longrightarrow> 0 \<notin> set ws \<Longrightarrow> s \<noteq> [] \<Longrightarrow> 0 < x \<and> 0 \<notin> set ws'"
  by (cases ws) (auto simp: Let_def)

lemma append_loop_text:
  "0 \<notin> set ws \<Longrightarrow> f_text (append_loop ws s f) = f_text f @ s"
proof (induction ws s f rule: append_loop.induct)
  case (1 ws s f)
  show ?case
  proof (cases "s = []")
    case False
    obtain x ws' f' where w: "file_write ws s f = (x, ws', f')" by (metis prod_cases3)
    from file_write_progress [OF w 1(2) False] file_write_complete [OF w]
    have x: "0 < x" "0 \<notin> set ws'" "f_text f' = f_text f @ take x s" by simp_all
    have "append_loop ws s f = append_loop ws' (drop x s) f'"
      using False x w by (subst append_loop.simps) simp
    moreover have "f_text (append_loop ws' (drop x s) f') = f_text f' @ drop x s"
      using 1(1) [of "(x, ws', f')" x "(ws', f')" ws' f'] w False x by simp
    ultimately show ?thesis using x by simp
  qed (simp add: append_loop.simps)
qed

lemma append_loop_written: "writtenBytes (append_loop ws s f) = writtenBytes f"
proof (induction ws s f rule: append_loop.induct)
  case (1 ws s f)
  obtain x ws' f' where w: "file_write ws s f = (x, ws', f')" by (metis prod_cases3)
  with 1 [of "(x, ws', f')" x "(ws', f')" ws' f'] file_write_complete [OF w] show ?case
    by (subst append_loop.simps) simp
qed

text \<open>Without a failing \<open>fwrite\<close>, short writes are retried until the whole line is in the file.\<close>

lemma file_append_text:
  assumes "0 \<notin> set ws"
  shows "f_text (file_append ws line f) = f_text f @ line"
    and "writtenBytes (file_append ws line f) = writtenBytes f + length line"
proof -
  obtain n ws' f' where w: "file_write ws line f = (n, ws', f')" by (metis prod_cases3)
  have "0 \<notin> set ws'" using w assms by (cases ws) (auto simp: Let_def)
  then show "f_text (file_append ws line f) = f_text f @ line"
    using w file_write_complete [OF w] by (simp add: file_append_def Let_def append_loop_text)
  show "writtenBytes (file_append ws line f) = writtenBytes f + length line"
    using w file_write_complete [OF w] by (simp add: file_append_def Let_def append_loop_written)
qed

subsection \<open>The interface: a sink for text\<close>

text \<open>
  What a logging front end relies on: a line is appended to the text of the sink, and a flush leaves the
  text alone.  Failing writes are excluded by \<open>good\<close>.
\<close>

fun sink_all :: "('e \<Rightarrow> 'l \<Rightarrow> 's \<Rightarrow> 's option) \<Rightarrow> ('e \<times> 'l) list \<Rightarrow> 's \<Rightarrow> 's option" where
  "sink_all app [] s = Some s"
| "sink_all app ((e, l) # ls) s = app e l s \<bind> sink_all app ls"

locale log_sink =
  fixes append :: "'e \<Rightarrow> string \<Rightarrow> 's \<Rightarrow> 's option"
    and flush :: "'s \<Rightarrow> 's option"
    and text_of :: "'s \<Rightarrow> string"
    and ok :: "'s \<Rightarrow> bool"
    and good :: "'e \<Rightarrow> bool"
  assumes append_text: "ok s \<Longrightarrow> good e \<Longrightarrow> \<exists>s'. append e l s = Some s' \<and> ok s' \<and> text_of s' = text_of s @ l"
    and flush_text: "ok s \<Longrightarrow> \<exists>s'. flush s = Some s' \<and> ok s' \<and> text_of s' = text_of s"
begin

lemma sink_all_text:
  "ok s \<Longrightarrow> list_all (good \<circ> fst) ls \<Longrightarrow>
   \<exists>s'. sink_all append ls s = Some s' \<and> ok s' \<and> text_of s' = text_of s @ concat (map snd ls)"
proof (induction ls arbitrary: s)
  case (Cons p ls)
  obtain e l where p: "p = (e, l)" by force
  with append_text [of s e l] Cons.prems obtain s1 where
    "append e l s = Some s1" "ok s1" "text_of s1 = text_of s @ l" by auto
  with Cons.IH [of s1] Cons.prems p show ?case by auto
qed simp

end

definition open_file :: "LogFile \<Rightarrow> File list" where
  "open_file lf = (case lf_file lf of None \<Rightarrow> [] | Some f \<Rightarrow> [f])"

definition log_files :: "LogFile \<Rightarrow> File list" where
  "log_files lf = lf_closed lf @ open_file lf"

definition log_text :: "LogFile \<Rightarrow> string" where
  "log_text lf = concat (map f_text (log_files lf))"

definition log_open :: "LogFile \<Rightarrow> bool" where
  "log_open lf \<longleftrightarrow> lf_file lf \<noteq> None"

definition writes_ok :: "log_env \<Rightarrow> bool" where
  "writes_ok e \<longleftrightarrow> 0 \<notin> set (le_writes e)"

lemmas log_defs = open_file_def log_files_def log_text_def log_open_def

lemma rollFile_text [simp]: "log_text (rollFile pid now lf) = log_text lf"
  by (simp add: rollFile_def log_defs Let_def File_new_def file_flush_def split: option.splits)

lemma rollFile_open [simp]: "log_open lf \<Longrightarrow> log_open (rollFile pid now lf)"
  by (simp add: rollFile_def log_defs Let_def)

lemma file_flush_text [simp]: "f_text (file_flush f) = f_text f"
  by (simp add: file_flush_def)

lemma append_unlocked_text:
  assumes "log_open lf" and "writes_ok e"
  shows "\<exists>lf'. append_unlocked e line lf = Some lf' \<and> log_open lf' \<and> log_text lf' = log_text lf @ line"
proof -
  obtain f where f: "lf_file lf = Some f" using assms(1) by (auto simp: log_open_def)
  let ?f = "file_append (le_writes e) line f"
  let ?lf = "lf\<lparr> lf_file := Some ?f \<rparr>"
  have t: "f_text ?f = f_text f @ line" using assms(2) by (simp add: file_append_text writes_ok_def)
  have g: "log_open ?lf" "log_text ?lf = log_text lf @ line"
    "log_open (?lf\<lparr> lf_count := c \<rparr>)" "log_text (?lf\<lparr> lf_count := c \<rparr>) = log_text lf @ line"
    "log_text (?lf\<lparr> lf_count := c, lastFlush := n, lf_file := Some (file_flush ?f) \<rparr>) = log_text lf @ line"
    "log_open (?lf\<lparr> lf_count := c, lastFlush := n, lf_file := Some (file_flush ?f) \<rparr>)" for c n
    using f t by (simp_all add: log_defs)
  show ?thesis
    using f g by (auto simp: append_unlocked_def on_file_def Let_def)
qed

interpretation logf: log_sink lf_append lf_flush log_text log_open writes_ok
proof
  fix s e l
  assume "log_open s" "writes_ok e"
  then show "\<exists>s'. lf_append e l s = Some s' \<and> log_open s' \<and> log_text s' = log_text s @ l"
    unfolding lf_append_def if_cancel by (rule append_unlocked_text)
next
  fix s
  assume "log_open s"
  then show "\<exists>s'. lf_flush s = Some s' \<and> log_open s' \<and> log_text s' = log_text s"
    by (auto simp: lf_flush_def on_file_def log_defs)
qed

lemma LogFile_new_open:
  assumes "CHR ''/'' \<notin> set base" and "0 < t0"
  shows "\<exists>lf. LogFile_new base rs safe fl pid t0 = Some lf \<and> log_open lf \<and> log_text lf = []"
  using assms by (simp add: LogFile_new_def rollFile_def log_defs Let_def File_new_def)

subsection \<open>Rolling\<close>

text \<open>A file is within bounds when only its last line crosses the roll size.\<close>

definition file_bounded :: "nat \<Rightarrow> string set \<Rightarrow> File \<Rightarrow> bool" where
  "file_bounded rs ls f \<longleftrightarrow> (\<exists>p l. f_text f = p @ l \<and> length p \<le> rs \<and> (l = [] \<or> l \<in> ls))"

definition rolls_inv :: "nat \<Rightarrow> string set \<Rightarrow> LogFile \<Rightarrow> bool" where
  "rolls_inv rs ls lf \<longleftrightarrow> lf_rollSize lf = rs \<and> (\<forall>f\<in>set (lf_closed lf). file_bounded rs ls f)
     \<and> (\<exists>f. lf_file lf = Some f \<and> writtenBytes f = length (f_text f) \<and> length (f_text f) \<le> rs)"

lemma file_bounded_mono: "file_bounded rs ls f \<Longrightarrow> ls \<subseteq> ls' \<Longrightarrow> file_bounded rs ls' f"
  unfolding file_bounded_def by blast

lemma rolls_inv_roll:
  assumes "lastRoll lf < now" and "lf_rollSize lf = rs"
    and "\<forall>f\<in>set (lf_closed lf). file_bounded rs ls f" and "lf_file lf = Some f" and "file_bounded rs ls f"
  shows "rolls_inv rs ls (rollFile pid now lf)" and "lastRoll (rollFile pid now lf) = now"
  using assms by (auto simp: rollFile_def rolls_inv_def Let_def File_new_def file_bounded_def)

lemma append_rolls_inv:
  assumes "rolls_inv rs ls lf" and "writes_ok e" and "lastRoll lf < le_roll_now e"
  shows "\<exists>lf'. lf_append e line lf = Some lf' \<and> rolls_inv rs (insert line ls) lf'
           \<and> lastRoll lf' \<le> le_roll_now e"
proof -
  from assms(1) obtain f where
    f: "lf_file lf = Some f" "writtenBytes f = length (f_text f)" "length (f_text f) \<le> rs" and
    rs: "lf_rollSize lf = rs" and c: "\<forall>g\<in>set (lf_closed lf). file_bounded rs ls g"
    by (auto simp: rolls_inv_def)
  define f' where "f' = file_append (le_writes e) line f"
  define lf' where "lf' = lf\<lparr> lf_file := Some f' \<rparr>"
  have t: "f_text f' = f_text f @ line" "writtenBytes f' = length (f_text f')"
    using assms(2) f by (simp_all add: f'_def file_append_text writes_ok_def)
  have b: "file_bounded rs (insert line ls) f'" using t f(3) by (auto simp: file_bounded_def)
  have c': "\<forall>g\<in>set (lf_closed lf). file_bounded rs (insert line ls) g"
    using c file_bounded_mono by blast
  have roll: "rolls_inv rs (insert line ls) (rollFile (le_pid e) (le_roll_now e) x)"
      "lastRoll (rollFile (le_pid e) (le_roll_now e) x) = le_roll_now e"
    if "x = lf' \<or> x = lf'\<lparr> lf_count := 0 \<rparr>" for x
  proof -
    have "lastRoll x < le_roll_now e" "lf_rollSize x = rs" "lf_closed x = lf_closed lf" "lf_file x = Some f'"
      using that assms(3) rs by (auto simp: lf'_def)
    then show "rolls_inv rs (insert line ls) (rollFile (le_pid e) (le_roll_now e) x)"
      "lastRoll (rollFile (le_pid e) (le_roll_now e) x) = le_roll_now e"
      using c' b by (auto intro!: rolls_inv_roll)
  qed
  have stay: "rolls_inv rs (insert line ls) x"
    if "writtenBytes f' \<le> rs" "lf_rollSize x = rs" "lf_closed x = lf_closed lf"
      "lf_file x = Some f' \<or> lf_file x = Some (file_flush f')" for x
    using that t c' by (auto simp: rolls_inv_def file_flush_def)
  have run: "lf_append e line lf =
      (if writtenBytes f' > rs then Some (rollFile (le_pid e) (le_roll_now e) lf')
       else if lf_count lf > kCheckTimeRoll
       then if le_now e sdiv kRollPerSeconds * kRollPerSeconds \<noteq> startOfPeriod lf
            then Some (rollFile (le_pid e) (le_roll_now e) (lf'\<lparr> lf_count := 0 \<rparr>))
            else if le_now e - lastFlush lf > lf_flushInterval lf
            then Some (lf'\<lparr> lf_count := 0, lastFlush := le_now e, lf_file := Some (file_flush f') \<rparr>)
            else Some (lf'\<lparr> lf_count := 0 \<rparr>)
       else Some (lf'\<lparr> lf_count := lf_count lf + 1 \<rparr>))"
    using f(1) rs by (simp add: lf_append_def append_unlocked_def on_file_def Let_def f'_def lf'_def)
  show ?thesis
    unfolding run using roll assms(3) stay rs by (auto simp: lf'_def)
qed

lemma appends_roll:
  "rolls_inv rs ls lf \<Longrightarrow> sorted_wrt (<) (lastRoll lf # map (le_roll_now \<circ> fst) es) \<Longrightarrow>
   list_all (writes_ok \<circ> fst) es \<Longrightarrow>
   \<exists>lf'. sink_all lf_append es lf = Some lf' \<and> rolls_inv rs (ls \<union> snd ` set es) lf'"
proof (induction es arbitrary: ls lf)
  case (Cons p es)
  obtain e l where p: "p = (e, l)" by force
  with append_rolls_inv [OF Cons.prems(1), of e l] Cons.prems obtain lf1 where
    a: "lf_append e l lf = Some lf1" "rolls_inv rs (insert l ls) lf1" "lastRoll lf1 \<le> le_roll_now e" by auto
  have "sorted_wrt (<) (lastRoll lf1 # map (le_roll_now \<circ> fst) es)" using Cons.prems(2) a(3) p by (auto simp: comp_def)
  from Cons.IH [OF a(2) this] Cons.prems(3) a(1) p show ?case by auto
qed simp



end
