(* ===== verification/AsyncLogs.thy ===== *)
theory AsyncLogs
  imports LogStreams LogFiles
begin

text \<open>
  \<^verbatim>\<open>logging/AsyncLoggingDoubleBuffering.h\<close>: front ends append log lines to a shared buffer, a background
  thread swaps the filled buffers out and writes them to a \<open>LogFile\<close>.

  The state holds the shared members and the locals of \<open>threadFunc\<close> with its program counter.
  Every critical section is one step, and so is the code of the background thread between two of
  them, which touches its own data only.  \<open>waitForSeconds\<close> gives the mutex away, so a wait
  splits its critical section in two and any number of appends may come in between.  Smart pointers
  are \<open>option\<close>s; a failing assertion or null dereference is \<open>None\<close>.  The size of the buffers,
  \<open>kLargeBuffer\<close> in the code, is a field; bytes never written are taken as NUL, which no operation
  reads.
\<close>

datatype thread_pc = NotStarted | Begin | Head | Lock | Waiting | Write | Done

record AsyncLogging =
  as_size :: nat
  as_basename :: string
  as_rollSize :: nat
  as_running :: bool
  currentBuffer :: "FixedBuffer option"
  nextBuffer :: "FixedBuffer option"
  as_buffers :: "FixedBuffer list"
  as_pc :: thread_pc
  newBuffer1 :: "FixedBuffer option"
  newBuffer2 :: "FixedBuffer option"
  buffersToWrite :: "FixedBuffer list"
  as_output :: "LogFile option"
  as_stderr :: "string list"

definition new_Buffer :: "nat \<Rightarrow> FixedBuffer" where
  "new_Buffer k = fb_bzero (FixedBuffer_new (replicate k (CHR 0x00)))"

definition AsyncLogging_new :: "nat \<Rightarrow> string \<Rightarrow> nat \<Rightarrow> AsyncLogging" where
  "AsyncLogging_new k basename rollSize =
     \<lparr> as_size = k, as_basename = basename, as_rollSize = rollSize, as_running = False,
       currentBuffer = Some (new_Buffer k), nextBuffer = Some (new_Buffer k), as_buffers = [],
       as_pc = NotStarted, newBuffer1 = None, newBuffer2 = None, buffersToWrite = [],
       as_output = None, as_stderr = [] \<rparr>"

definition as_append :: "string \<Rightarrow> int \<Rightarrow> AsyncLogging \<Rightarrow> AsyncLogging option" where
  "as_append logline len s = do {
     cur \<leftarrow> currentBuffer s;
     if fb_avail cur > len then do {
       cur \<leftarrow> fb_append logline len cur;
       Some (s\<lparr> currentBuffer := Some cur \<rparr>) }
     else do {
       let s = s\<lparr> as_buffers := as_buffers s @ [cur], currentBuffer := None \<rparr>;
       let s = (case nextBuffer s of
                  Some b \<Rightarrow> s\<lparr> currentBuffer := Some b, nextBuffer := None \<rparr>
                | None \<Rightarrow> s\<lparr> currentBuffer := Some (new_Buffer (as_size s)) \<rparr>);
       cur \<leftarrow> currentBuffer s;
       cur \<leftarrow> fb_append logline len cur;
       Some (s\<lparr> currentBuffer := Some cur \<rparr>) } }"

text \<open>
  A thread is started once (\<open>Thread::start\<close> asserts it), and \<open>start\<close> returns when the thread has passed its first assertion and counted the
  latch down.
\<close>

definition as_start :: "AsyncLogging \<Rightarrow> AsyncLogging option" where
  "as_start s = do {
     let s = s\<lparr> as_running := True \<rparr>;
     check (as_pc s = NotStarted);
     check (as_running s);
     Some (s\<lparr> as_pc := Begin \<rparr>) }"

definition as_stop :: "AsyncLogging \<Rightarrow> AsyncLogging" where
  "as_stop s = s\<lparr> as_running := False \<rparr>"

text \<open>The background thread: the prologue, the head of the loop, the swap and the writing.\<close>

definition thread_begin :: "log_env \<Rightarrow> AsyncLogging \<Rightarrow> AsyncLogging option" where
  "thread_begin e s = do {
     output \<leftarrow> LogFile_new (as_basename s) (as_rollSize s) False 3 (le_pid e) (le_roll_now e);
     Some (s\<lparr> as_output := Some output, newBuffer1 := Some (new_Buffer (as_size s)),
              newBuffer2 := Some (new_Buffer (as_size s)), buffersToWrite := [], as_pc := Head \<rparr>) }"

definition is_empty_buffer :: "FixedBuffer option \<Rightarrow> bool" where
  "is_empty_buffer b = (case b of None \<Rightarrow> False | Some b \<Rightarrow> fb_length b = 0)"

definition thread_head :: "AsyncLogging \<Rightarrow> AsyncLogging option" where
  "thread_head s =
     (if as_running s then do {
        check (is_empty_buffer (newBuffer1 s));
        check (is_empty_buffer (newBuffer2 s));
        check (buffersToWrite s = []);
        Some (s\<lparr> as_pc := Lock \<rparr>) }
      else do {
        output \<leftarrow> as_output s;
        output \<leftarrow> lf_flush output;
        Some (s\<lparr> as_output := Some output, as_pc := Done \<rparr>) })"

definition thread_swap :: "AsyncLogging \<Rightarrow> AsyncLogging option" where
  "thread_swap s = do {
     cur \<leftarrow> currentBuffer s;
     let s = s\<lparr> as_buffers := as_buffers s @ [cur] \<rparr>;
     let s = s\<lparr> currentBuffer := newBuffer1 s, newBuffer1 := None \<rparr>;
     let s = s\<lparr> buffersToWrite := as_buffers s, as_buffers := buffersToWrite s \<rparr>;
     let s = (if nextBuffer s = None then s\<lparr> nextBuffer := newBuffer2 s, newBuffer2 := None \<rparr> else s);
     Some (s\<lparr> as_pc := Write \<rparr>) }"

definition thread_lock :: "AsyncLogging \<Rightarrow> AsyncLogging option" where
  "thread_lock s = (if as_buffers s \<noteq> [] then Some (s\<lparr> as_pc := Waiting \<rparr>) else thread_swap s)"

definition dropMsg :: string where
  "dropMsg = ''Dropped log messages'' @ [CHR 0x0A]"

text \<open>\<open>env i\<close> is what the system answers to the \<open>i\<close>-th \<open>output.append\<close> of the round.\<close>

definition drop_backlog :: "log_env \<Rightarrow> AsyncLogging \<Rightarrow> AsyncLogging option" where
  "drop_backlog e s =
     (if length (buffersToWrite s) > 25 then do {
        output \<leftarrow> as_output s;
        output \<leftarrow> lf_append e dropMsg output;
        Some (s\<lparr> as_output := Some output, as_stderr := as_stderr s @ [dropMsg],
                 buffersToWrite := drop (length (buffersToWrite s) - 2) (buffersToWrite s) \<rparr>) }
      else Some s)"

definition write_buffers :: "(nat \<Rightarrow> log_env) \<Rightarrow> AsyncLogging \<Rightarrow> AsyncLogging option" where
  "write_buffers env s = do {
     output \<leftarrow> as_output s;
     output \<leftarrow> sink_all lf_append
       (map (\<lambda>(i, b). (env (Suc i), take (fb_length b) (fb_data b))) (zip [0..<length (buffersToWrite s)] (buffersToWrite s)))
       output;
     Some (s\<lparr> as_output := Some output \<rparr>) }"

definition recycle1 :: "AsyncLogging \<Rightarrow> AsyncLogging option" where
  "recycle1 s =
     (if newBuffer1 s = None then do {
        check (buffersToWrite s \<noteq> []);
        Some (s\<lparr> newBuffer1 := Some (fb_reset (last (buffersToWrite s))),
                 buffersToWrite := butlast (buffersToWrite s) \<rparr>) }
      else Some s)"

definition recycle2 :: "AsyncLogging \<Rightarrow> AsyncLogging option" where
  "recycle2 s =
     (if newBuffer2 s = None then do {
        check (buffersToWrite s \<noteq> []);
        Some (s\<lparr> newBuffer2 := Some (fb_reset (last (buffersToWrite s))),
                 buffersToWrite := butlast (buffersToWrite s) \<rparr>) }
      else Some s)"

definition thread_write :: "(nat \<Rightarrow> log_env) \<Rightarrow> AsyncLogging \<Rightarrow> AsyncLogging option" where
  "thread_write env s = do {
     check (buffersToWrite s \<noteq> []);
     s \<leftarrow> drop_backlog (env 0) s;
     s \<leftarrow> write_buffers env s;
     let s = (if length (buffersToWrite s) > 2 then s\<lparr> buffersToWrite := take 2 (buffersToWrite s) \<rparr> else s);
     s \<leftarrow> recycle1 s;
     s \<leftarrow> recycle2 s;
     output \<leftarrow> as_output s;
     output \<leftarrow> lf_flush output;
     Some (s\<lparr> buffersToWrite := [], as_output := Some output, as_pc := Head \<rparr>) }"

definition thread_step :: "(nat \<Rightarrow> log_env) \<Rightarrow> AsyncLogging \<Rightarrow> AsyncLogging option" where
  "thread_step env s = (case as_pc s of
     NotStarted \<Rightarrow> Some s
   | Begin \<Rightarrow> thread_begin (env 0) s
   | Head \<Rightarrow> thread_head s
   | Lock \<Rightarrow> thread_lock s
   | Waiting \<Rightarrow> thread_swap s
   | Write \<Rightarrow> thread_write env s
   | Done \<Rightarrow> Some s)"

text \<open>Interleavings: front ends append, the owner stops, the background thread steps.\<close>

datatype as_action = Append string | Stop | Thread "nat \<Rightarrow> log_env"

fun as_step :: "as_action \<Rightarrow> AsyncLogging \<Rightarrow> AsyncLogging option" where
  "as_step (Append l) s = as_append l (int (length l)) s"
| "as_step Stop s = Some (as_stop s)"
| "as_step (Thread env) s = thread_step env s"

fun as_run :: "as_action list \<Rightarrow> AsyncLogging \<Rightarrow> AsyncLogging option" where
  "as_run [] s = Some s"
| "as_run (a # as) s = as_step a s \<bind> as_run as"

subsection \<open>Invariant\<close>

definition buf_ok :: "nat \<Rightarrow> FixedBuffer \<Rightarrow> bool" where
  "buf_ok k b \<longleftrightarrow> length (fb_data b) = k \<and> fb_cur b \<le> k"

definition fresh :: "nat \<Rightarrow> FixedBuffer option \<Rightarrow> bool" where
  "fresh k b \<longleftrightarrow> (\<exists>b'. b = Some b' \<and> buf_ok k b' \<and> fb_cur b' = 0)"

text \<open>
  The shared part: the current buffer exists, the spare buffer is empty, and when it has been used up a
  filled buffer waits in \<open>buffers_\<close>.
\<close>

definition shared_inv :: "AsyncLogging \<Rightarrow> bool" where
  "shared_inv s \<longleftrightarrow>
     (\<exists>c. currentBuffer s = Some c \<and> buf_ok (as_size s) c)
     \<and> (nextBuffer s \<noteq> None \<longrightarrow> fresh (as_size s) (nextBuffer s))
     \<and> (nextBuffer s = None \<longrightarrow> as_buffers s \<noteq> [])
     \<and> list_all (buf_ok (as_size s)) (as_buffers s)"

definition out_ok :: "AsyncLogging \<Rightarrow> bool" where
  "out_ok s \<longleftrightarrow> (\<exists>lf. as_output s = Some lf \<and> log_open lf)"

text \<open>The thread's part, by program counter: at the loop head both spare buffers are back.\<close>

fun local_inv :: "thread_pc \<Rightarrow> AsyncLogging \<Rightarrow> bool" where
  "local_inv NotStarted s = (buffersToWrite s = [] \<and> as_output s = None)"
| "local_inv Begin s = (buffersToWrite s = [] \<and> as_output s = None)"
| "local_inv Done s = (buffersToWrite s = [] \<and> out_ok s)"
| "local_inv Write s =
     (out_ok s \<and> buffersToWrite s \<noteq> [] \<and> list_all (buf_ok (as_size s)) (buffersToWrite s) \<and> newBuffer1 s = None
      \<and> (newBuffer2 s = None \<and> 2 \<le> length (buffersToWrite s) \<or> fresh (as_size s) (newBuffer2 s)))"
| "local_inv pc s =
     (out_ok s \<and> buffersToWrite s = [] \<and> fresh (as_size s) (newBuffer1 s) \<and> fresh (as_size s) (newBuffer2 s))"

definition as_inv :: "AsyncLogging \<Rightarrow> bool" where
  "as_inv s \<longleftrightarrow> shared_inv s \<and> local_inv (as_pc s) s"

definition bufs_text :: "FixedBuffer list \<Rightarrow> string" where
  "bufs_text bs = concat (map fb_asString bs)"

definition out_text :: "AsyncLogging \<Rightarrow> string" where
  "out_text s = (case as_output s of None \<Rightarrow> [] | Some lf \<Rightarrow> log_text lf)"

definition pending :: "AsyncLogging \<Rightarrow> string" where
  "pending s = bufs_text (buffersToWrite s @ as_buffers s @ (case currentBuffer s of None \<Rightarrow> [] | Some b \<Rightarrow> [b]))"

lemma local_inv_cong:
  assumes "buffersToWrite s' = buffersToWrite s" "as_output s' = as_output s" "newBuffer1 s' = newBuffer1 s"
    "newBuffer2 s' = newBuffer2 s" "as_size s' = as_size s"
  shows "local_inv pc s' = local_inv pc s"
  by (cases pc) (simp_all add: assms out_ok_def)

lemma bufs_text_simps [simp]:
  "bufs_text [] = []" "bufs_text (b # bs) = fb_asString b @ bufs_text bs" "bufs_text (xs @ ys) = bufs_text xs @ bufs_text ys"
  by (simp_all add: bufs_text_def)

lemma buf_ok_append:
  assumes "buf_ok k b"
  shows "\<exists>b'. fb_append l (int (length l)) b = Some b' \<and> buf_ok k b'
    \<and> fb_asString b' = fb_asString b @ (if fb_avail b > int (length l) then l else [])"
proof -
  have "fb_ok b" using assms by (simp add: fb_ok_def buf_ok_def)
  from append_extends [OF this, of "length l" l] assms show ?thesis
    by (auto simp: buf_ok_def extends_def fb_avail_def fb_ok_def split: if_splits)
qed

lemma fresh_text: "fresh k b \<Longrightarrow> \<exists>b'. b = Some b' \<and> buf_ok k b' \<and> fb_asString b' = [] \<and> fb_avail b' = int k"
  by (auto simp: fresh_def fb_asString_def fb_length_def fb_avail_def buf_ok_def)

lemma fresh_new: "fresh k (Some (new_Buffer k))"
  by (simp add: fresh_def new_Buffer_def fb_bzero_def FixedBuffer_new_def buf_ok_def)

text \<open>A step of any kind: the invariant holds again, and nothing is lost but lines that fit no buffer.\<close>

definition keeps :: "AsyncLogging \<Rightarrow> string \<Rightarrow> AsyncLogging \<Rightarrow> bool" where
  "keeps s l s' \<longleftrightarrow> as_inv s' \<and> as_size s' = as_size s \<and> as_basename s' = as_basename s
     \<and> (as_stderr s' = [] \<longrightarrow> as_stderr s = [] \<and> out_text s' @ pending s' = out_text s @ pending s @ l)"

lemma as_append_keeps:
  assumes "as_inv s"
  shows "\<exists>s'. as_append l (int (length l)) s = Some s' \<and> as_pc s' = as_pc s
           \<and> keeps s (if length l < as_size s then l else []) s'"
proof -
  let ?k = "as_size s"
  from assms obtain c where c: "currentBuffer s = Some c" "buf_ok ?k c"
    and sh: "shared_inv s" and lo: "local_inv (as_pc s) s"
    by (auto simp: as_inv_def shared_inv_def)
  show ?thesis
  proof (cases "fb_avail c > int (length l)")
    case True
    from buf_ok_append [OF c(2), of l] True obtain c' where
      c': "fb_append l (int (length l)) c = Some c'" "buf_ok ?k c'" "fb_asString c' = fb_asString c @ l" by auto
    let ?s = "s\<lparr> currentBuffer := Some c' \<rparr>"
    have "shared_inv ?s" using sh c'(2) by (simp add: shared_inv_def)
    moreover have "local_inv (as_pc s) ?s" using lo by (subst local_inv_cong [of _ s]) simp_all
    moreover have "length l < ?k" using True c(2) by (simp add: fb_avail_def buf_ok_def)
    ultimately have "keeps s (if length l < ?k then l else []) ?s"
      using c c'(3) by (simp add: keeps_def as_inv_def out_text_def pending_def)
    then show ?thesis using c(1) c'(1) True by (simp add: as_append_def)
  next
    case False
    define nb where "nb = (case nextBuffer s of Some b \<Rightarrow> b | None \<Rightarrow> new_Buffer ?k)"
    have "fresh ?k (Some nb)" using sh fresh_new [of ?k] by (auto simp: nb_def shared_inv_def split: option.splits)
    from fresh_text [OF this] have nb: "buf_ok ?k nb" "fb_asString nb = []" "fb_avail nb = int ?k" by auto
    from buf_ok_append [OF nb(1), of l] nb(2,3) obtain c' where
      c': "fb_append l (int (length l)) nb = Some c'" "buf_ok ?k c'" "fb_asString c' = (if length l < ?k then l else [])"
      by auto
    let ?s = "s\<lparr> as_buffers := as_buffers s @ [c], currentBuffer := Some c', nextBuffer := None \<rparr>"
    have "shared_inv ?s" using sh c(2) c'(2) by (simp add: shared_inv_def)
    moreover have "local_inv (as_pc s) ?s" using lo by (subst local_inv_cong [of _ s]) simp_all
    ultimately have "keeps s (if length l < ?k then l else []) ?s"
      using c(1) c'(3) by (simp add: keeps_def as_inv_def out_text_def pending_def)
    moreover have "as_append l (int (length l)) s = Some ?s"
      using c(1) c'(1) False by (cases "nextBuffer s") (simp_all add: as_append_def nb_def Let_def)
    ultimately show ?thesis by simp
  qed
qed

lemma thread_swap_keeps:
  assumes "as_inv s" and "as_pc s = Lock \<or> as_pc s = Waiting"
  shows "\<exists>s'. thread_swap s = Some s' \<and> keeps s [] s'"
proof -
  let ?k = "as_size s"
  from assms obtain c where c: "currentBuffer s = Some c" "buf_ok ?k c" and sh: "shared_inv s"
    and lo: "out_ok s" "buffersToWrite s = []" "fresh ?k (newBuffer1 s)" "fresh ?k (newBuffer2 s)"
    by (auto simp: as_inv_def shared_inv_def)
  from fresh_text [OF lo(3)] fresh_text [OF lo(4)] obtain n1 n2 where
    n1: "newBuffer1 s = Some n1" "buf_ok ?k n1" "fb_asString n1 = []" and n2: "newBuffer2 s = Some n2" by blast
  let ?s = "s\<lparr> currentBuffer := Some n1, newBuffer1 := None, buffersToWrite := as_buffers s @ [c], as_buffers := [],
               nextBuffer := (if nextBuffer s = None then newBuffer2 s else nextBuffer s),
               newBuffer2 := (if nextBuffer s = None then None else newBuffer2 s), as_pc := Write \<rparr>"
  have r: "thread_swap s = Some ?s"
    using c(1) n1(1) lo(2) by (simp add: thread_swap_def Let_def)
  have "shared_inv ?s" using sh n1(2) lo(4) n2 by (simp add: shared_inv_def)
  moreover have "local_inv Write ?s"
    using sh lo c(2) by (auto simp: shared_inv_def out_ok_def) (simp add: Suc_le_eq)
  ultimately have "keeps s [] ?s"
    using c(1) n1(3) lo(2) by (simp add: keeps_def as_inv_def out_text_def pending_def)
  with r show ?thesis by blast
qed

definition env_ok :: "(nat \<Rightarrow> log_env) \<Rightarrow> bool" where
  "env_ok env \<longleftrightarrow> (\<forall>i. writes_ok (env i)) \<and> 0 < le_roll_now (env 0)"

lemma drop_backlog_ok:
  assumes "as_inv s" and "as_pc s = Write" and "writes_ok e"
  shows "\<exists>s'. drop_backlog e s = Some s' \<and> as_inv s' \<and> as_pc s' = Write \<and> as_size s' = as_size s
           \<and> as_basename s' = as_basename s \<and> (as_stderr s' = [] \<longrightarrow> s' = s)"
proof (cases "length (buffersToWrite s) > 25")
  case True
  let ?bw = "drop (length (buffersToWrite s) - 2) (buffersToWrite s)"
  from assms(1,2) obtain lf where lf: "as_output s = Some lf" "log_open lf" by (auto simp: as_inv_def out_ok_def)
  from logf.append_text [OF lf(2) assms(3), of dropMsg] obtain lf' where
    a: "lf_append e dropMsg lf = Some lf'" "log_open lf'" by blast
  let ?s = "s\<lparr> as_output := Some lf', as_stderr := as_stderr s @ [dropMsg], buffersToWrite := ?bw \<rparr>"
  have "list_all (buf_ok (as_size s)) ?bw" "length ?bw = 2"
    using assms(1,2) True by (auto simp: as_inv_def list_all_iff dest: in_set_dropD)
  then have "local_inv Write ?s" using assms(1,2) a(2) by (auto simp: as_inv_def out_ok_def)
  moreover have "shared_inv ?s" using assms(1) by (simp add: as_inv_def shared_inv_def)
  ultimately have "as_inv ?s" using assms(2) by (simp add: as_inv_def)
  with True lf(1) a(1) assms(2) show ?thesis by (simp add: drop_backlog_def)
next
  case False
  with assms show ?thesis by (simp add: drop_backlog_def)
qed

lemma zip_texts:
  "concat (map snd (map (\<lambda>(i, b). (env (Suc i), take (fb_length b) (fb_data b))) (zip [m..<m + length bs] bs))) = bufs_text bs"
proof (induction bs arbitrary: m)
  case (Cons b bs)
  have "[m..<m + length (b # bs)] = m # [Suc m..<Suc m + length bs]" by (simp add: upt_rec)
  with Cons [of "Suc m"] show ?case by (simp add: fb_asString_def)
qed simp

lemma write_buffers_ok:
  assumes "out_ok s" and "env_ok env"
  shows "\<exists>lf'. write_buffers env s = Some (s\<lparr> as_output := Some lf' \<rparr>) \<and> log_open lf'
           \<and> log_text lf' = out_text s @ bufs_text (buffersToWrite s)"
proof -
  from assms(1) obtain lf where lf: "as_output s = Some lf" "log_open lf" by (auto simp: out_ok_def)
  let ?ls = "map (\<lambda>(i, b). (env (Suc i), take (fb_length b) (fb_data b)))
      (zip [0..<length (buffersToWrite s)] (buffersToWrite s))"
  have "list_all (writes_ok \<circ> fst) ?ls" using assms(2) by (auto simp: list_all_iff env_ok_def)
  from logf.sink_all_text [OF lf(2) this] zip_texts [of env 0 "buffersToWrite s"] lf(1) show ?thesis
    by (auto simp: write_buffers_def out_text_def)
qed

lemma buf_ok_reset: "buf_ok k b \<Longrightarrow> fresh k (Some (fb_reset b))"
  by (simp add: fresh_def buf_ok_def fb_reset_def)

text \<open>After the write both spare buffers are back: at least as many buffers were written as are missing.\<close>

lemma recycle_ok:
  assumes "as_inv s" and "as_pc s = Write"
  defines "t \<equiv> (if length (buffersToWrite s) > 2 then s\<lparr> buffersToWrite := take 2 (buffersToWrite s) \<rparr> else s)"
  shows "\<exists>n1 n2 bw. recycle1 t \<bind> recycle2 = Some (s\<lparr> newBuffer1 := n1, newBuffer2 := n2, buffersToWrite := bw \<rparr>)
    \<and> fresh (as_size s) n1 \<and> fresh (as_size s) n2"
proof -
  let ?k = "as_size s"
  define bw where "bw = buffersToWrite t"
  have t: "t = s\<lparr> buffersToWrite := bw \<rparr>" by (simp add: t_def bw_def)
  from assms(1,2) have s: "newBuffer1 s = None" "buffersToWrite s \<noteq> []" "list_all (buf_ok ?k) (buffersToWrite s)"
      "newBuffer2 s = None \<and> 2 \<le> length (buffersToWrite s) \<or> fresh ?k (newBuffer2 s)"
    by (auto simp: as_inv_def)
  have bw: "bw \<noteq> []" "list_all (buf_ok ?k) bw" "newBuffer2 s = None \<and> length bw = 2 \<or> fresh ?k (newBuffer2 s)"
    using s(2-4) by (auto simp: bw_def t_def list_all_iff dest: in_set_takeD)
  let ?n1 = "Some (fb_reset (last bw))"
  have n1: "fresh ?k ?n1" using bw(1,2) by (intro buf_ok_reset) (simp add: list_all_iff)
  have r1: "recycle1 t = Some (s\<lparr> newBuffer1 := ?n1, buffersToWrite := butlast bw \<rparr>)"
    using s(1) bw(1) unfolding t by (simp add: recycle1_def)
  show ?thesis
  proof (cases "newBuffer2 s = None")
    case True
    then have "length bw = 2" using bw(3) by (auto simp: fresh_def)
    then have l: "butlast bw \<noteq> []" by (metis length_butlast list.size(3) diff_add_inverse2 one_add_one zero_neq_one)
    then have "last (butlast bw) \<in> set bw" by (metis in_set_butlastD last_in_set)
    then have "fresh ?k (Some (fb_reset (last (butlast bw))))"
      using bw(2) by (intro buf_ok_reset) (simp add: list_all_iff)
    with n1 r1 True l show ?thesis by (auto simp: recycle2_def)
  next
    case False
    then have "recycle1 t \<bind> recycle2
        = Some (s\<lparr> newBuffer1 := ?n1, newBuffer2 := newBuffer2 s, buffersToWrite := butlast bw \<rparr>)"
      using r1 by (cases s) (auto simp: recycle2_def)
    with n1 bw(3) False show ?thesis by blast
  qed
qed

lemma thread_write_keeps:
  assumes "as_inv s" and "as_pc s = Write" and "env_ok env"
  shows "\<exists>s'. thread_write env s = Some s' \<and> keeps s [] s'"
proof -
  have ne: "buffersToWrite s \<noteq> []" using assms(1,2) by (simp add: as_inv_def)
  from drop_backlog_ok [OF assms(1,2), of "env 0"] assms(3) obtain u where
    u: "drop_backlog (env 0) s = Some u" "as_inv u" "as_pc u = Write" "as_size u = as_size s"
      "as_basename u = as_basename s" "as_stderr u = [] \<longrightarrow> u = s"
    by (auto simp: env_ok_def)
  have "out_ok u" using u(2,3) by (simp add: as_inv_def)
  from write_buffers_ok [OF this assms(3)] obtain lf where
    w: "write_buffers env u = Some (u\<lparr> as_output := Some lf \<rparr>)" "log_open lf"
       "log_text lf = out_text u @ bufs_text (buffersToWrite u)" by blast
  let ?v = "u\<lparr> as_output := Some lf \<rparr>"
  have v: "as_inv ?v" "as_pc ?v = Write" using u(2,3) w(2) by (auto simp: as_inv_def shared_inv_def out_ok_def)
  from recycle_ok [OF v] obtain n1 n2 bw where
    r: "recycle1 (if length (buffersToWrite ?v) > 2 then ?v\<lparr> buffersToWrite := take 2 (buffersToWrite ?v) \<rparr> else ?v) \<bind> recycle2
        = Some (?v\<lparr> newBuffer1 := n1, newBuffer2 := n2, buffersToWrite := bw \<rparr>)"
    and n: "fresh (as_size u) n1" "fresh (as_size u) n2" by auto
  from logf.flush_text [OF w(2)] obtain lf' where
    fl: "lf_flush lf = Some lf'" "log_open lf'" "log_text lf' = log_text lf" by blast
  let ?s = "u\<lparr> newBuffer1 := n1, newBuffer2 := n2, buffersToWrite := [], as_output := Some lf', as_pc := Head \<rparr>"
  from r obtain x where x: "recycle1 (if length (buffersToWrite ?v) > 2 then ?v\<lparr> buffersToWrite := take 2 (buffersToWrite ?v) \<rparr> else ?v) = Some x"
      "recycle2 x = Some (?v\<lparr> newBuffer1 := n1, newBuffer2 := n2, buffersToWrite := bw \<rparr>)"
    by (auto simp: bind_Some_iff)
  have "thread_write env s = Some ?s"
    using ne u(1) w(1) x fl(1) by (simp add: thread_write_def Let_def)
  moreover have "as_inv ?s" using u(2) n fl(2) by (auto simp: as_inv_def shared_inv_def out_ok_def)
  moreover have "out_text ?s @ pending ?s = out_text s @ pending s" if "as_stderr u = []"
    using u(6) that w(3) fl(3) by (simp add: out_text_def pending_def)
  ultimately show ?thesis using u(4-6) by (simp add: keeps_def)
qed

lemma thread_head_keeps:
  assumes "as_inv s" and "as_pc s = Head"
  shows "\<exists>s'. thread_head s = Some s' \<and> keeps s [] s'"
proof (cases "as_running s")
  case True
  have "is_empty_buffer (newBuffer1 s)" "is_empty_buffer (newBuffer2 s)" "buffersToWrite s = []"
    using assms by (auto simp: as_inv_def fresh_def is_empty_buffer_def fb_length_def)
  then have "thread_head s = Some (s\<lparr> as_pc := Lock \<rparr>)" using True by (simp add: thread_head_def)
  moreover have "keeps s [] (s\<lparr> as_pc := Lock \<rparr>)"
    using assms by (simp add: keeps_def as_inv_def shared_inv_def out_ok_def out_text_def pending_def)
  ultimately show ?thesis by blast
next
  case False
  from assms obtain lf where lf: "as_output s = Some lf" "log_open lf" by (auto simp: as_inv_def out_ok_def)
  from logf.flush_text [OF lf(2)] obtain lf' where
    fl: "lf_flush lf = Some lf'" "log_open lf'" "log_text lf' = log_text lf" by blast
  let ?s = "s\<lparr> as_output := Some lf', as_pc := Done \<rparr>"
  have "thread_head s = Some ?s" using False lf fl by (simp add: thread_head_def)
  moreover have "keeps s [] ?s"
    using assms lf fl by (simp add: keeps_def as_inv_def shared_inv_def out_ok_def out_text_def pending_def)
  ultimately show ?thesis by blast
qed

lemma thread_begin_keeps:
  assumes "as_inv s" and "as_pc s = Begin" and "CHR ''/'' \<notin> set (as_basename s)" and "0 < le_roll_now e"
  shows "\<exists>s'. thread_begin e s = Some s' \<and> keeps s [] s'"
proof -
  from LogFile_new_open [OF assms(3,4), of "as_rollSize s" False 3 "le_pid e"] obtain lf where
    lf: "LogFile_new (as_basename s) (as_rollSize s) False 3 (le_pid e) (le_roll_now e) = Some lf"
      "log_open lf" "log_text lf = []" by blast
  let ?s = "s\<lparr> as_output := Some lf, newBuffer1 := Some (new_Buffer (as_size s)),
              newBuffer2 := Some (new_Buffer (as_size s)), buffersToWrite := [], as_pc := Head \<rparr>"
  have "as_inv ?s" using assms(1) lf(2) fresh_new [of "as_size s"] by (simp add: as_inv_def shared_inv_def out_ok_def)
  then have "keeps s [] ?s"
    using assms(1,2) lf(3) by (simp add: keeps_def as_inv_def out_text_def pending_def)
  with lf(1) show ?thesis by (simp add: thread_begin_def)
qed

lemma keeps_refl: "as_inv s \<Longrightarrow> keeps s [] s"
  by (simp add: keeps_def)

lemma thread_step_keeps:
  assumes "as_inv s" and "env_ok env" and "CHR ''/'' \<notin> set (as_basename s)"
  shows "\<exists>s'. thread_step env s = Some s' \<and> keeps s [] s'"
proof (cases "as_pc s")
  case Begin
  with thread_begin_keeps [OF assms(1) _ assms(3), of "env 0"] assms(2) show ?thesis
    by (simp add: thread_step_def env_ok_def)
next
  case Lock
  show ?thesis
  proof (cases "as_buffers s = []")
    case True
    with thread_swap_keeps [OF assms(1)] Lock show ?thesis by (simp add: thread_step_def thread_lock_def)
  next
    case False
    moreover have "keeps s [] (s\<lparr> as_pc := Waiting \<rparr>)"
      using assms(1) Lock by (simp add: keeps_def as_inv_def shared_inv_def out_ok_def out_text_def pending_def)
    ultimately show ?thesis using Lock by (simp add: thread_step_def thread_lock_def)
  qed
qed (use assms thread_head_keeps thread_swap_keeps thread_write_keeps keeps_refl in \<open>simp_all add: thread_step_def\<close>)

fun action_ok :: "as_action \<Rightarrow> bool" where
  "action_ok (Thread env) = env_ok env"
| "action_ok a = True"

fun accepted :: "nat \<Rightarrow> as_action list \<Rightarrow> string" where
  "accepted k [] = []"
| "accepted k (Append l # as) = (if length l < k then l else []) @ accepted k as"
| "accepted k (a # as) = accepted k as"

lemma accepted_append: "accepted k (xs @ ys) = accepted k xs @ accepted k ys"
  by (induction k xs rule: accepted.induct) simp_all

lemma as_step_keeps:
  assumes "as_inv s" and "action_ok a" and "CHR ''/'' \<notin> set (as_basename s)"
  shows "\<exists>s'. as_step a s = Some s' \<and> keeps s (accepted (as_size s) [a]) s'"
proof (cases a)
  case (Append l)
  with as_append_keeps [OF assms(1), of l] show ?thesis by auto
next
  case Stop
  have "local_inv (as_pc s) (as_stop s) = local_inv (as_pc s) s" by (rule local_inv_cong) (simp_all add: as_stop_def)
  with assms(1) have "keeps s [] (as_stop s)"
    by (simp add: keeps_def as_inv_def shared_inv_def as_stop_def out_text_def pending_def)
  with Stop show ?thesis by simp
next
  case (Thread env)
  with thread_step_keeps [OF assms(1) _ assms(3), of env] assms(2) show ?thesis by simp
qed

lemma as_run_keeps:
  "as_inv s \<Longrightarrow> list_all action_ok as \<Longrightarrow> CHR ''/'' \<notin> set (as_basename s) \<Longrightarrow>
   \<exists>s'. as_run as s = Some s' \<and> keeps s (accepted (as_size s) as) s'"
proof (induction "as" arbitrary: s)
  case Nil
  then show ?case by (simp add: keeps_refl)
next
  case (Cons a "as")
  from as_step_keeps [OF Cons.prems(1) _ Cons.prems(3), of a] Cons.prems(2) obtain s1 where
    s1: "as_step a s = Some s1" "keeps s (accepted (as_size s) [a]) s1" by auto
  from s1(2) have "as_inv s1" "as_size s1 = as_size s" "as_basename s1 = as_basename s" by (simp_all add: keeps_def)
  with Cons.IH [of s1] Cons.prems(2,3) obtain s2 where
    s2: "as_run as s1 = Some s2" "keeps s1 (accepted (as_size s) as) s2" by auto
  have "keeps s (accepted (as_size s) (a # as)) s2"
    using s1(2) s2(2) accepted_append [of "as_size s" "[a]" "as"] by (auto simp: keeps_def)
  with s1(1) s2(1) show ?case by auto
qed

lemma new_inv: "as_inv (AsyncLogging_new k base rs)"
  using fresh_new [of k] by (auto simp: as_inv_def shared_inv_def AsyncLogging_new_def fresh_def)

text \<open>Before \<open>start\<close> there is no background thread to step.\<close>

lemma not_started_pc:
  "as_inv s \<Longrightarrow> as_pc s = NotStarted \<Longrightarrow> as_step a s = Some s' \<Longrightarrow> as_pc s' = NotStarted"
proof (cases a)
  case (Append l)
  assume "as_inv s" "as_pc s = NotStarted" "as_step a s = Some s'"
  with as_append_keeps [of s l] Append show ?thesis by auto
qed (auto simp: as_stop_def thread_step_def)

lemma not_started_run:
  "as_inv s \<Longrightarrow> as_pc s = NotStarted \<Longrightarrow> list_all action_ok as \<Longrightarrow> CHR ''/'' \<notin> set (as_basename s) \<Longrightarrow>
   as_run as s = Some s' \<Longrightarrow> as_pc s' = NotStarted"
proof (induction "as" arbitrary: s)
  case (Cons a "as")
  then obtain s1 where s1: "as_step a s = Some s1" "as_run as s1 = Some s'" by (auto simp: bind_Some_iff)
  with as_step_keeps [of s a] Cons.prems have "as_inv s1" "as_basename s1 = as_basename s" by (auto simp: keeps_def)
  with Cons.IH [of s1] s1 Cons.prems not_started_pc [of s a s1] show ?case by auto
qed simp

lemma as_start_keeps: "as_inv s \<Longrightarrow> as_pc s = NotStarted \<Longrightarrow> \<exists>s'. as_start s = Some s' \<and> keeps s [] s'"
  by (simp add: as_start_def keeps_def as_inv_def shared_inv_def out_text_def pending_def)

subsection \<open>Properties\<close>

text \<open>
  Claim C18.  However appends, the background thread and \<open>stop\<close> interleave, no assertion of
  \<open>threadFunc\<close> fires and no null buffer is dereferenced: whenever the thread needs a spare buffer
  back, enough buffers have been written.  As long as no backlog of more than 25 buffers was thrown
  away (which prints to \<open>stderr\<close>), the text in the log files followed by the text still in the
  buffers is exactly the accepted lines in the order of their appends; only a line as long as a
  whole buffer is not accepted.
\<close>

theorem async_log_stream:
  assumes "CHR ''/'' \<notin> set base" and "list_all action_ok pre" and "list_all action_ok post"
  shows "\<exists>s1 s2 s3. as_run pre (AsyncLogging_new k base rs) = Some s1 \<and> as_start s1 = Some s2
    \<and> as_run post s2 = Some s3
    \<and> (as_stderr s3 = [] \<longrightarrow> out_text s3 @ pending s3 = accepted k (pre @ post))"
proof -
  let ?s0 = "AsyncLogging_new k base rs"
  have s0: "as_inv ?s0" "as_pc ?s0 = NotStarted" "as_size ?s0 = k" "as_basename ?s0 = base"
      "out_text ?s0 @ pending ?s0 = []"
    by (rule new_inv) (simp_all add: AsyncLogging_new_def out_text_def pending_def new_Buffer_def fb_bzero_def
        FixedBuffer_new_def fb_asString_def fb_length_def)
  from as_run_keeps [OF s0(1) assms(2)] assms(1) s0(3,4) obtain s1 where
    s1: "as_run pre ?s0 = Some s1" "keeps ?s0 (accepted k pre) s1" by auto
  have "as_pc s1 = NotStarted" using not_started_run [OF s0(1,2) assms(2) _ s1(1)] assms(1) s0(4) by simp
  with as_start_keeps [of s1] s1(2) obtain s2 where
    s2: "as_start s1 = Some s2" "keeps s1 [] s2" by (auto simp: keeps_def)
  have i2: "as_inv s2" "as_size s2 = k" "as_basename s2 = base" using s1(2) s2(2) s0 by (simp_all add: keeps_def)
  from as_run_keeps [OF i2(1) assms(3)] assms(1) i2 obtain s3 where
    s3: "as_run post s2 = Some s3" "keeps s2 (accepted k post) s3" by auto
  have "out_text s3 @ pending s3 = accepted k (pre @ post)" if "as_stderr s3 = []"
    using that s1(2) s2(2) s3(2) s0(5) unfolding keeps_def accepted_append by auto
  with s1(1) s2(1) s3(1) show ?thesis by blast
qed

definition plain_env :: "nat \<Rightarrow> log_env" where
  "plain_env i = \<lparr> le_writes = [], le_now = 5, le_roll_now = 5, le_pid = 1 \<rparr>"

theorem async_log_stream_witness:
  "\<exists>s1 s2 s3. as_run [Append ''a''] (AsyncLogging_new 4 ''log'' 100) = Some s1 \<and> as_start s1 = Some s2
    \<and> as_run [Thread plain_env, Append ''bcd'', Thread plain_env, Thread plain_env, Thread plain_env, Thread plain_env] s2 = Some s3
    \<and> (as_stderr s3 = [] \<longrightarrow> out_text s3 @ pending s3 = ''abcd'')"
  using async_log_stream [of "''log''" "[Append ''a'']"
    "[Thread plain_env, Append ''bcd'', Thread plain_env, Thread plain_env, Thread plain_env, Thread plain_env]" 4 100]
  by (simp add: env_ok_def plain_env_def writes_ok_def)

text \<open>
  \<open>stop\<close> loses what is still buffered: the background thread leaves its loop as soon as it
  sees \<open>running_\<close> cleared, without a last swap, so a line appended just before the stop is in no
  file when the thread has ended.
\<close>

lemma stop_loses_pending:
  assumes "CHR ''/'' \<notin> set base" and "env_ok env" and "length l < k"
  shows "\<exists>s1 s2. as_start (AsyncLogging_new k base rs) = Some s1
    \<and> as_run [Thread env, Append l, Stop, Thread env] s1 = Some s2
    \<and> as_pc s2 = Done \<and> out_text s2 = [] \<and> pending s2 = l"
proof -
  let ?b = "new_Buffer k" and ?e = "env 0"
  have b: "buf_ok k ?b" "fb_avail ?b = int k" "fb_asString ?b = []" using fresh_text [OF fresh_new [of k]] by auto
  from buf_ok_append [OF b(1), of l] b assms(3) obtain c where
    c: "fb_append l (int (length l)) ?b = Some c" "fb_asString c = l" by auto
  from LogFile_new_open [OF assms(1), of "le_roll_now ?e" rs False 3 "le_pid ?e"] assms(2) obtain lf where
    lf: "LogFile_new base rs False 3 (le_pid ?e) (le_roll_now ?e) = Some lf" "log_open lf" "log_text lf = []"
    by (auto simp: env_ok_def)
  from logf.flush_text [OF lf(2)] lf(3) obtain lf' where
    fl: "lf_flush lf = Some lf'" "log_text lf' = []" by auto
  let ?s1 = "(AsyncLogging_new k base rs)\<lparr> as_running := True, as_pc := Begin \<rparr>"
  let ?s2 = "?s1\<lparr> as_output := Some lf', newBuffer1 := Some ?b, newBuffer2 := Some ?b, buffersToWrite := [],
                currentBuffer := Some c, as_running := False, as_pc := Done \<rparr>"
  have "as_start (AsyncLogging_new k base rs) = Some ?s1" by (simp add: as_start_def AsyncLogging_new_def)
  moreover have "as_run [Thread env, Append l, Stop, Thread env] ?s1 = Some ?s2"
    using lf fl c b assms(3)
    by (simp add: thread_step_def thread_begin_def as_append_def as_stop_def thread_head_def AsyncLogging_new_def)
  moreover have "out_text ?s2 = []" "pending ?s2 = l"
    using fl c by (simp_all add: out_text_def pending_def AsyncLogging_new_def)
  ultimately show ?thesis by (intro exI [of _ ?s1] exI [of _ ?s2]) simp
qed

end
