(* ===== verification/Monitors.thy ===== *)
theory Monitors
  imports Prelude
begin

text \<open>
  \<^verbatim>\<open>thread/BlockingQueue.h\<close>, \<^verbatim>\<open>thread/BoundedBlockingQueue.h\<close> and \<^verbatim>\<open>thread/CountDownLatch.h\<close>: the monitors of
  the thread library.

  A thread is its place in an operation: about to test the loop condition with the mutex held, or
  waiting on a condition variable.  One step of a thread is one critical section, up to the end of the
  operation or up to \<open>pthread_cond_wait\<close>.  \<open>notify\<close> wakes one of the threads waiting on the
  condition, which one is an argument; a waiting thread may also wake spuriously.  A woken thread
  tests its loop condition again, possibly after other threads have run.
  \<open>put_log\<close> and \<open>take_log\<close> record, oldest first, the items that completed operations have put in
  and handed out.
\<close>

datatype 'a place = Idle | Putting 'a | WaitNotFull 'a | Taking | WaitNotEmpty

record 'a bqueue =
  q_items :: "'a list"
  q_threads :: "'a place list"
  put_log :: "'a list"
  take_log :: "'a list"

definition bqueue_new :: "nat \<Rightarrow> 'a bqueue" where
  "bqueue_new n = \<lparr> q_items = [], q_threads = replicate n Idle, put_log = [], take_log = [] \<rparr>"

fun waits_not_full :: "'a place \<Rightarrow> bool" where
  "waits_not_full (WaitNotFull x) = True"
| "waits_not_full p = False"

fun waits_not_empty :: "'a place \<Rightarrow> bool" where
  "waits_not_empty WaitNotEmpty = True"
| "waits_not_empty p = False"

fun wake :: "'a place \<Rightarrow> 'a place" where
  "wake (WaitNotFull x) = Putting x"
| "wake WaitNotEmpty = Taking"
| "wake p = p"

text \<open>
  \<open>pthread_cond_signal\<close>: when threads wait on the condition, one of them (thread \<open>j\<close>) wakes.
\<close>

definition notify :: "('a place \<Rightarrow> bool) \<Rightarrow> nat \<Rightarrow> 'a place list \<Rightarrow> 'a place list option" where
  "notify waits j ts =
     (if list_ex waits ts
      then if j < length ts \<and> waits (ts ! j) then Some (ts[j := wake (ts ! j)]) else None
      else Some ts)"

subsection \<open>BlockingQueue\<close>

definition bq_put :: "nat \<Rightarrow> nat \<Rightarrow> 'a \<Rightarrow> 'a bqueue \<Rightarrow> 'a bqueue option" where
  "bq_put i j x s = do {
     ts \<leftarrow> notify waits_not_empty j ((q_threads s)[i := Idle]);
     Some (s\<lparr> q_items := q_items s @ [x], q_threads := ts, put_log := put_log s @ [x] \<rparr>) }"

definition bq_take :: "nat \<Rightarrow> nat \<Rightarrow> 'a bqueue \<Rightarrow> 'a bqueue option" where
  "bq_take i j s =
     (if q_items s = [] then Some (s\<lparr> q_threads := (q_threads s)[i := WaitNotEmpty] \<rparr>)
      else Some (s\<lparr> q_items := tl (q_items s), q_threads := (q_threads s)[i := Idle],
                    take_log := take_log s @ [hd (q_items s)] \<rparr>))"

definition bq_size :: "'a bqueue \<Rightarrow> nat" where "bq_size s = length (q_items s)"

subsection \<open>BoundedBlockingQueue\<close>

definition bbq_full :: "nat \<Rightarrow> 'a bqueue \<Rightarrow> bool" where
  "bbq_full maxSize s \<longleftrightarrow> maxSize \<le> length (q_items s)"

definition bbq_empty :: "'a bqueue \<Rightarrow> bool" where "bbq_empty s \<longleftrightarrow> q_items s = []"

definition bbq_put :: "nat \<Rightarrow> nat \<Rightarrow> nat \<Rightarrow> 'a \<Rightarrow> 'a bqueue \<Rightarrow> 'a bqueue option" where
  "bbq_put maxSize i j x s =
     (if bbq_full maxSize s then Some (s\<lparr> q_threads := (q_threads s)[i := WaitNotFull x] \<rparr>)
      else do {
        ts \<leftarrow> notify waits_not_empty j ((q_threads s)[i := Idle]);
        Some (s\<lparr> q_items := q_items s @ [x], q_threads := ts, put_log := put_log s @ [x] \<rparr>) })"

definition bbq_take :: "nat \<Rightarrow> nat \<Rightarrow> 'a bqueue \<Rightarrow> 'a bqueue option" where
  "bbq_take i j s =
     (if bbq_empty s then Some (s\<lparr> q_threads := (q_threads s)[i := WaitNotEmpty] \<rparr>)
      else do {
        ts \<leftarrow> notify waits_not_full j ((q_threads s)[i := Idle]);
        Some (s\<lparr> q_items := tl (q_items s), q_threads := ts, take_log := take_log s @ [hd (q_items s)] \<rparr>) })"

subsection \<open>Steps of the threads\<close>

text \<open>\<open>put i j x\<close> and \<open>take i j\<close> are the critical sections of thread \<open>i\<close>, waking \<open>j\<close>.\<close>

inductive mq_step ::
    "(nat \<Rightarrow> nat \<Rightarrow> 'a \<Rightarrow> 'a bqueue \<Rightarrow> 'a bqueue option) \<Rightarrow> (nat \<Rightarrow> nat \<Rightarrow> 'a bqueue \<Rightarrow> 'a bqueue option) \<Rightarrow>
     'a bqueue \<Rightarrow> 'a bqueue \<Rightarrow> bool"
  for put take where
  call_put: "i < length (q_threads s) \<Longrightarrow> q_threads s ! i = Idle \<Longrightarrow>
     mq_step put take s (s\<lparr> q_threads := (q_threads s)[i := Putting x] \<rparr>)"
| call_take: "i < length (q_threads s) \<Longrightarrow> q_threads s ! i = Idle \<Longrightarrow>
     mq_step put take s (s\<lparr> q_threads := (q_threads s)[i := Taking] \<rparr>)"
| do_put: "i < length (q_threads s) \<Longrightarrow> q_threads s ! i = Putting x \<Longrightarrow> put i j x s = Some s' \<Longrightarrow>
     mq_step put take s s'"
| do_take: "i < length (q_threads s) \<Longrightarrow> q_threads s ! i = Taking \<Longrightarrow> take i j s = Some s' \<Longrightarrow>
     mq_step put take s s'"
| spurious: "i < length (q_threads s) \<Longrightarrow>
     mq_step put take s (s\<lparr> q_threads := (q_threads s)[i := wake (q_threads s ! i)] \<rparr>)"

inductive mq_reach ::
    "(nat \<Rightarrow> nat \<Rightarrow> 'a \<Rightarrow> 'a bqueue \<Rightarrow> 'a bqueue option) \<Rightarrow> (nat \<Rightarrow> nat \<Rightarrow> 'a bqueue \<Rightarrow> 'a bqueue option) \<Rightarrow>
     nat \<Rightarrow> 'a bqueue \<Rightarrow> bool"
  for put take n where
  reach_new: "mq_reach put take n (bqueue_new n)"
| reach_step: "mq_reach put take n s \<Longrightarrow> mq_step put take s s' \<Longrightarrow> mq_reach put take n s'"

subsection \<open>The common contract\<close>

text \<open>
  Both queues are the same monitor with and without a bound.  The locale states what a critical section
  may do, for a capacity \<open>cap\<close> (\<open>None\<close>: unbounded), and derives the protocol once.
\<close>

definition is_full :: "nat option \<Rightarrow> 'a bqueue \<Rightarrow> bool" where
  "is_full cap s = (case cap of None \<Rightarrow> False | Some c \<Rightarrow> c \<le> length (q_items s))"

definition tally :: "('a \<Rightarrow> bool) \<Rightarrow> 'a list \<Rightarrow> nat" where
  "tally P xs = length (filter P xs)"

fun is_taking :: "'a place \<Rightarrow> bool" where
  "is_taking Taking = True"
| "is_taking p = False"

fun is_putting :: "'a place \<Rightarrow> bool" where
  "is_putting (Putting x) = True"
| "is_putting p = False"

lemma tally_update:
  "i < length xs \<Longrightarrow> tally P (xs[i := v]) + (if P (xs ! i) then 1 else 0) = tally P xs + (if P v then 1 else 0)"
proof (induction xs arbitrary: i)
  case (Cons x xs)
  then show ?case by (cases i) (auto simp: tally_def)
qed simp

lemma list_ex_tally: "list_ex P xs \<longleftrightarrow> 0 < tally P xs"
  by (induction xs) (auto simp: tally_def)

lemma tally_replicate: "\<not> P x \<Longrightarrow> tally P (replicate n x) = 0"
  by (simp add: tally_def filter_replicate)

text \<open>The four tallies the invariant speaks of, and how a change of one thread moves them.\<close>

abbreviation tE :: "'a place list \<Rightarrow> nat" where "tE ts \<equiv> tally waits_not_empty ts"
abbreviation tF :: "'a place list \<Rightarrow> nat" where "tF ts \<equiv> tally waits_not_full ts"
abbreviation tT :: "'a place list \<Rightarrow> nat" where "tT ts \<equiv> tally is_taking ts"
abbreviation tP :: "'a place list \<Rightarrow> nat" where "tP ts \<equiv> tally is_putting ts"

lemma notify_empty_tally:
  assumes "notify waits_not_empty j ts = Some ts'"
  shows "ts' = ts \<and> tE ts = 0 \<or> Suc (tE ts') = tE ts \<and> tT ts' = Suc (tT ts) \<and> tF ts' = tF ts \<and> tP ts' = tP ts"
proof (cases "list_ex waits_not_empty ts")
  case True
  with assms have j: "j < length ts" "ts ! j = WaitNotEmpty" "ts' = ts[j := Taking]"
    by (auto simp: notify_def split: if_splits elim: waits_not_empty.elims)
  from tally_update [OF j(1), of waits_not_empty Taking] tally_update [OF j(1), of is_taking Taking]
    tally_update [OF j(1), of waits_not_full Taking] tally_update [OF j(1), of is_putting Taking] j
  show ?thesis by simp
qed (use assms in \<open>simp add: notify_def list_ex_tally\<close>)

lemma notify_full_tally:
  assumes "notify waits_not_full j ts = Some ts'"
  shows "ts' = ts \<and> tF ts = 0 \<or> Suc (tF ts') = tF ts \<and> tP ts' = Suc (tP ts) \<and> tE ts' = tE ts \<and> tT ts' = tT ts"
proof (cases "list_ex waits_not_full ts")
  case True
  with assms obtain x where j: "j < length ts" "ts ! j = WaitNotFull x" "ts' = ts[j := Putting x]"
    by (auto simp: notify_def split: if_splits elim: waits_not_full.elims)
  from tally_update [OF j(1), of waits_not_empty "Putting x"] tally_update [OF j(1), of is_taking "Putting x"]
    tally_update [OF j(1), of waits_not_full "Putting x"] tally_update [OF j(1), of is_putting "Putting x"] j
  show ?thesis by simp
qed (use assms in \<open>simp add: notify_def list_ex_tally\<close>)

lemma thread_tally:
  assumes "i < length ts" "ts ! i = p"
  shows "tE (ts[i := v]) + (if waits_not_empty p then 1 else 0) = tE ts + (if waits_not_empty v then 1 else 0)"
    and "tF (ts[i := v]) + (if waits_not_full p then 1 else 0) = tF ts + (if waits_not_full v then 1 else 0)"
    and "tT (ts[i := v]) + (if is_taking p then 1 else 0) = tT ts + (if is_taking v then 1 else 0)"
    and "tP (ts[i := v]) + (if is_putting p then 1 else 0) = tP ts + (if is_putting v then 1 else 0)"
  using tally_update [OF assms(1)] unfolding assms(2) by blast+

text \<open>
  No wake-up is lost: as long as a thread waits for an item there are as many threads about to take as
  there are items, and as long as one waits for room there are as many threads about to put as
  there are free places.
\<close>

definition mq_inv :: "nat option \<Rightarrow> 'a bqueue \<Rightarrow> bool" where
  "mq_inv cap s \<longleftrightarrow>
     put_log s = take_log s @ q_items s
     \<and> (0 < tE (q_threads s) \<longrightarrow> length (q_items s) \<le> tT (q_threads s))
     \<and> (case cap of
          None \<Rightarrow> tF (q_threads s) = 0
        | Some c \<Rightarrow> length (q_items s) \<le> c \<and> (0 < tF (q_threads s) \<longrightarrow> c \<le> length (q_items s) + tP (q_threads s)))"

locale monitor_queue =
  fixes put :: "nat \<Rightarrow> nat \<Rightarrow> 'a \<Rightarrow> 'a bqueue \<Rightarrow> 'a bqueue option"
    and take :: "nat \<Rightarrow> nat \<Rightarrow> 'a bqueue \<Rightarrow> 'a bqueue option"
    and cap :: "nat option"
  assumes put_section: "put i j x s = Some s' \<Longrightarrow>
      is_full cap s \<and> s' = s\<lparr> q_threads := (q_threads s)[i := WaitNotFull x] \<rparr>
      \<or> \<not> is_full cap s \<and> (\<exists>ts. notify waits_not_empty j ((q_threads s)[i := Idle]) = Some ts
          \<and> s' = s\<lparr> q_items := q_items s @ [x], q_threads := ts, put_log := put_log s @ [x] \<rparr>)"
    and take_section: "take i j s = Some s' \<Longrightarrow>
      q_items s = [] \<and> s' = s\<lparr> q_threads := (q_threads s)[i := WaitNotEmpty] \<rparr>
      \<or> q_items s \<noteq> [] \<and> (\<exists>ts. (cap = None \<and> ts = (q_threads s)[i := Idle]
            \<or> cap \<noteq> None \<and> notify waits_not_full j ((q_threads s)[i := Idle]) = Some ts)
          \<and> s' = s\<lparr> q_items := tl (q_items s), q_threads := ts, take_log := take_log s @ [hd (q_items s)] \<rparr>)"
begin

lemma put_inv:
  assumes inv: "mq_inv cap s" and i: "i < length (q_threads s)" "q_threads s ! i = Putting x"
    and r: "put i j x s = Some s'"
  shows "mq_inv cap s'"
proof -
  note t = thread_tally [OF i]
  from put_section [OF r] consider
      "is_full cap s" "s' = s\<lparr> q_threads := (q_threads s)[i := WaitNotFull x] \<rparr>"
    | ts where "\<not> is_full cap s" "notify waits_not_empty j ((q_threads s)[i := Idle]) = Some ts"
        "s' = s\<lparr> q_items := q_items s @ [x], q_threads := ts, put_log := put_log s @ [x] \<rparr>" by blast
  then show ?thesis
  proof cases
    case 1
    then show ?thesis using inv t [of "WaitNotFull x"] by (auto simp: mq_inv_def is_full_def split: option.splits)
  next
    case 2
    then show ?thesis
      using inv t [of Idle] notify_empty_tally [OF 2(2)] by (auto simp: mq_inv_def is_full_def split: option.splits)
  qed
qed

lemma take_inv:
  assumes inv: "mq_inv cap s" and i: "i < length (q_threads s)" "q_threads s ! i = Taking"
    and r: "take i j s = Some s'"
  shows "mq_inv cap s'"
proof -
  note t = thread_tally [OF i]
  from take_section [OF r] consider
      "q_items s = []" "s' = s\<lparr> q_threads := (q_threads s)[i := WaitNotEmpty] \<rparr>"
    | ts where "q_items s \<noteq> []" "cap = None \<and> ts = (q_threads s)[i := Idle]
          \<or> cap \<noteq> None \<and> notify waits_not_full j ((q_threads s)[i := Idle]) = Some ts"
        "s' = s\<lparr> q_items := tl (q_items s), q_threads := ts, take_log := take_log s @ [hd (q_items s)] \<rparr>" by blast
  then show ?thesis
  proof cases
    case 1
    then show ?thesis using inv t [of WaitNotEmpty] by (auto simp: mq_inv_def split: option.splits)
  next
    case 2
    have "0 < length (q_items s)" using 2(1) by simp
    then show ?thesis
      using 2 inv t [of Idle] notify_full_tally [of j "(q_threads s)[i := Idle]" ts]
      by (auto simp: mq_inv_def split: option.splits)
  qed
qed

lemma call_inv:
  assumes "mq_inv cap s" "i < length (q_threads s)" "q_threads s ! i = Idle" "v = Putting x \<or> v = Taking"
  shows "mq_inv cap (s\<lparr> q_threads := (q_threads s)[i := v] \<rparr>)"
  using assms(1,4) thread_tally [OF assms(2,3), of v] by (auto simp: mq_inv_def split: option.splits)

lemma spurious_inv:
  assumes "mq_inv cap s" "i < length (q_threads s)"
  shows "mq_inv cap (s\<lparr> q_threads := (q_threads s)[i := wake (q_threads s ! i)] \<rparr>)"
  using assms(1) thread_tally [OF assms(2) refl, of "wake (q_threads s ! i)"]
  by (cases "q_threads s ! i") (auto simp: mq_inv_def split: option.splits)

lemma step_inv: "mq_step put take s s' \<Longrightarrow> mq_inv cap s \<Longrightarrow> mq_inv cap s'"
  by (induction rule: mq_step.induct) (auto intro: put_inv take_inv call_inv spurious_inv)

lemma reach_inv: "mq_reach put take n s \<Longrightarrow> mq_inv cap s"
proof (induction rule: mq_reach.induct)
  case reach_new
  show ?case by (auto simp: mq_inv_def bqueue_new_def tally_replicate split: option.splits)
qed (rule step_inv)

end

interpretation bq: monitor_queue bq_put bq_take None
  by unfold_locales (auto simp: bq_put_def bq_take_def is_full_def bind_Some_iff split: if_splits)

interpretation bbq: monitor_queue "bbq_put c" bbq_take "Some c" for c
  by unfold_locales
    (auto simp: bbq_put_def bbq_take_def bbq_full_def bbq_empty_def is_full_def bind_Some_iff split: if_splits)

subsection \<open>CountDownLatch\<close>

text \<open>
  The count is an \<open>int\<close>; counting below its smallest value is undefined.  A thread at \<open>Testing\<close>
  is about to test \<open>count_ > 0\<close>, a thread at \<open>Returned\<close> has returned from \<open>wait\<close>.
\<close>

datatype latch_place = Outside | Testing | WaitLatch | Returned

record latch =
  latch_count :: int
  latch_threads :: "latch_place list"

definition latch_new :: "int \<Rightarrow> nat \<Rightarrow> latch" where
  "latch_new c n = \<lparr> latch_count = c, latch_threads = replicate n Outside \<rparr>"

definition latch_wait :: "nat \<Rightarrow> latch \<Rightarrow> latch" where
  "latch_wait i s =
     (if latch_count s > 0 then s\<lparr> latch_threads := (latch_threads s)[i := WaitLatch] \<rparr>
      else s\<lparr> latch_threads := (latch_threads s)[i := Returned] \<rparr>)"

definition notifyAll :: "latch_place list \<Rightarrow> latch_place list" where
  "notifyAll ts = map (\<lambda>p. if p = WaitLatch then Testing else p) ts"

definition countDown :: "latch \<Rightarrow> latch option" where
  "countDown s = do {
     check (latch_count s > - (2 ^ 31));
     let s = s\<lparr> latch_count := latch_count s - 1 \<rparr>;
     Some (if latch_count s = 0 then s\<lparr> latch_threads := notifyAll (latch_threads s) \<rparr> else s) }"

definition getCount :: "latch \<Rightarrow> int" where "getCount s = latch_count s"

inductive latch_step :: "latch \<Rightarrow> latch \<Rightarrow> bool" where
  latch_call: "i < length (latch_threads s) \<Longrightarrow> latch_threads s ! i = Outside \<Longrightarrow>
     latch_step s (s\<lparr> latch_threads := (latch_threads s)[i := Testing] \<rparr>)"
| latch_test: "i < length (latch_threads s) \<Longrightarrow> latch_threads s ! i = Testing \<Longrightarrow> latch_step s (latch_wait i s)"
| latch_down: "countDown s = Some s' \<Longrightarrow> latch_step s s'"
| latch_spurious: "i < length (latch_threads s) \<Longrightarrow> latch_threads s ! i = WaitLatch \<Longrightarrow>
     latch_step s (s\<lparr> latch_threads := (latch_threads s)[i := Testing] \<rparr>)"

inductive latch_reach :: "int \<Rightarrow> nat \<Rightarrow> latch \<Rightarrow> bool" for c n where
  "latch_reach c n (latch_new c n)"
| "latch_reach c n s \<Longrightarrow> latch_step s s' \<Longrightarrow> latch_reach c n s'"

definition latch_inv :: "latch \<Rightarrow> bool" where
  "latch_inv s \<longleftrightarrow> (Returned \<in> set (latch_threads s) \<longrightarrow> latch_count s \<le> 0)
     \<and> (WaitLatch \<in> set (latch_threads s) \<longrightarrow> 0 < latch_count s)"

lemma set_updateD: "x \<in> set (xs[i := v]) \<Longrightarrow> x = v \<or> x \<in> set xs"
  using set_update_subset_insert [of xs i v] by blast

lemma notifyAll_set:
  "WaitLatch \<notin> set (notifyAll ts)" "Returned \<in> set (notifyAll ts) \<longleftrightarrow> Returned \<in> set ts"
  by (auto simp: notifyAll_def split: if_splits)

lemma latch_step_inv: "latch_step s s' \<Longrightarrow> latch_inv s \<Longrightarrow> latch_inv s'"
proof (induction rule: latch_step.induct)
  case (latch_test i s)
  then show ?case by (auto simp: latch_inv_def latch_wait_def dest!: set_updateD)
next
  case (latch_down s s')
  then show ?case by (auto simp: latch_inv_def countDown_def check_simps Let_def notifyAll_set split: if_splits)
qed (auto simp: latch_inv_def dest!: set_updateD)

lemma latch_reach_inv: "latch_reach c n s \<Longrightarrow> latch_inv s"
proof (induction rule: latch_reach.induct)
  case 1
  show ?case by (auto simp: latch_inv_def latch_new_def)
next
  case (2 s s')
  from 2(2,3) show ?case by (rule latch_step_inv)
qed

subsection \<open>Properties\<close>



text \<open>The unbounded queue is the same monitor without the bound.\<close>

lemma blocking_queue_protocol:
  assumes "mq_reach bq_put bq_take n s"
  shows "put_log s = take_log s @ q_items s"
    and "list_all (\<lambda>p. \<not> is_taking p) (q_threads s) \<Longrightarrow> list_ex waits_not_empty (q_threads s) \<Longrightarrow> q_items s = []"
  using bq.reach_inv [OF assms] by (auto simp: mq_inv_def list_ex_tally tally_def filter_empty_conv list_all_iff)

text \<open>
  \<open>CountDownLatch::wait\<close> returns only after the count has reached zero, and once it has no thread is
  left waiting.
\<close>

lemma latch_opens_at_zero:
  assumes "latch_reach c n s"
  shows "(Returned \<in> set (latch_threads s) \<longrightarrow> getCount s \<le> 0)
    \<and> (WaitLatch \<in> set (latch_threads s) \<longrightarrow> 0 < getCount s)"
  using latch_reach_inv [OF assms] by (simp add: latch_inv_def getCount_def)

end
