(* ===== verification/ThreadPools.thy ===== *)
theory ThreadPools
  imports Prelude
begin

text \<open>
  \<^verbatim>\<open>thread/ThreadPool.h\<close> and \<^verbatim>\<open>thread/ThreadPool.cc\<close>: a fixed number of worker threads that take tasks from a
  shared queue.

  A worker is its place in \<open>runInThread\<close>.  Code that holds the mutex is one step, except that the
  test of the loop condition in \<open>take\<close> and the wait that follows are two: \<open>stop\<close> writes
  \<open>running_\<close> without the mutex, so it can come between them.  A task is a number; \<open>throws\<close> says
  which tasks leave by an exception, which aborts the process.  \<open>p_submitted\<close>,
  \<open>p_taken\<close> and \<open>p_executed\<close> record the tasks handed to \<open>run\<close>, taken by a worker, and
  executed.
\<close>

datatype worker = LoopHead | TestCond | AboutToWait | WaitCond | HasTask nat | Exited

datatype stopping = NotStopping | FlagCleared | Joining

record ThreadPool =
  p_name :: string
  p_queue :: "nat list"
  p_running :: bool
  p_mutex :: "nat option"
  p_threads :: "(string \<times> worker) list"
  p_stop :: stopping
  p_aborted :: bool
  p_submitted :: "nat list"
  p_taken :: "nat list"
  p_executed :: "nat list"

definition ThreadPool_new :: "string \<Rightarrow> ThreadPool" where
  "ThreadPool_new name =
     \<lparr> p_name = name, p_queue = [], p_running = False, p_mutex = None, p_threads = [], p_stop = NotStopping,
       p_aborted = False, p_submitted = [], p_taken = [], p_executed = [] \<rparr>"

definition tp_start :: "nat \<Rightarrow> ThreadPool \<Rightarrow> ThreadPool option" where
  "tp_start numThreads p = do {
     check (p_threads p = []);
     Some (p\<lparr> p_running := True,
              p_threads := map (\<lambda>i. (p_name p @ decimal i, LoopHead)) [0..<numThreads] \<rparr>) }"

definition set_worker :: "nat \<Rightarrow> worker \<Rightarrow> ThreadPool \<Rightarrow> ThreadPool" where
  "set_worker i w p = p\<lparr> p_threads := (p_threads p)[i := (fst (p_threads p ! i), w)] \<rparr>"

definition worker_at :: "nat \<Rightarrow> worker \<Rightarrow> ThreadPool \<Rightarrow> bool" where
  "worker_at i w p \<longleftrightarrow> i < length (p_threads p) \<and> snd (p_threads p ! i) = w"

definition execute :: "(nat \<Rightarrow> bool) \<Rightarrow> nat \<Rightarrow> ThreadPool \<Rightarrow> ThreadPool" where
  "execute throws t p = p\<lparr> p_executed := p_executed p @ [t], p_aborted := p_aborted p \<or> throws t \<rparr>"

text \<open>\<open>notify\<close>: some waiting worker, if there is one, goes back to testing the condition.\<close>

definition pool_notify :: "nat \<Rightarrow> ThreadPool \<Rightarrow> ThreadPool option" where
  "pool_notify j p =
     (if list_ex (\<lambda>(n, w). w = WaitCond) (p_threads p)
      then if worker_at j WaitCond p then Some (set_worker j TestCond p) else None
      else Some p)"

definition pool_notifyAll :: "ThreadPool \<Rightarrow> ThreadPool" where
  "pool_notifyAll p =
     p\<lparr> p_threads := map (\<lambda>(n, w). (n, if w = WaitCond then TestCond else w)) (p_threads p) \<rparr>"

definition pool_run :: "(nat \<Rightarrow> bool) \<Rightarrow> nat \<Rightarrow> nat \<Rightarrow> ThreadPool \<Rightarrow> ThreadPool option" where
  "pool_run throws t j p =
     (if p_threads p = [] then Some (execute throws t (p\<lparr> p_submitted := p_submitted p @ [t], p_taken := p_taken p @ [t] \<rparr>))
      else if p_mutex p \<noteq> None then None
      else pool_notify j (p\<lparr> p_queue := p_queue p @ [t], p_submitted := p_submitted p @ [t] \<rparr>))"

text \<open>\<open>take\<close>: the loop test with the mutex held, then either the wait or the removal of a task.\<close>

definition pool_take_test :: "nat \<Rightarrow> ThreadPool \<Rightarrow> ThreadPool option" where
  "pool_take_test i p =
     (if p_mutex p \<noteq> None then None
      else if p_queue p = [] \<and> p_running p then Some (set_worker i AboutToWait (p\<lparr> p_mutex := Some i \<rparr>))
      else case p_queue p of
        [] \<Rightarrow> Some (set_worker i LoopHead p)
      | t # ts \<Rightarrow> Some (set_worker i (HasTask t) (p\<lparr> p_queue := ts, p_taken := p_taken p @ [t] \<rparr>)))"

definition pool_take_wait :: "nat \<Rightarrow> ThreadPool \<Rightarrow> ThreadPool" where
  "pool_take_wait i p = set_worker i WaitCond (p\<lparr> p_mutex := None \<rparr>)"

definition pool_loop_head :: "nat \<Rightarrow> ThreadPool \<Rightarrow> ThreadPool" where
  "pool_loop_head i p = set_worker i (if p_running p then TestCond else Exited) p"

definition pool_execute :: "(nat \<Rightarrow> bool) \<Rightarrow> nat \<Rightarrow> nat \<Rightarrow> ThreadPool \<Rightarrow> ThreadPool" where
  "pool_execute throws i t p = set_worker i LoopHead (execute throws t p)"

text \<open>\<open>stop\<close>: clear the flag, notify, join the workers.\<close>

definition pool_stop_flag :: "ThreadPool \<Rightarrow> ThreadPool" where
  "pool_stop_flag p = p\<lparr> p_running := False, p_stop := FlagCleared \<rparr>"

definition pool_stop_notify :: "ThreadPool \<Rightarrow> ThreadPool" where
  "pool_stop_notify p = (pool_notifyAll p)\<lparr> p_stop := Joining \<rparr>"

inductive pool_step :: "(nat \<Rightarrow> bool) \<Rightarrow> ThreadPool \<Rightarrow> ThreadPool \<Rightarrow> bool" for throws where
  st_start: "tp_start n p = Some p' \<Longrightarrow> pool_step throws p p'"
| st_run: "pool_run throws t j p = Some p' \<Longrightarrow> pool_step throws p p'"
| st_head: "worker_at i LoopHead p \<Longrightarrow> pool_step throws p (pool_loop_head i p)"
| st_test: "worker_at i TestCond p \<Longrightarrow> pool_take_test i p = Some p' \<Longrightarrow> pool_step throws p p'"
| st_wait: "worker_at i AboutToWait p \<Longrightarrow> pool_step throws p (pool_take_wait i p)"
| st_spurious: "worker_at i WaitCond p \<Longrightarrow> pool_step throws p (set_worker i TestCond p)"
| st_execute: "worker_at i (HasTask t) p \<Longrightarrow> pool_step throws p (pool_execute throws i t p)"
| st_stop: "p_stop p = NotStopping \<Longrightarrow> pool_step throws p (pool_stop_flag p)"
| st_notify: "p_stop p = FlagCleared \<Longrightarrow> pool_step throws p (pool_stop_notify p)"

inductive pool_reach :: "(nat \<Rightarrow> bool) \<Rightarrow> string \<Rightarrow> ThreadPool \<Rightarrow> bool" for throws name where
  "pool_reach throws name (ThreadPool_new name)"
| "pool_reach throws name p \<Longrightarrow> \<not> p_aborted p \<Longrightarrow> pool_step throws p p' \<Longrightarrow> pool_reach throws name p'"

subsection \<open>Invariant\<close>

fun in_hand :: "worker \<Rightarrow> nat list" where
  "in_hand (HasTask t) = [t]"
| "in_hand w = []"

definition hands :: "ThreadPool \<Rightarrow> nat multiset" where
  "hands p = mset (concat (map (in_hand \<circ> snd) (p_threads p)))"

definition pool_inv :: "ThreadPool \<Rightarrow> bool" where
  "pool_inv p \<longleftrightarrow> p_submitted p = p_taken p @ p_queue p
     \<and> mset (p_taken p) = mset (p_executed p) + hands p
     \<and> (p_threads p = [] \<longrightarrow> p_queue p = [])"

lemma hands_set_worker:
  assumes "worker_at i v p"
  shows "hands (set_worker i w p) + mset (in_hand v) = hands p + mset (in_hand w)"
proof -
  have *: "i < length ts \<Longrightarrow> snd (ts ! i) = v \<Longrightarrow>
      mset (concat (map (in_hand \<circ> snd) (ts[i := (n, w)]))) + mset (in_hand v)
      = mset (concat (map (in_hand \<circ> snd) ts)) + mset (in_hand w)" for ts :: "(string \<times> worker) list" and n
  proof (induction ts arbitrary: i)
    case (Cons t ts)
    then show ?case by (cases i) (auto simp: ac_simps)
  qed simp
  from assms show ?thesis by (simp add: worker_at_def hands_def set_worker_def *)
qed

lemma set_worker_fields [simp]:
  "p_queue (set_worker i w p) = p_queue p" "p_submitted (set_worker i w p) = p_submitted p"
  "p_taken (set_worker i w p) = p_taken p" "p_executed (set_worker i w p) = p_executed p"
  "p_threads (set_worker i w p) = [] \<longleftrightarrow> p_threads p = []"
  by (simp_all add: set_worker_def)

lemma hands_cong: "p_threads p' = p_threads p \<Longrightarrow> hands p' = hands p"
  by (simp add: hands_def)

lemma worker_at_cong: "p_threads p' = p_threads p \<Longrightarrow> worker_at i w p' = worker_at i w p"
  by (simp add: worker_at_def)

lemma notify_inv: "pool_notify j p = Some p' \<Longrightarrow> pool_inv p \<Longrightarrow> pool_inv p'"
  using hands_set_worker [of j WaitCond p TestCond]
  by (auto simp: pool_notify_def pool_inv_def split: if_splits)

lemma worker_inv: "worker_at i v p \<Longrightarrow> in_hand v = [] \<Longrightarrow> in_hand w = [] \<Longrightarrow> pool_inv p \<Longrightarrow> pool_inv (set_worker i w p)"
  using hands_set_worker [of i v p w] by (simp add: pool_inv_def)

lemma hands_notifyAll: "hands (pool_notifyAll p) = hands p"
proof -
  have "in_hand \<circ> snd \<circ> (\<lambda>(n :: string, w). (n, if w = WaitCond then TestCond else w)) = in_hand \<circ> snd"
    by (auto simp: fun_eq_iff)
  then show ?thesis by (simp add: hands_def pool_notifyAll_def)
qed

lemma pool_step_inv: "pool_step throws p p' \<Longrightarrow> pool_inv p \<Longrightarrow> pool_inv p'"
proof (induction rule: pool_step.induct)
  case (st_start n p p')
  have "concat (map (in_hand \<circ> snd) (map (\<lambda>i. (p_name p @ decimal i, LoopHead)) xs)) = []" for xs
    by (induction xs) simp_all
  with st_start show ?case
    by (auto simp: tp_start_def check_simps pool_inv_def hands_def split: if_splits)
next
  case (st_run t j p p')
  show ?case
  proof (cases "p_threads p = []")
    case True
    with st_run show ?thesis by (auto simp: pool_run_def execute_def pool_inv_def hands_def)
  next
    case False
    have "pool_inv (p\<lparr> p_queue := p_queue p @ [t], p_submitted := p_submitted p @ [t] \<rparr>)"
      using st_run(2) False by (simp add: pool_inv_def hands_def)
    with False st_run(1) show ?thesis by (auto simp: pool_run_def intro: notify_inv split: if_splits)
  qed
next
  case (st_test i p p')
  then show ?case
    using hands_set_worker [of i TestCond p] hands_set_worker [of i TestCond "p\<lparr> p_queue := q, p_taken := t \<rparr>" for q t]
    by (auto simp: pool_take_test_def worker_at_def pool_inv_def hands_def set_worker_def split: if_splits list.splits)
next
  case (st_wait i p)
  then have "pool_inv (set_worker i WaitCond p)" by (auto intro: worker_inv)
  then show ?case by (simp add: pool_take_wait_def pool_inv_def hands_def set_worker_def)
next
  case (st_execute i t p)
  from hands_set_worker [OF st_execute(1), of LoopHead] st_execute(2) show ?case
    by (auto simp: pool_execute_def execute_def pool_inv_def hands_def set_worker_def)
next
  case (st_notify p)
  then show ?case using hands_notifyAll [of p]
    by (simp add: pool_stop_notify_def pool_inv_def hands_def) (simp add: pool_notifyAll_def)
next
  case (st_stop p)
  then show ?case by (simp add: pool_stop_flag_def pool_inv_def hands_def)
qed (auto simp: pool_loop_head_def intro: worker_inv)

lemma pool_reach_inv: "pool_reach throws name p \<Longrightarrow> pool_inv p"
proof (induction rule: pool_reach.induct)
  case 1
  show ?case by (simp add: pool_inv_def hands_def ThreadPool_new_def)
next
  case (2 p p')
  from 2(3,4) show ?case by (rule pool_step_inv)
qed

subsection \<open>Properties\<close>



text \<open>
  \<open>stop\<close> can hang: because it clears \<open>running_\<close> and notifies without holding the mutex,
  both can happen between the test of the loop condition in \<open>take\<close> and the wait.  In the state
  reached \<open>stop\<close> is joining a worker that waits on the condition, the mutex is free, and no
  notification is left to come.
\<close>

lemma pool_stop_lost_wakeup:
  "\<exists>p. pool_reach throws name p \<and> p_stop p = Joining \<and> map snd (p_threads p) = [WaitCond]
     \<and> \<not> p_running p \<and> p_queue p = [] \<and> p_mutex p = None"
proof -
  define st where "st r m w q = (ThreadPool_new name)\<lparr> p_running := r, p_mutex := m,
      p_threads := [(name @ decimal 0, w)], p_stop := q \<rparr>" for r m w q
  note d = st_def ThreadPool_new_def set_worker_def worker_at_def
  have n: "\<not> p_aborted (st r m w q)" for r m w q by (simp add: d)
  note next_state = pool_reach.intros(2) [OF _ n]
  have "tp_start 1 (ThreadPool_new name) = Some (st True None LoopHead NotStopping)"
    by (simp add: tp_start_def d)
  then have 1: "pool_reach throws name (st True None LoopHead NotStopping)"
    by (intro pool_reach.intros(2) [OF pool_reach.intros(1)] st_start) (simp_all add: ThreadPool_new_def)
  have "pool_loop_head 0 (st True None LoopHead NotStopping) = st True None TestCond NotStopping"
    by (simp add: pool_loop_head_def d)
  with next_state [OF 1 st_head [of 0]] have 2: "pool_reach throws name (st True None TestCond NotStopping)"
    by (simp add: worker_at_def st_def)
  have "pool_take_test 0 (st True None TestCond NotStopping) = Some (st True (Some 0) AboutToWait NotStopping)"
    by (simp add: pool_take_test_def d)
  with next_state [OF 2 st_test [of 0]] have 3: "pool_reach throws name (st True (Some 0) AboutToWait NotStopping)"
    by (simp add: worker_at_def st_def)
  have "pool_stop_flag (st True (Some 0) AboutToWait NotStopping) = st False (Some 0) AboutToWait FlagCleared"
    by (simp add: pool_stop_flag_def d)
  with next_state [OF 3 st_stop] have 4: "pool_reach throws name (st False (Some 0) AboutToWait FlagCleared)"
    by (simp add: st_def)
  have "pool_stop_notify (st False (Some 0) AboutToWait FlagCleared) = st False (Some 0) AboutToWait Joining"
    by (simp add: pool_stop_notify_def pool_notifyAll_def d)
  with next_state [OF 4 st_notify] have 5: "pool_reach throws name (st False (Some 0) AboutToWait Joining)"
    by (simp add: st_def)
  have "pool_take_wait 0 (st False (Some 0) AboutToWait Joining) = st False None WaitCond Joining"
    by (simp add: pool_take_wait_def d)
  with next_state [OF 5 st_wait [of 0]] have "pool_reach throws name (st False None WaitCond Joining)"
    by (simp add: worker_at_def st_def)
  then show ?thesis by (intro exI [of _ "st False None WaitCond Joining"]) (simp add: d)
qed

end
