(* ===== verification/Codecs.thy ===== *)
theory Codecs
  imports Prelude
begin

text \<open>
  \<^verbatim>\<open>protobuf/codec.h\<close>, the length-prefixed, checksummed transport format for protobuf messages, and the
  dispatcher of \<^verbatim>\<open>protobuf/dispatcher.cc\<close> that hands a message to the callback of its type.

  The protobuf runtime and zlib are not part of the sources: what the code calls of them is the record
  \<open>protobuf\<close>, with \<open>pb_name\<close> for \<open>GetTypeName\<close>, \<open>pb_serialize\<close> for
  \<open>AppendToString\<close>, \<open>pb_prototype\<close> for the lookup of a type's prototype in the generated
  pool, \<open>pb_parse\<close> for \<open>ParseFromArray\<close> and \<open>pb_adler32\<close> for \<open>adler32\<close>.
  The \<open>int32_t\<close> lengths and checksums are \<open>32 word\<close>s, compared as signed numbers.
\<close>

type_synonym bytes = "byte list"

record 'm protobuf =
  pb_name :: "'m \<Rightarrow> bytes"
  pb_serialize :: "'m \<Rightarrow> bytes option"
  pb_prototype :: "bytes \<Rightarrow> 'm option"
  pb_parse :: "'m \<Rightarrow> bytes \<Rightarrow> 'm option"
  pb_adler32 :: "bytes \<Rightarrow> 32 word"

definition kHeaderLen :: nat where "kHeaderLen = 4"

text \<open>\<open>static_cast<int32_t>\<close> of a size.\<close>

definition int32_of :: "nat \<Rightarrow> 32 word" where "int32_of n = of_nat n"

definition encode :: "'m protobuf \<Rightarrow> 'm \<Rightarrow> bytes" where
  "encode pb message =
     (let result = replicate kHeaderLen 0;
          typeName = pb_name pb message;
          nameLen = int32_of (length typeName + 1);
          result = result @ be32_enc nameLen;
          result = result @ take (unat nameLen) (typeName @ [0])
      in case pb_serialize pb message of
           Some data \<Rightarrow>
             (let result = result @ data;
                  checkSum = pb_adler32 pb (drop kHeaderLen result);
                  result = result @ be32_enc checkSum;
                  len = be32_enc (int32_of (length result - kHeaderLen))
              in blit result 0 len)
         | None \<Rightarrow> [])"

definition createMessage :: "'m protobuf \<Rightarrow> bytes \<Rightarrow> 'm option" where
  "createMessage pb type_name = pb_prototype pb type_name"

definition asInt32 :: "bytes \<Rightarrow> 32 word" where
  "asInt32 buf = be32_dec (take 4 buf)"

text \<open>\<open>NULL\<close> is \<open>None\<close>.  All offsets are computed from the signed lengths, as in the code.\<close>

definition decode :: "'m protobuf \<Rightarrow> bytes \<Rightarrow> 'm option" where
  "decode pb buf =
     (let len = sint (int32_of (length buf))
      in if len \<ge> 10
         then let expectedCheckSum = asInt32 (drop (length buf - kHeaderLen) buf);
                  checkSum = pb_adler32 pb (take (nat len - kHeaderLen) buf)
              in if checkSum = expectedCheckSum
                 then let nameLen = sint (asInt32 buf)
                      in if nameLen \<ge> 2 \<and> nameLen \<le> len - 2 * int kHeaderLen
                         then let typeName = seg kHeaderLen (kHeaderLen + nat nameLen - 1) buf
                              in case createMessage pb typeName of
                                   Some message \<Rightarrow>
                                     (let data = drop (kHeaderLen + nat nameLen) buf;
                                          dataLen = len - nameLen - 2 * int kHeaderLen
                                      in pb_parse pb message (take (nat dataLen) data))
                                 | None \<Rightarrow> None
                         else None
                 else None
         else None)"

subsection \<open>Round trip\<close>

lemma sint_int32: "n < 2 ^ 31 \<Longrightarrow> sint (int32_of n) = int n"
proof -
  assume "n < 2 ^ 31"
  then have "signed_take_bit 31 (int n) = int n" by (intro signed_take_bit_int_eq_self) simp_all
  moreover have "sint (word_of_int (int n) :: 32 word) = signed_take_bit 31 (int n)" by (subst sint_sbintrunc') simp
  ultimately show ?thesis by (simp add: int32_of_def)
qed

lemma unat_int32: "n < 2 ^ 31 \<Longrightarrow> unat (int32_of n) = n"
  by (simp add: int32_of_def unat_of_nat)

text \<open>The frame behind the length field: name length, name with its NUL, data, checksum.\<close>

definition frame :: "'m protobuf \<Rightarrow> bytes \<Rightarrow> bytes \<Rightarrow> bytes" where
  "frame pb name data =
     (let body = be32_enc (int32_of (length name + 1)) @ name @ [0] @ data
      in body @ be32_enc (pb_adler32 pb body))"

lemma length_frame: "length (frame pb name data) = length name + length data + 9"
  by (simp add: frame_def Let_def)

lemma encode_frame:
  assumes "pb_serialize pb m = Some data" and "length (pb_name pb m) + length data + 9 < 2 ^ 31"
  shows "encode pb m = be32_enc (int32_of (length (frame pb (pb_name pb m) data))) @ frame pb (pb_name pb m) data"
proof -
  have u: "unat (int32_of (length (pb_name pb m) + 1)) = length (pb_name pb m) + 1"
    using assms(2) by (intro unat_int32) simp
  show ?thesis
    unfolding encode_def Let_def u using assms(1)
    by (simp add: kHeaderLen_def frame_def Let_def blit_def)
qed

lemma decode_frame:
  assumes name: "name \<noteq> []" and sz: "length name + length data + 9 < 2 ^ 31"
    and proto: "pb_prototype pb name = Some p"
  shows "decode pb (frame pb name data) = pb_parse pb p data"
proof -
  let ?f = "frame pb name data" and ?n = "int32_of (length name + 1)"
  let ?body = "be32_enc ?n @ name @ [0] @ data"
  have f: "?f = ?body @ be32_enc (pb_adler32 pb ?body)" by (simp add: frame_def Let_def)
  have len: "sint (int32_of (length ?f)) = int (length name + length data + 9)"
    unfolding length_frame by (rule sint_int32 [OF sz])
  have nl: "sint (asInt32 ?f) = int (length name + 1)"
    using sint_int32 [of "length name + 1"] sz unfolding f asInt32_def by simp
  have ex: "asInt32 (drop (length ?f - kHeaderLen) ?f) = pb_adler32 pb ?body"
    unfolding f asInt32_def kHeaderLen_def by simp
  have ck: "take (nat (int (length name + length data + 9)) - kHeaderLen) ?f = ?body"
    unfolding f kHeaderLen_def nat_int by simp
  have "nat (int (length name + 1)) = length name + 1" by simp
  then have nm: "seg kHeaderLen (kHeaderLen + nat (int (length name + 1)) - 1) ?f = name"
    unfolding f kHeaderLen_def seg_def by simp
  have "int (length name + length data + 9) - int (length name + 1) - 2 * int kHeaderLen = int (length data)"
    by (simp add: kHeaderLen_def)
  then have dt: "take (nat (int (length name + length data + 9) - int (length name + 1) - 2 * int kHeaderLen))
      (drop (kHeaderLen + nat (int (length name + 1))) ?f) = data"
    unfolding f kHeaderLen_def by (simp add: drop_Cons')
  have g: "int (length name + length data + 9) \<ge> 10" "int (length name + 1) \<ge> 2"
      "int (length name + 1) \<le> int (length name + length data + 9) - 2 * int kHeaderLen"
    using name by (cases name; simp add: kHeaderLen_def)+
  show ?thesis
    unfolding decode_def Let_def len nl ex ck nm dt createMessage_def using g proto by simp
qed

subsection \<open>Dispatching\<close>

text \<open>
  A descriptor stands for a message type; a callback registered for type \<open>T\<close> casts its argument to
  \<open>T\<close> and asserts that the cast succeeds.
\<close>

record 'd dispatcher =
  d_callbacks :: "'d \<rightharpoonup> 'd \<times> nat"

datatype dispatched = Called nat | Discarded

definition ProtobufDispatcher_new :: "'d dispatcher" where
  "ProtobufDispatcher_new = \<lparr> d_callbacks = Map.empty \<rparr>"

definition CallbackT_onMessage :: "'d \<times> nat \<Rightarrow> 'd \<Rightarrow> dispatched option" where
  "CallbackT_onMessage cb message = do { check (fst cb = message); Some (Called (snd cb)) }"

definition dispatcher_onMessage :: "'d dispatcher \<Rightarrow> 'd \<Rightarrow> dispatched option" where
  "dispatcher_onMessage ds message = (case d_callbacks ds message of
     Some cb \<Rightarrow> CallbackT_onMessage cb message
   | None \<Rightarrow> Some Discarded)"

definition registerMessageCallback :: "'d \<Rightarrow> nat \<Rightarrow> 'd dispatcher \<Rightarrow> 'd dispatcher" where
  "registerMessageCallback t cb ds = ds\<lparr> d_callbacks := (d_callbacks ds)(t \<mapsto> (t, cb)) \<rparr>"

text \<open>The cast of a dispatched message never fails, and the last registration of a type counts.\<close>

lemma dispatch_registered:
  fixes regs :: "('d \<times> nat) list"
  defines "ds \<equiv> foldl (\<lambda>d (t, cb). registerMessageCallback t cb d) ProtobufDispatcher_new regs"
  shows "dispatcher_onMessage ds m = Some (case map_of (rev regs) m of None \<Rightarrow> Discarded | Some cb \<Rightarrow> Called cb)"
proof -
  have "d_callbacks ds m = map_option (Pair m) (map_of (rev regs) m)"
    unfolding ds_def
    by (induction regs rule: rev_induct) (auto simp: ProtobufDispatcher_new_def registerMessageCallback_def)
  then show ?thesis by (auto simp: dispatcher_onMessage_def CallbackT_onMessage_def split: option.splits)
qed

subsection \<open>Properties\<close>

text \<open>What \<open>decode\<close> accepts carries a matching checksum and a name length inside the buffer.\<close>

lemma decode_checked:
  assumes "decode pb buf = Some m" and "length buf < 2 ^ 31"
  shows "10 \<le> length buf \<and> pb_adler32 pb (take (length buf - 4) buf) = asInt32 (drop (length buf - 4) buf)
    \<and> 2 \<le> sint (asInt32 buf) \<and> nat (sint (asInt32 buf)) + 8 \<le> length buf"
  using assms(1) sint_int32 [OF assms(2)]
  by (auto simp: decode_def Let_def kHeaderLen_def split: if_splits)

text \<open>
  Claim C23.  Decoding inverts encoding: for a message whose type is known to the generated pool and whose
  bytes parse back, the encoded buffer starts with the big-endian length of what follows, and
  decoding what follows gives the message back.  (The hypotheses on the protobuf runtime are its
  documented behaviour; the size limit is that of the \<open>int32_t\<close> length field.)
\<close>

theorem codec_round_trip:
  assumes "pb_serialize pb m = Some data" and "pb_prototype pb (pb_name pb m) = Some p" and "pb_parse pb p data = Some m"
    and "pb_name pb m \<noteq> []" and "length (pb_name pb m) + length data + 9 < 2 ^ 31"
  shows "decode pb (drop kHeaderLen (encode pb m)) = Some m
    \<and> unat (asInt32 (encode pb m)) = length (encode pb m) - kHeaderLen"
proof -
  let ?f = "frame pb (pb_name pb m) data"
  note e = encode_frame [OF assms(1,5)]
  have "length ?f < 2 ^ 31" using assms(5) by (simp only: length_frame)
  then have "unat (asInt32 (encode pb m)) = length ?f" unfolding e asInt32_def by (simp add: unat_int32)
  moreover have "decode pb ?f = Some m" using decode_frame [OF assms(4,5,2)] assms(3) by simp
  moreover have "drop kHeaderLen (encode pb m) = ?f" "length (encode pb m) - kHeaderLen = length ?f"
    unfolding e kHeaderLen_def by simp_all
  ultimately show ?thesis by simp
qed

definition echo_protobuf :: "bytes protobuf" where
  "echo_protobuf = \<lparr> pb_name = (\<lambda>m. [0x51]), pb_serialize = (\<lambda>m. Some m),
     pb_prototype = (\<lambda>n. if n = [0x51] then Some [] else None),
     pb_parse = (\<lambda>p d. Some d), pb_adler32 = (\<lambda>bs. foldl (\<lambda>c b. 31 * c + ucast b) 1 bs) \<rparr>"

theorem codec_round_trip_witness:
  "decode echo_protobuf (drop kHeaderLen (encode echo_protobuf [7, 0, 255])) = Some [7, 0, 255]"
  using codec_round_trip [of echo_protobuf "[7, 0, 255]" "[7, 0, 255]" "[]"] by (simp add: echo_protobuf_def)

end
