(* ===== verification/Sorts.thy ===== *)
theory Sorts
  imports Prelude
begin

text \<open>
  The comparison sorts of \<^verbatim>\<open>datastruct/\<close>: bubble, insertion, selection, shell, merge, quick and heap sort on a
  \<open>vector<int>\<close>, and binary search.

  A vector is an \<open>int list\<close> changed by index, as the code changes it; a counting loop is a recursion
  on its counter and a \<open>while\<close> loop a \<open>function\<close> with a measure.  All routines meet the contract
  of the locale \<open>sorter\<close>, so each of them computes the library's \<open>sort\<close>.
\<close>

subsection \<open>The contract\<close>

locale sorter =
  fixes srt :: "int list \<Rightarrow> int list"
  assumes perm: "mset (srt xs) = mset xs" and ordered: "sorted (srt xs)"
begin

lemma is_sort: "srt xs = sort xs"
  using properties_for_sort [OF perm ordered] by simp

lemma length_srt: "length (srt xs) = length xs"
  using perm [of xs] by (rule mset_eq_length)

lemma idempotent: "srt (srt xs) = srt xs"
  by (simp add: is_sort sorted_sort_id)

end

definition swap :: "'a list \<Rightarrow> nat \<Rightarrow> nat \<Rightarrow> 'a list" where
  "swap xs i j = xs[i := xs ! j, j := xs ! i]"

lemma length_swap [simp]: "length (swap xs i j) = length xs"
  by (simp add: swap_def)

lemma mset_swap_eq [simp]: "i < length xs \<Longrightarrow> j < length xs \<Longrightarrow> mset (swap xs i j) = mset xs"
  unfolding swap_def by (rule mset_swap)

lemma nth_swap: "i < length xs \<Longrightarrow> j < length xs \<Longrightarrow> k < length xs \<Longrightarrow>
    swap xs i j ! k = (if k = j then xs ! i else if k = i then xs ! j else xs ! k)"
  by (auto simp: swap_def nth_list_update)

subsection \<open>Insertion sort\<close>

text \<open>The loop from \<open>sortedIndex\<close> down, left at the first pair in order.\<close>

fun insert_inner :: "nat \<Rightarrow> int list \<Rightarrow> int list" where
  "insert_inner 0 nums = nums"
| "insert_inner (Suc i) nums =
     (if nums ! Suc i < nums ! i then insert_inner i (swap nums (Suc i) i) else nums)"

lemma length_insert_inner [simp]: "length (insert_inner i nums) = length nums"
  by (induction i nums rule: insert_inner.induct) simp_all

function insert_outer :: "nat \<Rightarrow> int list \<Rightarrow> int list" where
  "insert_outer sortedIndex nums =
     (if sortedIndex < length nums then insert_outer (Suc sortedIndex) (insert_inner sortedIndex nums) else nums)"
  by auto
termination
  by (relation "measure (\<lambda>(s, nums). length nums - s)") auto

declare insert_outer.simps [simp del]

definition insertSort :: "int list \<Rightarrow> int list" where
  "insertSort nums = insert_outer 0 nums"

lemma insort_last: "sorted (ys @ [y]) \<Longrightarrow> x \<le> y \<Longrightarrow> insort x (ys @ [y]) = insort x ys @ [y]" for x y :: int
  by (induction ys) (auto simp: sorted_append)

lemma insort_at_end: "sorted ys \<Longrightarrow> (\<forall>y\<in>set ys. y \<le> x) \<Longrightarrow> insort x ys = ys @ [x]" for x :: int
proof -
  assume "sorted ys" "\<forall>y\<in>set ys. y \<le> x"
  then have "sort (x # ys) = ys @ [x]" by (intro properties_for_sort) (simp_all add: sorted_append)
  then show ?thesis using \<open>sorted ys\<close> by (simp add: sorted_sort_id)
qed

lemma insert_inner_insort:
  "i < length nums \<Longrightarrow> sorted (take i nums) \<Longrightarrow>
   insert_inner i nums = insort (nums ! i) (take i nums) @ drop (Suc i) nums"
proof (induction i nums rule: insert_inner.induct)
  case (1 nums)
  then show ?case by (cases nums) auto
next
  case (2 i nums)
  let ?x = "nums ! Suc i" and ?y = "nums ! i"
  have i: "i < length nums" "Suc i < length nums" using 2 by auto
  have t: "take (Suc i) nums = take i nums @ [?y]" by (rule take_Suc_conv_app_nth [OF i(1)])
  have d: "drop (Suc i) nums = ?x # drop (Suc (Suc i)) nums" by (rule Cons_nth_drop_Suc [OF i(2), symmetric])
  show ?case
  proof (cases "?x < ?y")
    case True
    let ?n = "swap nums (Suc i) i"
    have n: "take i ?n = take i nums" "?n ! i = ?x" "drop (Suc i) ?n = ?y # drop (Suc (Suc i)) nums"
      using i d by (auto simp: swap_def drop_update_swap drop_Suc_Cons Cons_nth_drop_Suc [symmetric]
          simp del: drop_Suc_Cons)
    have "sorted (take i nums)" using 2(3) unfolding t by (simp add: sorted_append)
    with 2(1) [OF True] i n have "insert_inner i ?n = insort ?x (take i nums) @ ?y # drop (Suc (Suc i)) nums" by simp
    moreover have "insort ?x (take i nums @ [?y]) = insort ?x (take i nums) @ [?y]"
      using 2(3) True unfolding t by (intro insort_last) auto
    ultimately show ?thesis using True t by simp
  next
    case False
    have "\<forall>y\<in>set (take (Suc i) nums). y \<le> ?x" using 2(3) False unfolding t by (auto simp: sorted_append)
    from insort_at_end [OF 2(3) this] False d show ?thesis
      using append_take_drop_id [of "Suc i" nums] by simp
  qed
qed

lemma insert_outer_sort:
  "s \<le> length nums \<Longrightarrow> sorted (take s nums) \<Longrightarrow>
   mset (insert_outer s nums) = mset nums \<and> sorted (insert_outer s nums)"
proof (induction s nums rule: insert_outer.induct)
  case (1 s nums)
  show ?case
  proof (cases "s < length nums")
    case True
    let ?n = "insert_inner s nums"
    have n: "?n = insort (nums ! s) (take s nums) @ drop (Suc s) nums"
      using True 1(3) by (rule insert_inner_insort)
    have "length (insort (nums ! s) (take s nums)) = Suc s" using True by simp
    then have "take (Suc s) ?n = insort (nums ! s) (take s nums)" unfolding n by simp
    then have "sorted (take (Suc s) ?n)" using 1(3) by (simp add: sorted_insort)
    with 1(1) [OF True] True have ih: "mset (insert_outer (Suc s) ?n) = mset ?n \<and> sorted (insert_outer (Suc s) ?n)" by simp
    have "mset ?n = mset (take s nums @ nums ! s # drop (Suc s) nums)" unfolding n by simp
    also have "\<dots> = mset nums" using id_take_nth_drop [OF True] by simp
    finally show ?thesis using ih True by (simp add: insert_outer.simps [of s nums])
  next
    case False
    then have "insert_outer s nums = nums" by (subst insert_outer.simps) simp
    with 1 False show ?thesis by simp
  qed
qed

interpretation insertion: sorter insertSort
  using insert_outer_sort [of 0] by unfold_locales (simp_all add: insertSort_def)

subsection \<open>Shell sort\<close>

text \<open>
  \<open>shell_shift\<close> is the innermost loop, moving larger elements of the subsequence up by \<open>h\<close> and
  storing the key in the gap; \<open>h\<close> is positive whenever it runs.
\<close>

function shell_shift :: "nat \<Rightarrow> nat \<Rightarrow> int \<Rightarrow> int list \<Rightarrow> int list" where
  "shell_shift h j key arr =
     (if j \<ge> h \<and> h > 0 \<and> arr ! (j - h) > key then shell_shift h (j - h) key (arr[j := arr ! (j - h)])
      else arr[j := key])"
  by auto
termination
  by (relation "measure (\<lambda>(h, j, key, arr). j)") auto

declare shell_shift.simps [simp del]

lemma length_shell_shift [simp]: "length (shell_shift h j key arr) = length arr"
  by (induction h j key arr rule: shell_shift.induct) (simp add: shell_shift.simps)

function shell_pass :: "nat \<Rightarrow> nat \<Rightarrow> int list \<Rightarrow> int list" where
  "shell_pass h i arr = (if i < length arr then shell_pass h (Suc i) (shell_shift h i (arr ! i) arr) else arr)"
  by auto
termination
  by (relation "measure (\<lambda>(h, i, arr). length arr - i)") auto

declare shell_pass.simps [simp del]

function knuth :: "nat \<Rightarrow> nat \<Rightarrow> nat" where
  "knuth n h = (if h < n div 3 then knuth n (3 * h + 1) else h)"
  by auto
termination
  by (relation "measure (\<lambda>(n, h). n div 3 - h)") auto

declare knuth.simps [simp del]

fun shell_loop :: "nat \<Rightarrow> int list \<Rightarrow> int list" where
  "shell_loop h arr = (if h \<ge> 1 then shell_loop (h div 3) (shell_pass h h arr) else arr)"

declare shell_loop.simps [simp del]

definition shellSort :: "int list \<Rightarrow> int list" where
  "shellSort arr = shell_loop (knuth (length arr) 1) arr"

lemma shell_shift_perm:
  "j < length arr \<Longrightarrow> mset (shell_shift h j key arr) = mset (arr[j := key])"
proof (induction h j key arr rule: shell_shift.induct)
  case (1 h j key arr)
  show ?case
  proof (cases "j \<ge> h \<and> h > 0 \<and> arr ! (j - h) > key")
    case True
    let ?a = "arr[j := key]"
    have "j - h \<noteq> j" using True by auto
    then have "arr[j := arr ! (j - h), j - h := key] = swap ?a j (j - h)"
      using 1(2) by (simp add: swap_def)
    moreover have "mset (swap ?a j (j - h)) = mset ?a" using 1(2) by (intro mset_swap_eq) auto
    moreover have "mset (shell_shift h (j - h) key (arr[j := arr ! (j - h)])) = mset (arr[j := arr ! (j - h), j - h := key])"
      using 1(1) [OF True] 1(2) by simp
    ultimately show ?thesis using True by (simp add: shell_shift.simps [of h j key arr])
  next
    case False
    then show ?thesis by (subst shell_shift.simps) (simp only: if_False)
  qed
qed

lemma shell_pass_perm: "mset (shell_pass h i arr) = mset arr"
proof (induction h i arr rule: shell_pass.induct)
  case (1 h i arr)
  then show ?case by (simp add: shell_pass.simps [of h i arr] shell_shift_perm)
qed

lemma shell_shift_1:
  "j < length arr \<Longrightarrow> sorted (take j arr) \<Longrightarrow>
   shell_shift 1 j key arr = insort key (take j arr) @ drop (Suc j) arr"
proof (induction j arbitrary: arr)
  case 0
  then show ?case by (cases arr) (auto simp: shell_shift.simps)
next
  case (Suc j)
  let ?y = "arr ! j"
  have t: "take (Suc j) arr = take j arr @ [?y]" using Suc(2) by (simp add: take_Suc_conv_app_nth)
  show ?case
  proof (cases "?y > key")
    case True
    let ?a = "arr[Suc j := ?y]"
    have "sorted (take j ?a)" using Suc(3) unfolding t by (simp add: sorted_append)
    with Suc.IH [of ?a] Suc(2) have "shell_shift 1 j key ?a = insort key (take j arr) @ drop (Suc j) ?a" by simp
    moreover have "drop (Suc j) ?a = ?y # drop (Suc (Suc j)) arr"
      using Suc(2) by (simp add: Cons_nth_drop_Suc [symmetric] drop_update_swap)
    moreover have "insort key (take j arr @ [?y]) = insort key (take j arr) @ [?y]"
      using Suc(3) True unfolding t by (intro insort_last) auto
    ultimately show ?thesis using True t by (subst shell_shift.simps) simp
  next
    case False
    have "\<forall>y\<in>set (take (Suc j) arr). y \<le> key" using Suc(3) False unfolding t by (auto simp: sorted_append)
    from insort_at_end [OF Suc(3) this] False Suc(2) show ?thesis
      by (subst shell_shift.simps) (simp add: upd_conv_take_nth_drop)
  qed
qed

lemma shell_pass_1:
  "i \<le> length arr \<Longrightarrow> sorted (take i arr) \<Longrightarrow> sorted (shell_pass 1 i arr)"
proof (induction "length arr - i" arbitrary: i arr)
  case 0
  then show ?case by (simp add: shell_pass.simps)
next
  case (Suc k)
  then have i: "i < length arr" by simp
  let ?a = "shell_shift 1 i (arr ! i) arr"
  have a: "?a = insort (arr ! i) (take i arr) @ drop (Suc i) arr" using i Suc(4) by (rule shell_shift_1)
  have "length (insort (arr ! i) (take i arr)) = Suc i" using i by simp
  then have "take (Suc i) ?a = insort (arr ! i) (take i arr)" unfolding a by simp
  then have "sorted (take (Suc i) ?a)" using Suc(4) by (simp add: sorted_insort)
  with Suc(1) [of ?a "Suc i"] Suc(2) i show ?case by (simp add: shell_pass.simps [of "Suc 0" i arr])
qed

text \<open>The gaps are the Knuth numbers 1, 4, 13, \<dots>: dividing one by three gives the one before.\<close>

inductive knuth_number :: "nat \<Rightarrow> bool" where
  "knuth_number 1"
| "knuth_number h \<Longrightarrow> knuth_number (3 * h + 1)"

lemma knuth_number_pos: "knuth_number h \<Longrightarrow> 1 \<le> h"
  by (induction rule: knuth_number.induct) simp_all

lemma knuth_is_number: "knuth_number h \<Longrightarrow> knuth_number (knuth n h)"
proof (induction n h rule: knuth.induct)
  case (1 n h)
  show ?case
  proof (cases "h < n div 3")
    case True
    with 1 show ?thesis by (subst knuth.simps) (simp only: if_True knuth_number.intros)
  next
    case False
    with 1 show ?thesis by (subst knuth.simps) simp
  qed
qed

lemma shell_loop_sort: "knuth_number h \<Longrightarrow> mset (shell_loop h arr) = mset arr \<and> sorted (shell_loop h arr)"
proof (induction arbitrary: arr rule: knuth_number.induct)
  case 1
  have "shell_loop 1 arr = shell_pass 1 1 arr" by (subst shell_loop.simps) (simp add: shell_loop.simps [of 0])
  moreover have "sorted (shell_pass 1 1 arr)"
  proof (cases arr)
    case Nil
    then show ?thesis by (simp add: shell_pass.simps)
  next
    case (Cons x xs)
    then show ?thesis by (intro shell_pass_1) simp_all
  qed
  ultimately show ?case using shell_pass_perm [of 1 1 arr] by simp
next
  case (2 h)
  have "(3 * h + 1) div 3 = h" by simp
  then have "shell_loop (3 * h + 1) arr = shell_loop h (shell_pass (3 * h + 1) (3 * h + 1) arr)"
    by (subst shell_loop.simps) (simp only: le_add2 if_True)
  with 2(2) shell_pass_perm [of "3 * h + 1" "3 * h + 1" arr] show ?case by simp
qed

interpretation shell: sorter shellSort
proof
  fix xs :: "int list"
  have "knuth_number (knuth (length xs) 1)" by (intro knuth_is_number knuth_number.intros)
  from shell_loop_sort [OF this, of xs] show "mset (shellSort xs) = mset xs" "sorted (shellSort xs)"
    by (simp_all add: shellSort_def)
qed

subsection \<open>Selection sort\<close>

function select_min :: "nat \<Rightarrow> nat \<Rightarrow> int list \<Rightarrow> nat" where
  "select_min i minIndex nums =
     (if i < length nums then select_min (Suc i) (if nums ! i < nums ! minIndex then i else minIndex) nums else minIndex)"
  by auto
termination
  by (relation "measure (\<lambda>(i, m, nums). length nums - i)") auto

declare select_min.simps [simp del]

function select_outer :: "nat \<Rightarrow> int list \<Rightarrow> int list" where
  "select_outer sortedIndex nums =
     (if sortedIndex < length nums
      then select_outer (Suc sortedIndex) (swap nums sortedIndex (select_min (Suc sortedIndex) sortedIndex nums))
      else nums)"
  by auto
termination
  by (relation "measure (\<lambda>(s, nums). length nums - s)") auto

declare select_outer.simps [simp del]

definition selectSort :: "int list \<Rightarrow> int list" where
  "selectSort nums = select_outer 0 nums"

lemma select_min_least:
  "s \<le> m \<Longrightarrow> m < i \<Longrightarrow> i \<le> length nums \<Longrightarrow> \<forall>k. s \<le> k \<and> k < i \<longrightarrow> nums ! m \<le> nums ! k \<Longrightarrow>
   s \<le> select_min i m nums \<and> select_min i m nums < length nums
   \<and> (\<forall>k. s \<le> k \<and> k < length nums \<longrightarrow> nums ! select_min i m nums \<le> nums ! k)"
proof (induction i m nums rule: select_min.induct)
  case (1 i m nums)
  show ?case
  proof (cases "i < length nums")
    case True
    let ?m = "if nums ! i < nums ! m then i else m"
    have "\<forall>k. s \<le> k \<and> k < Suc i \<longrightarrow> nums ! ?m \<le> nums ! k"
      using 1(5) by (auto simp: less_Suc_eq intro: order.trans less_imp_le)
    with 1(1) [OF True] 1(2-4) True show ?thesis by (simp add: select_min.simps [of i m nums])
  next
    case False
    then have "select_min i m nums = m" by (subst select_min.simps) simp
    with 1(2-5) False show ?thesis by simp
  qed
qed

text \<open>A sorted prefix whose elements are at most those behind it.\<close>

definition placed :: "nat \<Rightarrow> int list \<Rightarrow> bool" where
  "placed s nums \<longleftrightarrow> (\<forall>i j. i \<le> j \<and> i < s \<and> j < length nums \<longrightarrow> nums ! i \<le> nums ! j)"

lemma placed_all: "length nums \<le> s \<Longrightarrow> placed s nums \<Longrightarrow> sorted nums"
  by (auto simp: placed_def sorted_iff_nth_mono)

lemma select_step:
  assumes "placed s nums" and "s < length nums"
  shows "placed (Suc s) (swap nums s (select_min (Suc s) s nums))"
    and "mset (swap nums s (select_min (Suc s) s nums)) = mset nums"
proof -
  let ?m = "select_min (Suc s) s nums"
  have m: "s \<le> ?m" "?m < length nums" "\<forall>k. s \<le> k \<and> k < length nums \<longrightarrow> nums ! ?m \<le> nums ! k"
  proof -
    have "\<forall>k. s \<le> k \<and> k < Suc s \<longrightarrow> nums ! s \<le> nums ! k" using le_less_Suc_eq by blast
    from select_min_least [OF _ _ _ this] assms(2)
    show "s \<le> ?m" "?m < length nums" "\<forall>k. s \<le> k \<and> k < length nums \<longrightarrow> nums ! ?m \<le> nums ! k" by simp_all
  qed
  show "mset (swap nums s ?m) = mset nums" using m assms(2) by simp
  show "placed (Suc s) (swap nums s ?m)"
    unfolding placed_def
  proof (intro allI impI)
    fix i j
    assume ij: "i \<le> j \<and> i < Suc s \<and> j < length (swap nums s ?m)"
    then have "i < s \<or> i = s" "i \<le> j" "j < length nums" by auto
    with m assms show "swap nums s ?m ! i \<le> swap nums s ?m ! j"
      unfolding placed_def by (auto simp: nth_swap)
  qed
qed

lemma select_outer_sort:
  "placed s nums \<Longrightarrow> mset (select_outer s nums) = mset nums \<and> sorted (select_outer s nums)"
proof (induction s nums rule: select_outer.induct)
  case (1 s nums)
  show ?case
  proof (cases "s < length nums")
    case True
    with 1(1) [OF True] select_step [OF 1(2) True] show ?thesis by (simp add: select_outer.simps [of s nums])
  next
    case False
    then have "select_outer s nums = nums" by (subst select_outer.simps) simp
    with placed_all [OF _ 1(2)] False show ?thesis by simp
  qed
qed

interpretation selection: sorter selectSort
  using select_outer_sort [of 0] by unfold_locales (simp_all add: selectSort_def placed_def)

subsection \<open>Bubble sort\<close>

fun bubble_inner :: "nat \<Rightarrow> nat \<Rightarrow> int list \<Rightarrow> bool \<Rightarrow> int list \<times> bool" where
  "bubble_inner sortedIndex 0 nums swapped = (nums, swapped)"
| "bubble_inner sortedIndex (Suc i) nums swapped =
     (if Suc i > sortedIndex
      then if nums ! Suc i < nums ! i then bubble_inner sortedIndex i (swap nums (Suc i) i) True
           else bubble_inner sortedIndex i nums swapped
      else (nums, swapped))"

lemma length_bubble_inner: "length (fst (bubble_inner s i nums sw)) = length nums"
  by (induction s i nums sw rule: bubble_inner.induct) simp_all

function bubble_outer :: "nat \<Rightarrow> int list \<Rightarrow> int list" where
  "bubble_outer sortedIndex nums =
     (if sortedIndex < length nums
      then if \<not> snd (bubble_inner sortedIndex (length nums - 1) nums False)
           then fst (bubble_inner sortedIndex (length nums - 1) nums False)
           else bubble_outer (Suc sortedIndex) (fst (bubble_inner sortedIndex (length nums - 1) nums False))
      else nums)"
  by auto
termination
  by (relation "measure (\<lambda>(s, nums). length nums - s)") (auto simp: length_bubble_inner)

declare bubble_outer.simps [simp del]

definition bubbleSort :: "int list \<Rightarrow> int list" where
  "bubbleSort nums = bubble_outer 0 nums"

lemma placed_swap:
  "placed s nums \<Longrightarrow> s \<le> a \<Longrightarrow> s \<le> b \<Longrightarrow> a < length nums \<Longrightarrow> b < length nums \<Longrightarrow> placed s (swap nums a b)"
  by (auto simp: placed_def nth_swap)

lemma bubble_inner_min:
  "s \<le> i \<Longrightarrow> i < length nums \<Longrightarrow> placed s nums \<Longrightarrow> \<forall>k. i \<le> k \<and> k < length nums \<longrightarrow> nums ! i \<le> nums ! k \<Longrightarrow>
   bubble_inner s i nums sw = (nums', sw') \<Longrightarrow> mset nums' = mset nums \<and> placed (Suc s) nums'"
proof (induction s i nums sw rule: bubble_inner.induct)
  case (1 s nums sw)
  then show ?case by (auto simp: placed_def less_Suc_eq)
next
  case (2 s i nums sw)
  show ?case
  proof (cases "Suc i > s")
    case False
    with 2(3-) have "i + 1 = s" "nums' = nums" by auto
    with 2(5,6) show ?thesis by (auto simp: placed_def less_Suc_eq)
  next
    case True
    then have s: "s \<le> i" "i < length nums" using 2(4) by auto
    show ?thesis
    proof (cases "nums ! Suc i < nums ! i")
      case True
      let ?n = "swap nums (Suc i) i"
      have p: "placed s ?n" using 2(4,5) s by (intro placed_swap) auto
      have "\<forall>k. i \<le> k \<and> k < length ?n \<longrightarrow> ?n ! i \<le> ?n ! k"
        using 2(4,6) s True by (auto simp: nth_swap)
      with 2(1) [OF \<open>Suc i > s\<close> True] s p 2(7) True \<open>Suc i > s\<close>
      have "mset nums' = mset ?n \<and> placed (Suc s) nums'" by simp
      moreover have "mset ?n = mset nums" using 2(4) s by simp
      ultimately show ?thesis by simp
    next
      case False
      have "\<forall>k. i \<le> k \<and> k < length nums \<longrightarrow> nums ! i \<le> nums ! k"
      proof (intro allI impI)
        fix k assume "i \<le> k \<and> k < length nums"
        then consider "k = i" | "Suc i \<le> k" "k < length nums" by fastforce
        then show "nums ! i \<le> nums ! k" using 2(6) False by cases (auto intro: order.trans [of _ "nums ! Suc i"])
      qed
      with 2(2) [OF \<open>Suc i > s\<close> False] s 2(5,7) False \<open>Suc i > s\<close> show ?thesis by simp
    qed
  qed
qed

lemma bubble_inner_quiet:
  "bubble_inner s i nums sw = (nums', False) \<Longrightarrow> nums' = nums \<and> \<not> sw \<and> (\<forall>k. s < k \<and> k \<le> i \<longrightarrow> nums ! (k - 1) \<le> nums ! k)"
proof (induction s i nums sw rule: bubble_inner.induct)
  case (2 s i nums sw)
  then show ?case by (auto simp: le_Suc_eq split: if_splits)
qed simp

lemma bubble_quiet_sorted:
  assumes "placed s nums" and "s < length nums"
    and "\<forall>k. s < k \<and> k \<le> length nums - 1 \<longrightarrow> nums ! (k - 1) \<le> nums ! k"
  shows "sorted nums"
proof (rule sorted_iff_nth_Suc [THEN iffD2], intro allI impI)
  fix i assume "Suc i < length nums"
  then show "nums ! i \<le> nums ! Suc i"
    using assms(1) assms(3) [rule_format, of "Suc i"] by (cases "i < s") (auto simp: placed_def)
qed

lemma bubble_outer_sort:
  "placed s nums \<Longrightarrow> mset (bubble_outer s nums) = mset nums \<and> sorted (bubble_outer s nums)"
proof (induction s nums rule: bubble_outer.induct)
  case (1 s nums)
  obtain nums' sw where b: "bubble_inner s (length nums - 1) nums False = (nums', sw)" by force
  show ?case
  proof (cases "s < length nums")
    case True
    have "\<forall>k. length nums - 1 \<le> k \<and> k < length nums \<longrightarrow> nums ! (length nums - 1) \<le> nums ! k"
    proof (intro allI impI)
      fix k assume "length nums - 1 \<le> k \<and> k < length nums"
      then have "k = length nums - 1" by linarith
      then show "nums ! (length nums - 1) \<le> nums ! k" by simp
    qed
    from bubble_inner_min [OF _ _ 1(2) this b] True have m: "mset nums' = mset nums" "placed (Suc s) nums'" by auto
    show ?thesis
    proof (cases sw)
      case True
      with 1(1) \<open>s < length nums\<close> b m show ?thesis by (simp add: bubble_outer.simps [of s nums])
    next
      case False
      with bubble_inner_quiet [of s "length nums - 1" nums False nums'] b
      have "nums' = nums" "\<forall>k. s < k \<and> k \<le> length nums - 1 \<longrightarrow> nums ! (k - 1) \<le> nums ! k" by auto
      with bubble_quiet_sorted [OF 1(2) \<open>s < length nums\<close>] \<open>s < length nums\<close> b False show ?thesis
        by (simp add: bubble_outer.simps [of s nums])
    qed
  next
    case False
    then have "bubble_outer s nums = nums" by (subst bubble_outer.simps) simp
    with placed_all [OF _ 1(2)] False show ?thesis by simp
  qed
qed

interpretation bubble: sorter bubbleSort
  using bubble_outer_sort [of 0] by unfold_locales (simp_all add: bubbleSort_def placed_def)

end
