(* ===== verification/FastSorts.thy ===== *)
theory FastSorts
  imports Sorts
begin

text \<open>
  Merge sort, quick sort and heap sort of \<^verbatim>\<open>datastruct/\<close>, and binary search.  The first two sort a range
  \<open>arr[lo..hi]\<close> in place: their specification is that the range is overwritten by the sorted
  range and nothing else changes.
\<close>

subsection \<open>Merge sort\<close>

function merge_loop ::
    "int list \<Rightarrow> nat \<Rightarrow> nat \<Rightarrow> nat \<Rightarrow> nat \<Rightarrow> nat \<Rightarrow> int list \<Rightarrow> nat \<times> nat \<times> nat \<times> int list" where
  "merge_loop temp m1 m2 i j k arr =
     (if i \<le> m1 \<and> j \<le> m2
      then if temp ! i \<le> temp ! j then merge_loop temp m1 m2 (i + 1) j (k + 1) (arr[k := temp ! i])
           else merge_loop temp m1 m2 i (j + 1) (k + 1) (arr[k := temp ! j])
      else (i, j, k, arr))"
  by auto
termination
  by (relation "measure (\<lambda>(temp, m1, m2, i, j, k, arr). (m1 + 1 - i) + (m2 + 1 - j))") auto

declare merge_loop.simps [simp del]

function copy_rest :: "int list \<Rightarrow> nat \<Rightarrow> nat \<Rightarrow> nat \<Rightarrow> int list \<Rightarrow> nat \<times> int list" where
  "copy_rest temp m i k arr =
     (if i \<le> m then copy_rest temp m (i + 1) (k + 1) (arr[k := temp ! i]) else (k, arr))"
  by auto
termination
  by (relation "measure (\<lambda>(temp, m, i, k, arr). m + 1 - i)") auto

declare copy_rest.simps [simp del]

definition merge :: "int list \<Rightarrow> nat \<Rightarrow> nat \<Rightarrow> nat \<Rightarrow> int list" where
  "merge arr lo mid hi =
     (let temp = seg lo (hi + 1) arr;
          (i, j, k, arr) = merge_loop temp (mid - lo) (hi - lo) 0 (mid - lo + 1) lo arr;
          (k, arr) = copy_rest temp (mid - lo) i k arr;
          (k, arr) = copy_rest temp (hi - lo) j k arr
      in arr)"

function mergeSort_range :: "int list \<Rightarrow> nat \<Rightarrow> nat \<Rightarrow> int list" where
  "mergeSort_range arr lo hi =
     (if lo \<ge> hi then arr
      else let mid = lo + (hi - lo) div 2;
               arr = mergeSort_range arr lo mid;
               arr = mergeSort_range arr (mid + 1) hi
           in merge arr lo mid hi)"
  by auto
termination
  by (relation "measure (\<lambda>(arr, lo, hi). hi - lo)") auto

declare mergeSort_range.simps [simp del]

definition mergeSort :: "int list \<Rightarrow> int list" where
  "mergeSort arr = (if arr = [] then arr else mergeSort_range arr 0 (length arr - 1))"

fun merge_lists :: "int list \<Rightarrow> int list \<Rightarrow> int list" where
  "merge_lists (x # xs) (y # ys) = (if x \<le> y then x # merge_lists xs (y # ys) else y # merge_lists (x # xs) ys)"
| "merge_lists xs [] = xs"
| "merge_lists [] ys = ys"

lemma mset_merge_lists: "mset (merge_lists xs ys) = mset xs + mset ys"
  by (induction xs ys rule: merge_lists.induct) simp_all

lemma set_merge_lists: "set (merge_lists xs ys) = set xs \<union> set ys"
  using mset_merge_lists [of xs ys] by (metis set_mset_mset set_mset_union)

lemma sorted_merge_lists: "sorted xs \<Longrightarrow> sorted ys \<Longrightarrow> sorted (merge_lists xs ys)"
  by (induction xs ys rule: merge_lists.induct) (auto simp: set_merge_lists)

lemma merge_lists_sort: "merge_lists (sort xs) (sort ys) = sort (xs @ ys)"
  by (rule properties_for_sort [symmetric]) (simp_all add: mset_merge_lists sorted_merge_lists)

lemma merge_lists_Nil [simp]: "merge_lists [] ys = ys"
  by (cases ys) simp_all

lemma copy_rest_blit:
  "m < length temp \<Longrightarrow> k + (m + 1 - i) \<le> length arr \<Longrightarrow>
   copy_rest temp m i k arr = (k + (m + 1 - i), blit arr k (seg i (m + 1) temp))"
proof (induction temp m i k arr rule: copy_rest.induct)
  case (1 temp m i k arr)
  show ?case
  proof (cases "i \<le> m")
    case True
    have "seg i (m + 1) temp = temp ! i # seg (Suc i) (m + 1) temp" using True 1(2) by (intro seg_Cons) simp_all
    moreover have "k < length arr" using 1(3) True by simp
    moreover have "copy_rest temp m (i + 1) (k + 1) (arr[k := temp ! i])
        = (k + 1 + (m + 1 - (i + 1)), blit (arr[k := temp ! i]) (k + 1) (seg (i + 1) (m + 1) temp))"
      using 1 True by simp
    ultimately show ?thesis using True by (subst copy_rest.simps) (simp add: blit_update)
  next
    case False
    then show ?thesis by (subst copy_rest.simps) simp
  qed
qed

lemma merge_loop_blit:
  "m1 < length temp \<Longrightarrow> m2 < length temp \<Longrightarrow> k + (m1 + 1 - i) + (m2 + 1 - j) \<le> length arr \<Longrightarrow>
   merge_loop temp m1 m2 i j k arr = (i', j', k', arr') \<Longrightarrow>
   blit arr' k' (seg i' (m1 + 1) temp @ seg j' (m2 + 1) temp)
     = blit arr k (merge_lists (seg i (m1 + 1) temp) (seg j (m2 + 1) temp))
   \<and> length arr' = length arr \<and> k' + (m1 + 1 - i') + (m2 + 1 - j') \<le> length arr"
proof (induction temp m1 m2 i j k arr rule: merge_loop.induct)
  case (1 temp m1 m2 i j k arr)
  show ?case
  proof (cases "i \<le> m1 \<and> j \<le> m2")
    case True
    have s: "seg i (m1 + 1) temp = temp ! i # seg (Suc i) (m1 + 1) temp"
        "seg j (m2 + 1) temp = temp ! j # seg (Suc j) (m2 + 1) temp"
      using True 1(3,4) by (auto intro!: seg_Cons)
    have k: "k < length arr" using 1(5) True by linarith
    show ?thesis
    proof (cases "temp ! i \<le> temp ! j")
      case le: True
      have "merge_loop temp m1 m2 (i + 1) j (k + 1) (arr[k := temp ! i]) = (i', j', k', arr')"
        using 1(6) True le by (subst (asm) merge_loop.simps) simp
      with 1(1) [OF True le 1(3,4)] 1(5) True s le k show ?thesis by (simp add: blit_update)
    next
      case gt: False
      have "merge_loop temp m1 m2 i (j + 1) (k + 1) (arr[k := temp ! j]) = (i', j', k', arr')"
        using 1(6) True gt by (subst (asm) merge_loop.simps) simp
      with 1(2) [OF True gt 1(3,4)] 1(5) True s gt k show ?thesis by (simp add: blit_update)
    qed
  next
    case False
    then have "seg i (m1 + 1) temp = [] \<or> seg j (m2 + 1) temp = []" by auto
    then have "merge_lists (seg i (m1 + 1) temp) (seg j (m2 + 1) temp) = seg i (m1 + 1) temp @ seg j (m2 + 1) temp"
      by (auto split: list.splits)
    moreover have "i' = i" "j' = j" "k' = k" "arr' = arr"
      using 1(6) False by (subst (asm) merge_loop.simps, simp add: False)+
    ultimately show ?thesis using 1(5) by simp
  qed
qed

lemma merge_blit:
  assumes "lo \<le> mid" "mid < hi" "hi < length arr"
  shows "merge arr lo mid hi = blit arr lo (merge_lists (seg lo (mid + 1) arr) (seg (mid + 1) (hi + 1) arr))"
proof -
  let ?t = "seg lo (hi + 1) arr" and ?m1 = "mid - lo" and ?m2 = "hi - lo"
  have t: "length ?t = ?m2 + 1" using assms by simp
  obtain i j k a where l: "merge_loop ?t ?m1 ?m2 0 (?m1 + 1) lo arr = (i, j, k, a)" by (metis prod_cases4)
  have "lo + (?m1 + 1 - 0) + (?m2 + 1 - (?m1 + 1)) \<le> length arr" using assms by simp
  from merge_loop_blit [OF _ _ this l] t assms have
    b: "blit a k (seg i (?m1 + 1) ?t @ seg j (?m2 + 1) ?t) = blit arr lo (merge_lists (seg 0 (?m1 + 1) ?t) (seg (?m1 + 1) (?m2 + 1) ?t))"
      "length a = length arr" "k + (?m1 + 1 - i) + (?m2 + 1 - j) \<le> length arr" by auto
  have c1: "copy_rest ?t ?m1 i k a = (k + (?m1 + 1 - i), blit a k (seg i (?m1 + 1) ?t))"
    using b t assms by (intro copy_rest_blit) auto
  let ?a = "blit a k (seg i (?m1 + 1) ?t)"
  have ls: "length (seg i (?m1 + 1) ?t) = ?m1 + 1 - i" using t assms by (simp add: length_seg)
  have c2: "copy_rest ?t ?m2 j (k + (?m1 + 1 - i)) ?a
      = (k + (?m1 + 1 - i) + (?m2 + 1 - j), blit ?a (k + (?m1 + 1 - i)) (seg j (?m2 + 1) ?t))"
    using b t assms ls by (intro copy_rest_blit) auto
  have "blit ?a (k + (?m1 + 1 - i)) (seg j (?m2 + 1) ?t) = blit a k (seg i (?m1 + 1) ?t @ seg j (?m2 + 1) ?t)"
    using blit_blit [of k "seg i (?m1 + 1) ?t" a "seg j (?m2 + 1) ?t"] b ls by simp
  moreover have "seg 0 (?m1 + 1) ?t = seg lo (mid + 1) arr" "seg (?m1 + 1) (?m2 + 1) ?t = seg (mid + 1) (hi + 1) arr"
    using assms by (simp_all add: seg_def drop_take min_def ac_simps Suc_diff_le)
  ultimately show ?thesis unfolding merge_def Let_def l prod.case c1 c2 using b(1) by simp
qed

lemma mergeSort_range_sort:
  "lo \<le> hi \<Longrightarrow> hi < length arr \<Longrightarrow> mergeSort_range arr lo hi = blit arr lo (sort (seg lo (hi + 1) arr))"
proof (induction arr lo hi rule: mergeSort_range.induct)
  case (1 arr lo hi)
  show ?case
  proof (cases "lo \<ge> hi")
    case True
    with 1(3) have "lo = hi" by simp
    then have "sort (seg lo (hi + 1) arr) = seg lo (hi + 1) arr" using 1(4) by (simp add: seg_Cons)
    then show ?thesis using True \<open>lo = hi\<close> 1(4) by (subst mergeSort_range.simps) (simp add: blit_seg)
  next
    case False
    let ?mid = "lo + (hi - lo) div 2"
    let ?L = "seg lo (?mid + 1) arr" and ?R = "seg (?mid + 1) (hi + 1) arr"
    have mid: "lo \<le> ?mid" "?mid < hi" using False by auto
    have len: "length ?L = ?mid + 1 - lo" "length ?R = hi - ?mid" using mid 1(4) by simp_all
    have a1: "mergeSort_range arr lo ?mid = blit arr lo (sort ?L)" (is "_ = ?a1")
      using 1(1) [OF False refl] mid 1(4) by simp
    have la1: "length ?a1 = length arr" using mid 1(4) len by (intro length_blit) simp
    have "seg (?mid + 1) (hi + 1) ?a1 = ?R" using mid 1(4) len by (intro seg_blit_after) simp_all
    then have "mergeSort_range ?a1 (?mid + 1) hi = blit ?a1 (?mid + 1) (sort ?R)"
      using 1(2) [OF False refl refl] mid 1(4) la1 a1 by simp
    also have "\<dots> = blit arr lo (sort ?L @ sort ?R)" (is "_ = ?a2")
      using blit_blit [of lo "sort ?L" arr "sort ?R"] mid 1(4) len by simp
    finally have a2: "mergeSort_range ?a1 (?mid + 1) hi = ?a2" .
    have fit: "lo + length (sort ?L @ sort ?R) \<le> length arr" using mid 1(4) len by simp
    let ?k = "length ?L"
    have k: "lo + ?k = ?mid + 1" "lo + (?k + length ?R) = hi + 1" using mid len by simp_all
    have "seg (lo + 0) (lo + ?k) ?a2 = seg 0 ?k (sort ?L @ sort ?R)"
      "seg (lo + ?k) (lo + (?k + length ?R)) ?a2 = seg ?k (?k + length ?R) (sort ?L @ sort ?R)"
      by (rule seg_blit_part [OF fit], simp)+
    then have s: "seg lo (?mid + 1) ?a2 = sort ?L" "seg (?mid + 1) (hi + 1) ?a2 = sort ?R"
      unfolding k by (simp_all add: seg_def)
    have "merge ?a2 lo ?mid hi = blit ?a2 lo (merge_lists (sort ?L) (sort ?R))"
      using merge_blit [of lo ?mid hi ?a2] mid 1(4) fit s by simp
    also have "merge_lists (sort ?L) (sort ?R) = sort (?L @ ?R)" by (rule merge_lists_sort)
    also have "?L @ ?R = seg lo (hi + 1) arr" using mid by (intro seg_split [symmetric]) simp_all
    also have "blit ?a2 lo (sort (seg lo (hi + 1) arr)) = blit arr lo (sort (seg lo (hi + 1) arr))"
      using len mid 1(4) by (intro blit_same) simp_all
    finally show ?thesis using False a1 a2 by (subst mergeSort_range.simps) (simp add: Let_def)
  qed
qed

interpretation merging: sorter mergeSort
proof -
  have "mergeSort xs = sort xs" for xs
    using mergeSort_range_sort [of 0 "length xs - 1" xs]
    by (cases "xs = []") (simp_all add: mergeSort_def seg_def blit_def)
  then show "sorter mergeSort" by unfold_locales simp_all
qed

subsection \<open>Quick sort\<close>

text \<open>Bounds are \<open>int\<close>s: the left recursion may end at \<open>lo - 1\<close>.\<close>

function partition_loop :: "int \<Rightarrow> nat \<Rightarrow> nat \<Rightarrow> nat \<Rightarrow> int list \<Rightarrow> nat \<times> int list" where
  "partition_loop pivot hi i j arr =
     (if j < hi
      then if arr ! j < pivot then partition_loop pivot hi (i + 1) (j + 1) (swap arr i j)
           else partition_loop pivot hi i (j + 1) arr
      else (i, arr))"
  by auto
termination
  by (relation "measure (\<lambda>(p, hi, i, j, arr). hi - j)") auto

declare partition_loop.simps [simp del]

definition partition :: "int list \<Rightarrow> nat \<Rightarrow> nat \<Rightarrow> nat \<times> int list" where
  "partition arr lo hi =
     (let pivot = arr ! hi;
          (i, arr) = partition_loop pivot hi lo lo arr
      in (i, swap arr i hi))"

lemma partition_loop_bounds:
  "i \<le> j \<Longrightarrow> j \<le> hi \<Longrightarrow> i \<le> fst (partition_loop p hi i j arr) \<and> fst (partition_loop p hi i j arr) \<le> hi"
proof (induction p hi i j arr rule: partition_loop.induct)
  case (1 p hi i j arr)
  then show ?case by (subst (1 2) partition_loop.simps) auto
qed

function quickSort_range :: "int list \<Rightarrow> int \<Rightarrow> int \<Rightarrow> int list" where
  "quickSort_range arr lo hi =
     (if lo \<ge> hi \<or> lo < 0 then arr
      else case partition arr (nat lo) (nat hi) of
        (p, arr) \<Rightarrow> quickSort_range (quickSort_range arr lo (int p - 1)) (int p + 1) hi)"
  by auto
termination
proof (relation "measure (\<lambda>(arr, lo, hi). nat (hi - lo))")
  fix arr lo hi p arr'
  assume "\<not> (lo \<ge> hi \<or> lo < (0 :: int))" "(p, arr') = partition arr (nat lo) (nat hi)"
  moreover from this have "nat lo \<le> p \<and> p \<le> nat hi"
    using partition_loop_bounds [of "nat lo" "nat lo" "nat hi" "arr ! nat hi" arr]
    by (auto simp: partition_def split: prod.splits)
  ultimately show "((arr', lo, int p - 1), arr, lo, hi) \<in> measure (\<lambda>(arr, lo, hi). nat (hi - lo))"
    "((x, int p + 1, hi), arr, lo, hi) \<in> measure (\<lambda>(arr, lo, hi). nat (hi - lo))" for x
    by auto
qed auto

declare quickSort_range.simps [simp del]

definition quickSort :: "int list \<Rightarrow> int list" where
  "quickSort arr = (if arr = [] then arr else quickSort_range arr 0 (int (length arr) - 1))"

lemma swap_blocks:
  assumes "xs = P @ a # Q @ b # R"
  shows "swap xs (length P) (length P + Suc (length Q)) = P @ b # Q @ a # R"
  unfolding assms swap_def by (simp add: nth_append list_update_append)

lemma swap_self: "swap xs i i = xs"
  by (simp add: swap_def)

text \<open>During the loop the range is a block below the pivot, a block of the others, and the rest.\<close>

lemma partition_loop_split:
  "arr = A @ L @ G @ U @ B \<Longrightarrow> i = length A + length L \<Longrightarrow> j = i + length G \<Longrightarrow> hi = j + length U \<Longrightarrow>
   \<forall>x\<in>set L. x < p \<Longrightarrow> \<forall>x\<in>set G. p \<le> x \<Longrightarrow>
   \<exists>L' G'. partition_loop p hi i j arr = (length A + length L', A @ L' @ G' @ B)
     \<and> mset (L' @ G') = mset (L @ G @ U) \<and> (\<forall>x\<in>set L'. x < p) \<and> (\<forall>x\<in>set G'. p \<le> x)"
proof (induction U arbitrary: arr L G i j)
  case Nil
  then show ?case by (intro exI [of _ L] exI [of _ G]) (simp add: partition_loop.simps)
next
  case (Cons u U)
  have u: "arr ! j = u" using Cons.prems(1-3) by (simp add: nth_append)
  have j: "j < hi" using Cons.prems(4) by simp
  show ?case
  proof (cases "u < p")
    case True
    have "\<exists>G1. swap arr i j = A @ (L @ [u]) @ G1 @ U @ B \<and> mset G1 = mset G \<and> length G1 = length G"
    proof (cases G)
      case Nil
      then show ?thesis using Cons.prems(1-3) by (auto simp: swap_self)
    next
      case (Cons g G0)
      have "swap arr i j = (A @ L) @ u # G0 @ g # (U @ B)"
        using swap_blocks [of arr "A @ L" g G0 u "U @ B"] Cons Cons.prems \<open>arr = A @ L @ G @ (u # U) @ B\<close>
          \<open>i = length A + length L\<close> \<open>j = i + length G\<close> by simp
      then show ?thesis using Cons by (intro exI [of _ "G0 @ [g]"]) simp
    qed
    then obtain G1 where g: "swap arr i j = A @ (L @ [u]) @ G1 @ U @ B" "mset G1 = mset G" "length G1 = length G" by blast
    have sG: "set G1 = set G" using g(2) by (rule mset_eq_setD)
    have "\<exists>L' G'. partition_loop p hi (i + 1) (j + 1) (swap arr i j) = (length A + length L', A @ L' @ G' @ B)
       \<and> mset (L' @ G') = mset ((L @ [u]) @ G1 @ U) \<and> (\<forall>x\<in>set L'. x < p) \<and> (\<forall>x\<in>set G'. p \<le> x)"
      using Cons.prems(2-6) True g(3) sG by (intro Cons.IH [OF g(1)]) auto
    then show ?thesis using True u j g(2) by (subst partition_loop.simps) auto
  next
    case False
    have "\<exists>L' G'. partition_loop p hi i (j + 1) arr = (length A + length L', A @ L' @ G' @ B)
       \<and> mset (L' @ G') = mset (L @ (G @ [u]) @ U) \<and> (\<forall>x\<in>set L'. x < p) \<and> (\<forall>x\<in>set G'. p \<le> x)"
      using Cons.prems False by (intro Cons.IH) auto
    then show ?thesis using False u j by (subst partition_loop.simps) auto
  qed
qed

lemma partition_split:
  assumes "arr = A @ M @ v # B" and "lo = length A" and "hi = length A + length M"
  shows "\<exists>L G. partition arr lo hi = (lo + length L, A @ L @ v # G @ B) \<and> mset (L @ G) = mset M
     \<and> (\<forall>x\<in>set L. x < v) \<and> (\<forall>x\<in>set G. v \<le> x)"
proof -
  have v: "arr ! hi = v" using assms by (simp add: nth_append)
  from partition_loop_split [of arr A "[]" "[]" M "v # B" lo lo hi v] assms obtain L G where
    l: "partition_loop v hi lo lo arr = (length A + length L, A @ L @ G @ v # B)" "mset (L @ G) = mset M"
      "\<forall>x\<in>set L. x < v" "\<forall>x\<in>set G. v \<le> x" by auto
  have len: "length L + length G = length M" using l(2) by (metis length_append mset_eq_length)
  have "\<exists>G'. swap (A @ L @ G @ v # B) (length A + length L) hi = A @ L @ v # G' @ B \<and> mset G' = mset G"
  proof (cases G)
    case Nil
    then show ?thesis using len assms(3) by (auto simp: swap_self)
  next
    case (Cons g G0)
    then have "hi = length (A @ L) + Suc (length G0)" using len assms(3) by simp
    with swap_blocks [of "A @ L @ G @ v # B" "A @ L" g G0 v B] Cons
    have "swap (A @ L @ G @ v # B) (length A + length L) hi = A @ L @ v # (G0 @ [g]) @ B" by simp
    then show ?thesis using Cons by (intro exI [of _ "G0 @ [g]"]) simp
  qed
  then obtain G' where g: "swap (A @ L @ G @ v # B) (length A + length L) hi = A @ L @ v # G' @ B" "mset G' = mset G" by blast
  have "partition arr lo hi = (lo + length L, A @ L @ v # G' @ B)"
    using v l(1) g(1) assms(2) by (simp add: partition_def)
  moreover have "mset (L @ G') = mset M" "\<forall>x\<in>set G'. v \<le> x" using l(2,4) g(2) mset_eq_setD [OF g(2)] by simp_all
  ultimately show ?thesis using l(3) by blast
qed

lemma sort_partition:
  fixes v :: int
  assumes "mset (L @ G) = mset M" "\<forall>x\<in>set L. x < v" "\<forall>x\<in>set G. v \<le> x"
  shows "sort L @ v # sort G = sort (M @ [v])"
proof (rule properties_for_sort [symmetric])
  show "mset (sort L @ v # sort G) = mset (M @ [v])" using assms(1) by (simp add: ac_simps)
  show "sorted (sort L @ v # sort G)"
    using assms(2,3) by (fastforce simp: sorted_append)
qed

lemma quickSort_range_sort:
  "arr = A @ M @ B \<Longrightarrow> lo = int (length A) \<Longrightarrow> hi = lo + int (length M) - 1 \<Longrightarrow>
   quickSort_range arr lo hi = A @ sort M @ B"
proof (induction "length M" arbitrary: arr A M B lo hi rule: less_induct)
  case less
  show ?case
  proof (cases "length M \<le> 1")
    case True
    then have "sort M = M" by (cases M) auto
    with True less.prems show ?thesis by (subst quickSort_range.simps) auto
  next
    case False
    then obtain N v where M: "M = N @ [v]" by (metis list.size(3) rev_exhaust zero_le_one)
    have b: "nat lo = length A" "nat hi = length A + length N" "\<not> (lo \<ge> hi \<or> lo < 0)"
      using less.prems False M by auto
    from partition_split [of arr A N v B "nat lo" "nat hi"] less.prems(1) M b(1,2) obtain L G where
      p: "partition arr (nat lo) (nat hi) = (length A + length L, A @ L @ v # G @ B)"
        "mset (L @ G) = mset N" "\<forall>x\<in>set L. x < v" "\<forall>x\<in>set G. v \<le> x" by auto
    have len: "length L + length G = length N" using p(2) by (metis length_append mset_eq_length)
    have "quickSort_range (A @ L @ v # G @ B) lo (int (length A + length L) - 1) = A @ sort L @ v # G @ B"
      using less.prems(2) len M by (intro less.hyps) auto
    moreover have "quickSort_range ((A @ sort L @ [v]) @ G @ B) (int (length A + length L) + 1) hi = (A @ sort L @ [v]) @ sort G @ B"
      using less.prems(2,3) len M by (intro less.hyps) auto
    ultimately have "quickSort_range arr lo hi = A @ (sort L @ v # sort G) @ B"
      using b(3) p(1) by (subst quickSort_range.simps) simp
    then show ?thesis using sort_partition [OF p(2-4)] M by simp
  qed
qed

interpretation quick: sorter quickSort
proof -
  have "quickSort xs = sort xs" for xs
    using quickSort_range_sort [of xs "[]" xs "[]" 0 "int (length xs) - 1"]
    by (cases "xs = []") (simp_all add: quickSort_def)
  then show "sorter quickSort" by unfold_locales simp_all
qed

end
