(* ===== verification/HeapSorts.thy ===== *)
theory HeapSorts
  imports FastSorts
begin

text \<open>
  \<^verbatim>\<open>datastruct/heap_sort.h\<close>: heap sort on a binary max-heap stored in the vector, and
  \<^verbatim>\<open>datastruct/binary_search.h\<close>.  The parent of position \<open>j\<close> is \<open>(j - 1) div 2\<close>.
\<close>

definition larger_child :: "int list \<Rightarrow> nat \<Rightarrow> nat \<Rightarrow> nat" where
  "larger_child arr k n =
     (let j = 2 * k + 1 in if j + 1 < n \<and> arr ! j < arr ! (j + 1) then j + 1 else j)"

function sink :: "int list \<Rightarrow> nat \<Rightarrow> nat \<Rightarrow> int list" where
  "sink arr k n =
     (if 2 * k + 1 < n
      then if arr ! k \<ge> arr ! larger_child arr k n then arr
           else sink (swap arr k (larger_child arr k n)) (larger_child arr k n) n
      else arr)"
  by auto
termination
  by (relation "measure (\<lambda>(arr, k, n). n - k)") (auto simp: larger_child_def Let_def)

declare sink.simps [simp del]

fun heap_build :: "nat \<Rightarrow> int list \<Rightarrow> int list" where
  "heap_build 0 nums = nums"
| "heap_build (Suc i) nums = heap_build i (sink nums i (length nums))"

fun heap_extract :: "nat \<Rightarrow> int list \<Rightarrow> int list" where
  "heap_extract 0 nums = nums"
| "heap_extract (Suc i) nums = heap_extract i (sink (swap nums 0 (Suc i)) 0 (Suc i))"

definition heapSort :: "int list \<Rightarrow> int list" where
  "heapSort nums = (let n = length nums in heap_extract (n - 1) (heap_build (n div 2) nums))"

subsection \<open>Sinking\<close>

abbreviation parent :: "nat \<Rightarrow> nat" where "parent j \<equiv> (j - 1) div 2"

definition heap_ok :: "nat \<Rightarrow> nat \<Rightarrow> int list \<Rightarrow> bool" where
  "heap_ok lo n arr \<longleftrightarrow> (\<forall>j. 0 < j \<and> j < n \<and> lo \<le> parent j \<longrightarrow> arr ! j \<le> arr ! parent j)"

text \<open>Only position \<open>k\<close> may be too small for its children, which still fit below its parent.\<close>

definition sinking :: "nat \<Rightarrow> nat \<Rightarrow> nat \<Rightarrow> int list \<Rightarrow> bool" where
  "sinking lo n k arr \<longleftrightarrow>
     (\<forall>j. 0 < j \<and> j < n \<and> lo \<le> parent j \<and> parent j \<noteq> k \<longrightarrow> arr ! j \<le> arr ! parent j)
     \<and> (\<forall>j. 0 < j \<and> j < n \<and> parent j = k \<and> 0 < k \<and> lo \<le> parent k \<longrightarrow> arr ! j \<le> arr ! parent k)"

lemma larger_child:
  assumes "2 * k + 1 < n"
  shows "larger_child arr k n < n" "parent (larger_child arr k n) = k" "k < larger_child arr k n"
    and "\<And>j. 0 < j \<Longrightarrow> j < n \<Longrightarrow> parent j = k \<Longrightarrow> arr ! j \<le> arr ! larger_child arr k n"
proof -
  show "larger_child arr k n < n" "parent (larger_child arr k n) = k" "k < larger_child arr k n"
    using assms by (auto simp: larger_child_def Let_def)
  fix j assume "0 < j" "j < n" "parent j = k"
  then have "j = 2 * k + 1 \<or> j = 2 * k + 2" by linarith
  then show "arr ! j \<le> arr ! larger_child arr k n"
    using \<open>j < n\<close> by (auto simp: larger_child_def Let_def)
qed

lemma length_sink [simp]: "length (sink arr k n) = length arr"
proof (induction arr k n rule: sink.induct)
  case (1 arr k n)
  then show ?case by (subst sink.simps) simp
qed

lemma sink_perm: "n \<le> length arr \<Longrightarrow> mset (sink arr k n) = mset arr"
proof (induction arr k n rule: sink.induct)
  case (1 arr k n)
  let ?j = "larger_child arr k n"
  have "mset (swap arr k ?j) = mset arr" if "2 * k + 1 < n"
    using larger_child(1) [OF that, of arr] 1(2) that by (intro mset_swap_eq) simp_all
  with 1 show ?case by (subst sink.simps) simp
qed

lemma sink_beyond: "n \<le> length arr \<Longrightarrow> n \<le> i \<Longrightarrow> i < length arr \<Longrightarrow> sink arr k n ! i = arr ! i"
proof (induction arr k n rule: sink.induct)
  case (1 arr k n)
  let ?j = "larger_child arr k n"
  have "swap arr k ?j ! i = arr ! i" if "2 * k + 1 < n"
    using larger_child(1) [OF that, of arr] 1(2-4) that by (subst nth_swap) simp_all
  with 1 show ?case by (subst sink.simps) simp
qed

lemma sink_below:
  "n \<le> length arr \<Longrightarrow> \<forall>x<n. arr ! x \<le> v \<Longrightarrow> x < n \<Longrightarrow> sink arr k n ! x \<le> v"
proof (induction arr k n rule: sink.induct)
  case (1 arr k n)
  let ?j = "larger_child arr k n"
  have "\<forall>x<n. swap arr k ?j ! x \<le> v" if "2 * k + 1 < n"
    using larger_child(1) [OF that, of arr] 1(2,3) that by (simp add: nth_swap)
  with 1 show ?case by (subst sink.simps) simp
qed

lemma sinking_swap:
  assumes n: "n \<le> length arr" and c: "2 * k + 1 < n" and lo: "lo \<le> k" and s: "sinking lo n k arr"
    and lt: "arr ! k < arr ! larger_child arr k n"
  shows "sinking lo n (larger_child arr k n) (swap arr k (larger_child arr k n))"
proof -
  let ?j = "larger_child arr k n"
  let ?a = "swap arr k ?j"
  note j = larger_child [OF c, where arr = arr]
  have nth: "?a ! x = (if x = ?j then arr ! k else if x = k then arr ! ?j else arr ! x)" if "x < n" for x
    using that n j(1,3) by (intro nth_swap) auto
  have par: "0 < x \<Longrightarrow> parent x < x" for x by linarith
  have "?a ! x \<le> ?a ! parent x" if x: "0 < x" "x < n" "lo \<le> parent x" "parent x \<noteq> ?j" for x
  proof -
    have px: "parent x < n" "parent x \<noteq> x" using par [OF x(1)] x(2) by auto
    consider "x = ?j" | "x \<noteq> ?j" "parent x = k" | "x = k" | "x \<noteq> ?j" "x \<noteq> k" "parent x \<noteq> k" by blast
    then show ?thesis
    proof cases
      case 1
      then show ?thesis using j(2,3) lt nth [OF x(2)] nth [OF px(1)] by simp
    next
      case 2
      then show ?thesis using j(3,4) x nth [OF x(2)] nth [OF px(1)] px(2) by auto
    next
      case 3
      then have "arr ! ?j \<le> arr ! parent k" using s j x by (auto simp: sinking_def)
      then show ?thesis using 3 j(3) nth [OF x(2)] nth [OF px(1)] x(4) px(2) by simp
    next
      case 4
      then show ?thesis using s x nth [OF x(2)] nth [OF px(1)] by (auto simp: sinking_def)
    qed
  qed
  moreover have "?a ! x \<le> ?a ! parent ?j" if x: "0 < x" "x < n" "parent x = ?j" for x
  proof -
    have "x \<noteq> ?j" "x \<noteq> k" using par [OF x(1)] x(3) j(3) by auto
    moreover have "arr ! x \<le> arr ! ?j" using s x j(3) lo by (auto simp: sinking_def)
    ultimately show ?thesis using j nth [OF x(2)] nth [of k] c by auto
  qed
  ultimately show ?thesis unfolding sinking_def by blast
qed

lemma sink_heap: "n \<le> length arr \<Longrightarrow> lo \<le> k \<Longrightarrow> sinking lo n k arr \<Longrightarrow> heap_ok lo n (sink arr k n)"
proof (induction arr k n rule: sink.induct)
  case (1 arr k n)
  let ?j = "larger_child arr k n"
  show ?case
  proof (cases "2 * k + 1 < n")
    case False
    then have "sink arr k n = arr" by (subst sink.simps) simp
    moreover have "parent x \<noteq> k" if "0 < x" "x < n" for x using that False by linarith
    ultimately show ?thesis using 1(4) by (auto simp: heap_ok_def sinking_def)
  next
    case True
    show ?thesis
    proof (cases "arr ! k \<ge> arr ! ?j")
      case ge: True
      then have "sink arr k n = arr" using True by (subst sink.simps) simp
      moreover have "arr ! x \<le> arr ! parent x" if "0 < x" "x < n" "lo \<le> parent x" for x
        using larger_child(4) [OF True, of x arr] that ge 1(4)
        by (cases "parent x = k") (auto simp: sinking_def)
      ultimately show ?thesis by (simp add: heap_ok_def)
    next
      case lt: False
      have "sinking lo n ?j (swap arr k ?j)" using sinking_swap [OF 1(2) True 1(3,4)] lt by simp
      with 1(1) [OF True lt] 1(2,3) larger_child(3) [OF True, of arr] True lt show ?thesis
        by (subst sink.simps) simp
    qed
  qed
qed

subsection \<open>The two phases\<close>

lemma heap_build_ok:
  "heap_ok i (length nums) nums \<Longrightarrow>
   heap_ok 0 (length nums) (heap_build i nums) \<and> mset (heap_build i nums) = mset nums"
proof (induction i nums rule: heap_build.induct)
  case (2 i nums)
  have "sinking i (length nums) i nums" using 2(2) by (auto simp: sinking_def heap_ok_def)
  then have "heap_ok i (length nums) (sink nums i (length nums))" by (intro sink_heap) simp_all
  with 2(1) sink_perm [of "length nums" nums i] show ?case by simp
qed simp

lemma heap_root: "heap_ok 0 n arr \<Longrightarrow> x < n \<Longrightarrow> arr ! x \<le> arr ! 0"
proof (induction x rule: less_induct)
  case (less x)
  show ?case
  proof (cases "x = 0")
    case False
    then have "parent x < x" by linarith
    with less have "arr ! parent x \<le> arr ! 0" by simp
    moreover have "arr ! x \<le> arr ! parent x" using less.prems False by (simp add: heap_ok_def)
    ultimately show ?thesis by simp
  qed simp
qed

text \<open>The positions above \<open>i\<close> hold the largest elements, in order.\<close>

definition topped :: "nat \<Rightarrow> int list \<Rightarrow> bool" where
  "topped i arr \<longleftrightarrow> (\<forall>a b. a \<le> b \<and> i < b \<and> b < length arr \<longrightarrow> arr ! a \<le> arr ! b)"

lemma extract_step:
  assumes h: "heap_ok 0 (Suc (Suc i)) arr" and t: "topped (Suc i) arr" and l: "Suc i < length arr"
  defines "arr' \<equiv> sink (swap arr 0 (Suc i)) 0 (Suc i)"
  shows "heap_ok 0 (Suc i) arr'" and "topped i arr'" and "mset arr' = mset arr" and "length arr' = length arr"
proof -
  let ?s = "swap arr 0 (Suc i)"
  have nth: "?s ! x = (if x = Suc i then arr ! 0 else if x = 0 then arr ! Suc i else arr ! x)" if "x < length arr" for x
    using that l by (intro nth_swap) auto
  have max: "arr ! x \<le> arr ! 0" if "x \<le> Suc i" for x using heap_root [OF h] that by simp
  have "?s ! j \<le> ?s ! parent j" if "0 < j" "j < Suc i" "parent j \<noteq> 0" for j
  proof -
    have "parent j < j" using that by linarith
    then show ?thesis using that l h nth [of j] nth [of "parent j"] by (auto simp: heap_ok_def)
  qed
  then have "sinking 0 (Suc i) 0 ?s" by (auto simp: sinking_def)
  then show "heap_ok 0 (Suc i) arr'" unfolding arr'_def using l by (intro sink_heap) auto
  have "mset ?s = mset arr" using l by (intro mset_swap_eq) auto
  then show "mset arr' = mset arr" "length arr' = length arr" unfolding arr'_def using l by (simp_all add: sink_perm)
  have hi: "arr' ! b = ?s ! b" if "Suc i \<le> b" "b < length arr" for b
    unfolding arr'_def using that l by (intro sink_beyond) auto
  have lo: "arr' ! a \<le> v" if "\<forall>x \<le> Suc i. arr ! x \<le> v" "a < Suc i" for a v
    unfolding arr'_def using that l nth by (intro sink_below) auto
  show "topped i arr'"
    unfolding topped_def
  proof (intro allI impI)
    fix a b
    assume ab: "a \<le> b \<and> i < b \<and> b < length arr'"
    then have b: "Suc i \<le> b" "b < length arr" unfolding arr'_def by simp_all
    have le: "\<forall>x \<le> Suc i. arr ! x \<le> ?s ! b"
      using max t b nth [OF b(2)] by (cases "b = Suc i") (auto simp: topped_def)
    show "arr' ! a \<le> arr' ! b"
    proof (cases "a < Suc i")
      case True
      then show ?thesis using lo [OF le] hi [OF b] by simp
    next
      case False
      then have "arr' ! a = ?s ! a" "a < length arr" using ab b by (auto intro: hi)
      moreover have "?s ! a \<le> ?s ! b"
        using False ab b t max le nth [of a] nth [of b] by (cases "a = Suc i") (auto simp: topped_def)
      ultimately show ?thesis using hi [OF b] by simp
    qed
  qed
qed

lemma heap_extract_sort:
  "heap_ok 0 (Suc i) arr \<Longrightarrow> topped i arr \<Longrightarrow> i < length arr \<Longrightarrow>
   mset (heap_extract i arr) = mset arr \<and> sorted (heap_extract i arr)"
proof (induction i arbitrary: arr)
  case 0
  then show ?case by (auto simp: topped_def sorted_iff_nth_mono) (metis gr0I order_refl le_zero_eq)
next
  case (Suc i)
  from extract_step [OF Suc.prems] Suc.IH [of "sink (swap arr 0 (Suc i)) 0 (Suc i)"] Suc.prems(3)
  show ?case by simp
qed

interpretation heap: sorter heapSort
proof -
  have "mset (heapSort xs) = mset xs \<and> sorted (heapSort xs)" for xs
  proof (cases "xs = []")
    case False
    let ?n = "length xs"
    have "\<not> (?n div 2 \<le> parent j)" if "0 < j" "j < ?n" for j using that by linarith
    then have "heap_ok (?n div 2) ?n xs" by (auto simp: heap_ok_def)
    from heap_build_ok [OF this] have b: "heap_ok 0 ?n (heap_build (?n div 2) xs)" "mset (heap_build (?n div 2) xs) = mset xs" by auto
    have "length (heap_build (?n div 2) xs) = ?n" using b(2) by (rule mset_eq_length)
    moreover from this have "topped (?n - 1) (heap_build (?n div 2) xs)" by (auto simp: topped_def)
    ultimately show ?thesis
      using heap_extract_sort [of "?n - 1" "heap_build (?n div 2) xs"] b False by (simp add: heapSort_def Let_def)
  qed (simp add: heapSort_def)
  then show "sorter heapSort" by unfold_locales simp_all
qed

subsection \<open>Binary search\<close>

function binary_loop :: "int list \<Rightarrow> int \<Rightarrow> int \<Rightarrow> int \<Rightarrow> int" where
  "binary_loop nums target left right =
     (if left \<le> right
      then let mid = (right + left) div 2
           in if nums ! nat mid = target then mid
              else if nums ! nat mid < target then binary_loop nums target (mid + 1) right
              else binary_loop nums target left (mid - 1)
      else -1)"
  by auto
termination
  by (relation "measure (\<lambda>(nums, target, left, right). nat (right - left + 1))") auto

declare binary_loop.simps [simp del]

definition binarySearch :: "int list \<Rightarrow> int \<Rightarrow> int" where
  "binarySearch nums target = binary_loop nums target 0 (int (length nums) - 1)"

lemma binary_loop_finds:
  "sorted nums \<Longrightarrow> 0 \<le> left \<Longrightarrow> right < int (length nums) \<Longrightarrow>
   \<forall>k<length nums. nums ! k = target \<longrightarrow> left \<le> int k \<and> int k \<le> right \<Longrightarrow>
   (let r = binary_loop nums target left right
    in if target \<in> set nums then 0 \<le> r \<and> r < int (length nums) \<and> nums ! nat r = target else r = -1)"
proof (induction nums target left right rule: binary_loop.induct)
  case (1 nums target left right)
  let ?mid = "(right + left) div 2"
  show ?case
  proof (cases "left \<le> right")
    case False
    then have "target \<notin> set nums" using 1(6) by (auto simp: in_set_conv_nth)
    with False show ?thesis by (subst binary_loop.simps) simp
  next
    case True
    then have m: "left \<le> ?mid" "?mid \<le> right" "nat ?mid < length nums" "0 \<le> ?mid" "?mid < int (length nums)"
      using 1(4,5) by auto
    consider "nums ! nat ?mid = target" | "nums ! nat ?mid < target" | "target < nums ! nat ?mid" by linarith
    then show ?thesis
    proof cases
      case 1
      then have "binary_loop nums target left right = ?mid" using True by (subst binary_loop.simps) (simp add: Let_def)
      with 1 m show ?thesis by (auto simp: Let_def in_set_conv_nth)
    next
      case 2
      have "\<forall>k<length nums. nums ! k = target \<longrightarrow> ?mid + 1 \<le> int k \<and> int k \<le> right"
      proof (intro allI impI)
        fix k assume k: "k < length nums" "nums ! k = target"
        have "nat ?mid < k"
        proof (rule ccontr)
          assume "\<not> nat ?mid < k"
          then have "nums ! k \<le> nums ! nat ?mid" using \<open>sorted nums\<close> m(3) by (intro sorted_nth_mono) auto
          with k 2 show False by simp
        qed
        with k m(4) "1.prems"(4) show "?mid + 1 \<le> int k \<and> int k \<le> right" by auto
      qed
      with "1.IH"(1) [OF True refl] 2 "1.prems"(1-3) m show ?thesis
        using True by (subst binary_loop.simps) (simp add: Let_def)
    next
      case 3
      have "\<forall>k<length nums. nums ! k = target \<longrightarrow> left \<le> int k \<and> int k \<le> ?mid - 1"
      proof (intro allI impI)
        fix k assume k: "k < length nums" "nums ! k = target"
        have "k < nat ?mid"
        proof (rule ccontr)
          assume "\<not> k < nat ?mid"
          then have "nums ! nat ?mid \<le> nums ! k" using \<open>sorted nums\<close> k(1) by (intro sorted_nth_mono) auto
          with k 3 show False by simp
        qed
        with k m(4) "1.prems"(4) show "left \<le> int k \<and> int k \<le> ?mid - 1" by auto
      qed
      with "1.IH"(2) [OF True refl] 3 "1.prems"(1-3) m show ?thesis
        using True by (subst binary_loop.simps) (simp add: Let_def)
    qed
  qed
qed

lemma binarySearch_correct:
  assumes "sorted nums"
  shows "target \<notin> set nums \<Longrightarrow> binarySearch nums target = -1"
    and "target \<in> set nums \<Longrightarrow> 0 \<le> binarySearch nums target \<and> binarySearch nums target < int (length nums)
           \<and> nums ! nat (binarySearch nums target) = target"
proof -
  have "\<forall>k<length nums. nums ! k = target \<longrightarrow> 0 \<le> int k \<and> int k \<le> int (length nums) - 1" by auto
  from binary_loop_finds [OF assms _ _ this] show
    "target \<notin> set nums \<Longrightarrow> binarySearch nums target = -1"
    "target \<in> set nums \<Longrightarrow> 0 \<le> binarySearch nums target \<and> binarySearch nums target < int (length nums)
           \<and> nums ! nat (binarySearch nums target) = target"
    by (simp_all add: binarySearch_def Let_def)
qed

subsection \<open>Properties\<close>


end
