(* ===== verification/DataRefinement.thy ===== *)
theory DataRefinement
  imports Prelude
begin

text \<open>
  Refinement of a data type by another: the interface the containers of \<^verbatim>\<open>datastruct/\<close> are verified
  against.  A run is a sequence of operations, its answers and the state it ends in.
\<close>

fun run_ops :: "('op \<Rightarrow> 's \<Rightarrow> 'r \<times> 's) \<Rightarrow> 'op list \<Rightarrow> 's \<Rightarrow> 'r list \<times> 's" where
  "run_ops step [] s = ([], s)"
| "run_ops step (op # ops) s =
     (let (r, s1) = step op s; (rs, s2) = run_ops step ops s1 in (r # rs, s2))"

locale data_refinement =
  fixes step :: "'op \<Rightarrow> 's \<Rightarrow> 'r \<times> 's"
    and spec :: "'op \<Rightarrow> 'a \<Rightarrow> 'r \<times> 'a"
    and absf :: "'s \<Rightarrow> 'a"
    and ok :: "'s \<Rightarrow> bool"
  assumes step_ok: "ok s \<Longrightarrow> ok (snd (step op s))"
    and step_result: "ok s \<Longrightarrow> fst (step op s) = fst (spec op (absf s))"
    and step_state: "ok s \<Longrightarrow> absf (snd (step op s)) = snd (spec op (absf s))"
begin

lemma runs_agree:
  "ok s \<Longrightarrow> fst (run_ops step ops s) = fst (run_ops spec ops (absf s))
     \<and> absf (snd (run_ops step ops s)) = snd (run_ops spec ops (absf s)) \<and> ok (snd (run_ops step ops s))"
proof (induction ops arbitrary: s)
  case (Cons op ops)
  with step_ok [of s op] step_result [of s op] step_state [of s op] Cons.IH [of "snd (step op s)"]
  show ?case by (simp add: Let_def split: prod.splits) (metis fst_conv snd_conv)
qed simp

end

end
