(* ===== verification/RingBuffers.thy ===== *)
theory RingBuffers
  imports DataRefinement
begin

text \<open>
  The ring buffers of \<^verbatim>\<open>datastruct/\<close>: the overwriting \<open>CircularQueue\<close> of \<^verbatim>\<open>circle_array_queue.cpp\<close> and the
  \<open>CircularDeque\<close> of \<^verbatim>\<open>circle_array_deque.cpp\<close>, both on a \<open>CycleArray\<close>.

  An exception is a value of \<open>ring_error\<close>; an operation that throws leaves the object unchanged.  An index
  outside \<open>buffer_\<close> would read an arbitrary element: the invariant \<open>ring_ok\<close> excludes it.
\<close>

datatype ring_error = InvalidArgument | OutOfRange | OverflowError | UnderflowError

record 'a cycle_array =
  ca_buffer :: "'a list"
  ca_capacity :: nat
  ca_head :: nat
  ca_tail :: nat
  ca_size :: nat

definition CycleArray_new :: "'a \<Rightarrow> nat \<Rightarrow> ring_error + 'a cycle_array" where
  "CycleArray_new dflt capacity =
     (if capacity = 0 then Inl InvalidArgument
      else Inr \<lparr> ca_buffer = replicate capacity dflt, ca_capacity = capacity, ca_head = 0, ca_tail = 0, ca_size = 0 \<rparr>)"

definition ca_empty :: "'a cycle_array \<Rightarrow> bool" where "ca_empty a \<longleftrightarrow> ca_size a = 0"
definition ca_full :: "'a cycle_array \<Rightarrow> bool" where "ca_full a \<longleftrightarrow> ca_size a = ca_capacity a"

subsection \<open>CircularQueue\<close>

definition ca_push :: "'a \<Rightarrow> 'a cycle_array \<Rightarrow> 'a cycle_array" where
  "ca_push item a =
     (let a = (if ca_full a then a\<lparr> ca_head := (ca_head a + 1) mod ca_capacity a \<rparr>
               else a\<lparr> ca_size := ca_size a + 1 \<rparr>)
      in a\<lparr> ca_buffer := (ca_buffer a)[ca_tail a := item], ca_tail := (ca_tail a + 1) mod ca_capacity a \<rparr>)"

definition ca_pop :: "'a cycle_array \<Rightarrow> (ring_error + 'a) \<times> 'a cycle_array" where
  "ca_pop a =
     (if ca_empty a then (Inl OutOfRange, a)
      else (Inr (ca_buffer a ! ca_head a),
            a\<lparr> ca_head := (ca_head a + 1) mod ca_capacity a, ca_size := ca_size a - 1 \<rparr>))"

definition ca_front :: "'a cycle_array \<Rightarrow> ring_error + 'a" where
  "ca_front a = (if ca_empty a then Inl OutOfRange else Inr (ca_buffer a ! ca_head a))"

definition enqueue :: "'a \<Rightarrow> 'a cycle_array \<Rightarrow> 'a cycle_array" where "enqueue item q = ca_push item q"
definition dequeue :: "'a cycle_array \<Rightarrow> (ring_error + 'a) \<times> 'a cycle_array" where "dequeue q = ca_pop q"
definition cq_front :: "'a cycle_array \<Rightarrow> ring_error + 'a" where "cq_front q = ca_front q"
definition cq_isEmpty :: "'a cycle_array \<Rightarrow> bool" where "cq_isEmpty q = ca_empty q"
definition cq_isFull :: "'a cycle_array \<Rightarrow> bool" where "cq_isFull q = ca_full q"

text \<open>
  \<open>print\<close> is declared \<open>const\<close>, but empties the queue into a second array and refills it.
\<close>

fun print_drain :: "nat \<Rightarrow> 'a cycle_array \<Rightarrow> 'a cycle_array \<Rightarrow> ring_error + 'a list \<times> 'a cycle_array \<times> 'a cycle_array" where
  "print_drain 0 q temp = Inr ([], q, temp)"
| "print_drain (Suc n) q temp =
     (case ca_front q of Inl e \<Rightarrow> Inl e
      | Inr item \<Rightarrow>
          let temp = ca_push item temp;
              q = snd (ca_pop q)
          in map_sum id (\<lambda>(out, r). (item # out, r)) (print_drain n q temp))"

fun print_restore :: "nat \<Rightarrow> 'a cycle_array \<Rightarrow> 'a cycle_array \<Rightarrow> ring_error + 'a cycle_array" where
  "print_restore 0 q temp = Inr q"
| "print_restore (Suc n) q temp =
     (case ca_pop temp of (Inl e, temp) \<Rightarrow> Inl e
      | (Inr item, temp) \<Rightarrow> print_restore n (ca_push item q) temp)"

definition cq_print :: "'a \<Rightarrow> 'a cycle_array \<Rightarrow> ring_error + 'a list \<times> 'a cycle_array" where
  "cq_print dflt q =
     (if cq_isEmpty q then Inr ([], q)
      else case CycleArray_new dflt (ca_capacity q) of Inl e \<Rightarrow> Inl e
        | Inr temp \<Rightarrow> (case print_drain (ca_size q) q temp of Inl e \<Rightarrow> Inl e
            | Inr (out, q', temp) \<Rightarrow> map_sum id (Pair out) (print_restore (ca_size q) q' temp)))"

subsection \<open>CircularDeque\<close>

definition prev_index :: "'a cycle_array \<Rightarrow> nat \<Rightarrow> nat" where
  "prev_index a i = (if i = 0 then ca_capacity a - 1 else i - 1)"

definition next_index :: "'a cycle_array \<Rightarrow> nat \<Rightarrow> nat" where
  "next_index a i = (i + 1) mod ca_capacity a"

definition push_front :: "'a \<Rightarrow> 'a cycle_array \<Rightarrow> (ring_error + unit) \<times> 'a cycle_array" where
  "push_front item a =
     (if ca_full a then (Inl OverflowError, a)
      else let a = a\<lparr> ca_head := prev_index a (ca_head a) \<rparr>;
               a = a\<lparr> ca_buffer := (ca_buffer a)[ca_head a := item] \<rparr>
           in (Inr (), a\<lparr> ca_size := ca_size a + 1 \<rparr>))"

definition push_back :: "'a \<Rightarrow> 'a cycle_array \<Rightarrow> (ring_error + unit) \<times> 'a cycle_array" where
  "push_back item a =
     (if ca_full a then (Inl OverflowError, a)
      else let a = a\<lparr> ca_buffer := (ca_buffer a)[ca_tail a := item] \<rparr>;
               a = a\<lparr> ca_tail := next_index a (ca_tail a) \<rparr>
           in (Inr (), a\<lparr> ca_size := ca_size a + 1 \<rparr>))"

definition pop_front :: "'a cycle_array \<Rightarrow> (ring_error + 'a) \<times> 'a cycle_array" where
  "pop_front a =
     (if ca_empty a then (Inl UnderflowError, a)
      else (Inr (ca_buffer a ! ca_head a), a\<lparr> ca_head := next_index a (ca_head a), ca_size := ca_size a - 1 \<rparr>))"

definition pop_back :: "'a cycle_array \<Rightarrow> (ring_error + 'a) \<times> 'a cycle_array" where
  "pop_back a =
     (if ca_empty a then (Inl UnderflowError, a)
      else let a = a\<lparr> ca_tail := prev_index a (ca_tail a) \<rparr>
           in (Inr (ca_buffer a ! ca_tail a), a\<lparr> ca_size := ca_size a - 1 \<rparr>))"

definition dq_front :: "'a cycle_array \<Rightarrow> ring_error + 'a" where
  "dq_front a = (if ca_empty a then Inl UnderflowError else Inr (ca_buffer a ! ca_head a))"

definition dq_back :: "'a cycle_array \<Rightarrow> ring_error + 'a" where
  "dq_back a = (if ca_empty a then Inl UnderflowError else Inr (ca_buffer a ! prev_index a (ca_tail a)))"

subsection \<open>The sequence a ring holds\<close>

definition slot :: "'a cycle_array \<Rightarrow> nat \<Rightarrow> nat" where
  "slot a i = (ca_head a + i) mod ca_capacity a"

definition items :: "'a cycle_array \<Rightarrow> 'a list" where
  "items a = map (\<lambda>i. ca_buffer a ! slot a i) [0..<ca_size a]"

definition ring_ok :: "'a cycle_array \<Rightarrow> bool" where
  "ring_ok a \<longleftrightarrow> 0 < ca_capacity a \<and> length (ca_buffer a) = ca_capacity a \<and> ca_head a < ca_capacity a
     \<and> ca_tail a = slot a (ca_size a) \<and> ca_size a \<le> ca_capacity a"

lemma ring_new: "CycleArray_new d c = Inr a \<Longrightarrow> ring_ok a \<and> items a = [] \<and> ca_capacity a = c"
  by (auto simp: CycleArray_new_def ring_ok_def items_def slot_def split: if_splits)

lemma length_items [simp]: "length (items a) = ca_size a"
  by (simp add: items_def)

lemma items_Nil: "items a = [] \<longleftrightarrow> ca_empty a"
  by (simp add: items_def ca_empty_def)

lemma mod_inject: "(h + i) mod c = (h + j) mod c \<Longrightarrow> i < c \<Longrightarrow> j < c \<Longrightarrow> i = j" for h i j c :: nat
proof (induction i j rule: linorder_wlog)
  case (le i j)
  then have "c dvd (h + j) - (h + i)" by (subst mod_eq_dvd_iff_nat [symmetric]) simp_all
  then have "c dvd j - i" by simp
  with le(3) have "j - i = 0" using dvd_imp_le [of c "j - i"] le by fastforce
  with le(1) show ?case by simp
qed simp

lemma nth_items: "i < ca_size a \<Longrightarrow> items a ! i = ca_buffer a ! slot a i"
  by (simp add: items_def)

lemma slot_less: "ring_ok a \<Longrightarrow> slot a i < ca_capacity a"
  by (simp add: slot_def ring_ok_def)

lemma slot_0 [simp]: "ring_ok a \<Longrightarrow> slot a 0 = ca_head a"
  by (simp add: slot_def ring_ok_def)

lemma slot_Suc: "(slot a i + 1) mod ca_capacity a = slot a (Suc i)"
  by (simp add: slot_def mod_Suc_eq)

text \<open>Writing the slot behind the last item leaves the items alone.\<close>

lemma ring_append:
  fixes x :: 'a and a :: "'a cycle_array"
  assumes "ring_ok a" and "ca_size a < ca_capacity a"
  defines "a' \<equiv> a\<lparr> ca_buffer := (ca_buffer a)[ca_tail a := x], ca_tail := (ca_tail a + 1) mod ca_capacity a,
      ca_size := ca_size a + 1 \<rparr>"
  shows "ring_ok a'" and "items a' = items a @ [x]"
proof -
  have t: "ca_tail a = slot a (ca_size a)" using assms(1) by (simp add: ring_ok_def)
  have sl: "slot a' i = slot a i" for i by (simp add: slot_def a'_def)
  show "ring_ok a'" using assms(1,2) slot_Suc [of a "ca_size a"] unfolding ring_ok_def sl by (simp add: a'_def)
  have "ca_buffer a' ! slot a i = ca_buffer a ! slot a i" if "i < ca_size a" for i
  proof -
    have "slot a i \<noteq> slot a (ca_size a)"
      using mod_inject [of "ca_head a" i "ca_capacity a" "ca_size a"] that assms(2) by (auto simp: slot_def)
    then show ?thesis using t by (simp add: a'_def)
  qed
  moreover have "ca_buffer a' ! slot a (ca_size a) = x"
    using slot_less [OF assms(1), of "ca_size a"] assms(1) t by (simp add: a'_def ring_ok_def)
  ultimately show "items a' = items a @ [x]" unfolding items_def sl by (simp add: a'_def)
qed

lemma ring_drop_first:
  assumes "ring_ok a" and "0 < ca_size a"
  defines "a' \<equiv> a\<lparr> ca_head := (ca_head a + 1) mod ca_capacity a, ca_size := ca_size a - 1 \<rparr>"
  shows "ring_ok a'" and "items a' = tl (items a)" and "ca_buffer a ! ca_head a = hd (items a)"
proof -
  have sl: "slot a' i = slot a (Suc i)" for i by (simp add: slot_def a'_def mod_simps)
  show "ring_ok a'" using assms(1,2) unfolding ring_ok_def sl by (simp add: a'_def le_diff_conv)
  show "items a' = tl (items a)"
  proof (rule nth_equalityI)
    fix i assume "i < length (items a')"
    then have i: "i < ca_size a'" "Suc i < ca_size a" "i < length (tl (items a))" by (auto simp: a'_def)
    have "items a' ! i = ca_buffer a ! slot a (Suc i)" unfolding nth_items [OF i(1)] sl by (simp add: a'_def)
    also have "\<dots> = tl (items a) ! i" unfolding nth_tl [OF i(3)] nth_items [OF i(2)] ..
    finally show "items a' ! i = tl (items a) ! i" .
  qed (simp add: a'_def)
  show "ca_buffer a ! ca_head a = hd (items a)"
    using assms(1,2) nth_items [of 0 a] by (metis hd_conv_nth length_items list.size(3) less_irrefl slot_0)
qed

lemma prev_slot: "ring_ok a \<Longrightarrow> prev_index a (slot a (Suc i)) = slot a i"
  using slot_less [of a i] by (auto simp: slot_Suc [symmetric] prev_index_def mod_Suc)

lemma ring_push_front:
  fixes x :: 'a and a :: "'a cycle_array"
  assumes "ring_ok a" and "ca_size a < ca_capacity a"
  defines "h \<equiv> prev_index a (ca_head a)"
  defines "a' \<equiv> a\<lparr> ca_head := h, ca_buffer := (ca_buffer a)[h := x], ca_size := ca_size a + 1 \<rparr>"
  shows "ring_ok a'" and "items a' = x # items a"
proof -
  have h: "h < ca_capacity a" "Suc h mod ca_capacity a = ca_head a"
    using assms(1) by (auto simp: h_def prev_index_def ring_ok_def mod_Suc)
  have sl: "slot a' (Suc i) = slot a i" "slot a' 0 = h" for i
    using h by (simp_all add: slot_def a'_def mod_add_left_eq flip: add_Suc) (metis mod_add_left_eq)
  show ok: "ring_ok a'" using assms(1,2) h(1) sl(1) [of "ca_size a"] by (simp add: ring_ok_def a'_def)
  show "items a' = x # items a"
  proof (rule nth_equalityI)
    fix i assume i: "i < length (items a')"
    show "items a' ! i = (x # items a) ! i"
    proof (cases i)
      case 0
      then show ?thesis using i sl(2) h(1) assms(1) by (simp add: nth_items a'_def ring_ok_def)
    next
      case (Suc j)
      have j: "j < ca_size a" using i Suc by (simp add: a'_def)
      have "slot a' (Suc j) \<noteq> slot a' 0"
        using mod_inject [of "ca_head a'" "Suc j" "ca_capacity a" 0] j assms(2) by (auto simp: slot_def a'_def)
      then have "ca_buffer a' ! slot a' (Suc j) = ca_buffer a ! slot a j" unfolding sl by (simp add: a'_def)
      then show ?thesis using i j Suc by (simp add: nth_items)
    qed
  qed (simp add: a'_def)
qed

lemma ring_drop_last:
  assumes "ring_ok a" and "0 < ca_size a"
  defines "a' \<equiv> a\<lparr> ca_tail := prev_index a (ca_tail a), ca_size := ca_size a - 1 \<rparr>"
  shows "ring_ok a'" and "items a' = butlast (items a)" and "ca_buffer a ! prev_index a (ca_tail a) = last (items a)"
proof -
  obtain n where n: "ca_size a = Suc n" using assms(2) by (cases "ca_size a") auto
  have t: "prev_index a (ca_tail a) = slot a n" using assms(1) n prev_slot [OF assms(1)] by (simp add: ring_ok_def)
  have sl: "slot a' i = slot a i" for i by (simp add: slot_def a'_def)
  show "ring_ok a'" using assms(1) n t unfolding ring_ok_def sl by (simp add: a'_def)
  show "items a' = butlast (items a)" unfolding items_def sl using n by (simp add: a'_def)
  show "ca_buffer a ! prev_index a (ca_tail a) = last (items a)" unfolding t items_def n by simp
qed

subsection \<open>Refinement of sequences\<close>

datatype 'a ring_op = PushFront 'a | PushBack 'a | PopFront | PopBack | Front | Back

fun dq_step :: "'a ring_op \<Rightarrow> 'a cycle_array \<Rightarrow> (ring_error + 'a option) \<times> 'a cycle_array" where
  "dq_step (PushFront x) a = map_prod (map_sum id (\<lambda>_. None)) id (push_front x a)"
| "dq_step (PushBack x) a = map_prod (map_sum id (\<lambda>_. None)) id (push_back x a)"
| "dq_step PopFront a = map_prod (map_sum id Some) id (pop_front a)"
| "dq_step PopBack a = map_prod (map_sum id Some) id (pop_back a)"
| "dq_step Front a = (map_sum id Some (dq_front a), a)"
| "dq_step Back a = (map_sum id Some (dq_back a), a)"

text \<open>The bounded sequence: its capacity and its elements.\<close>

fun dq_spec :: "'a ring_op \<Rightarrow> nat \<times> 'a list \<Rightarrow> (ring_error + 'a option) \<times> nat \<times> 'a list" where
  "dq_spec (PushFront x) (c, xs) = (if length xs = c then (Inl OverflowError, c, xs) else (Inr None, c, x # xs))"
| "dq_spec (PushBack x) (c, xs) = (if length xs = c then (Inl OverflowError, c, xs) else (Inr None, c, xs @ [x]))"
| "dq_spec PopFront (c, xs) = (if xs = [] then (Inl UnderflowError, c, xs) else (Inr (Some (hd xs)), c, tl xs))"
| "dq_spec PopBack (c, xs) = (if xs = [] then (Inl UnderflowError, c, xs) else (Inr (Some (last xs)), c, butlast xs))"
| "dq_spec Front (c, xs) = (if xs = [] then Inl UnderflowError else Inr (Some (hd xs)), c, xs)"
| "dq_spec Back (c, xs) = (if xs = [] then Inl UnderflowError else Inr (Some (last xs)), c, xs)"

definition dq_abs :: "'a cycle_array \<Rightarrow> nat \<times> 'a list" where
  "dq_abs a = (ca_capacity a, items a)"

definition simulates :: "('r \<times> 'a cycle_array) \<Rightarrow> ('r \<times> nat \<times> 'a list) \<Rightarrow> bool" where
  "simulates p q \<longleftrightarrow> fst p = fst q \<and> dq_abs (snd p) = snd q \<and> ring_ok (snd p)"

lemma dq_step_simulates: "ring_ok a \<Longrightarrow> simulates (dq_step op a) (dq_spec op (dq_abs a))"
proof (cases op)
  case (PushFront x)
  assume "ring_ok a"
  with ring_push_front [of a x] PushFront show ?thesis
    by (auto simp: simulates_def dq_abs_def push_front_def ca_full_def Let_def ring_ok_def)
next
  case (PushBack x)
  assume "ring_ok a"
  with ring_append [of a x] PushBack show ?thesis
    by (auto simp: simulates_def dq_abs_def push_back_def ca_full_def Let_def next_index_def ring_ok_def)
next
  case PopFront
  assume "ring_ok a"
  with ring_drop_first [of a] PopFront show ?thesis
    by (auto simp: simulates_def dq_abs_def pop_front_def items_Nil ca_empty_def next_index_def)
next
  case PopBack
  assume "ring_ok a"
  with ring_drop_last [of a] PopBack show ?thesis
    by (auto simp: simulates_def dq_abs_def pop_back_def items_Nil ca_empty_def Let_def)
next
  case Front
  assume "ring_ok a"
  with ring_drop_first(3) [of a] Front show ?thesis
    by (auto simp: simulates_def dq_abs_def dq_front_def items_Nil ca_empty_def)
next
  case Back
  assume "ring_ok a"
  with ring_drop_last(3) [of a] Back show ?thesis
    by (auto simp: simulates_def dq_abs_def dq_back_def items_Nil ca_empty_def)
qed

interpretation deque: data_refinement dq_step dq_spec dq_abs ring_ok
  by unfold_locales (simp_all add: dq_step_simulates [unfolded simulates_def])

datatype 'a queue_op = Enqueue 'a | Dequeue | QFront | QPrint

fun cq_step :: "'a \<Rightarrow> 'a queue_op \<Rightarrow> 'a cycle_array \<Rightarrow> (ring_error + 'a list) \<times> 'a cycle_array" where
  "cq_step d (Enqueue x) a = (Inr [], enqueue x a)"
| "cq_step d Dequeue a = map_prod (map_sum id (\<lambda>x. [x])) id (dequeue a)"
| "cq_step d QFront a = (map_sum id (\<lambda>x. [x]) (cq_front a), a)"
| "cq_step d QPrint a = (case cq_print d a of Inl e \<Rightarrow> (Inl e, a) | Inr (out, a) \<Rightarrow> (Inr out, a))"

text \<open>A full queue forgets its oldest element.\<close>

fun cq_spec :: "'a queue_op \<Rightarrow> nat \<times> 'a list \<Rightarrow> (ring_error + 'a list) \<times> nat \<times> 'a list" where
  "cq_spec (Enqueue x) (c, xs) = (Inr [], c, (if length xs = c then tl xs else xs) @ [x])"
| "cq_spec Dequeue (c, xs) = (if xs = [] then (Inl OutOfRange, c, xs) else (Inr [hd xs], c, tl xs))"
| "cq_spec QFront (c, xs) = (if xs = [] then Inl OutOfRange else Inr [hd xs], c, xs)"
| "cq_spec QPrint (c, xs) = (Inr xs, c, xs)"

text \<open>Overwriting is dropping the first element and appending.\<close>

lemma push_full:
  assumes "ring_ok a" and "ca_full a"
  shows "ca_push x a = ca_push x (a\<lparr> ca_head := (ca_head a + 1) mod ca_capacity a, ca_size := ca_size a - 1 \<rparr>)"
  using assms by (cases a) (auto simp: ca_push_def ca_full_def ring_ok_def Let_def)

lemma push_room:
  assumes "ring_ok a" and "\<not> ca_full a"
  shows "ring_ok (ca_push x a)" and "items (ca_push x a) = items a @ [x]"
proof -
  have "ca_push x a = a\<lparr> ca_buffer := (ca_buffer a)[ca_tail a := x], ca_tail := (ca_tail a + 1) mod ca_capacity a,
      ca_size := ca_size a + 1 \<rparr>"
    using assms(2) by (cases a) (simp add: ca_push_def ca_full_def)
  moreover have "ca_size a < ca_capacity a" using assms by (auto simp: ca_full_def ring_ok_def)
  ultimately show "ring_ok (ca_push x a)" "items (ca_push x a) = items a @ [x]"
    using ring_append [OF assms(1), of x] by simp_all
qed

lemma ca_push_items:
  assumes "ring_ok a"
  shows "ring_ok (ca_push x a)" and "items (ca_push x a) = (if ca_full a then tl (items a) else items a) @ [x]"
proof -
  let ?b = "a\<lparr> ca_head := (ca_head a + 1) mod ca_capacity a, ca_size := ca_size a - 1 \<rparr>"
  have "ring_ok (ca_push x a) \<and> items (ca_push x a) = tl (items a) @ [x]" if "ca_full a"
  proof -
    have s: "0 < ca_size a" using that assms by (simp add: ca_full_def ring_ok_def)
    note b = ring_drop_first [OF assms s]
    have "\<not> ca_full ?b" using s that by (simp add: ca_full_def)
    from push_room [OF b(1) this, of x] b(2) push_full [OF assms that, of x] show ?thesis by simp
  qed
  with push_room [OF assms, of x] show
    "ring_ok (ca_push x a)" "items (ca_push x a) = (if ca_full a then tl (items a) else items a) @ [x]" by auto
qed

lemma ca_push_capacity: "ca_capacity (ca_push x a) = ca_capacity a"
  by (simp add: ca_push_def Let_def)

lemma ca_pop_items:
  assumes "ring_ok a" and "items a = x # xs"
  shows "ca_front a = Inr x" and "fst (ca_pop a) = Inr x" and "ring_ok (snd (ca_pop a))"
    and "items (snd (ca_pop a)) = xs" and "ca_capacity (snd (ca_pop a)) = ca_capacity a"
proof -
  have "0 < ca_size a" using assms(2) length_items [of a] by simp
  from ring_drop_first [OF assms(1) this] this assms(2) show
    "ca_front a = Inr x" "fst (ca_pop a) = Inr x" "ring_ok (snd (ca_pop a))"
    "items (snd (ca_pop a)) = xs" "ca_capacity (snd (ca_pop a)) = ca_capacity a"
    by (simp_all add: ca_front_def ca_pop_def ca_empty_def)
qed

lemma print_drain_ok:
  assumes "ring_ok q" and "ring_ok t" and "items q = xs" and "ca_size t + length xs \<le> ca_capacity t"
  shows "\<exists>q' t'. print_drain (length xs) q t = Inr (xs, q', t') \<and> ring_ok q' \<and> ring_ok t' \<and> items q' = []
    \<and> items t' = items t @ xs \<and> ca_capacity q' = ca_capacity q"
  using assms
proof (induction xs arbitrary: q t)
  case (Cons x xs)
  note pop = ca_pop_items [OF Cons.prems(1,3)]
  have "\<not> ca_full t" using Cons.prems(4) by (simp add: ca_full_def)
  note push = push_room [OF Cons.prems(2) this, of x]
  have "ca_size (ca_push x t) = Suc (ca_size t)" using push(2) by (metis length_items length_append_singleton)
  with Cons.IH [OF pop(3) push(1) pop(4)] Cons.prems(4) push(2) pop show ?case
    by (auto simp: ca_push_capacity)
qed auto

lemma print_restore_ok:
  assumes "ring_ok q" and "ring_ok t" and "items t = xs" and "ca_size q + length xs \<le> ca_capacity q"
  shows "\<exists>q'. print_restore (length xs) q t = Inr q' \<and> ring_ok q' \<and> items q' = items q @ xs \<and> ca_capacity q' = ca_capacity q"
  using assms
proof (induction xs arbitrary: q t)
  case (Cons x xs)
  note pop = ca_pop_items [OF Cons.prems(2,3)]
  have "\<not> ca_full q" using Cons.prems(4) by (simp add: ca_full_def)
  note push = push_room [OF Cons.prems(1) this, of x]
  have "ca_size (ca_push x q) = Suc (ca_size q)" using push(2) by (metis length_items length_append_singleton)
  with Cons.IH [OF push(1) pop(3,4)] Cons.prems(4) push(2) pop show ?case
    by (auto simp: ca_push_capacity split: prod.splits)
qed auto

lemma cq_print_ok:
  assumes "ring_ok q"
  shows "\<exists>q'. cq_print d q = Inr (items q, q') \<and> ring_ok q' \<and> dq_abs q' = dq_abs q"
proof (cases "cq_isEmpty q")
  case True
  then show ?thesis using assms items_Nil [of q] by (simp add: cq_print_def cq_isEmpty_def)
next
  case False
  from assms obtain t where t: "CycleArray_new d (ca_capacity q) = Inr t" by (auto simp: CycleArray_new_def ring_ok_def)
  note new = ring_new [OF t]
  have le: "ca_size q \<le> ca_capacity q" using assms by (simp add: ring_ok_def)
  have "ca_size t = 0" using new length_items [of t] by simp
  with new le have "ca_size t + length (items q) \<le> ca_capacity t" by simp
  from print_drain_ok [OF assms _ refl this] new obtain q1 t1 where
    d: "print_drain (ca_size q) q t = Inr (items q, q1, t1)" "ring_ok q1" "ring_ok t1"
      "items q1 = []" "items t1 = items q" "ca_capacity q1 = ca_capacity q" by auto
  have "ca_size q1 + length (items q) \<le> ca_capacity q1" using d(4,6) le length_items [of q1] by simp
  from print_restore_ok [OF d(2,3,5) this] d(4,6) obtain q2 where
    "print_restore (ca_size q) q1 t1 = Inr q2" "ring_ok q2" "items q2 = items q" "ca_capacity q2 = ca_capacity q" by auto
  with False t d(1) show ?thesis by (simp add: cq_print_def dq_abs_def)
qed

lemma cq_step_simulates: "ring_ok a \<Longrightarrow> simulates (cq_step d op a) (cq_spec op (dq_abs a))"
proof (cases op)
  case (Enqueue x)
  assume "ring_ok a"
  with ca_push_items [of a x] Enqueue show ?thesis
    by (auto simp: simulates_def dq_abs_def enqueue_def ca_push_capacity ca_full_def)
next
  case Dequeue
  assume "ring_ok a"
  with ring_drop_first [of a] Dequeue show ?thesis
    by (auto simp: simulates_def dq_abs_def dequeue_def ca_pop_def items_Nil ca_empty_def)
next
  case QFront
  assume "ring_ok a"
  with ring_drop_first(3) [of a] QFront show ?thesis
    by (auto simp: simulates_def dq_abs_def cq_front_def ca_front_def items_Nil ca_empty_def)
next
  case QPrint
  assume "ring_ok a"
  with cq_print_ok [of a d] QPrint show ?thesis by (auto simp: simulates_def dq_abs_def)
qed

interpretation queue: data_refinement "cq_step d" cq_spec dq_abs ring_ok for d
  by unfold_locales (simp_all add: cq_step_simulates [unfolded simulates_def])

subsection \<open>Properties\<close>

text \<open>
  Claim C25.  Both ring buffers refine bounded sequences: whatever the sequence of operations on a new
  \<open>CircularDeque\<close> or \<open>CircularQueue\<close>, every answer and every exception is that of a list of at
  most \<open>capacity\<close> elements, where the deque refuses to grow past its capacity and the queue forgets
  its oldest element; \<open>print\<close>, which empties and refills the queue, shows that list and keeps it.
\<close>

theorem ring_buffers_refine:
  assumes "CycleArray_new d c = Inr a"
  shows "fst (run_ops dq_step ops a) = fst (run_ops dq_spec ops (c, []))
    \<and> items (snd (run_ops dq_step ops a)) = snd (snd (run_ops dq_spec ops (c, [])))
    \<and> fst (run_ops (cq_step d) ops' a) = fst (run_ops cq_spec ops' (c, []))
    \<and> items (snd (run_ops (cq_step d) ops' a)) = snd (snd (run_ops cq_spec ops' (c, [])))"
proof -
  have n: "ring_ok a" "dq_abs a = (c, [])" using ring_new [OF assms] by (simp_all add: dq_abs_def)
  have i: "items s = snd (dq_abs s)" for s :: "'a cycle_array" by (simp add: dq_abs_def)
  show ?thesis unfolding i using deque.runs_agree [OF n(1), of ops] queue.runs_agree [OF n(1), of d ops'] n(2) by simp
qed

theorem ring_buffers_refine_witness:
  "items (snd (run_ops dq_step [PushBack 1, PushFront 2, PushBack (3 :: int)]
     \<lparr> ca_buffer = [0, 0], ca_capacity = 2, ca_head = 0, ca_tail = 0, ca_size = 0 \<rparr>)) = [2, 1]"
  using ring_buffers_refine [of 0 2 "\<lparr> ca_buffer = [0, 0], ca_capacity = 2, ca_head = 0, ca_tail = 0, ca_size = 0 \<rparr>"
      "[PushBack 1, PushFront 2, PushBack (3 :: int)]" "[]"]
  by (simp add: CycleArray_new_def numeral_2_eq_2)

end
