(* ===== verification/PriorityQueues.thy ===== *)
theory PriorityQueues
  imports HeapSorts
begin

text \<open>
  \<^verbatim>\<open>datastruct/priority_queue.cpp\<close>: a priority queue on a binary heap with a comparator.

  The comparator \<open>comp\<close> is an argument, as in the template; the theorems take it to compare keys, which
  covers \<open>std::less\<close> and \<open>std::greater\<close> (negated keys).  \<open>None\<close> is the exception thrown on
  an empty queue.  Sinking compares as heap sort's \<open>sink\<close> does on the keys, so its lemmas carry over.
\<close>

function pq_swim :: "('a \<Rightarrow> 'a \<Rightarrow> bool) \<Rightarrow> nat \<Rightarrow> 'a list \<Rightarrow> 'a list" where
  "pq_swim cmp i heap =
     (if i > 0 \<and> cmp (heap ! parent i) (heap ! i) then pq_swim cmp (parent i) (swap heap i (parent i)) else heap)"
  by auto
termination
  by (relation "measure (\<lambda>(cmp, i, heap). i)") auto

declare pq_swim.simps [simp del]

definition maxChild :: "('a \<Rightarrow> 'a \<Rightarrow> bool) \<Rightarrow> nat \<Rightarrow> 'a list \<Rightarrow> nat" where
  "maxChild cmp i heap =
     (if 2 * i + 2 < length heap \<and> cmp (heap ! (2 * i + 1)) (heap ! (2 * i + 2)) then 2 * i + 2 else 2 * i + 1)"

function pq_sink :: "('a \<Rightarrow> 'a \<Rightarrow> bool) \<Rightarrow> nat \<Rightarrow> 'a list \<Rightarrow> 'a list" where
  "pq_sink cmp i heap =
     (if 2 * i + 1 < length heap
      then if \<not> cmp (heap ! i) (heap ! maxChild cmp i heap) then heap
           else pq_sink cmp (maxChild cmp i heap) (swap heap i (maxChild cmp i heap))
      else heap)"
  by auto
termination
  by (relation "measure (\<lambda>(cmp, i, heap). length heap - i)") (auto simp: maxChild_def)

declare pq_sink.simps [simp del]

definition pq_push :: "('a \<Rightarrow> 'a \<Rightarrow> bool) \<Rightarrow> 'a \<Rightarrow> 'a list \<Rightarrow> 'a list" where
  "pq_push cmp val heap = (let heap = heap @ [val] in pq_swim cmp (length heap - 1) heap)"

definition pq_pop :: "('a \<Rightarrow> 'a \<Rightarrow> bool) \<Rightarrow> 'a list \<Rightarrow> ('a \<times> 'a list) option" where
  "pq_pop cmp heap =
     (if heap = [] then None
      else let top = heap ! 0;
               heap = swap heap 0 (length heap - 1);
               heap = butlast heap;
               heap = (if heap \<noteq> [] then pq_sink cmp 0 heap else heap)
           in Some (top, heap))"

definition pq_top :: "'a list \<Rightarrow> 'a option" where
  "pq_top heap = (if heap = [] then None else Some (heap ! 0))"

definition pq_empty :: "'a list \<Rightarrow> bool" where "pq_empty heap \<longleftrightarrow> heap = []"
definition pq_size :: "'a list \<Rightarrow> nat" where "pq_size heap = length heap"
definition pq_clear :: "'a list \<Rightarrow> 'a list" where "pq_clear heap = []"

subsection \<open>The interface\<close>

text \<open>Popping until the queue is empty.\<close>

fun drain :: "('q \<Rightarrow> ('a \<times> 'q) option) \<Rightarrow> nat \<Rightarrow> 'q \<Rightarrow> 'a list" where
  "drain pop 0 q = []"
| "drain pop (Suc n) q = (case pop q of None \<Rightarrow> [] | Some (x, q') \<Rightarrow> x # drain pop n q')"

locale max_queue =
  fixes push :: "'a \<Rightarrow> 'q \<Rightarrow> 'q" and pop :: "'q \<Rightarrow> ('a \<times> 'q) option"
    and bag :: "'q \<Rightarrow> 'a multiset" and inv :: "'q \<Rightarrow> bool" and key :: "'a \<Rightarrow> int"
  assumes push_inv: "inv q \<Longrightarrow> inv (push x q)"
    and push_bag: "inv q \<Longrightarrow> bag (push x q) = add_mset x (bag q)"
    and pop_nothing: "inv q \<Longrightarrow> bag q = {#} \<Longrightarrow> pop q = None"
    and pop_largest: "inv q \<Longrightarrow> bag q \<noteq> {#} \<Longrightarrow>
      \<exists>x q'. pop q = Some (x, q') \<and> inv q' \<and> bag q = add_mset x (bag q') \<and> (\<forall>y\<in>#bag q. key y \<le> key x)"
begin

lemma fill: "inv q \<Longrightarrow> inv (fold push xs q) \<and> bag (fold push xs q) = mset xs + bag q"
  by (induction xs arbitrary: q) (simp_all add: push_inv push_bag)

lemma drain_descending:
  "inv q \<Longrightarrow> size (bag q) = n \<Longrightarrow> mset (drain pop n q) = bag q \<and> sorted_wrt (\<lambda>x y. key y \<le> key x) (drain pop n q)"
proof (induction n arbitrary: q)
  case (Suc n)
  then have "bag q \<noteq> {#}" by auto
  from pop_largest [OF Suc.prems(1) this] obtain x q' where
    p: "pop q = Some (x, q')" "inv q'" "bag q = add_mset x (bag q')" "\<forall>y\<in>#bag q. key y \<le> key x" by blast
  with Suc.IH [OF p(2)] Suc.prems(2) have
    ih: "mset (drain pop n q') = bag q'" "sorted_wrt (\<lambda>x y. key y \<le> key x) (drain pop n q')" by auto
  have "\<forall>y\<in>set (drain pop n q'). key y \<le> key x" using ih(1) p(3,4) by (metis set_mset_mset union_iff add_mset_add_single)
  with p(1,3) ih show ?case by simp
qed simp

end

subsection \<open>The heap\<close>

definition by_key :: "('a \<Rightarrow> int) \<Rightarrow> 'a \<Rightarrow> 'a \<Rightarrow> bool" where
  "by_key key x y \<longleftrightarrow> key x < key y"

definition pq_inv :: "('a \<Rightarrow> int) \<Rightarrow> 'a list \<Rightarrow> bool" where
  "pq_inv key heap \<longleftrightarrow> heap_ok 0 (length heap) (map key heap)"

lemma map_swap: "i < length xs \<Longrightarrow> j < length xs \<Longrightarrow> map f (swap xs i j) = swap (map f xs) i j"
  by (simp add: swap_def map_update)

lemma maxChild_key:
  "2 * i + 1 < length heap \<Longrightarrow> maxChild (by_key key) i heap = larger_child (map key heap) i (length heap)"
  by (auto simp: maxChild_def larger_child_def by_key_def Let_def)

lemma pq_sink_key:
  "map key (pq_sink (by_key key) i heap) = sink (map key heap) i (length heap)
   \<and> mset (pq_sink (by_key key) i heap) = mset heap"
proof (induction "by_key key" i heap rule: pq_sink.induct)
  case (1 i heap)
  let ?j = "maxChild (by_key key) i heap"
  show ?case
  proof (cases "2 * i + 1 < length heap")
    case True
    have j: "?j = larger_child (map key heap) i (length heap)" "?j < length heap" "i < length heap"
      using maxChild_key [OF True] larger_child(1) [OF True, of "map key heap"] True by auto
    show ?thesis
    proof (cases "by_key key (heap ! i) (heap ! ?j)")
      case less: True
      have "pq_sink (by_key key) i heap = pq_sink (by_key key) ?j (swap heap i ?j)"
        using True less by (subst pq_sink.simps) simp
      moreover have "sink (map key heap) i (length heap) = sink (swap (map key heap) i ?j) ?j (length heap)"
        using True less j by (subst sink.simps) (simp add: by_key_def)
      ultimately show ?thesis using 1 [OF True] less j by (simp add: map_swap)
    next
      case False
      then have "pq_sink (by_key key) i heap = heap" using True by (subst pq_sink.simps) simp
      moreover have "sink (map key heap) i (length heap) = map key heap"
        using True False j by (subst sink.simps) (simp add: by_key_def)
      ultimately show ?thesis by simp
    qed
  next
    case False
    then show ?thesis by (subst (1 2) pq_sink.simps, subst sink.simps) simp
  qed
qed

text \<open>Swimming: only position \<open>i\<close> may be larger than its parent.\<close>

definition swimming :: "nat \<Rightarrow> int list \<Rightarrow> bool" where
  "swimming i arr \<longleftrightarrow>
     (\<forall>j. 0 < j \<and> j < length arr \<and> j \<noteq> i \<longrightarrow> arr ! j \<le> arr ! parent j)
     \<and> (\<forall>j. 0 < j \<and> j < length arr \<and> parent j = i \<and> 0 < i \<longrightarrow> arr ! j \<le> arr ! parent i)"

lemma swimming_swap:
  assumes s: "swimming i arr" and i: "0 < i" "i < length arr" and lt: "arr ! parent i < arr ! i"
  shows "swimming (parent i) (swap arr i (parent i))"
proof -
  let ?p = "parent i"
  let ?a = "swap arr i ?p"
  have p: "?p < i" "?p < length arr" using i by auto
  have nth: "?a ! x = (if x = ?p then arr ! i else if x = i then arr ! ?p else arr ! x)" if "x < length arr" for x
    using that i(2) p(2) by (intro nth_swap)
  have par: "0 < x \<Longrightarrow> parent x < x" for x by linarith
  have up: "arr ! x \<le> arr ! parent x" if "0 < x" "x < length arr" "x \<noteq> i" for x using s that by (auto simp: swimming_def)
  have "?a ! x \<le> ?a ! parent x" if x: "0 < x" "x < length arr" "x \<noteq> ?p" for x
  proof -
    have px: "parent x < length arr" "parent x \<noteq> x" using par [OF x(1)] x(2) by auto
    consider "x = i" | "x \<noteq> i" "parent x = i" | "x \<noteq> i" "parent x = ?p" | "x \<noteq> i" "parent x \<noteq> i" "parent x \<noteq> ?p" by blast
    then show ?thesis
    proof cases
      case 1
      then show ?thesis using lt nth [OF x(2)] nth [OF px(1)] p by simp
    next
      case 2
      then have "arr ! x \<le> arr ! ?p" using s x i by (auto simp: swimming_def)
      then show ?thesis using 2 nth [OF x(2)] nth [OF px(1)] x(3) p by simp
    next
      case 3
      then show ?thesis using up [OF x(1,2)] lt nth [OF x(2)] nth [OF px(1)] x(3) by simp
    next
      case 4
      then show ?thesis using up [OF x(1,2)] nth [OF x(2)] nth [OF px(1)] x(3) by simp
    qed
  qed
  moreover have "?a ! x \<le> ?a ! parent ?p" if x: "0 < x" "x < length arr" "parent x = ?p" "0 < ?p" for x
  proof -
    have q: "parent ?p < ?p" "parent ?p < length arr" using par [OF x(4)] p by linarith+
    have "arr ! ?p \<le> arr ! parent ?p" using up [of ?p] x(4) p by simp
    moreover have "?a ! x \<le> arr ! ?p"
    proof (cases "x = i")
      case True
      then show ?thesis using nth [OF x(2)] p by simp
    next
      case False
      have "x \<noteq> ?p" using par [OF x(1)] x(3) by linarith
      then have "?a ! x = arr ! x" using nth [OF x(2)] False by (simp only: if_False)
      then show ?thesis using up [OF x(1,2) False] unfolding x(3) by (rule ord_eq_le_trans)
    qed
    moreover have "?a ! parent ?p = arr ! parent ?p"
      using nth [OF q(2)] less_imp_neq [OF q(1)] less_imp_neq [OF less_trans [OF q(1) p(1)]] by (simp only: if_False)
    ultimately show ?thesis by linarith
  qed
  ultimately show ?thesis unfolding swimming_def length_swap by blast
qed

lemma pq_swim_heap:
  "i < length heap \<Longrightarrow> swimming i (map key heap) \<Longrightarrow>
   pq_inv key (pq_swim (by_key key) i heap) \<and> mset (pq_swim (by_key key) i heap) = mset heap"
proof (induction "by_key key" i heap rule: pq_swim.induct)
  case (1 i heap)
  show ?case
  proof (cases "i > 0 \<and> by_key key (heap ! parent i) (heap ! i)")
    case True
    have p: "parent i < length heap" using 1(2) by simp
    have "swimming (parent i) (swap (map key heap) i (parent i))"
      using True 1(2,3) p by (intro swimming_swap) (simp_all add: by_key_def)
    then have "swimming (parent i) (map key (swap heap i (parent i)))" using 1(2) p by (simp add: map_swap)
    with 1(1) [OF True] p 1(2) True show ?thesis by (subst (1 2) pq_swim.simps) simp
  next
    case False
    then have "pq_swim (by_key key) i heap = heap" by (subst pq_swim.simps) (simp only: if_False)
    moreover have "heap_ok 0 (length heap) (map key heap)"
      unfolding heap_ok_def
    proof (intro allI impI)
      fix j assume "0 < j \<and> j < length heap \<and> 0 \<le> parent j"
      then show "map key heap ! j \<le> map key heap ! parent j"
        using 1(2,3) False by (cases "j = i") (auto simp: swimming_def by_key_def)
    qed
    ultimately show ?thesis by (simp add: pq_inv_def)
  qed
qed

lemma pq_push_ok:
  assumes "pq_inv key heap"
  shows "pq_inv key (pq_push (by_key key) x heap)" and "mset (pq_push (by_key key) x heap) = add_mset x (mset heap)"
proof -
  let ?h = "heap @ [x]"
  have "\<not> (parent j = length heap)" if "j < length ?h" "0 < j" for j using that by simp
  then have "swimming (length heap) (map key ?h)"
    using assms by (auto simp: swimming_def pq_inv_def heap_ok_def nth_append)
  from pq_swim_heap [OF _ this] show
    "pq_inv key (pq_push (by_key key) x heap)" "mset (pq_push (by_key key) x heap) = add_mset x (mset heap)"
    by (simp_all add: pq_push_def)
qed

lemma pq_pop_ok:
  assumes "pq_inv key heap" and "heap \<noteq> []"
  shows "\<exists>x h. pq_pop (by_key key) heap = Some (x, h) \<and> pq_inv key h \<and> mset heap = add_mset x (mset h)
    \<and> (\<forall>y\<in>set heap. key y \<le> key x)"
proof -
  let ?n = "length heap - 1" and ?s = "swap heap 0 (length heap - 1)"
  let ?b = "butlast ?s"
  let ?h = "if ?b \<noteq> [] then pq_sink (by_key key) 0 ?b else ?b"
  have n: "?n < length heap" "0 < length heap" using assms(2) by auto
  have last: "last ?s = heap ! 0" "?s \<noteq> []" using n by (auto simp: swap_def last_conv_nth nth_list_update)
  have "mset ?s = mset (?b @ [last ?s])" using last(2) by simp
  then have m: "mset heap = add_mset (heap ! 0) (mset ?b)" using n last(1) by (simp add: mset_swap_eq)
  have nth: "map key ?b ! j = (if j = 0 then key (heap ! ?n) else key (heap ! j))" if "j < ?n" for j
    using that n by (simp add: nth_butlast nth_swap)
  have "sinking 0 ?n 0 (map key ?b)"
    unfolding sinking_def
  proof (intro conjI allI impI)
    fix j assume j: "0 < j \<and> j < ?n \<and> 0 \<le> parent j \<and> parent j \<noteq> 0"
    then have "parent j < ?n" by linarith
    moreover have "map key heap ! k = key (heap ! k)" if "k < ?n" for k using that n by simp
    ultimately have "map key ?b ! j = map key heap ! j" "map key ?b ! parent j = map key heap ! parent j"
      using j nth [of j] nth [of "parent j"] by (auto simp del: nth_map)
    moreover have "map key heap ! j \<le> map key heap ! parent j"
      using j assms(1) unfolding pq_inv_def heap_ok_def by (auto simp del: nth_map)
    ultimately show "map key ?b ! j \<le> map key ?b ! parent j" by (simp only:)
  qed simp
  then have h: "heap_ok 0 ?n (sink (map key ?b) 0 ?n)" by (intro sink_heap) simp_all
  have i: "pq_inv key ?h"
  proof (cases "?b = []")
    case False
    have "length (pq_sink (by_key key) 0 ?b) = ?n"
      using pq_sink_key [of key 0 ?b] by (metis length_map length_sink length_butlast length_swap)
    with False h show ?thesis using pq_sink_key [of key 0 ?b] by (simp add: pq_inv_def)
  qed (simp add: pq_inv_def heap_ok_def)
  have "key y \<le> key (heap ! 0)" if "y \<in> set heap" for y
    using that heap_root [of "length heap" "map key heap"] assms(1) n by (auto simp: pq_inv_def in_set_conv_nth)
  moreover have "mset ?h = mset ?b" using pq_sink_key [of key 0 ?b] by simp
  ultimately show ?thesis using assms(2) i m by (cases "?b = []") (simp_all add: pq_pop_def Let_def)
qed

interpretation pq: max_queue "pq_push (by_key key)" "pq_pop (by_key key)" mset "pq_inv key" key for key
proof
  fix q :: "'a list" and x :: 'a
  assume q: "pq_inv key q"
  show "pq_inv key (pq_push (by_key key) x q)" "mset (pq_push (by_key key) x q) = add_mset x (mset q)"
    using pq_push_ok [OF q] by auto
  show "mset q = {#} \<Longrightarrow> pq_pop (by_key key) q = None" by (simp add: pq_pop_def)
  show "mset q \<noteq> {#} \<Longrightarrow> \<exists>x q'. pq_pop (by_key key) q = Some (x, q') \<and> pq_inv key q' \<and> mset q = add_mset x (mset q')
      \<and> (\<forall>y\<in>#mset q. key y \<le> key x)"
    using pq_pop_ok [OF q] by simp
qed

subsection \<open>Properties\<close>

text \<open>
  Whatever is pushed into the priority queue comes out again, in descending order of the keys
  its comparator compares: popping a queue filled with \<open>xs\<close> until it is empty yields a
  permutation of \<open>xs\<close> whose keys never increase.
\<close>

lemma priority_queue_order:
  "mset (drain (pq_pop (by_key key)) (length xs) (fold (pq_push (by_key key)) xs [])) = mset xs
   \<and> sorted_wrt (\<lambda>x y. key y \<le> key x) (drain (pq_pop (by_key key)) (length xs) (fold (pq_push (by_key key)) xs []))"
proof -
  have "pq_inv key []" by (simp add: pq_inv_def heap_ok_def)
  from pq.fill [OF this, of xs] have "pq_inv key (fold (pq_push (by_key key)) xs [])"
    "mset (fold (pq_push (by_key key)) xs []) = mset xs" by simp_all
  from pq.drain_descending [OF this(1), of "length xs"] this(2) show ?thesis by simp
qed

end
