(* ===== verification/SearchTrees.thy ===== *)
theory SearchTrees
  imports DataRefinement
begin

text \<open>
  The binary search tree of \<^verbatim>\<open>datastruct/bst.cpp\<close>, with the subtree sizes its order statistics use.

  Every node has one owner, so a tree of pointers is a value of the datatype \<open>tree_node\<close> and an
  assignment \<open>node->left = f(node->left)\<close> rebuilds the node; \<open>Null\<close> is \<open>nullptr\<close>.  Dereferencing
  \<open>nullptr\<close> is \<open>None\<close>, an exception a value of \<open>bst_error\<close>.
\<close>

datatype ('k, 'v) tree_node =
    Null
  | TreeNode (node_key: 'k) (node_value: 'v) (node_left: "('k, 'v) tree_node") (node_right: "('k, 'v) tree_node") (node_size: int)

datatype bst_error = KeyNotFound | TreeEmpty | RankOutOfRange

subsection \<open>Operations\<close>

fun getSize :: "('k, 'v) tree_node \<Rightarrow> int" where
  "getSize Null = 0"
| "getSize (TreeNode k v l r s) = s"

fun updateSize :: "('k, 'v) tree_node \<Rightarrow> ('k, 'v) tree_node" where
  "updateSize Null = Null"
| "updateSize (TreeNode k v l r s) = TreeNode k v l r (getSize l + getSize r + 1)"

fun put_node :: "('k :: linorder, 'v) tree_node \<Rightarrow> 'k \<Rightarrow> 'v \<Rightarrow> ('k, 'v) tree_node" where
  "put_node Null key val = TreeNode key val Null Null 1"
| "put_node (TreeNode k v l r s) key val =
     updateSize
       (if key < k then TreeNode k v (put_node l key val) r s
        else if key > k then TreeNode k v l (put_node r key val) s
        else TreeNode k val l r s)"

fun get_node :: "('k :: linorder, 'v) tree_node \<Rightarrow> 'k \<Rightarrow> 'v option" where
  "get_node Null key = None"
| "get_node (TreeNode k v l r s) key =
     (if key < k then get_node l key else if key > k then get_node r key else Some v)"

fun findMin :: "('k, 'v) tree_node \<Rightarrow> ('k \<times> 'v) option" where
  "findMin Null = None"
| "findMin (TreeNode k v l r s) = (if l = Null then Some (k, v) else findMin l)"

fun removeMin :: "('k, 'v) tree_node \<Rightarrow> ('k, 'v) tree_node option" where
  "removeMin Null = None"
| "removeMin (TreeNode k v l r s) =
     (if l = Null then Some r
      else map_option (\<lambda>l'. updateSize (TreeNode k v l' r s)) (removeMin l))"

fun remove_node :: "('k :: linorder, 'v) tree_node \<Rightarrow> 'k \<Rightarrow> ('k, 'v) tree_node option" where
  "remove_node Null key = Some Null"
| "remove_node (TreeNode k v l r s) key =
     (if key < k then map_option (\<lambda>l'. updateSize (TreeNode k v l' r s)) (remove_node l key)
      else if key > k then map_option (\<lambda>r'. updateSize (TreeNode k v l r' s)) (remove_node r key)
      else if l = Null then Some r
      else if r = Null then Some l
      else case findMin r of None \<Rightarrow> None
        | Some (k', v') \<Rightarrow> map_option (\<lambda>r'. updateSize (TreeNode k' v' l r' s)) (removeMin r))"

fun inorder :: "('k, 'v) tree_node \<Rightarrow> 'k list \<Rightarrow> 'k list" where
  "inorder Null keyList = keyList"
| "inorder (TreeNode k v l r s) keyList = inorder r (inorder l keyList @ [k])"

fun select_node :: "('k, 'v) tree_node \<Rightarrow> int \<Rightarrow> 'k option" where
  "select_node Null i = None"
| "select_node (TreeNode k v l r s) i =
     (let leftSize = getSize l
      in if leftSize > i then select_node l i
         else if leftSize = i then Some k
         else select_node r (i - leftSize - 1))"

fun rank_node :: "('k :: linorder, 'v) tree_node \<Rightarrow> 'k \<Rightarrow> int" where
  "rank_node Null key = 0"
| "rank_node (TreeNode k v l r s) key =
     (if key < k then rank_node l key
      else if key > k then getSize l + 1 + rank_node r key
      else getSize l)"

fun last_node :: "('k, 'v) tree_node \<Rightarrow> 'k option" where
  "last_node Null = None"
| "last_node (TreeNode k v l r s) = (if r \<noteq> Null then last_node r else Some k)"

subsection \<open>The class interface\<close>

definition bst_put :: "'k :: linorder \<Rightarrow> 'v \<Rightarrow> ('k, 'v) tree_node \<Rightarrow> ('k, 'v) tree_node" where
  "bst_put key val root = put_node root key val"

definition bst_get :: "'k :: linorder \<Rightarrow> ('k, 'v) tree_node \<Rightarrow> bst_error + 'v" where
  "bst_get key root = (case get_node root key of None \<Rightarrow> Inl KeyNotFound | Some v \<Rightarrow> Inr v)"

definition bst_remove :: "'k :: linorder \<Rightarrow> ('k, 'v) tree_node \<Rightarrow> ('k, 'v) tree_node option" where
  "bst_remove key root = remove_node root key"

definition containsKey :: "'k :: linorder \<Rightarrow> ('k, 'v) tree_node \<Rightarrow> bool" where
  "containsKey key root \<longleftrightarrow> get_node root key \<noteq> None"

definition firstKey :: "('k, 'v) tree_node \<Rightarrow> (bst_error + 'k) option" where
  "firstKey root = (if root = Null then Some (Inl TreeEmpty) else map_option (Inr \<circ> fst) (findMin root))"

definition lastKey :: "('k, 'v) tree_node \<Rightarrow> (bst_error + 'k) option" where
  "lastKey root = (if root = Null then Some (Inl TreeEmpty) else map_option Inr (last_node root))"

definition bst_keys :: "('k, 'v) tree_node \<Rightarrow> 'k list" where
  "bst_keys root = inorder root []"

definition selectKey :: "int \<Rightarrow> ('k, 'v) tree_node \<Rightarrow> bst_error + 'k" where
  "selectKey i root = (case select_node root i of None \<Rightarrow> Inl RankOutOfRange | Some k \<Rightarrow> Inr k)"

definition bst_rank :: "'k :: linorder \<Rightarrow> ('k, 'v) tree_node \<Rightarrow> int" where
  "bst_rank key root = rank_node root key"

definition bst_size :: "('k, 'v) tree_node \<Rightarrow> int" where
  "bst_size root = getSize root"

subsection \<open>Invariant\<close>

fun tree_keys :: "('k, 'v) tree_node \<Rightarrow> 'k list" where
  "tree_keys Null = []"
| "tree_keys (TreeNode k v l r s) = tree_keys l @ k # tree_keys r"

primrec tree_map :: "('k, 'v) tree_node \<Rightarrow> 'k \<Rightarrow> 'v option" where
  "tree_map Null = Map.empty"
| "tree_map (TreeNode k v l r s) = (tree_map l ++ tree_map r)(k \<mapsto> v)"

fun sizes_ok :: "('k, 'v) tree_node \<Rightarrow> bool" where
  "sizes_ok Null = True"
| "sizes_ok (TreeNode k v l r s) \<longleftrightarrow> sizes_ok l \<and> sizes_ok r \<and> s = int (length (tree_keys l)) + int (length (tree_keys r)) + 1"

definition bst_ok :: "('k :: linorder, 'v) tree_node \<Rightarrow> bool" where
  "bst_ok t \<longleftrightarrow> sorted_wrt (<) (tree_keys t) \<and> sizes_ok t"

lemma bst_ok_Null [simp]: "bst_ok Null"
  by (simp add: bst_ok_def)

lemma bst_ok_Node [simp]:
  "bst_ok (TreeNode k v l r s) \<longleftrightarrow>
     bst_ok l \<and> bst_ok r \<and> (\<forall>x\<in>set (tree_keys l). x < k) \<and> (\<forall>x\<in>set (tree_keys r). k < x)
     \<and> s = int (length (tree_keys l)) + int (length (tree_keys r)) + 1"
  by (fastforce simp: bst_ok_def sorted_wrt_append)

lemma dom_tree_map [simp]: "dom (tree_map t) = set (tree_keys t)"
proof (induction t)
  case (TreeNode k v l r s)
  then show ?case by (simp only: tree_map.simps dom_fun_upd dom_map_add) auto
qed simp

lemma getSize_keys: "bst_ok t \<Longrightarrow> getSize t = int (length (tree_keys t))"
  by (cases t) auto

lemma tree_map_None: "tree_map t x = None \<longleftrightarrow> x \<notin> set (tree_keys t)"
  by (metis domIff dom_tree_map)

lemma updateSize_ok [simp]:
  "bst_ok (updateSize (TreeNode k v l r s)) \<longleftrightarrow>
     bst_ok l \<and> bst_ok r \<and> (\<forall>x\<in>set (tree_keys l). x < k) \<and> (\<forall>x\<in>set (tree_keys r). k < x)"
  by (auto simp: getSize_keys)

lemma updateSize_view [simp]:
  "tree_keys (updateSize t) = tree_keys t" "tree_map (updateSize t) = tree_map t"
  by (cases t; simp)+

text \<open>In an ordered tree a key is looked up on its side of the root.\<close>

lemma tree_map_Node:
  fixes k :: "'k :: linorder"
  assumes "\<forall>y\<in>set (tree_keys l). y < k" and "\<forall>y\<in>set (tree_keys r). k < y"
  shows "tree_map (TreeNode k v l r s) x =
    (if x < k then tree_map l x else if k < x then tree_map r x else Some v)"
proof -
  have "tree_map r x = None" if "x < k" using assms(2) that unfolding tree_map_None by fastforce
  moreover have "tree_map l x = None" if "k < x" using assms(1) that unfolding tree_map_None by fastforce
  ultimately show ?thesis by (auto simp: map_add_def split: option.splits)
qed

subsection \<open>Correctness of the recursive routines\<close>

lemma get_node_map: "bst_ok t \<Longrightarrow> get_node t k = tree_map t k"
  by (induction t) (simp_all add: tree_map_Node del: tree_map.simps(2))

lemma put_node_ok:
  "bst_ok t \<Longrightarrow> bst_ok (put_node t k v) \<and> set (tree_keys (put_node t k v)) = insert k (set (tree_keys t))
     \<and> (\<forall>x. tree_map (put_node t k v) x = (if x = k then Some v else tree_map t x))"
proof (induction t)
  case (TreeNode k1 v1 l r s)
  then have "bst_ok (put_node (TreeNode k1 v1 l r s) k v)"
    and "set (tree_keys (put_node (TreeNode k1 v1 l r s) k v)) = insert k (set (tree_keys (TreeNode k1 v1 l r s)))"
    by (auto simp del: updateSize.simps bst_ok_Node) (auto simp del: updateSize.simps)
  moreover have "tree_map (put_node (TreeNode k1 v1 l r s) k v) x
      = (if x = k then Some v else tree_map (TreeNode k1 v1 l r s) x)" for x
    using TreeNode by (auto simp: tree_map_Node tree_map_None simp del: tree_map.simps(2) updateSize.simps)
  ultimately show ?case by blast
qed simp

lemma findMin_ok:
  "bst_ok t \<Longrightarrow> t \<noteq> Null \<Longrightarrow>
   \<exists>k v t'. findMin t = Some (k, v) \<and> tree_keys t = k # tree_keys t' \<and> tree_map t k = Some v
     \<and> removeMin t = Some t' \<and> bst_ok t' \<and> (\<forall>x. tree_map t' x = (if x = k then None else tree_map t x))"
proof (induction t)
  case (TreeNode k v l r s)
  show ?case
  proof (cases "l = Null")
    case True
    with TreeNode.prems show ?thesis by (auto simp: tree_map_Node tree_map_None simp del: tree_map.simps(2))
  next
    case False
    with TreeNode obtain k' v' l' where l: "findMin l = Some (k', v')" "tree_keys l = k' # tree_keys l'"
      "tree_map l k' = Some v'" "removeMin l = Some l'" "bst_ok l'" "\<forall>x. tree_map l' x = (if x = k' then None else tree_map l x)" by auto
    with False l TreeNode.prems(1) show ?thesis
      by (auto simp: tree_map_Node tree_map_None simp del: tree_map.simps(2) updateSize.simps)
  qed
qed simp

lemma remove_node_ok:
  "bst_ok t \<Longrightarrow> \<exists>t'. remove_node t k = Some t' \<and> bst_ok t' \<and> set (tree_keys t') = set (tree_keys t) - {k}
     \<and> (\<forall>x. tree_map t' x = (if x = k then None else tree_map t x))"
proof (induction t)
  case (TreeNode k1 v l r s)
  consider "k < k1" | "k1 < k" | "k = k1" "l = Null" | "k = k1" "r = Null" "l \<noteq> Null" | "k = k1" "l \<noteq> Null" "r \<noteq> Null"
    by fastforce
  then show ?case
  proof cases
    case 1
    with TreeNode obtain l' where "remove_node l k = Some l'" "bst_ok l'" "set (tree_keys l') = set (tree_keys l) - {k}"
      "\<forall>x. tree_map l' x = (if x = k then None else tree_map l x)" by auto
    with 1 TreeNode.prems show ?thesis by (auto simp: tree_map_Node simp del: tree_map.simps(2) updateSize.simps)
  next
    case 2
    with TreeNode obtain r' where "remove_node r k = Some r'" "bst_ok r'" "set (tree_keys r') = set (tree_keys r) - {k}"
      "\<forall>x. tree_map r' x = (if x = k then None else tree_map r x)" by auto
    with 2 TreeNode.prems show ?thesis by (auto simp: tree_map_Node simp del: tree_map.simps(2) updateSize.simps)
  next
    case 3
    with TreeNode.prems show ?thesis by (auto simp: tree_map_Node tree_map_None simp del: tree_map.simps(2))
  next
    case 4
    with TreeNode.prems show ?thesis by (auto simp: tree_map_Node tree_map_None simp del: tree_map.simps(2))
  next
    case 5
    with findMin_ok [of r] TreeNode.prems obtain k' v' r' where r: "findMin r = Some (k', v')" "tree_keys r = k' # tree_keys r'"
      "tree_map r k' = Some v'" "removeMin r = Some r'" "bst_ok r'" "\<forall>x. tree_map r' x = (if x = k' then None else tree_map r x)" by auto
    have "sorted_wrt (<) (tree_keys r)" using TreeNode.prems by (simp add: bst_ok_def sorted_wrt_append)
    then have "\<forall>x\<in>set (tree_keys r'). k' < x" unfolding r(2) by simp
    moreover have "\<forall>x\<in>set (tree_keys l). x < k'" using TreeNode.prems r(2) by fastforce
    moreover have "tree_map l x = tree_map r x" if "k1 < x" "x < k'" for x
    proof -
      have "tree_map l x = None" "tree_map r x = None"
        using that TreeNode.prems r(2) calculation(1) unfolding tree_map_None by fastforce+
      then show ?thesis by simp
    qed
    ultimately show ?thesis using 5 r TreeNode.prems
      by (auto simp: tree_map_Node tree_map_None simp del: tree_map.simps(2) updateSize.simps)
  qed
qed simp

lemma inorder_keys: "inorder t ks = ks @ tree_keys t"
  by (induction t arbitrary: ks) auto

lemma select_node_nth:
  "bst_ok t \<Longrightarrow> select_node t i = (if 0 \<le> i \<and> i < int (length (tree_keys t)) then Some (tree_keys t ! nat i) else None)"
proof (induction t arbitrary: i)
  case (TreeNode k v l r s)
  let ?n = "int (length (tree_keys l))"
  have l: "getSize l = ?n" using TreeNode.prems by (simp add: getSize_keys)
  consider "i < ?n" | "i = ?n" | "?n < i" by linarith
  then show ?case
  proof cases
    case 3
    then have "nat i - length (tree_keys l) = Suc (nat (i - ?n - 1))" by linarith
    with 3 TreeNode l show ?thesis by (auto simp: nth_append Let_def)
  qed (use TreeNode l in \<open>auto simp: nth_append Let_def nat_less_iff\<close>)
qed simp

lemma rank_node_count: "bst_ok t \<Longrightarrow> rank_node t k = int (length (filter (\<lambda>x. x < k) (tree_keys t)))"
proof (induction t)
  case (TreeNode k1 v l r s)
  have "filter (\<lambda>x. x < k) (tree_keys l) = tree_keys l" if "k1 \<le> k"
    using TreeNode.prems that by (fastforce intro: filter_True)
  moreover have "filter (\<lambda>x. x < k) (tree_keys r) = []" if "k \<le> k1"
    using TreeNode.prems that by (fastforce intro: filter_False)
  ultimately show ?case using TreeNode by (auto simp: getSize_keys)
qed simp

lemma last_node_last: "t \<noteq> Null \<Longrightarrow> last_node t = Some (last (tree_keys t))"
proof (induction t)
  case (TreeNode k v l r s)
  then show ?case by (cases r) auto
qed simp

lemma tree_keys_Nil [simp]: "tree_keys t = [] \<longleftrightarrow> t = Null"
  by (cases t) auto

subsection \<open>Refinement of finite maps\<close>

text \<open>
  A run of the class against a finite map.  An answer \<open>Crash\<close> would be a dereferenced \<open>nullptr\<close>.
\<close>

datatype ('k, 'v) bst_op =
  Put 'k 'v | Get 'k | Remove 'k | ContainsKey 'k | FirstKey | LastKey | Keys | SelectKey int | Rank 'k | Size

datatype ('k, 'v) bst_answer =
  Done | Crash | Throws bst_error | Value 'v | Truth bool | Key 'k | KeyList "'k list" | Number int

fun key_answer :: "(bst_error + 'k) option \<Rightarrow> ('k, 'v) bst_answer" where
  "key_answer None = Crash"
| "key_answer (Some (Inl e)) = Throws e"
| "key_answer (Some (Inr k)) = Key k"

fun bst_step :: "('k :: linorder, 'v) bst_op \<Rightarrow> ('k, 'v) tree_node \<Rightarrow> ('k, 'v) bst_answer \<times> ('k, 'v) tree_node" where
  "bst_step (Put k v) t = (Done, bst_put k v t)"
| "bst_step (Get k) t = (case_sum Throws Value (bst_get k t), t)"
| "bst_step (Remove k) t = (case bst_remove k t of None \<Rightarrow> (Crash, t) | Some t' \<Rightarrow> (Done, t'))"
| "bst_step (ContainsKey k) t = (Truth (containsKey k t), t)"
| "bst_step FirstKey t = (key_answer (firstKey t), t)"
| "bst_step LastKey t = (key_answer (lastKey t), t)"
| "bst_step Keys t = (KeyList (bst_keys t), t)"
| "bst_step (SelectKey i) t = (key_answer (Some (selectKey i t)), t)"
| "bst_step (Rank k) t = (Number (bst_rank k t), t)"
| "bst_step Size t = (Number (bst_size t), t)"

fun map_spec :: "('k :: linorder, 'v) bst_op \<Rightarrow> ('k \<rightharpoonup> 'v) \<Rightarrow> ('k, 'v) bst_answer \<times> ('k \<rightharpoonup> 'v)" where
  "map_spec (Put k v) m = (Done, m(k \<mapsto> v))"
| "map_spec (Get k) m = (case m k of None \<Rightarrow> Throws KeyNotFound | Some v \<Rightarrow> Value v, m)"
| "map_spec (Remove k) m = (Done, m(k := None))"
| "map_spec (ContainsKey k) m = (Truth (k \<in> dom m), m)"
| "map_spec FirstKey m = (if dom m = {} then Throws TreeEmpty else Key (Min (dom m)), m)"
| "map_spec LastKey m = (if dom m = {} then Throws TreeEmpty else Key (Max (dom m)), m)"
| "map_spec Keys m = (KeyList (sorted_list_of_set (dom m)), m)"
| "map_spec (SelectKey i) m =
     (if 0 \<le> i \<and> i < int (card (dom m)) then Key (sorted_list_of_set (dom m) ! nat i) else Throws RankOutOfRange, m)"
| "map_spec (Rank k) m = (Number (int (card {x \<in> dom m. x < k})), m)"
| "map_spec Size m = (Number (int (card (dom m))), m)"

lemma tree_keys_sorted:
  assumes "bst_ok t"
  shows "sorted_list_of_set (set (tree_keys t)) = tree_keys t" and "distinct (tree_keys t)" and "sorted (tree_keys t)"
  using assms by (auto simp: bst_ok_def strict_sorted_iff sorted_list_of_set.idem_if_sorted_distinct)

lemma tree_keys_ends:
  assumes "bst_ok t" and "t \<noteq> Null"
  shows "findMin t \<noteq> None" and "fst (the (findMin t)) = Min (set (tree_keys t))"
    and "last (tree_keys t) = Max (set (tree_keys t))"
proof -
  obtain k v ks where m: "findMin t = Some (k, v)" "tree_keys t = k # ks" using findMin_ok [OF assms] by blast
  have ne: "tree_keys t \<noteq> []" and s: "sorted (tree_keys t)" using assms tree_keys_sorted [of t] by auto
  show "findMin t \<noteq> None" "fst (the (findMin t)) = Min (set (tree_keys t))"
    using m s by (auto intro!: Min_eqI [symmetric])
  have "x \<le> last (tree_keys t)" if "x \<in> set (tree_keys t)" for x
    using s ne that by (metis append_butlast_last_id in_set_butlastD last_in_set sorted_append Un_iff set_append
        list.set_intros(1) order_refl set_ConsD empty_iff empty_set)
  with ne show "last (tree_keys t) = Max (set (tree_keys t))" by (intro Max_eqI [symmetric]) auto
qed

lemma filter_less_card:
  "distinct xs \<Longrightarrow> length (filter (\<lambda>x. x < k) xs) = card {x \<in> set xs. x < k}"
  by (metis distinct_card distinct_filter set_filter)

lemma bst_step_answer:
  assumes "bst_ok t"
  shows "fst (bst_step op t) = fst (map_spec op (tree_map t))"
proof (cases op)
  case (Get k)
  then show ?thesis using assms by (auto simp: bst_get_def get_node_map split: option.split)
next
  case (Remove k)
  then show ?thesis using remove_node_ok [OF assms, of k] by (auto simp: bst_remove_def)
next
  case FirstKey
  then show ?thesis using tree_keys_ends(1,2) [OF assms] by (auto simp: firstKey_def)
next
  case LastKey
  then show ?thesis using tree_keys_ends(3) [OF assms] last_node_last [of t] by (auto simp: lastKey_def)
next
  case (SelectKey i)
  then show ?thesis using select_node_nth [OF assms, of i] tree_keys_sorted(1,2) [OF assms]
    by (simp add: selectKey_def distinct_card)
next
  case (Rank k)
  then show ?thesis using rank_node_count [OF assms, of k] tree_keys_sorted(2) [OF assms]
    by (simp add: bst_rank_def filter_less_card)
qed (use assms tree_keys_sorted(1,2) [OF assms] in \<open>auto simp: get_node_map containsKey_def bst_keys_def
      inorder_keys bst_size_def getSize_keys distinct_card tree_map_None\<close>)

lemma bst_step_state:
  assumes "bst_ok t"
  shows "tree_map (snd (bst_step op t)) = snd (map_spec op (tree_map t))" and "bst_ok (snd (bst_step op t))"
proof -
  have "tree_map (snd (bst_step op t)) = snd (map_spec op (tree_map t)) \<and> bst_ok (snd (bst_step op t))"
  proof (cases op)
    case (Put k v)
    then show ?thesis using put_node_ok [OF assms, of k v] by (auto simp: bst_put_def fun_eq_iff)
  next
    case (Remove k)
    then show ?thesis using remove_node_ok [OF assms, of k] by (auto simp: bst_remove_def fun_eq_iff)
  qed (use assms in auto)
  then show "tree_map (snd (bst_step op t)) = snd (map_spec op (tree_map t))" "bst_ok (snd (bst_step op t))" by auto
qed

interpretation bst: data_refinement bst_step map_spec tree_map bst_ok
  by unfold_locales (simp_all add: bst_step_answer bst_step_state)

subsection \<open>Properties\<close>

text \<open>
  Claim C26.  The search tree refines a finite map: whatever sequence of operations is applied to an empty
  tree, every answer is that of the map, with \<open>keys\<close> in ascending order, \<open>rank\<close> the number of
  smaller keys, \<open>selectKey\<close> its inverse and the documented exceptions; no \<open>nullptr\<close> is dereferenced,
  the tree stays ordered and every stored subtree size is right.
\<close>

theorem search_tree_refines_map:
  "fst (run_ops bst_step ops Null) = fst (run_ops map_spec ops Map.empty)
   \<and> tree_map (snd (run_ops bst_step ops Null)) = snd (run_ops map_spec ops Map.empty)
   \<and> bst_ok (snd (run_ops bst_step ops Null))"
  using bst.runs_agree [of Null ops] by simp

end
