(* ===== verification/ProbingSets.thy ===== *)
theory ProbingSets
  imports DataRefinement
begin

text \<open>
  The open-addressing hash set of \<^verbatim>\<open>datastruct/LinearProbingHashSet.h\<close>.

  The hash functor is the argument \<open>h\<close>.  The probing loop stops only at an empty slot or at the key it
  looks for, so it may run for ever: \<open>find\<close> is a partial function whose value \<open>None\<close> is the
  loop that does not return.  \<open>insert\<close> and \<open>rehash\<close> call each other; both are instances of
  \<open>insert_all\<close>, which inserts the elements of a list one after the other.
\<close>

record 'a hash_node =
  hn_value :: 'a
  hn_deleted :: bool

type_synonym 'a hash_table = "'a hash_node option list"

record 'a hash_set =
  hs_table :: "'a hash_table"
  hs_size :: nat

definition DEFAULT_CAPACITY :: nat where "DEFAULT_CAPACITY = 16"

definition HashSet_new :: "'a hash_set" where
  "HashSet_new = \<lparr> hs_table = replicate DEFAULT_CAPACITY None, hs_size = 0 \<rparr>"

definition hash_index :: "('a \<Rightarrow> nat) \<Rightarrow> 'a hash_table \<Rightarrow> 'a \<Rightarrow> nat" where
  "hash_index h table key = h key mod length table"

partial_function (option) probe :: "'a hash_table \<Rightarrow> 'a \<Rightarrow> nat \<Rightarrow> nat option" where
  "probe table key idx =
     (case table ! idx of None \<Rightarrow> Some idx
      | Some node \<Rightarrow>
          if \<not> hn_deleted node \<and> hn_value node = key then Some idx
          else probe table key ((idx + 1) mod length table))"

definition find_slot :: "('a \<Rightarrow> nat) \<Rightarrow> 'a hash_table \<Rightarrow> 'a \<Rightarrow> nat option" where
  "find_slot h table key = probe table key (hash_index h table key)"

text \<open>\<open>insert\<close> after its load test.\<close>

definition place :: "('a \<Rightarrow> nat) \<Rightarrow> 'a \<Rightarrow> 'a hash_set \<Rightarrow> 'a hash_set option" where
  "place h val s =
     do { idx \<leftarrow> find_slot h (hs_table s) val;
          Some (case hs_table s ! idx of
              None \<Rightarrow> s\<lparr> hs_table := (hs_table s)[idx := Some \<lparr> hn_value = val, hn_deleted = False \<rparr>], hs_size := hs_size s + 1 \<rparr>
            | Some node \<Rightarrow>
                if hn_deleted node
                then s\<lparr> hs_table := (hs_table s)[idx := Some \<lparr> hn_value = val, hn_deleted = False \<rparr>], hs_size := hs_size s + 1 \<rparr>
                else s) }"

text \<open>The load factor 0.75, without floating point.\<close>

definition over_load :: "'a hash_set \<Rightarrow> bool" where
  "over_load s \<longleftrightarrow> 3 * length (hs_table s) \<le> 4 * hs_size s"

definition live_values :: "'a hash_table \<Rightarrow> 'a list" where
  "live_values table = [hn_value node. Some node \<leftarrow> table, \<not> hn_deleted node]"

definition doubled :: "'a hash_set \<Rightarrow> 'a hash_set" where
  "doubled s = s\<lparr> hs_table := replicate (length (hs_table s) * 2) None, hs_size := 0 \<rparr>"

partial_function (option) insert_all :: "('a \<Rightarrow> nat) \<Rightarrow> 'a list \<Rightarrow> 'a hash_set \<Rightarrow> 'a hash_set option" where
  "insert_all h vs s =
     (case vs of [] \<Rightarrow> Some s
      | v # vs \<Rightarrow>
          do { s \<leftarrow> (if over_load s then insert_all h (live_values (hs_table s)) (doubled s) else Some s);
               s \<leftarrow> place h v s;
               insert_all h vs s })"

definition hs_rehash :: "('a \<Rightarrow> nat) \<Rightarrow> 'a hash_set \<Rightarrow> 'a hash_set option" where
  "hs_rehash h s = insert_all h (live_values (hs_table s)) (doubled s)"

definition hs_insert :: "('a \<Rightarrow> nat) \<Rightarrow> 'a \<Rightarrow> 'a hash_set \<Rightarrow> 'a hash_set option" where
  "hs_insert h val s = do { s \<leftarrow> (if over_load s then hs_rehash h s else Some s); place h val s }"

definition hs_erase :: "('a \<Rightarrow> nat) \<Rightarrow> 'a \<Rightarrow> 'a hash_set \<Rightarrow> 'a hash_set option" where
  "hs_erase h val s =
     do { idx \<leftarrow> find_slot h (hs_table s) val;
          Some (case hs_table s ! idx of
              None \<Rightarrow> s
            | Some node \<Rightarrow>
                if \<not> hn_deleted node
                then s\<lparr> hs_table := (hs_table s)[idx := Some (node\<lparr> hn_deleted := True \<rparr>)], hs_size := hs_size s - 1 \<rparr>
                else s) }"

definition hs_contains :: "('a \<Rightarrow> nat) \<Rightarrow> 'a \<Rightarrow> 'a hash_set \<Rightarrow> bool option" where
  "hs_contains h val s =
     do { idx \<leftarrow> find_slot h (hs_table s) val;
          Some (case hs_table s ! idx of None \<Rightarrow> False | Some node \<Rightarrow> \<not> hn_deleted node) }"

definition hs_isEmpty :: "'a hash_set \<Rightarrow> bool" where "hs_isEmpty s \<longleftrightarrow> hs_size s = 0"

declare probe.simps [code] and insert_all.simps [code]

subsection \<open>The probing loop\<close>

text \<open>The slots a search for \<open>key\<close> passes over.\<close>

definition passes :: "'a \<Rightarrow> 'a hash_node option \<Rightarrow> bool" where
  "passes key slot \<longleftrightarrow> (\<exists>node. slot = Some node \<and> (hn_deleted node \<or> hn_value node \<noteq> key))"

lemma probe_step: "probe t key i = (if passes key (t ! i) then probe t key ((i + 1) mod length t) else Some i)"
  by (subst probe.simps) (auto simp: passes_def split: option.split)

lemma slot_step: "(Suc i mod n + m) mod n = (i + Suc m) mod n"
  by (simp add: mod_simps)

lemma probe_reaches:
  "i < length t \<Longrightarrow> \<forall>m<n. passes key (t ! ((i + m) mod length t)) \<Longrightarrow> \<not> passes key (t ! ((i + n) mod length t)) \<Longrightarrow>
   probe t key i = Some ((i + n) mod length t)"
proof (induction n arbitrary: i)
  case 0
  then show ?case by (subst probe_step) simp
next
  case (Suc n)
  let ?j = "(i + 1) mod length t"
  have j: "?j < length t" using Suc.prems(1) by (intro mod_less_divisor) linarith
  have "\<forall>m<n. passes key (t ! ((?j + m) mod length t))" "\<not> passes key (t ! ((?j + n) mod length t))"
    using Suc.prems(2,3) by (auto simp: slot_step)
  from Suc.IH [OF j this] have "probe t key ?j = Some ((i + Suc n) mod length t)" by (simp add: slot_step)
  moreover have "passes key (t ! i)" using Suc.prems(1,2) by force
  ultimately show ?case by (subst probe_step) simp
qed

lemma probe_Some:
  "probe t key i = Some p \<Longrightarrow> i < length t \<Longrightarrow>
   \<exists>n. p = (i + n) mod length t \<and> (\<forall>m<n. passes key (t ! ((i + m) mod length t))) \<and> \<not> passes key (t ! p)"
proof (induction t key i p rule: probe.raw_induct [rotated 1, consumes 1])
  case (1 rec t key i p)
  let ?j = "(i + 1) mod length t"
  have j: "?j < length t" using 1(3) by (intro mod_less_divisor) linarith
  show ?case
  proof (cases "passes key (t ! i)")
    case True
    then have "rec t key ?j = Some p" using 1(2) by (auto simp: passes_def split: option.splits if_splits)
    from 1(1) [OF this j] obtain n where n: "p = (?j + n) mod length t"
      "\<forall>m<n. passes key (t ! ((?j + m) mod length t))" "\<not> passes key (t ! p)" by blast
    have "passes key (t ! ((i + m) mod length t))" if "m < Suc n" for m
      using that True n(2) 1(3) by (cases m) (auto simp: slot_step)
    with n show ?thesis by (intro exI [of _ "Suc n"]) (simp add: slot_step)
  next
    case False
    then have "p = i" using 1(2) by (auto simp: passes_def split: option.splits if_splits)
    with False 1(3) show ?thesis by (intro exI [of _ 0]) simp
  qed
qed

lemma probe_stops:
  assumes "probe t key i = Some p" and "i < length t"
  shows "p < length t" and "\<not> passes key (t ! p)"
  using probe_Some [OF assms] assms(2) by (auto intro!: mod_less_divisor)

text \<open>Without a slot to stop at the loop never ends; one free slot is enough.\<close>

lemma probe_hangs: "i < length t \<Longrightarrow> \<forall>slot\<in>set t. passes key slot \<Longrightarrow> probe t key i = None"
  using probe_stops [of t key i] by (cases "probe t key i") auto

lemma probe_returns:
  assumes "i < length t" and "q < length t" and "t ! q = None"
  shows "\<exists>p. probe t key i = Some p"
proof -
  have "(i + (length t - i + q)) mod length t = q" using assms(1,2) by (simp add: mod_if)
  then have ex: "\<not> passes key (t ! ((i + (length t - i + q)) mod length t))" using assms(3) by (simp add: passes_def)
  define n where "n = (LEAST n. \<not> passes key (t ! ((i + n) mod length t)))"
  have "\<not> passes key (t ! ((i + n) mod length t))" unfolding n_def using ex by (rule LeastI)
  moreover have "passes key (t ! ((i + m) mod length t))" if "m < n" for m
    using not_less_Least [OF that [unfolded n_def]] by simp
  ultimately show ?thesis using probe_reaches [OF assms(1)] by blast
qed

text \<open>Changing slots the search passes over, or does not reach, does not move its end.\<close>

lemma probe_keeps:
  assumes "probe t key i = Some p" and "i < length t" and "length t' = length t"
    and "\<And>q. q < length t \<Longrightarrow> passes key (t ! q) \<Longrightarrow> passes key (t' ! q)" and "\<not> passes key (t' ! p)"
  shows "probe t' key i = Some p"
proof -
  from probe_Some [OF assms(1,2)] obtain n where n: "p = (i + n) mod length t"
    "\<forall>m<n. passes key (t ! ((i + m) mod length t))" by blast
  have "(i + m) mod length t < length t" for m using assms(2) by (intro mod_less_divisor) linarith
  with n assms(3-5) probe_reaches [of i t' n key] assms(2) show ?thesis by auto
qed

subsection \<open>Invariant\<close>

fun is_live :: "'a hash_node option \<Rightarrow> bool" where
  "is_live None = False"
| "is_live (Some node) = (\<not> hn_deleted node)"

fun is_tomb :: "'a hash_node option \<Rightarrow> bool" where
  "is_tomb None = False"
| "is_tomb (Some node) = hn_deleted node"

definition tombs :: "'a hash_set \<Rightarrow> nat" where
  "tombs s = length (filter is_tomb (hs_table s))"

definition elems :: "'a hash_set \<Rightarrow> 'a set" where
  "elems s = set (live_values (hs_table s))"

text \<open>
  Every live element is where its search ends, the size counts the live slots, and the load is bounded.
\<close>

definition hs_ok :: "('a \<Rightarrow> nat) \<Rightarrow> 'a hash_set \<Rightarrow> bool" where
  "hs_ok h s \<longleftrightarrow>
     16 \<le> length (hs_table s) \<and> 4 dvd length (hs_table s) \<and> 4 * hs_size s \<le> 3 * length (hs_table s)
     \<and> hs_size s = length (filter is_live (hs_table s))
     \<and> (\<forall>p<length (hs_table s). \<forall>node. hs_table s ! p = Some node \<and> \<not> hn_deleted node
          \<longrightarrow> find_slot h (hs_table s) (hn_value node) = Some p)"

lemma in_live_values: "v \<in> set (live_values t) \<longleftrightarrow> (\<exists>p<length t. t ! p = Some \<lparr> hn_value = v, hn_deleted = False \<rparr>)"
proof -
  have "v \<in> set (live_values t) \<longleftrightarrow> Some \<lparr> hn_value = v, hn_deleted = False \<rparr> \<in> set t"
    unfolding live_values_def
    by (auto split: option.splits intro!: bexI [of _ "Some \<lparr> hn_value = v, hn_deleted = False \<rparr>"]) (metis (full_types) hash_node.surjective old.unit.exhaust)
  then show ?thesis by (auto simp: in_set_conv_nth)
qed

lemma length_live_values: "length (live_values t) = length (filter is_live t)"
  unfolding live_values_def by (induction t) (auto split: option.splits)

lemma length_filter_update:
  "i < length t \<Longrightarrow> length (filter P (t[i := x])) + (if P (t ! i) then 1 else 0) = length (filter P t) + (if P x then 1 else 0)"
proof (induction t arbitrary: i)
  case (Cons a t)
  show ?case
  proof (cases i)
    case (Suc j)
    with Cons.IH [of j] Cons.prems show ?thesis by auto
  qed simp
qed simp

lemma slots_partition: "None \<notin> set t \<Longrightarrow> length (filter is_live t) + length (filter is_tomb t) = length t"
proof (induction t)
  case (Cons a t)
  then show ?case by (cases a) auto
qed simp

lemma free_slot:
  assumes "hs_ok h s" and "hs_size s + tombs s < length (hs_table s)"
  shows "\<exists>q<length (hs_table s). hs_table s ! q = None"
proof -
  have "None \<in> set (hs_table s)"
    using assms slots_partition [of "hs_table s"] unfolding hs_ok_def tombs_def by linarith
  then show ?thesis by (auto simp: in_set_conv_nth)
qed

lemma find_returns:
  assumes "hs_ok h s" and "hs_size s + tombs s < length (hs_table s)"
  obtains p where "find_slot h (hs_table s) v = Some p" and "p < length (hs_table s)"
    and "hs_table s ! p = (if v \<in> elems s then Some \<lparr> hn_value = v, hn_deleted = False \<rparr> else None)"
proof -
  let ?t = "hs_table s" and ?i = "hash_index h (hs_table s) v"
  have i: "?i < length ?t" using assms(2) unfolding hash_index_def by (intro mod_less_divisor) linarith
  from free_slot [OF assms] probe_returns [OF i] obtain p where p: "find_slot h ?t v = Some p"
    unfolding find_slot_def by blast
  from probe_stops [OF p [unfolded find_slot_def] i] have stop: "p < length ?t" "\<not> passes v (?t ! p)" .
  have "?t ! p = Some \<lparr> hn_value = v, hn_deleted = False \<rparr>" if "v \<in> elems s"
    using that assms(1) p unfolding elems_def in_live_values hs_ok_def by fastforce
  moreover have "?t ! p = None" if "v \<notin> elems s"
  proof (cases "?t ! p")
    case (Some node)
    with stop(2) have "node = \<lparr> hn_value = v, hn_deleted = False \<rparr>" by (auto simp: passes_def)
    with Some stop(1) that show ?thesis unfolding elems_def in_live_values by blast
  qed
  ultimately show thesis using that p stop(1) by simp
qed

subsection \<open>Operations\<close>

lemma passes_simps [simp]: "\<not> passes w None" "passes w (Some node) \<longleftrightarrow> hn_deleted node \<or> hn_value node \<noteq> w"
  by (auto simp: passes_def)

lemma passes_update [simp]: "r < length t \<Longrightarrow> passes w (t[p := x] ! r) \<longleftrightarrow> (if r = p then passes w x else passes w (t ! r))"
  by (simp add: nth_list_update)

lemma find_keeps:
  assumes "find_slot h t w = Some q" and "0 < length t" and "length t' = length t"
    and "\<And>r. r < length t \<Longrightarrow> passes w (t ! r) \<Longrightarrow> passes w (t' ! r)" and "\<not> passes w (t' ! q)"
  shows "find_slot h t' w = Some q"
  using assms(1) unfolding find_slot_def hash_index_def assms(3)
  by (rule probe_keeps) (use assms in auto)

text \<open>Filling the slot where the search for \<open>v\<close> ended, or burying \<open>v\<close> there, moves no other search.\<close>

lemma update_found:
  assumes ok: "hs_ok h s" and p: "find_slot h (hs_table s) v = Some p" "p < length (hs_table s)"
    and x: "hs_table s ! p = None \<and> v \<notin> elems s \<and> \<not> d \<or> hs_table s ! p = Some \<lparr> hn_value = v, hn_deleted = False \<rparr> \<and> d"
  defines "t' \<equiv> (hs_table s)[p := Some \<lparr> hn_value = v, hn_deleted = d \<rparr>]"
  assumes q: "q < length t'" "t' ! q = Some node" "\<not> hn_deleted node"
  shows "find_slot h t' (hn_value node) = Some q"
proof (cases "q = p")
  case True
  with q p x have node: "node = \<lparr> hn_value = v, hn_deleted = False \<rparr>" "hs_table s ! p = None" "\<not> d" by (auto simp: t'_def)
  have "find_slot h t' v = Some p"
    by (rule find_keeps [OF p(1)]) (use p node in \<open>auto simp: t'_def\<close>)
  then show ?thesis using node True by simp
next
  case False
  have q': "q < length (hs_table s)" "hs_table s ! q = Some node" using q False by (simp_all add: t'_def)
  then have f: "find_slot h (hs_table s) (hn_value node) = Some q" using ok q(3) by (auto simp: hs_ok_def)
  then have "hn_value node \<noteq> v" using p(1) False by auto
  with x q' show ?thesis
    by (intro find_keeps [OF f]) (use False q(3) in \<open>auto simp: t'_def\<close>)
qed

lemma in_live_update:
  "p < length t \<Longrightarrow> w \<in> set (live_values (t[p := Some \<lparr> hn_value = v, hn_deleted = d \<rparr>])) \<longleftrightarrow>
     w = v \<and> \<not> d \<or> (\<exists>q<length t. q \<noteq> p \<and> t ! q = Some \<lparr> hn_value = w, hn_deleted = False \<rparr>)"
  unfolding in_live_values by (auto simp: nth_list_update)

lemma place_ok:
  assumes ok: "hs_ok h s" and load: "\<not> over_load s" and room: "hs_size s + tombs s < length (hs_table s)"
  shows "\<exists>s'. place h v s = Some s' \<and> hs_ok h s' \<and> elems s' = insert v (elems s)
    \<and> length (hs_table s') = length (hs_table s) \<and> tombs s' = tombs s \<and> hs_size s' \<le> hs_size s + 1"
proof -
  obtain p where p: "find_slot h (hs_table s) v = Some p" "p < length (hs_table s)"
    "hs_table s ! p = (if v \<in> elems s then Some \<lparr> hn_value = v, hn_deleted = False \<rparr> else None)"
    using find_returns [OF ok room] by blast
  show ?thesis
  proof (cases "v \<in> elems s")
    case True
    with p ok show ?thesis by (auto simp: place_def)
  next
    case False
    let ?t = "(hs_table s)[p := Some \<lparr> hn_value = v, hn_deleted = False \<rparr>]"
    have n: "hs_table s ! p = None" using p(3) False by simp
    have cnt: "length (filter is_live ?t) = hs_size s + 1" "length (filter is_tomb ?t) = tombs s"
      using length_filter_update [OF p(2), of is_live "Some \<lparr> hn_value = v, hn_deleted = False \<rparr>"]
        length_filter_update [OF p(2), of is_tomb "Some \<lparr> hn_value = v, hn_deleted = False \<rparr>"] n ok
      by (auto simp: hs_ok_def tombs_def)
    have "4 dvd length (hs_table s)" "\<not> 3 * length (hs_table s) \<le> 4 * hs_size s"
      using ok load by (simp_all add: hs_ok_def over_load_def)
    then have "4 * (hs_size s + 1) \<le> 3 * length (hs_table s)" by presburger
    moreover have "\<forall>q<length ?t. \<forall>node. ?t ! q = Some node \<and> \<not> hn_deleted node \<longrightarrow> find_slot h ?t (hn_value node) = Some q"
      using update_found [OF ok p(1,2), of False] n False by blast
    ultimately have "hs_ok h (s\<lparr> hs_table := ?t, hs_size := hs_size s + 1 \<rparr>)" using ok cnt by (simp add: hs_ok_def)
    moreover have "set (live_values ?t) = insert v (elems s)"
      unfolding set_eq_iff in_live_update [OF p(2)] unfolding elems_def insert_iff in_live_values using n by auto
    ultimately show ?thesis using p(1) n cnt by (simp add: place_def tombs_def elems_def)
  qed
qed

lemma erase_ok:
  assumes ok: "hs_ok h s" and room: "hs_size s + tombs s < length (hs_table s)"
  shows "\<exists>s'. hs_erase h v s = Some s' \<and> hs_ok h s' \<and> elems s' = elems s - {v} \<and> tombs s' \<le> tombs s + 1"
proof -
  obtain p where p: "find_slot h (hs_table s) v = Some p" "p < length (hs_table s)"
    "hs_table s ! p = (if v \<in> elems s then Some \<lparr> hn_value = v, hn_deleted = False \<rparr> else None)"
    using find_returns [OF ok room] by blast
  show ?thesis
  proof (cases "v \<in> elems s")
    case False
    with p ok show ?thesis by (auto simp: hs_erase_def)
  next
    case True
    let ?x = "Some \<lparr> hn_value = v, hn_deleted = True \<rparr>"
    let ?t = "(hs_table s)[p := ?x]"
    have n: "hs_table s ! p = Some \<lparr> hn_value = v, hn_deleted = False \<rparr>" using p(3) True by simp
    have cnt: "length (filter is_live ?t) + 1 = hs_size s" "length (filter is_tomb ?t) = tombs s + 1"
      using length_filter_update [OF p(2), of is_live ?x] length_filter_update [OF p(2), of is_tomb ?x] n ok
      by (auto simp: hs_ok_def tombs_def)
    have f: "\<forall>q<length ?t. \<forall>node. ?t ! q = Some node \<and> \<not> hn_deleted node \<longrightarrow> find_slot h ?t (hn_value node) = Some q"
      using update_found [OF ok p(1,2), of True] n by blast
    then have "hs_ok h (s\<lparr> hs_table := ?t, hs_size := hs_size s - 1 \<rparr>)" using ok cnt(1) by (auto simp: hs_ok_def)
    moreover have "set (live_values ?t) = elems s - {v}"
    proof -
      have "q = p" if "q < length (hs_table s)" "hs_table s ! q = Some \<lparr> hn_value = v, hn_deleted = False \<rparr>" for q
        using that ok p(1) unfolding hs_ok_def by fastforce
      then show ?thesis
        unfolding set_eq_iff in_live_update [OF p(2)] unfolding elems_def Diff_iff singleton_iff in_live_values using n by auto
    qed
    ultimately show ?thesis using p(1) n cnt by (simp add: hs_erase_def tombs_def elems_def)
  qed
qed

lemma contains_ok:
  assumes ok: "hs_ok h s" and room: "hs_size s + tombs s < length (hs_table s)"
  shows "hs_contains h v s = Some (v \<in> elems s)"
  by (rule find_returns [OF assms, of v]) (simp add: hs_contains_def)

lemma insert_all_ok:
  assumes "hs_ok h s" and "tombs s = 0" and "4 * (hs_size s + length vs) \<le> 3 * length (hs_table s)"
  shows "\<exists>s'. insert_all h vs s = Some s' \<and> hs_ok h s' \<and> elems s' = set vs \<union> elems s
    \<and> length (hs_table s') = length (hs_table s) \<and> tombs s' = 0 \<and> hs_size s' \<le> hs_size s + length vs"
  using assms
proof (induction vs arbitrary: s)
  case Nil
  then show ?case by (subst insert_all.simps) auto
next
  case (Cons v vs)
  have "\<not> over_load s" "hs_size s + tombs s < length (hs_table s)"
    using Cons.prems by (auto simp: over_load_def hs_ok_def)
  from place_ok [OF Cons.prems(1) this, of v] obtain s1 where s1: "place h v s = Some s1" "hs_ok h s1"
    "elems s1 = insert v (elems s)" "length (hs_table s1) = length (hs_table s)" "tombs s1 = 0" "hs_size s1 \<le> hs_size s + 1"
    using Cons.prems(2) by auto
  have "4 * (hs_size s1 + length vs) \<le> 3 * length (hs_table s1)" using Cons.prems(3) s1(4,6) by simp
  from Cons.IH [OF s1(2,5) this] s1 \<open>\<not> over_load s\<close> show ?case
    by (subst insert_all.simps) (auto intro: order_trans)
qed

lemma doubled_ok: "hs_ok h s \<Longrightarrow> hs_ok h (doubled s) \<and> elems (doubled s) = {} \<and> tombs (doubled s) = 0"
  by (simp add: hs_ok_def doubled_def elems_def tombs_def in_live_values set_eq_iff)

lemma rehash_ok:
  assumes "hs_ok h s"
  shows "\<exists>s'. hs_rehash h s = Some s' \<and> hs_ok h s' \<and> elems s' = elems s \<and> tombs s' = 0 \<and> \<not> over_load s'"
proof -
  have n: "length (live_values (hs_table s)) = hs_size s" "4 * hs_size s \<le> 3 * length (hs_table s)" "16 \<le> length (hs_table s)"
    using assms by (simp_all add: hs_ok_def length_live_values)
  have "hs_size (doubled s) = 0" "length (hs_table (doubled s)) = 2 * length (hs_table s)" by (simp_all add: doubled_def)
  with insert_all_ok [of h "doubled s" "live_values (hs_table s)"] doubled_ok [OF assms] n show ?thesis
    by (auto simp: hs_rehash_def over_load_def elems_def)
qed

lemma few_tombs:
  assumes "hs_ok h s" and "tombs s \<le> 3"
  shows "hs_size s + tombs s < length (hs_table s)"
  using assms by (auto simp: hs_ok_def)

lemma insert_ok:
  assumes "hs_ok h s" and "tombs s \<le> 3"
  shows "\<exists>s'. hs_insert h v s = Some s' \<and> hs_ok h s' \<and> elems s' = insert v (elems s) \<and> tombs s' \<le> tombs s"
proof (cases "over_load s")
  case True
  from rehash_ok [OF assms(1)] obtain s1 where s1: "hs_rehash h s = Some s1" "hs_ok h s1" "elems s1 = elems s"
    "tombs s1 = 0" "\<not> over_load s1" by blast
  from place_ok [OF s1(2,5) few_tombs [OF s1(2)], of v] s1 True show ?thesis by (auto simp: hs_insert_def)
next
  case False
  from place_ok [OF assms(1) False few_tombs [OF assms], of v] False show ?thesis by (auto simp: hs_insert_def)
qed

subsection \<open>Runs\<close>

datatype 'a set_op = SInsert 'a | SErase 'a | SContains 'a

fun hs_run :: "('a \<Rightarrow> nat) \<Rightarrow> 'a set_op list \<Rightarrow> 'a hash_set \<Rightarrow> (bool list \<times> 'a hash_set) option" where
  "hs_run h [] s = Some ([], s)"
| "hs_run h (SInsert v # ops) s = do { s \<leftarrow> hs_insert h v s; hs_run h ops s }"
| "hs_run h (SErase v # ops) s = do { s \<leftarrow> hs_erase h v s; hs_run h ops s }"
| "hs_run h (SContains v # ops) s =
     do { b \<leftarrow> hs_contains h v s; (bs, s) \<leftarrow> hs_run h ops s; Some (b # bs, s) }"

fun set_run :: "'a set_op list \<Rightarrow> 'a set \<Rightarrow> bool list \<times> 'a set" where
  "set_run [] A = ([], A)"
| "set_run (SInsert v # ops) A = set_run ops (insert v A)"
| "set_run (SErase v # ops) A = set_run ops (A - {v})"
| "set_run (SContains v # ops) A = (let (bs, B) = set_run ops A in ((v \<in> A) # bs, B))"

fun is_erase :: "'a set_op \<Rightarrow> bool" where
  "is_erase (SErase v) = True"
| "is_erase _ = False"

lemma hs_run_ok:
  "hs_ok h s \<Longrightarrow> tombs s + length (filter is_erase ops) \<le> 3 \<Longrightarrow>
   \<exists>s'. hs_run h ops s = Some (fst (set_run ops (elems s)), s') \<and> hs_ok h s' \<and> elems s' = snd (set_run ops (elems s))"
proof (induction ops arbitrary: s)
  case (Cons op ops)
  have t: "tombs s \<le> 3" using Cons.prems(2) by simp
  show ?case
  proof (cases op)
    case (SInsert v)
    from insert_ok [OF Cons.prems(1) t, of v] obtain s1 where "hs_insert h v s = Some s1" "hs_ok h s1"
      "elems s1 = insert v (elems s)" "tombs s1 \<le> tombs s" by blast
    with Cons.IH [of s1] Cons.prems(2) SInsert show ?thesis by auto
  next
    case (SErase v)
    from erase_ok [OF Cons.prems(1) few_tombs [OF Cons.prems(1) t], of v] obtain s1 where "hs_erase h v s = Some s1" "hs_ok h s1"
      "elems s1 = elems s - {v}" "tombs s1 \<le> tombs s + 1" by blast
    with Cons.IH [of s1] Cons.prems(2) SErase show ?thesis by auto
  next
    case (SContains v)
    with contains_ok [OF Cons.prems(1) few_tombs [OF Cons.prems(1) t], of v] Cons show ?thesis
      by (fastforce simp: case_prod_unfold Let_def)
  qed
qed auto

lemma HashSet_new_ok: "hs_ok h HashSet_new" "elems HashSet_new = {}" "tombs HashSet_new = 0"
  by (simp_all add: hs_ok_def HashSet_new_def DEFAULT_CAPACITY_def elems_def tombs_def in_live_values set_eq_iff)

text \<open>Twelve elements, four of them erased and replaced by others: no slot is empty any more.\<close>

definition fill_with_tombs :: "nat set_op list" where
  "fill_with_tombs = map SInsert [0..<12] @ map SErase [0..<4] @ map SInsert [12..<16]"

definition full_table :: "nat hash_set" where
  "full_table = \<lparr> hs_table = map (\<lambda>i. Some \<lparr> hn_value = i, hn_deleted = (i < 4) \<rparr>) [0..<16], hs_size = 12 \<rparr>"

lemma fill_with_tombs_run: "hs_run (\<lambda>n. n) fill_with_tombs HashSet_new = Some ([], full_table)"
  by code_simp

lemma full_table_hangs: "hs_contains (\<lambda>n. n) 16 full_table = None"
proof -
  have "\<forall>slot\<in>set (hs_table full_table). passes 16 slot" by (auto simp: full_table_def)
  then have "find_slot (\<lambda>n. n) (hs_table full_table) 16 = None"
    unfolding find_slot_def by (intro probe_hangs) (simp_all add: hash_index_def full_table_def)
  then show ?thesis by (simp add: hs_contains_def)
qed

lemma hs_run_append: "hs_run h (ops @ ops') s =
    do { (bs, s) \<leftarrow> hs_run h ops s; (bs', s) \<leftarrow> hs_run h ops' s; Some (bs @ bs', s) }"
proof (induction ops arbitrary: s)
  case Nil
  then show ?case by (cases "hs_run h ops' s") auto
next
  case (Cons op ops)
  then show ?case by (cases op) (auto simp: case_prod_unfold intro!: Option.bind_cong)
qed

lemma size_card:
  assumes "hs_ok h s"
  shows "hs_size s = card (elems s)"
proof -
  let ?L = "{p. p < length (hs_table s) \<and> is_live (hs_table s ! p)}" and ?val = "\<lambda>p. hn_value (the (hs_table s ! p))"
  have f: "find_slot h (hs_table s) (?val p) = Some p" if "p \<in> ?L" for p
    using that assms by (cases "hs_table s ! p") (auto simp: hs_ok_def)
  have "inj_on ?val ?L" using f by (intro inj_onI) (metis option.inject)
  moreover have "?val ` ?L = elems s"
  proof (intro set_eqI iffI)
    fix v assume "v \<in> ?val ` ?L"
    then obtain p where "p < length (hs_table s)" "is_live (hs_table s ! p)" "v = ?val p" by auto
    then show "v \<in> elems s" unfolding elems_def in_live_values
      by (cases "hs_table s ! p") (auto intro!: exI [of _ p] hash_node.equality)
  qed (force simp: elems_def in_live_values)
  ultimately show ?thesis using assms card_image [of ?val ?L] by (simp add: hs_ok_def length_filter_conv_card)
qed

subsection \<open>Properties\<close>

text \<open>
  Claim C27.  Termination of the probing loop.  Whatever the hash function, a sequence of insertions,
  membership tests and at most three erasures on a new set always returns, and answers as a set
  does.  Three is the best bound: erased slots are neither reused nor counted in the load, and four
  erasures suffice to leave no slot empty, after which the search for an absent element never ends.
\<close>

theorem probing_terminates:
  "(\<forall>h ops. length (filter is_erase ops) \<le> 3 \<longrightarrow>
      (\<exists>s. hs_run h ops HashSet_new = Some (fst (set_run ops {}), s) \<and> elems s = snd (set_run ops {})
         \<and> hs_size s = card (snd (set_run ops {}))))
   \<and> (\<exists>ops. length (filter is_erase ops) = 4 \<and> hs_run (\<lambda>n. n) (ops @ [SContains 16]) HashSet_new = None)"
proof (intro conjI allI impI)
  fix h :: "'a \<Rightarrow> nat" and ops :: "'a set_op list"
  assume "length (filter is_erase ops) \<le> 3"
  then show "\<exists>s. hs_run h ops HashSet_new = Some (fst (set_run ops {}), s) \<and> elems s = snd (set_run ops {})
      \<and> hs_size s = card (snd (set_run ops {}))"
    using hs_run_ok [of h HashSet_new ops] by (auto simp: HashSet_new_ok dest: size_card)
next
  have "length (filter is_erase fill_with_tombs) = 4" by (simp add: fill_with_tombs_def filter_map comp_def)
  moreover have "hs_run (\<lambda>n. n) (fill_with_tombs @ [SContains 16]) HashSet_new = None"
    by (simp add: hs_run_append fill_with_tombs_run full_table_hangs)
  ultimately show "\<exists>ops. length (filter is_erase ops) = 4 \<and> hs_run (\<lambda>n. n) (ops @ [SContains 16]) HashSet_new = None" by blast
qed

theorem probing_terminates_witness:
  "\<exists>s. hs_run (\<lambda>n. n) [SInsert 1, SInsert 17, SErase 1, SContains 17] HashSet_new = Some ([True], s) \<and> elems s = {17} \<and> hs_size s = 1"
  using conjunct1 [OF probing_terminates, rule_format, of "[SInsert (1 :: nat), SInsert 17, SErase 1, SContains 17]" "\<lambda>n. n"]
  by (simp add: insert_Diff_if)

end
