(* ===== verification/SegTrees.thy ===== *)
theory SegTrees
  imports Prelude "HOL-Library.Signed_Division" "HOL-Library.Sublist"
begin

text \<open>
  The segment trees of \<^verbatim>\<open>datastruct/segment_tree.cpp\<close> and \<^verbatim>\<open>datastruct/max_segment_tree.cpp\<close>.

  The two classes have the same code around different ways to combine two nodes, which is the argument
  \<open>f\<close> of the recursive functions.  An \<open>int\<close> sum that leaves the range of \<open>int\<close> and a vector
  index out of range are \<open>None\<close>; so is a recursion that never ends, as \<open>update\<close> does on an
  empty tree.  Indices are unbounded: the arrays considered have fewer than \<open>2 ^ 29\<close> elements, so that
  \<open>4 * n\<close> and every node index fit an \<open>int\<close>.
\<close>

definition INT_MIN :: int where "INT_MIN = - (2 ^ 31)"
definition INT_MAX :: int where "INT_MAX = 2 ^ 31 - 1"

definition vec_at :: "int list \<Rightarrow> int \<Rightarrow> int option" where
  "vec_at v i = (if 0 \<le> i \<and> i < int (length v) then Some (v ! nat i) else None)"

definition vec_set :: "int list \<Rightarrow> int \<Rightarrow> int \<Rightarrow> int list option" where
  "vec_set v i x = (if 0 \<le> i \<and> i < int (length v) then Some (v[nat i := x]) else None)"

subsection \<open>Operations\<close>

definition pull :: "(int \<Rightarrow> int \<Rightarrow> int option) \<Rightarrow> int \<Rightarrow> int list \<Rightarrow> int list option" where
  "pull f node tree = do {
     a \<leftarrow> vec_at tree (2 * node + 1);
     b \<leftarrow> vec_at tree (2 * node + 2);
     v \<leftarrow> f a b;
     vec_set tree node v }"

partial_function (option) seg_build ::
    "(int \<Rightarrow> int \<Rightarrow> int option) \<Rightarrow> int list \<Rightarrow> int \<Rightarrow> int \<Rightarrow> int \<Rightarrow> int list \<Rightarrow> int list option" where
  "seg_build f nums node start fin tree =
     (if start = fin then vec_at nums start \<bind> vec_set tree node
      else let mid = (start + fin) sdiv 2 in do {
        tree \<leftarrow> seg_build f nums (2 * node + 1) start mid tree;
        tree \<leftarrow> seg_build f nums (2 * node + 2) (mid + 1) fin tree;
        pull f node tree })"

partial_function (option) seg_update ::
    "(int \<Rightarrow> int \<Rightarrow> int option) \<Rightarrow> int \<Rightarrow> int \<Rightarrow> int \<Rightarrow> int \<Rightarrow> int \<Rightarrow> int list \<Rightarrow> int list option" where
  "seg_update f node start fin idx v tree =
     (if start = fin then vec_set tree node v
      else let mid = (start + fin) sdiv 2 in do {
        tree \<leftarrow> (if idx \<le> mid then seg_update f (2 * node + 1) start mid idx v tree
                 else seg_update f (2 * node + 2) (mid + 1) fin idx v tree);
        pull f node tree })"

partial_function (option) seg_query ::
    "(int \<Rightarrow> int \<Rightarrow> int option) \<Rightarrow> int \<Rightarrow> int \<Rightarrow> int \<Rightarrow> int \<Rightarrow> int \<Rightarrow> int \<Rightarrow> int list \<Rightarrow> int option" where
  "seg_query f unit node start fin l r tree =
     (if r < start \<or> fin < l then Some unit
      else if l \<le> start \<and> fin \<le> r then vec_at tree node
      else let mid = (start + fin) sdiv 2 in do {
        a \<leftarrow> seg_query f unit (2 * node + 1) start mid l r tree;
        b \<leftarrow> seg_query f unit (2 * node + 2) (mid + 1) fin l r tree;
        f a b })"

declare seg_build.simps [code] seg_update.simps [code] seg_query.simps [code]

subsection \<open>The two classes\<close>

record segment_tree =
  st_tree :: "int list"
  st_n :: int

definition add_int :: "int \<Rightarrow> int \<Rightarrow> int option" where
  "add_int a b = (if INT_MIN \<le> a + b \<and> a + b \<le> INT_MAX then Some (a + b) else None)"

definition max_int :: "int \<Rightarrow> int \<Rightarrow> int option" where
  "max_int a b = Some (max a b)"

definition SegmentTree_new :: "int list \<Rightarrow> segment_tree option" where
  "SegmentTree_new nums =
     (let n = int (length nums)
      in if n = 0 then Some \<lparr> st_tree = [], st_n = n \<rparr>
         else do {
           t \<leftarrow> seg_build add_int nums 0 0 (n - 1) (replicate (nat (4 * n)) 0);
           Some \<lparr> st_tree = t, st_n = n \<rparr> })"

definition sum_update :: "int \<Rightarrow> int \<Rightarrow> segment_tree \<Rightarrow> segment_tree option" where
  "sum_update index v s = do {
     t \<leftarrow> seg_update add_int 0 0 (st_n s - 1) index v (st_tree s);
     Some (s\<lparr> st_tree := t \<rparr>) }"

definition sum_query :: "int \<Rightarrow> int \<Rightarrow> segment_tree \<Rightarrow> int option" where
  "sum_query l r s = seg_query add_int 0 0 0 (st_n s - 1) l r (st_tree s)"

definition max_build :: "int list \<Rightarrow> int \<Rightarrow> int \<Rightarrow> int \<Rightarrow> int list \<Rightarrow> int list option" where
  "max_build nums node start fin tree = seg_build max_int nums node start fin tree"

definition max_update_node :: "int \<Rightarrow> int \<Rightarrow> int \<Rightarrow> int \<Rightarrow> int \<Rightarrow> int list \<Rightarrow> int list option" where
  "max_update_node node start fin idx v tree = seg_update max_int node start fin idx v tree"

definition max_query_node :: "int \<Rightarrow> int \<Rightarrow> int \<Rightarrow> int \<Rightarrow> int \<Rightarrow> int list \<Rightarrow> int option" where
  "max_query_node node start fin l r tree = seg_query max_int INT_MIN node start fin l r tree"

definition MaxSegmentTree_new :: "int list \<Rightarrow> segment_tree option" where
  "MaxSegmentTree_new nums =
     (let n = int (length nums)
      in if n = 0 then Some \<lparr> st_tree = [], st_n = n \<rparr>
         else do {
           t \<leftarrow> max_build nums 0 0 (n - 1) (replicate (nat (4 * n)) INT_MIN);
           Some \<lparr> st_tree = t, st_n = n \<rparr> })"

definition max_update :: "int \<Rightarrow> int \<Rightarrow> segment_tree \<Rightarrow> segment_tree option" where
  "max_update index v s = do {
     t \<leftarrow> max_update_node 0 0 (st_n s - 1) index v (st_tree s);
     Some (s\<lparr> st_tree := t \<rparr>) }"

definition max_query :: "int \<Rightarrow> int \<Rightarrow> segment_tree \<Rightarrow> int option" where
  "max_query l r s = max_query_node 0 0 (st_n s - 1) l r (st_tree s)"

subsection \<open>Programs\<close>

datatype seg_op = Update int int | Query int int

text \<open>The answers of a sequence of operations, for the update and query functions of a class.\<close>

fun seg_run :: "(int \<Rightarrow> int \<Rightarrow> segment_tree \<Rightarrow> segment_tree option) \<Rightarrow> (int \<Rightarrow> int \<Rightarrow> segment_tree \<Rightarrow> int option)
    \<Rightarrow> seg_op list \<Rightarrow> segment_tree \<Rightarrow> int list option" where
  "seg_run upd qry [] s = Some []"
| "seg_run upd qry (Update i v # ops) s = do { s \<leftarrow> upd i v s; seg_run upd qry ops s }"
| "seg_run upd qry (Query l r # ops) s = do { a \<leftarrow> qry l r s; as \<leftarrow> seg_run upd qry ops s; Some (a # as) }"

text \<open>
  The abstract array.  An index beyond an end of the array selects the element at that end, and a query
  collects the elements whose index lies in the range.
\<close>

definition clamp :: "int \<Rightarrow> nat \<Rightarrow> nat" where
  "clamp i m = nat (min (max i 0) (int m - 1))"

fun clip :: "int \<Rightarrow> int \<Rightarrow> int \<Rightarrow> int list \<Rightarrow> int list" where
  "clip l r s [] = []"
| "clip l r s (x # xs) = (if l \<le> s \<and> s \<le> r then x # clip l r (s + 1) xs else clip l r (s + 1) xs)"

fun array_run :: "(int list \<Rightarrow> int) \<Rightarrow> seg_op list \<Rightarrow> int list \<Rightarrow> int list" where
  "array_run agg [] xs = []"
| "array_run agg (Update i v # ops) xs = array_run agg ops (xs[clamp i (length xs) := v])"
| "array_run agg (Query l r # ops) xs = agg (clip l r 0 xs) # array_run agg ops xs"

text \<open>The arrays that a sequence of operations goes through satisfy \<open>ok\<close>.\<close>

fun array_ok :: "(int list \<Rightarrow> bool) \<Rightarrow> seg_op list \<Rightarrow> int list \<Rightarrow> bool" where
  "array_ok ok [] xs \<longleftrightarrow> ok xs"
| "array_ok ok (Update i v # ops) xs \<longleftrightarrow> ok xs \<and> array_ok ok ops (xs[clamp i (length xs) := v])"
| "array_ok ok (Query l r # ops) xs \<longleftrightarrow> array_ok ok ops xs"

subsection \<open>Subtrees\<close>

definition sub_node :: "nat \<Rightarrow> nat \<Rightarrow> bool" where
  "sub_node k j \<longleftrightarrow> (\<exists>d. (j + 1) div 2 ^ d = k + 1)"

text \<open>Room in the vector for the subtree of height \<open>h\<close> at node \<open>k\<close> over \<open>m\<close> elements.\<close>

definition room :: "nat \<Rightarrow> nat \<Rightarrow> nat \<Rightarrow> nat \<Rightarrow> bool" where
  "room h k m N \<longleftrightarrow> m \<le> 2 ^ h \<and> (k + 2) * 2 ^ h \<le> N + 1"

lemma sub_node_self [simp]: "sub_node k k"
  by (auto simp: sub_node_def intro: exI [of _ 0])

lemma sub_node_child: "sub_node (2 * k + 1) j \<or> sub_node (2 * k + 2) j \<Longrightarrow> sub_node k j"
proof -
  assume "sub_node (2 * k + 1) j \<or> sub_node (2 * k + 2) j"
  then obtain d where "(j + 1) div 2 ^ d = 2 * k + 2 \<or> (j + 1) div 2 ^ d = 2 * k + 3"
    by (auto simp: sub_node_def numeral_3_eq_3)
  then have "(j + 1) div 2 ^ Suc d = k + 1" by (auto simp: power_Suc2 div_mult2_eq simp del: power_Suc)
  then show ?thesis unfolding sub_node_def by blast
qed

lemma sub_node_ge: "sub_node k j \<Longrightarrow> k \<le> j"
  unfolding sub_node_def by (metis Suc_eq_plus1 Suc_le_mono div_le_dividend)

lemma sub_node_disjoint: "\<not> (sub_node (2 * k + 1) j \<and> sub_node (2 * k + 2) j)"
proof
  assume "sub_node (2 * k + 1) j \<and> sub_node (2 * k + 2) j"
  then obtain d e where d: "(j + 1) div 2 ^ d = 2 * k + 2" and e: "(j + 1) div 2 ^ e = 2 * k + 3"
    by (auto simp: sub_node_def numeral_3_eq_3)
  have up: "a \<le> b div 2" if "(j + 1) div 2 ^ x = a" "(j + 1) div 2 ^ y = b" "y < x" for a b x y
  proof -
    have "(2::nat) ^ x = 2 ^ y * 2 ^ (x - y)" using that(3) by (simp flip: power_add)
    then have "a = b div 2 ^ (x - y)" using that(1,2) by (simp add: div_mult2_eq)
    also have "\<dots> \<le> b div 2 ^ 1" using that(3) by (intro div_le_mono2 power_increasing) auto
    finally show ?thesis by simp
  qed
  show False using up [OF d e] up [OF e d] d e by (cases d e rule: linorder_cases) auto
qed

subsection \<open>What a tree stands for\<close>

definition half :: "'a list \<Rightarrow> nat" where
  "half xs = (length xs + 1) div 2"

fun rep :: "(int list \<Rightarrow> int) \<Rightarrow> int list \<Rightarrow> nat \<Rightarrow> int list \<Rightarrow> bool" where
  "rep agg T k xs \<longleftrightarrow> T ! k = agg xs \<and>
     (if length xs \<le> 1 then True
      else rep agg T (2 * k + 1) (take ((length xs + 1) div 2) xs)
           \<and> rep agg T (2 * k + 2) (drop ((length xs + 1) div 2) xs))"

declare rep.simps [simp del]

lemma rep_leaf: "rep agg T k [x] \<longleftrightarrow> T ! k = agg [x]"
  by (simp add: rep.simps)

lemma rep_split:
  assumes "1 < length xs"
  shows "rep agg T k xs \<longleftrightarrow> T ! k = agg xs \<and> rep agg T (2 * k + 1) (take (half xs) xs)
           \<and> rep agg T (2 * k + 2) (drop (half xs) xs)"
  using assms by (subst rep.simps) (simp add: half_def)

lemma rep_cong: "(\<And>j. sub_node k j \<Longrightarrow> T ! j = T' ! j) \<Longrightarrow> rep agg T k xs = rep agg T' k xs"
proof (induction agg T k xs rule: rep.induct)
  case (1 agg T k xs)
  have "rep agg T (2 * k + 1) ys = rep agg T' (2 * k + 1) ys" "rep agg T (2 * k + 2) zs = rep agg T' (2 * k + 2) zs"
    if "\<not> length xs \<le> 1" "ys = take ((length xs + 1) div 2) xs" "zs = drop ((length xs + 1) div 2) xs" for ys zs
    using 1 that sub_node_child by blast+
  then show ?case using 1(3) [of k] rep.simps [of agg T k xs] rep.simps [of agg T' k xs] by simp
qed

lemma room_child:
  assumes "room h k m N" "1 < m"
  obtains h' where "room h' (2 * k + 1) ((m + 1) div 2) N" "room h' (2 * k + 2) (m - (m + 1) div 2) N" "k < N"
    "2 * k + 1 < N" "2 * k + 2 < N"
proof -
  have "h \<noteq> 0" using assms by (cases h) (auto simp: room_def)
  then obtain h' where h: "h = Suc h'" using not0_implies_Suc by blast
  have r: "m \<le> 2 * 2 ^ h'" "(2 * k + 4) * 2 ^ h' \<le> N + 1" using assms by (auto simp: room_def h algebra_simps)
  have "(2 * k + 3) * 2 ^ h' \<le> N + 1" using r(2) by (rule order_trans [rotated]) simp
  moreover have "2 * k + 4 \<le> N + 1" using r(2) by (rule order_trans [rotated]) simp
  moreover have "(m + 1) div 2 \<le> 2 ^ h'" "m - (m + 1) div 2 \<le> 2 ^ h'" using r(1) by linarith+
  ultimately show thesis using r(2) that [of h'] by (simp add: room_def algebra_simps)
qed

lemma room_leaf: "room h k m N \<Longrightarrow> k < N"
proof -
  assume "room h k m N"
  then have "k + 2 \<le> N + 1" unfolding room_def by (metis (no_types) mult.right_neutral mult_le_mono2 one_le_numeral one_le_power order_trans)
  then show ?thesis by simp
qed

lemma room_root: "0 < n \<Longrightarrow> \<exists>h. room h 0 n (4 * n)"
proof -
  assume n: "0 < n"
  define h where "h = (LEAST h. n \<le> 2 ^ h)"
  have "n \<le> 2 ^ n" by (simp add: less_imp_le)
  then have le: "n \<le> 2 ^ h" unfolding h_def by (rule LeastI)
  have "2 ^ h \<le> 2 * n"
  proof (cases h)
    case (Suc h')
    then have "\<not> n \<le> 2 ^ h'" using not_less_Least [of h' "\<lambda>h. n \<le> 2 ^ h"] by (simp add: h_def)
    then show ?thesis using Suc by simp
  qed (use n in simp)
  then show ?thesis using le unfolding room_def by (intro exI [of _ h]) simp
qed

lemma mid_node:
  assumes "1 < m"
  shows "(int s + (int s + int m - 1)) sdiv 2 = int s + int ((m + 1) div 2) - 1"
proof -
  have "(int s + (int s + int m - 1)) sdiv 2 = (int s + (int s + int m - 1)) div 2"
    using assms by (simp add: signed_divide_int_def sgn_if)
  also have "\<dots> = int s + int ((m + 1) div 2) - 1" by (simp add: zdiv_int)
  finally show ?thesis .
qed

lemma mid_half: "1 < length xs \<Longrightarrow> (int s + (int s + int (length xs) - 1)) sdiv 2 = int s + int (half xs) - 1"
  using mid_node [of "length xs" s] by (simp only: half_def)

lemma vec_at_nat [simp]: "k < length T \<Longrightarrow> vec_at T (int k) = Some (T ! k)"
  by (simp add: vec_at_def)

lemma vec_set_nat [simp]: "k < length T \<Longrightarrow> vec_set T (int k) v = Some (T[k := v])"
  by (simp add: vec_set_def)

lemma vec_at_children [simp]:
  "2 * k + 1 < length T \<Longrightarrow> vec_at T (2 * int k + 1) = Some (T ! (2 * k + 1))"
  "2 * k + 2 < length T \<Longrightarrow> vec_at T (2 * int k + 2) = Some (T ! (2 * k + 2))"
  using vec_at_nat [of "2 * k + 1" T] vec_at_nat [of "2 * k + 2" T] by (simp_all add: algebra_simps)

lemma child_nodes: "2 * int k + 1 = int (2 * k + 1)" "2 * int k + 2 = int (2 * k + 2)"
  by simp_all

lemma clip_append: "clip l r s (xs @ ys) = clip l r s xs @ clip l r (s + int (length xs)) ys"
  by (induction xs arbitrary: s) (auto simp: algebra_simps)

lemma clip_outside: "r < s \<or> s + int (length xs) \<le> l \<Longrightarrow> clip l r s xs = []"
  by (induction xs arbitrary: s) auto

lemma clip_inside: "l \<le> s \<Longrightarrow> s + int (length xs) - 1 \<le> r \<Longrightarrow> clip l r s xs = xs"
  by (induction xs arbitrary: s) auto

lemma clip_prefix: "l \<le> s \<Longrightarrow> prefix (clip l r s xs) xs"
proof (induction xs arbitrary: s)
  case (Cons x xs)
  then show ?case by (cases "s \<le> r") (auto simp: clip_outside)
qed simp

lemma clip_sublist: "sublist (clip l r s xs) xs"
proof (induction xs arbitrary: s)
  case (Cons x xs)
  show ?case
  proof (cases "l \<le> s")
    case True
    then show ?thesis by (blast intro: prefix_imp_sublist clip_prefix)
  next
    case False
    then show ?thesis using Cons.IH by (simp add: sublist_Cons_right)
  qed
qed simp

lemma clamp_left:
  assumes "idx \<le> int s + int h - 1" "0 < h" "h < m"
  shows "clamp (idx - int s) m = clamp (idx - int s) h" "clamp (idx - int s) m < h"
  using assms by (auto simp: clamp_def)

lemma clamp_right:
  assumes "\<not> idx \<le> int s + int h - 1" "0 < h" "h < m"
  shows "clamp (idx - int s) m - h = clamp (idx - int (s + h)) (m - h)" "h \<le> clamp (idx - int s) m"
  using assms by (auto simp: clamp_def)

subsection \<open>A lawful combination of nodes\<close>

text \<open>
  \<open>agg\<close> is the value of a segment.  The laws hold for the segments that are \<open>ok\<close>, a property that
  passes to contiguous parts.
\<close>

locale combining =
  fixes f :: "int \<Rightarrow> int \<Rightarrow> int option" and agg :: "int list \<Rightarrow> int" and ok :: "int list \<Rightarrow> bool"
  assumes single: "ok [x] \<Longrightarrow> agg [x] = x"
    and combine: "ok (xs @ ys) \<Longrightarrow> f (agg xs) (agg ys) = Some (agg (xs @ ys))"
    and ok_sublist: "ok xs \<Longrightarrow> sublist ys xs \<Longrightarrow> ok ys"
begin

lemma pull_rep:
  assumes xs: "1 < length xs" "ok xs" and k: "k < length T" "2 * k + 1 < length T" "2 * k + 2 < length T"
    and l: "rep agg T (2 * k + 1) (take (half xs) xs)" and r: "rep agg T (2 * k + 2) (drop (half xs) xs)"
  shows "\<exists>v. pull f (int k) T = Some (T[k := v]) \<and> rep agg (T[k := v]) k xs"
proof -
  have "T ! (2 * k + 1) = agg (take (half xs) xs)" "T ! (2 * k + 2) = agg (drop (half xs) xs)"
    using l r rep.simps by blast+
  then have pull: "pull f (int k) T = Some (T[k := agg xs])"
    using k combine [of "take (half xs) xs" "drop (half xs) xs"] xs
    by (simp add: pull_def vec_at_children del: One_nat_def add_2_eq_Suc')
  have "T ! j = T[k := agg xs] ! j" if "sub_node (2 * k + 1) j \<or> sub_node (2 * k + 2) j" for j
    using sub_node_ge that by (cases "j = k") fastforce+
  then have "rep agg (T[k := agg xs]) (2 * k + 1) (take (half xs) xs)" "rep agg (T[k := agg xs]) (2 * k + 2) (drop (half xs) xs)"
    using l r rep_cong [of "2 * k + 1" T "T[k := agg xs]"] rep_cong [of "2 * k + 2" T "T[k := agg xs]"] by blast+
  then have "rep agg (T[k := agg xs]) k xs" using rep_split [OF xs(1)] k by simp
  then show ?thesis using pull by blast
qed

text \<open>A tree \<open>T'\<close> that differs from \<open>T\<close> below \<open>k\<close> only, and stands there for \<open>xs\<close>.\<close>

abbreviation rebuilt where
  "rebuilt T T' k xs \<equiv> length T' = length T \<and> rep agg T' k xs \<and> (\<forall>j. \<not> sub_node k j \<longrightarrow> T' ! j = T ! j)"

lemma rebuilt_pull:
  assumes "1 < length xs" "ok xs" "k < length T" "2 * k + 1 < length T" "2 * k + 2 < length T"
    and "length T' = length T" "rep agg T' (2 * k + 1) (take (half xs) xs)" "rep agg T' (2 * k + 2) (drop (half xs) xs)"
    and "\<forall>j. \<not> sub_node k j \<longrightarrow> T' ! j = T ! j"
  shows "\<exists>T''. pull f (int k) T' = Some T'' \<and> rebuilt T T'' k xs"
proof -
  obtain v where "pull f (int k) T' = Some (T'[k := v])" "rep agg (T'[k := v]) k xs"
    using pull_rep [of xs k T'] assms by auto
  moreover have "T'[k := v] ! j = T ! j" if "\<not> sub_node k j" for j
    using that assms(9) by (cases "j = k") auto
  ultimately show ?thesis using assms(6) by auto
qed

lemma build_rep:
  assumes "room h k (length xs) (length T)" "xs \<noteq> []" "ok xs"
    and "\<And>i. i < length xs \<Longrightarrow> vec_at nums (int s + int i) = Some (xs ! i)"
  shows "\<exists>T'. seg_build f nums (int k) (int s) (int s + int (length xs) - 1) T = Some T' \<and> rebuilt T T' k xs"
  using assms
proof (induction "length xs" arbitrary: h k s xs T rule: less_induct)
  case less
  show ?case
  proof (cases "1 < length xs")
    case False
    then obtain x where xs: "xs = [x]" using less.prems(2) by (cases xs) auto
    then have "vec_at nums (int s) = Some x" using less.prems(4) [of 0] by simp
    moreover have "k < length T" using room_leaf less.prems(1) .
    moreover have "T[k := x] ! j = T ! j" if "\<not> sub_node k j" for j using that by (cases "j = k") auto
    ultimately show ?thesis
      using less.prems(3) xs single by (subst seg_build.simps) (simp add: rep_leaf)
  next
    case True
    let ?l = "take (half xs) xs" and ?r = "drop (half xs) xs" and ?m = "half xs"
    have m: "length ?l = ?m" "0 < ?m" "?m < length xs" "length xs - ?m < length xs" using True by (auto simp: half_def)
    obtain h' where h': "room h' (2 * k + 1) (length ?l) (length T)" "room h' (2 * k + 2) (length ?r) (length T)"
        "k < length T" "2 * k + 1 < length T" "2 * k + 2 < length T"
      using room_child [OF less.prems(1) True] m by (metis half_def length_drop)
    have ok: "ok ?l" "ok ?r" using less.prems(3) ok_sublist sublist_take sublist_drop by blast+
    obtain T1 where T1: "seg_build f nums (int (2 * k + 1)) (int s) (int s + int (length ?l) - 1) T = Some T1"
        "rebuilt T T1 (2 * k + 1) ?l"
      using less.hyps [of ?l h' "2 * k + 1" T s] h' m ok less.prems(2,4) by auto
    obtain T2 where T2: "seg_build f nums (int (2 * k + 2)) (int (s + ?m)) (int (s + ?m) + int (length ?r) - 1) T1 = Some T2"
        "rebuilt T1 T2 (2 * k + 2) ?r"
      using less.hyps [of ?r h' "2 * k + 2" T1 "s + ?m"] h' m ok T1(2) less.prems(4) [of "?m + _"]
      by (auto simp: algebra_simps)
    have "rep agg T2 (2 * k + 1) ?l"
      using T1(2) T2(2) sub_node_disjoint rep_cong [of "2 * k + 1" T1 T2] by metis
    moreover have "T2 ! j = T ! j" if "\<not> sub_node k j" for j
      using T1(2) T2(2) that sub_node_child by metis
    ultimately obtain T' where T': "pull f (int k) T2 = Some T'" "rebuilt T T' k xs"
      using rebuilt_pull [OF True less.prems(3) h'(3-5), of T2] T1(2) T2(2) by auto
    have "(int s + (int s + int (length xs) - 1)) sdiv 2 = int s + int (length ?l) - 1"
      using mid_half [OF True] m by simp
    moreover have "int s + int (length ?l) - 1 + 1 = int (s + ?m)" 
        "int (s + ?m) + int (length ?r) - 1 = int s + int (length xs) - 1"
      using m by auto
    ultimately show ?thesis
      using T1(1) [folded child_nodes] T2(1) [folded child_nodes] T' True by (subst seg_build.simps) (simp add: Let_def)
  qed
qed

lemma update_rep:
  assumes "room h k (length xs) (length T)" "xs \<noteq> []" "ok (xs[clamp (idx - int s) (length xs) := v])" "rep agg T k xs"
  shows "\<exists>T'. seg_update f (int k) (int s) (int s + int (length xs) - 1) idx v T = Some T'
           \<and> rebuilt T T' k (xs[clamp (idx - int s) (length xs) := v])"
  using assms
proof (induction "length xs" arbitrary: h k s xs rule: less_induct)
  case less
  let ?p = "clamp (idx - int s) (length xs)"
  show ?case
  proof (cases "1 < length xs")
    case False
    then obtain x where xs: "xs = [x]" using less.prems(2) by (cases xs) auto
    have "?p = 0" using xs by (simp add: clamp_def)
    moreover have "k < length T" using room_leaf less.prems(1) .
    moreover have "T[k := v] ! j = T ! j" if "\<not> sub_node k j" for j using that by (cases "j = k") auto
    ultimately show ?thesis
      using less.prems(3) xs single by (subst seg_update.simps) (simp add: rep_leaf)
  next
    case True
    let ?ys = "xs[?p := v]" and ?m = "half xs"
    have m: "0 < ?m" "?m < length xs" and half: "half ?ys = ?m" using True by (auto simp: half_def)
    obtain h' where h': "room h' (2 * k + 1) ?m (length T)" "room h' (2 * k + 2) (length xs - ?m) (length T)"
        "k < length T" "2 * k + 1 < length T" "2 * k + 2 < length T"
      using room_child [OF less.prems(1) True] by (metis half_def)
    have rep: "rep agg T (2 * k + 1) (take ?m xs)" "rep agg T (2 * k + 2) (drop ?m xs)"
      using less.prems(4) rep_split [OF True] by blast+
    have ok: "ok (take ?m ?ys)" "ok (drop ?m ?ys)" using less.prems(3) ok_sublist sublist_take sublist_drop by blast+
    have mid: "(int s + (int s + int (length xs) - 1)) sdiv 2 = int s + int ?m - 1" using mid_half [OF True] .
    obtain T' where T': "(if idx \<le> int s + int ?m - 1 then seg_update f (int (2 * k + 1)) (int s) (int s + int ?m - 1) idx v T
             else seg_update f (int (2 * k + 2)) (int (s + ?m)) (int s + int (length xs) - 1) idx v T) = Some T'"
        "length T' = length T" "rep agg T' (2 * k + 1) (take ?m ?ys)" "rep agg T' (2 * k + 2) (drop ?m ?ys)"
        "\<forall>j. \<not> sub_node k j \<longrightarrow> T' ! j = T ! j"
    proof (cases "idx \<le> int s + int ?m - 1")
      case left: True
      note p = clamp_left [OF left m]
      have "\<exists>T'. seg_update f (int (2 * k + 1)) (int s) (int s + int (length (take ?m xs)) - 1) idx v T = Some T'
              \<and> rebuilt T T' (2 * k + 1) ((take ?m xs)[clamp (idx - int s) (length (take ?m xs)) := v])"
        using less.hyps [of "take ?m xs" h' "2 * k + 1" s] less.prems(2) m h' rep ok p
        by (simp add: take_update_swap)
      then obtain T' where T': "seg_update f (int (2 * k + 1)) (int s) (int s + int ?m - 1) idx v T = Some T'"
          "rebuilt T T' (2 * k + 1) (take ?m ?ys)"
        using m p by (auto simp: take_update_swap)
      have "rep agg T' (2 * k + 2) (drop ?m ?ys)"
        using rep(2) p T'(2) sub_node_disjoint rep_cong [of "2 * k + 2" T T'] by (metis drop_update_cancel)
      moreover have "\<forall>j. \<not> sub_node k j \<longrightarrow> T' ! j = T ! j" using T'(2) sub_node_child by blast
      ultimately show thesis using that [of T'] T' left by simp
    next
      case right: False
      note p = clamp_right [OF right m]
      have "\<exists>T'. seg_update f (int (2 * k + 2)) (int (s + ?m)) (int (s + ?m) + int (length (drop ?m xs)) - 1) idx v T = Some T'
              \<and> rebuilt T T' (2 * k + 2) ((drop ?m xs)[clamp (idx - int (s + ?m)) (length (drop ?m xs)) := v])"
        using less.hyps [of "drop ?m xs" h' "2 * k + 2" "s + ?m"] m h' rep ok p
        by (simp add: drop_update_swap)
      then obtain T' where T': "seg_update f (int (2 * k + 2)) (int (s + ?m)) (int s + int (length xs) - 1) idx v T = Some T'"
          "rebuilt T T' (2 * k + 2) (drop ?m ?ys)"
        using m p by (auto simp: drop_update_swap of_nat_diff algebra_simps)
      have "rep agg T' (2 * k + 1) (take ?m ?ys)"
        using rep(1) p T'(2) sub_node_disjoint rep_cong [of "2 * k + 1" T T'] by (metis take_update_cancel)
      moreover have "\<forall>j. \<not> sub_node k j \<longrightarrow> T' ! j = T ! j" using T'(2) sub_node_child by blast
      ultimately show thesis using that [of T'] T' right by simp
    qed
    then obtain T'' where "pull f (int k) T' = Some T''" "rebuilt T T'' k ?ys"
      using rebuilt_pull [of ?ys k T T'] True less.prems(3) h' half by auto
    then show ?thesis
      using True T'(1) [folded child_nodes] mid
      by (cases "idx \<le> int s + int ?m - 1") (subst seg_update.simps, simp add: Let_def)+
  qed
qed

lemma query_rep:
  assumes "room h k (length xs) (length T)" "xs \<noteq> []" "ok xs" "rep agg T k xs"
  shows "seg_query f (agg []) (int k) (int s) (int s + int (length xs) - 1) l r T = Some (agg (clip l r (int s) xs))"
  using assms
proof (induction "length xs" arbitrary: h k s xs rule: less_induct)
  case less
  have k: "k < length T" "T ! k = agg xs" using room_leaf less.prems(1) less.prems(4) rep.simps by blast+
  consider (outside) "r < int s \<or> int s + int (length xs) - 1 < l"
    | (inside) "l \<le> int s" "int s + int (length xs) - 1 \<le> r"
    | (split) "\<not> (r < int s \<or> int s + int (length xs) - 1 < l)"
        "\<not> (l \<le> int s \<and> int s + int (length xs) - 1 \<le> r)" "1 < length xs"
    using less.prems(2) by (cases xs) force+
  then show ?case
  proof cases
    case outside
    then show ?thesis by (subst seg_query.simps) (auto simp: clip_outside)
  next
    case inside
    then have "clip l r (int s) xs = xs" by (rule clip_inside)
    moreover have "\<not> (r < int s \<or> int s + int (length xs) - 1 < l)" using inside less.prems(2) by (cases xs) auto
    ultimately show ?thesis using inside k by (subst seg_query.simps) simp
  next
    case split
    let ?m = "half xs"
    have m: "0 < ?m" "?m < length xs" using split(3) by (auto simp: half_def)
    obtain h' where h': "room h' (2 * k + 1) ?m (length T)" "room h' (2 * k + 2) (length xs - ?m) (length T)"
      using room_child [OF less.prems(1) split(3)] by (metis half_def)
    have rep: "rep agg T (2 * k + 1) (take ?m xs)" "rep agg T (2 * k + 2) (drop ?m xs)"
      using less.prems(4) rep_split [OF split(3)] by blast+
    have ok: "ok (take ?m xs)" "ok (drop ?m xs)" using less.prems(3) ok_sublist sublist_take sublist_drop by blast+
    have q: "seg_query f (agg []) (int (2 * k + 1)) (int s) (int s + int (length (take ?m xs)) - 1) l r T
               = Some (agg (clip l r (int s) (take ?m xs)))"
            "seg_query f (agg []) (int (2 * k + 2)) (int (s + ?m)) (int (s + ?m) + int (length (drop ?m xs)) - 1) l r T
               = Some (agg (clip l r (int (s + ?m)) (drop ?m xs)))"
      using less.hyps [of "take ?m xs" h' "2 * k + 1" s] less.hyps [of "drop ?m xs" h' "2 * k + 2" "s + ?m"]
        m h' rep ok less.prems(2) by auto
    have clip: "clip l r (int s) xs = clip l r (int s) (take ?m xs) @ clip l r (int (s + ?m)) (drop ?m xs)"
      using clip_append [of l r "int s" "take ?m xs" "drop ?m xs"] m by simp
    moreover have "ok (clip l r (int s) xs)" using less.prems(3) clip_sublist ok_sublist by blast
    ultimately have "f (agg (clip l r (int s) (take ?m xs))) (agg (clip l r (int (s + ?m)) (drop ?m xs)))
                     = Some (agg (clip l r (int s) xs))"
      using combine by simp
    then show ?thesis
      using q [folded child_nodes] split m mid_half [OF split(3), of s]
      by (subst seg_query.simps) (auto simp: Let_def of_nat_diff)
  qed
qed

text \<open>A class whose object stands for the array \<open>xs\<close>, over the recursive functions.\<close>

abbreviation stands_for where
  "stands_for s xs \<equiv> st_n s = int (length xs) \<and> length (st_tree s) = 4 * length xs \<and> rep agg (st_tree s) 0 xs"

lemma new_rep:
  assumes "nums \<noteq> []" "ok nums"
  shows "\<exists>t. seg_build f nums 0 0 (int (length nums) - 1) (replicate (nat (4 * int (length nums))) x) = Some t
           \<and> length t = 4 * length nums \<and> rep agg t 0 nums"
proof -
  have n: "nat (4 * int (length nums)) = 4 * length nums" by simp
  obtain h where "room h 0 (length nums) (4 * length nums)" using room_root assms(1) by blast
  then show ?thesis
    using build_rep [of h 0 nums "replicate (4 * length nums) x" nums 0] assms unfolding n by auto
qed

lemma run_rep:
  assumes "array_ok ok ops xs" "xs \<noteq> []" "stands_for s xs"
    and upd: "\<And>i v s. upd i v s = do { t \<leftarrow> seg_update f 0 0 (st_n s - 1) i v (st_tree s); Some (s\<lparr> st_tree := t \<rparr>) }"
    and qry: "\<And>l r s. qry l r s = seg_query f (agg []) 0 0 (st_n s - 1) l r (st_tree s)"
  shows "seg_run upd qry ops s = Some (array_run agg ops xs)"
  using assms(1-3)
proof (induction ops arbitrary: s xs)
  case (Cons op ops)
  obtain h where h: "room h 0 (length xs) (length (st_tree s))" using room_root [of "length xs"] Cons.prems by auto
  have ok: "ok ys" if "array_ok ok ops ys" for ops ys using that by (induction ok ops ys rule: array_ok.induct) auto
  show ?case
  proof (cases op)
    case (Update i v)
    let ?ys = "xs[clamp i (length xs) := v]"
    have "array_ok ok ops ?ys" using Cons.prems(1) Update by simp
    moreover obtain t where "seg_update f 0 0 (int (length xs) - 1) i v (st_tree s) = Some t"
        "length t = length (st_tree s)" "rep agg t 0 ?ys"
      using update_rep [OF h, of i 0 v] ok [OF calculation] Cons.prems by auto
    ultimately show ?thesis using Cons.IH [of ?ys "s\<lparr> st_tree := t \<rparr>"] Cons.prems Update by (simp add: upd)
  next
    case (Query l r)
    then have "qry l r s = Some (agg (clip l r 0 xs))"
      using query_rep [OF h, of 0 l r] ok Cons.prems by (auto simp: qry)
    then show ?thesis using Cons Query by simp
  qed
qed simp

end

subsection \<open>Sums and maxima\<close>

definition sums_fit :: "int list \<Rightarrow> bool" where
  "sums_fit xs \<longleftrightarrow> (\<forall>ys. sublist ys xs \<longrightarrow> INT_MIN \<le> sum_list ys \<and> sum_list ys \<le> INT_MAX)"

definition max_list :: "int list \<Rightarrow> int" where
  "max_list xs = foldr max xs INT_MIN"

definition ints_fit :: "int list \<Rightarrow> bool" where
  "ints_fit xs \<longleftrightarrow> (\<forall>x\<in>set xs. INT_MIN \<le> x)"

lemma max_list_Nil [simp]: "max_list [] = INT_MIN"
  by (simp add: max_list_def)

lemma max_list_ge: "INT_MIN \<le> max_list xs"
  by (induction xs) (auto simp: max_list_def)

lemma max_list_append: "max_list (xs @ ys) = max (max_list xs) (max_list ys)"
proof (induction xs)
  case Nil
  show ?case using max_list_ge [of ys] by (simp add: max_def)
qed (simp add: max_list_def)

lemma max_list_single: "INT_MIN \<le> x \<Longrightarrow> max_list [x] = x"
  by (simp add: max_list_def max_def)

interpretation sums: combining add_int sum_list sums_fit
  by unfold_locales (auto simp: sums_fit_def add_int_def dest: sublist_order.order_trans)

interpretation maxima: combining max_int max_list ints_fit
  by unfold_locales (auto simp: ints_fit_def max_int_def max_list_append max_list_single dest: set_mono_sublist)

lemma array_ok_now: "array_ok ok ops xs \<Longrightarrow> ok xs"
  by (induction ok ops xs rule: array_ok.induct) auto

lemma sum_tree_run:
  assumes "nums \<noteq> []" "array_ok sums_fit ops nums"
  shows "SegmentTree_new nums \<bind> seg_run sum_update sum_query ops = Some (array_run sum_list ops nums)"
proof -
  obtain t where t: "seg_build add_int nums 0 0 (int (length nums) - 1) (replicate (nat (4 * int (length nums))) 0) = Some t"
      "length t = 4 * length nums" "rep sum_list t 0 nums"
    using sums.new_rep assms array_ok_now by metis
  then have "seg_run sum_update sum_query ops \<lparr> st_tree = t, st_n = int (length nums) \<rparr> = Some (array_run sum_list ops nums)"
    by (intro sums.run_rep) (simp_all add: assms sum_update_def sum_query_def)
  then show ?thesis using t(1) assms(1) by (simp add: SegmentTree_new_def Let_def)
qed

lemma max_tree_run:
  assumes "nums \<noteq> []" "array_ok ints_fit ops nums"
  shows "MaxSegmentTree_new nums \<bind> seg_run max_update max_query ops = Some (array_run max_list ops nums)"
proof -
  obtain t where t: "seg_build max_int nums 0 0 (int (length nums) - 1) (replicate (nat (4 * int (length nums))) INT_MIN) = Some t"
      "length t = 4 * length nums" "rep max_list t 0 nums"
    using maxima.new_rep assms array_ok_now by metis
  then have "seg_run max_update max_query ops \<lparr> st_tree = t, st_n = int (length nums) \<rparr> = Some (array_run max_list ops nums)"
    by (intro maxima.run_rep) (simp_all add: assms max_update_def max_query_def max_update_node_def max_query_node_def)
  then show ?thesis using t(1) assms(1) by (simp add: MaxSegmentTree_new_def max_build_def Let_def)
qed

lemma sums_fit_abs: "sum_list (map abs xs) \<le> INT_MAX \<Longrightarrow> sums_fit xs"
proof -
  have "\<bar>sum_list ys\<bar> \<le> sum_list (map abs ys)" for ys :: "int list" by (induction ys) auto
  moreover have "sum_list (map abs ys) \<le> sum_list (map abs xs)" if sub: "sublist ys xs" for ys
  proof -
    obtain ps ss where "xs = ps @ ys @ ss" using sub by (auto simp: sublist_def)
    moreover have "0 \<le> sum_list (map abs zs)" for zs :: "int list" by (induction zs) auto
    ultimately show ?thesis by (simp add: add_increasing add_increasing2)
  qed
  moreover assume "sum_list (map abs xs) \<le> INT_MAX"
  ultimately show ?thesis unfolding sums_fit_def INT_MIN_def INT_MAX_def by (smt (verit))
qed

text \<open>
  Claim C33. Over an array of at least one element, every sequence of updates and range queries on either tree
  answers as the array does.  No vector access leaves the \<open>4 * n\<close> cells, the recursion ends, a range that
  misses the array gives the neutral value, and an update beyond an end of the array writes the element at that
  end.  The sums need only that the contiguous sums of the arrays gone through fit an \<open>int\<close>.
\<close>

theorem segment_trees_refine:
  assumes "nums \<noteq> []" and "length nums < 2 ^ 29"
  shows "(array_ok sums_fit ops nums \<longrightarrow>
           SegmentTree_new nums \<bind> seg_run sum_update sum_query ops = Some (array_run sum_list ops nums))
       \<and> (array_ok ints_fit ops nums \<longrightarrow>
           MaxSegmentTree_new nums \<bind> seg_run max_update max_query ops = Some (array_run max_list ops nums))"
  using sum_tree_run max_tree_run assms(1) by blast

theorem segment_trees_refine_witness:
  "SegmentTree_new [1, 3, 5, 7, 9, 11] \<bind> seg_run sum_update sum_query [Query 1 3, Update 1 10, Query 1 3, Query 0 5]
     = Some [15, 22, 43]
   \<and> MaxSegmentTree_new [1, 3, 5, 7, 9, 11] \<bind> seg_run max_update max_query [Query 1 3, Update 1 10, Query 1 3, Query 0 5]
     = Some [7, 10, 11]"
proof -
  let ?ops = "[Query 1 3, Update 1 10, Query 1 3, Query 0 5]"
  have c: "clamp 1 (Suc (Suc (Suc (Suc (Suc (Suc 0)))))) = Suc 0" by (simp add: clamp_def)
  have "array_ok sums_fit ?ops [1, 3, 5, 7, 9, 11]" "array_ok ints_fit ?ops [1, 3, 5, 7, 9, 11]"
    by (simp_all add: c sums_fit_abs INT_MAX_def ints_fit_def INT_MIN_def)
  then show ?thesis
    using segment_trees_refine [of "[1, 3, 5, 7, 9, 11]" ?ops] by (simp add: c max_list_def INT_MIN_def)
qed

end
