(* ===== verification/EagerStrings.thy ===== *)
theory EagerStrings
  imports Prelude
begin

text \<open>
  The string class of \<^verbatim>\<open>string/StringEager.h\<close> and \<^verbatim>\<open>string/StringEager.cc\<close>: a growing array of bytes with a
  terminating zero.

  \<open>start_\<close> is the array it points to, \<open>None\<close> after the object was moved from; the shared
  \<open>kEmpty_\<close> is the array of one zero.  A pointer argument is the list of bytes readable from it on.
  Reading or writing outside an array, or through \<open>NULL\<close>, is \<open>None\<close>.  \<open>new char[n]\<close> leaves the
  array with arbitrary bytes \<open>mem\<close>.  Sizes and capacities are 32-bit unsigned, lengths 64-bit.
\<close>

record string_eager =
  se_start :: "byte list option"
  se_size :: nat
  se_capacity :: nat

definition u32 :: "nat \<Rightarrow> nat" where "u32 n = n mod 2 ^ 32"
definition u64 :: "nat \<Rightarrow> nat" where "u64 n = n mod 2 ^ 64"

definition kMinCapacity :: nat where "kMinCapacity = 15"

subsection \<open>Memory\<close>

definition new_char :: "(nat \<Rightarrow> byte) \<Rightarrow> nat \<Rightarrow> byte list" where
  "new_char mem n = map mem [0..<n]"

definition memcpy :: "byte list \<Rightarrow> nat \<Rightarrow> byte list \<Rightarrow> nat \<Rightarrow> byte list option" where
  "memcpy dst off src len =
     (if len \<le> length src \<and> off + len \<le> length dst then Some (blit dst off (take len src)) else None)"

definition store :: "byte list \<Rightarrow> nat \<Rightarrow> byte \<Rightarrow> byte list option" where
  "store dst i c = (if i < length dst then Some (dst[i := c]) else None)"

definition strlen :: "byte list \<Rightarrow> nat option" where
  "strlen str = (let n = length (takeWhile (\<lambda>c. c \<noteq> 0) str) in if n < length str then Some n else None)"

fun memcmp_loop :: "byte list \<Rightarrow> byte list \<Rightarrow> int" where
  "memcmp_loop (x # xs) (y # ys) = (if x < y then -1 else if y < x then 1 else memcmp_loop xs ys)"
| "memcmp_loop _ _ = 0"

definition memcmp :: "byte list \<Rightarrow> byte list \<Rightarrow> nat \<Rightarrow> int option" where
  "memcmp a b n = (if n \<le> length a \<and> n \<le> length b then Some (memcmp_loop (take n a) (take n b)) else None)"

subsection \<open>Construction\<close>

definition se_empty :: "string_eager" where
  "se_empty = \<lparr> se_start = Some [0], se_size = 0, se_capacity = 0 \<rparr>"

definition se_init :: "(nat \<Rightarrow> byte) \<Rightarrow> byte list \<Rightarrow> string_eager \<Rightarrow> string_eager option" where
  "se_init mem str s =
     (if se_size s > 0
      then let cap = max (se_size s) kMinCapacity
           in do { start \<leftarrow> memcpy (new_char mem (u32 (cap + 1))) 0 str (u32 (se_size s + 1));
                   Some (s\<lparr> se_capacity := cap, se_start := Some start \<rparr>) }
      else Some s)"

definition se_copy :: "(nat \<Rightarrow> byte) \<Rightarrow> string_eager \<Rightarrow> string_eager option" where
  "se_copy mem rhs = do { str \<leftarrow> se_start rhs; se_init mem str \<lparr> se_start = Some [0], se_size = se_size rhs, se_capacity = 0 \<rparr> }"

definition se_move :: "string_eager \<Rightarrow> string_eager \<times> string_eager" where
  "se_move rhs = (rhs, rhs\<lparr> se_start := None \<rparr>)"

definition se_of_cstr :: "(nat \<Rightarrow> byte) \<Rightarrow> byte list \<Rightarrow> string_eager option" where
  "se_of_cstr mem str =
     do { n \<leftarrow> strlen str; se_init mem str \<lparr> se_start = Some [0], se_size = u32 n, se_capacity = 0 \<rparr> }"

definition se_of_bytes :: "(nat \<Rightarrow> byte) \<Rightarrow> byte list \<Rightarrow> nat \<Rightarrow> string_eager option" where
  "se_of_bytes mem str len = se_init mem str \<lparr> se_start = Some [0], se_size = u32 len, se_capacity = 0 \<rparr>"

subsection \<open>Modification\<close>

definition nextCapacity :: "string_eager \<Rightarrow> nat \<Rightarrow> nat" where
  "nextCapacity s newSize = max (max (u32 (2 * se_capacity s)) newSize) kMinCapacity"

definition expandAndAppend :: "(nat \<Rightarrow> byte) \<Rightarrow> byte list \<Rightarrow> nat \<Rightarrow> string_eager \<Rightarrow> string_eager option" where
  "expandAndAppend mem str len s =
     (let newSize = u32 (se_size s + len);
          newCap = nextCapacity s newSize
      in do { start \<leftarrow> se_start s;
              newStart \<leftarrow> memcpy (new_char mem (u32 (newCap + 1))) 0 start (se_size s);
              newStart \<leftarrow> memcpy newStart (se_size s) str len;
              newStart \<leftarrow> store newStart newSize 0;
              Some \<lparr> se_start = Some newStart, se_size = newSize, se_capacity = newCap \<rparr> })"

definition se_reserve :: "(nat \<Rightarrow> byte) \<Rightarrow> nat \<Rightarrow> string_eager \<Rightarrow> string_eager option" where
  "se_reserve mem len s =
     (if len > se_capacity s
      then let newCap = nextCapacity s len
           in do { start \<leftarrow> se_start s;
                   newStart \<leftarrow> memcpy (new_char mem (u32 (newCap + 1))) 0 start (se_size s);
                   newStart \<leftarrow> store newStart (se_size s) 0;
                   Some \<lparr> se_start = Some newStart, se_size = se_size s, se_capacity = newCap \<rparr> }
      else Some s)"

definition se_clear :: "string_eager \<Rightarrow> string_eager option" where
  "se_clear s = do { start \<leftarrow> se_start s; start \<leftarrow> store start 0 0; Some (s\<lparr> se_size := 0, se_start := Some start \<rparr>) }"

definition se_swap :: "string_eager \<Rightarrow> string_eager \<Rightarrow> string_eager \<times> string_eager" where
  "se_swap s rhs = (rhs, s)"

definition se_move_assign :: "string_eager \<Rightarrow> string_eager \<Rightarrow> string_eager \<times> string_eager" where
  "se_move_assign s rhs = se_swap s rhs"

definition se_assign :: "(nat \<Rightarrow> byte) \<Rightarrow> byte list \<Rightarrow> nat \<Rightarrow> string_eager \<Rightarrow> string_eager option" where
  "se_assign mem str len s =
     (if se_capacity s \<ge> len
      then do { start \<leftarrow> se_start s;
                start \<leftarrow> memcpy start 0 str len;
                start \<leftarrow> store start (u32 len) 0;
                Some (s\<lparr> se_start := Some start, se_size := u32 len \<rparr>) }
      else do { s \<leftarrow> se_clear s; expandAndAppend mem str len s })"

definition se_push_back :: "(nat \<Rightarrow> byte) \<Rightarrow> byte \<Rightarrow> string_eager \<Rightarrow> string_eager option" where
  "se_push_back mem c s =
     (if se_capacity s \<ge> u32 (se_size s + 1)
      then do { start \<leftarrow> se_start s;
                start \<leftarrow> store start (se_size s) c;
                start \<leftarrow> store start (u32 (se_size s + 1)) 0;
                Some (s\<lparr> se_start := Some start, se_size := u32 (se_size s + 1) \<rparr>) }
      else expandAndAppend mem [c] 1 s)"

definition se_append :: "(nat \<Rightarrow> byte) \<Rightarrow> byte list \<Rightarrow> nat \<Rightarrow> string_eager \<Rightarrow> string_eager option" where
  "se_append mem str len s =
     (if se_capacity s \<ge> u64 (se_size s + len)
      then do { start \<leftarrow> se_start s;
                start \<leftarrow> memcpy start (se_size s) str len;
                start \<leftarrow> store start (u32 (se_size s + len)) 0;
                Some (s\<lparr> se_start := Some start, se_size := u32 (se_size s + len) \<rparr>) }
      else expandAndAppend mem str len s)"

definition se_append_cstr :: "(nat \<Rightarrow> byte) \<Rightarrow> byte list \<Rightarrow> string_eager \<Rightarrow> string_eager option" where
  "se_append_cstr mem str s = do { n \<leftarrow> strlen str; se_append mem str n s }"

definition se_assign_string :: "(nat \<Rightarrow> byte) \<Rightarrow> string_eager \<Rightarrow> string_eager \<Rightarrow> string_eager option" where
  "se_assign_string mem rhs s = do { str \<leftarrow> se_start rhs; se_assign mem str (se_size rhs) s }"

definition se_assign_cstr :: "(nat \<Rightarrow> byte) \<Rightarrow> byte list \<Rightarrow> string_eager \<Rightarrow> string_eager option" where
  "se_assign_cstr mem str s = do { n \<leftarrow> strlen str; se_assign mem str n s }"

subsection \<open>Comparison\<close>

definition se_equals :: "string_eager \<Rightarrow> byte list \<Rightarrow> nat \<Rightarrow> bool option" where
  "se_equals s str len =
     (if se_size s = len
      then do { start \<leftarrow> se_start s; r \<leftarrow> memcmp start str (se_size s); Some (r = 0) }
      else Some False)"

definition se_lessThan :: "string_eager \<Rightarrow> byte list \<Rightarrow> nat \<Rightarrow> bool option" where
  "se_lessThan s str strsize =
     do { start \<leftarrow> se_start s;
          result \<leftarrow> memcmp start str (min (se_size s) (u32 strsize));
          Some (if result = 0 then se_size s < strsize else result < 0) }"

text \<open>\<open>same\<close> says that both operands are the same object.\<close>

definition se_eq :: "bool \<Rightarrow> string_eager \<Rightarrow> string_eager \<Rightarrow> bool option" where
  "se_eq same s rhs =
     (if same then Some True else do { str \<leftarrow> se_start rhs; se_equals s str (se_size rhs) })"

definition se_less :: "string_eager \<Rightarrow> string_eager \<Rightarrow> bool option" where
  "se_less s rhs = do { str \<leftarrow> se_start rhs; se_lessThan s str (se_size rhs) }"

definition se_eq_cstr :: "string_eager \<Rightarrow> byte list \<Rightarrow> bool option" where
  "se_eq_cstr s str = do { n \<leftarrow> strlen str; se_equals s str n }"

definition se_less_cstr :: "string_eager \<Rightarrow> byte list \<Rightarrow> bool option" where
  "se_less_cstr s str = do { n \<leftarrow> strlen str; se_lessThan s str n }"

subsection \<open>Invariant\<close>

definition se_ok :: "string_eager \<Rightarrow> bool" where
  "se_ok s \<longleftrightarrow> (case se_start s of None \<Rightarrow> False
     | Some a \<Rightarrow> length a = se_capacity s + 1 \<and> se_size s \<le> se_capacity s \<and> se_capacity s < 2 ^ 32 - 1 \<and> a ! se_size s = 0)"

definition content :: "string_eager \<Rightarrow> byte list" where
  "content s = take (se_size s) (the (se_start s))"

lemma se_okE:
  assumes "se_ok s"
  obtains a where "se_start s = Some a" and "length a = se_capacity s + 1" and "se_size s \<le> se_capacity s"
    and "se_capacity s < 2 ^ 32 - 1" and "a ! se_size s = 0" and "content s = take (se_size s) a"
    and "length (content s) = se_size s"
  using assms by (cases "se_start s") (auto simp: se_ok_def content_def)

lemma se_okI:
  "length a = n + 1 \<Longrightarrow> m \<le> n \<Longrightarrow> n < 2 ^ 32 - 1 \<Longrightarrow> a ! m = 0 \<Longrightarrow> take m a = xs \<Longrightarrow>
   se_ok \<lparr> se_start = Some a, se_size = m, se_capacity = n \<rparr> \<and> content \<lparr> se_start = Some a, se_size = m, se_capacity = n \<rparr> = xs"
  by (simp add: se_ok_def content_def)

lemma u32_id [simp]: "n < 2 ^ 32 \<Longrightarrow> u32 n = n"
  by (simp add: u32_def)

lemma u64_id [simp]: "n < 2 ^ 64 \<Longrightarrow> u64 n = n"
  by (simp add: u64_def)

lemma length_new_char [simp]: "length (new_char mem n) = n"
  by (simp add: new_char_def)

text \<open>Writing bytes and a terminating zero behind them.\<close>

lemma blit_terminated:
  assumes "off + len < length a" and "len \<le> length src"
  defines "b \<equiv> (blit a off (take len src))[off + len := 0]"
  shows "length b = length a" and "b ! (off + len) = 0" and "take (off + len) b = take off a @ take len src"
proof -
  have n: "length (take len src) = len" using assms(2) by simp
  show l: "length b = length a" using assms(1) n by (simp add: b_def)
  show "b ! (off + len) = 0" using assms(1) n by (simp add: b_def)
  have "take (off + len) b = take (off + len) (blit a off (take len src))" by (simp add: b_def)
  also have "\<dots> = take off a @ take len src" using assms(1) n by (simp add: blit_def)
  finally show "take (off + len) b = take off a @ take len src" .
qed

lemma nextCapacity_bounds:
  assumes "n < 2 ^ 32 - 1" and "se_capacity s < 2 ^ 32 - 1"
  shows "n \<le> nextCapacity s n" and "nextCapacity s n < 2 ^ 32 - 1"
proof -
  have "even (u32 (2 * se_capacity s))" unfolding u32_def by (simp add: dvd_mod_iff)
  then have "u32 (2 * se_capacity s) \<noteq> 2 ^ 32 - 1" by auto
  moreover have "u32 (2 * se_capacity s) < 2 ^ 32" by (simp add: u32_def)
  ultimately show "n \<le> nextCapacity s n" "nextCapacity s n < 2 ^ 32 - 1"
    using assms(1) by (auto simp: nextCapacity_def kMinCapacity_def)
qed

subsection \<open>Operations on well-formed strings\<close>

lemma expandAndAppend_ok:
  assumes "se_ok s" and "len \<le> length str" and "se_size s + len < 2 ^ 32 - 1"
  shows "\<exists>s'. expandAndAppend mem str len s = Some s' \<and> se_ok s' \<and> content s' = content s @ take len str"
proof -
  from assms(1) obtain a where a: "se_start s = Some a" "length a = se_capacity s + 1" "se_size s \<le> se_capacity s"
    "se_capacity s < 2 ^ 32 - 1" "content s = take (se_size s) a" by (rule se_okE)
  let ?n = "se_size s + len" and ?cap = "nextCapacity s (se_size s + len)"
  note cap = nextCapacity_bounds [OF assms(3) a(4)]
  let ?a1 = "blit (new_char mem (?cap + 1)) 0 (take (se_size s) a)"
  have a1: "memcpy (new_char mem (?cap + 1)) 0 a (se_size s) = Some ?a1" using a cap by (simp add: memcpy_def)
  have l: "length ?a1 = ?cap + 1" "take (se_size s) ?a1 = content s" using a cap by (auto simp: blit_def)
  let ?a2 = "(blit ?a1 (se_size s) (take len str))[?n := 0]"
  have t: "length ?a2 = ?cap + 1" "?a2 ! ?n = 0" "take ?n ?a2 = content s @ take len str"
    using blit_terminated [of "se_size s" len ?a1 str] l cap assms(2) by simp_all
  have "expandAndAppend mem str len s = Some \<lparr> se_start = Some ?a2, se_size = ?n, se_capacity = ?cap \<rparr>"
    using a(1-3) a1 l cap assms by (simp add: expandAndAppend_def Let_def memcpy_def store_def)
  with se_okI [OF t(1) _ _ t(2,3)] cap show ?thesis by blast
qed

text \<open>Overwriting in place, when the capacity suffices.\<close>

lemma overwrite_ok:
  assumes "se_ok s" and "off \<le> se_size s" and "len \<le> length str" and "off + len \<le> se_capacity s"
  shows "\<exists>a b c. se_start s = Some a \<and> memcpy a off str len = Some b \<and> store b (off + len) 0 = Some c
    \<and> se_ok (s\<lparr> se_start := Some c, se_size := off + len \<rparr>)
    \<and> content (s\<lparr> se_start := Some c, se_size := off + len \<rparr>) = take off (content s) @ take len str"
proof -
  from assms(1) obtain a where a: "se_start s = Some a" "length a = se_capacity s + 1" "se_size s \<le> se_capacity s"
    "se_capacity s < 2 ^ 32 - 1" "content s = take (se_size s) a" by (rule se_okE)
  let ?b = "blit a off (take len str)" and ?n = "off + len"
  have t: "length (?b[?n := 0]) = se_capacity s + 1" "?b[?n := 0] ! ?n = 0" "take ?n (?b[?n := 0]) = take off (content s) @ take len str"
    using blit_terminated [of off len a str] a assms by (simp_all add: min_def)
  have "se_ok (s\<lparr> se_start := Some (?b[?n := 0]), se_size := ?n \<rparr>)"
    "content (s\<lparr> se_start := Some (?b[?n := 0]), se_size := ?n \<rparr>) = take off (content s) @ take len str"
    using t a assms by (simp_all add: se_ok_def content_def)
  moreover have "memcpy a off str len = Some ?b" "store ?b ?n 0 = Some (?b[?n := 0])"
    using a assms by (simp_all add: memcpy_def store_def)
  ultimately show ?thesis using a(1) by blast
qed

lemma append_ok:
  assumes "se_ok s" and "len \<le> length str" and "se_size s + len < 2 ^ 32 - 1"
  shows "\<exists>s'. se_append mem str len s = Some s' \<and> se_ok s' \<and> content s' = content s @ take len str"
proof (cases "se_size s + len \<le> se_capacity s")
  case True
  from overwrite_ok [OF assms(1) order_refl assms(2) True] assms True show ?thesis
    by (auto simp: se_append_def content_def)
next
  case False
  with expandAndAppend_ok [OF assms] assms(3) show ?thesis by (simp add: se_append_def)
qed

lemma clear_ok: "se_ok s \<Longrightarrow> \<exists>s'. se_clear s = Some s' \<and> se_ok s' \<and> content s' = [] \<and> se_size s' = 0"
  by (erule se_okE) (auto simp: se_clear_def store_def se_ok_def content_def)

lemma assign_ok:
  assumes "se_ok s" and "len \<le> length str" and "len < 2 ^ 32 - 1"
  shows "\<exists>s'. se_assign mem str len s = Some s' \<and> se_ok s' \<and> content s' = take len str"
proof (cases "len \<le> se_capacity s")
  case True
  from overwrite_ok [OF assms(1) _ assms(2), of 0] True assms(3) show ?thesis by (auto simp: se_assign_def)
next
  case False
  from clear_ok [OF assms(1)] obtain s1 where "se_clear s = Some s1" "se_ok s1" "content s1 = []" "se_size s1 = 0" by blast
  with expandAndAppend_ok [of s1 len str mem] assms False show ?thesis by (auto simp: se_assign_def)
qed

lemma push_back_ok:
  assumes "se_ok s" and "se_size s + 1 < 2 ^ 32 - 1"
  shows "\<exists>s'. se_push_back mem c s = Some s' \<and> se_ok s' \<and> content s' = content s @ [c]"
proof (cases "se_size s + 1 \<le> se_capacity s")
  case True
  have "memcpy a (se_size s) [c] 1 = store a (se_size s) c" for a
    by (auto simp: memcpy_def store_def blit_def upd_conv_take_nth_drop)
  with overwrite_ok [OF assms(1) order_refl _ True, of "[c]"] True assms(2) show ?thesis
    by (auto simp: se_push_back_def content_def)
next
  case False
  with expandAndAppend_ok [OF assms(1), of 1 "[c]"] assms(2) show ?thesis by (simp add: se_push_back_def)
qed

lemma reserve_ok:
  assumes "se_ok s" and "n < 2 ^ 32 - 1"
  shows "\<exists>s'. se_reserve mem n s = Some s' \<and> se_ok s' \<and> content s' = content s \<and> n \<le> se_capacity s'"
proof (cases "se_capacity s < n")
  case True
  from assms(1) obtain a where a: "se_start s = Some a" "length a = se_capacity s + 1" "se_size s \<le> se_capacity s"
    "se_capacity s < 2 ^ 32 - 1" "content s = take (se_size s) a" by (rule se_okE)
  note cap = nextCapacity_bounds [OF assms(2) a(4)]
  let ?m = "se_size s" and ?cap = "nextCapacity s n"
  let ?b = "blit (new_char mem (?cap + 1)) 0 (take ?m a)"
  have t: "length (?b[?m := 0]) = ?cap + 1" "?b[?m := 0] ! ?m = 0" "take ?m (?b[?m := 0]) = content s"
    using blit_terminated [of 0 ?m "new_char mem (?cap + 1)" a] a cap True by simp_all
  have "se_reserve mem n s = Some \<lparr> se_start = Some (?b[?m := 0]), se_size = ?m, se_capacity = ?cap \<rparr>"
    using True a cap by (simp add: se_reserve_def Let_def memcpy_def store_def)
  with se_okI [OF t(1) _ cap(2) t(2,3)] cap True a(3) show ?thesis by simp
qed (use assms in \<open>auto simp: se_reserve_def\<close>)

lemma init_ok:
  assumes "m + 1 \<le> length str" and "m < 2 ^ 32 - 1"
  shows "\<exists>s. se_init mem str \<lparr> se_start = Some [0], se_size = m, se_capacity = 0 \<rparr> = Some s
    \<and> content s = take m str \<and> (se_ok s \<longleftrightarrow> m = 0 \<or> str ! m = 0)"
proof (cases "m = 0")
  case False
  let ?cap = "max m kMinCapacity" and ?b = "blit (new_char mem (max m kMinCapacity + 1)) 0 (take (m + 1) str)"
  have n: "length (take (m + 1) str) = m + 1" using assms(1) by simp
  have c: "?cap + 1 < 2 ^ 32" "m + 1 < 2 ^ 32" using assms(2) by (auto simp: kMinCapacity_def)
  have "se_init mem str \<lparr> se_start = Some [0], se_size = m, se_capacity = 0 \<rparr>
      = Some \<lparr> se_start = Some ?b, se_size = m, se_capacity = ?cap \<rparr>"
    using False assms(1) u32_id [OF c(1)] u32_id [OF c(2)] by (simp add: se_init_def Let_def memcpy_def)
  moreover have "length ?b = ?cap + 1" using n by (subst length_blit) auto
  moreover have "take m ?b = take m str" "?b ! m = str ! m"
    using assms(1) n by (simp_all add: blit_def nth_append min_def)
  ultimately show ?thesis using c(1) False by (simp add: se_ok_def content_def)
qed (simp add: se_init_def content_def se_ok_def)

lemma copy_ok:
  assumes "se_ok s"
  shows "\<exists>s'. se_copy mem s = Some s' \<and> se_ok s' \<and> content s' = content s"
proof -
  from assms obtain a where a: "se_start s = Some a" "length a = se_capacity s + 1" "se_size s \<le> se_capacity s"
    "se_capacity s < 2 ^ 32 - 1" "a ! se_size s = 0" "content s = take (se_size s) a" by (rule se_okE)
  with init_ok [of "se_size s" a mem] show ?thesis by (auto simp: se_copy_def)
qed

lemma takeWhile_shorter: "0 \<in> set str \<Longrightarrow> length (takeWhile (\<lambda>c. c \<noteq> 0) str) < length str" for str :: "byte list"
  by (induction str) auto

lemma strlen_returns: "0 \<in> set str \<Longrightarrow> strlen str = Some (length (takeWhile (\<lambda>c. c \<noteq> 0) str))"
  using takeWhile_shorter by (simp add: strlen_def Let_def)

lemma strlen_Some:
  assumes "strlen str = Some n"
  shows "n < length str" and "str ! n = 0" and "take n str = takeWhile (\<lambda>c. c \<noteq> 0) str"
proof -
  have n: "n = length (takeWhile (\<lambda>c. c \<noteq> 0) str)" "n < length str"
    using assms by (auto simp: strlen_def Let_def split: if_splits)
  show "n < length str" "take n str = takeWhile (\<lambda>c. c \<noteq> 0) str" using n by (simp_all flip: takeWhile_eq_take)
  show "str ! n = 0" using nth_length_takeWhile [of "\<lambda>c. c \<noteq> 0" str] n by simp
qed

text \<open>
  The constructor from a pointer and a length copies the byte behind the range instead of writing a zero.
\<close>

lemma of_bytes_unterminated:
  assumes "0 < len" and "len < length str" and "len < 2 ^ 32 - 1" and "str ! len \<noteq> 0"
  shows "\<exists>s. se_of_bytes mem str len = Some s \<and> content s = take len str \<and> \<not> se_ok s"
  using init_ok [of len str mem] assms by (auto simp: se_of_bytes_def)

lemma of_bytes_reads_past_end:
  assumes "0 < length str" and "length str < 2 ^ 32 - 1"
  shows "se_of_bytes mem str (length str) = None"
  using assms by (simp add: se_of_bytes_def se_init_def Let_def memcpy_def)

text \<open>A string that was moved from is left with a null pointer and its old size: it cannot even be cleared.\<close>

lemma moved_from_unusable:
  "se_clear (snd (se_move s)) = None" "se_append mem str len (snd (se_move s)) = None"
  "se_size (snd (se_move s)) = se_size s"
  by (simp_all add: se_move_def se_clear_def se_append_def expandAndAppend_def Let_def)

text \<open>Comparison is lexicographic on unsigned bytes.\<close>

lemma memcmp_less: "(if memcmp_loop (take n xs) (take n ys) = 0 then length xs < length ys else memcmp_loop (take n xs) (take n ys) < 0)
    \<longleftrightarrow> ord_class.lexordp xs ys" if "n = min (length xs) (length ys)"
  using that
proof (induction xs ys arbitrary: n rule: list_induct2')
  case (4 x xs y ys)
  then obtain m where n: "n = Suc m" "m = min (length xs) (length ys)" by auto
  consider "x < y" | "y < x" | "x = y" by fastforce
  then show ?case
  proof cases
    case 3
    then show ?thesis using 4(1) [OF n(2)] n(1) by (auto split: if_splits)
  qed (use n(1) in auto)
qed auto

lemma memcmp_equal: "length xs = length ys \<Longrightarrow> memcmp_loop xs ys = 0 \<longleftrightarrow> xs = ys"
  by (induction xs ys rule: list_induct2) (simp_all, fastforce)

lemma compare_ok:
  assumes "se_ok s" and "se_ok t"
  shows "se_less s t = Some (ord_class.lexordp (content s) (content t))" and "se_eq False s t = Some (content s = content t)"
proof -
  from assms(1) obtain a where a: "se_start s = Some a" "length a = se_capacity s + 1" "se_size s \<le> se_capacity s"
    "se_capacity s < 2 ^ 32 - 1" "content s = take (se_size s) a" "length (content s) = se_size s" by (rule se_okE)
  from assms(2) obtain b where b: "se_start t = Some b" "length b = se_capacity t + 1" "se_size t \<le> se_capacity t"
    "se_capacity t < 2 ^ 32 - 1" "content t = take (se_size t) b" "length (content t) = se_size t" by (rule se_okE)
  let ?n = "min (se_size s) (se_size t)"
  have m: "memcmp a b ?n = Some (memcmp_loop (take ?n (content s)) (take ?n (content t)))"
    using a b by (simp add: memcmp_def min_def)
  show "se_less s t = Some (ord_class.lexordp (content s) (content t))"
    using a(1) b(1,3,4) m memcmp_less [of ?n "content s" "content t"] a(6) b(6) by (auto simp: se_less_def se_lessThan_def)
  show "se_eq False s t = Some (content s = content t)"
  proof (cases "se_size s = se_size t")
    case True
    then show ?thesis using a b memcmp_equal [of "content s" "content t"] by (simp add: se_eq_def se_equals_def memcmp_def)
  next
    case False
    then have "content s \<noteq> content t" using a(6) b(6) by metis
    with False b(1) show ?thesis by (simp add: se_eq_def se_equals_def)
  qed
qed

subsection \<open>Runs\<close>

datatype str_op =
    SAssign "byte list" nat | SAssignC "byte list" | SPushBack byte | SAppend "byte list" nat | SAppendC "byte list"
  | SReserve nat | SClear | SCopy

fun se_step :: "(nat \<Rightarrow> byte) \<Rightarrow> str_op \<Rightarrow> string_eager \<Rightarrow> string_eager option" where
  "se_step mem (SAssign str len) s = se_assign mem str len s"
| "se_step mem (SAssignC str) s = se_assign_cstr mem str s"
| "se_step mem (SPushBack c) s = se_push_back mem c s"
| "se_step mem (SAppend str len) s = se_append mem str len s"
| "se_step mem (SAppendC str) s = se_append_cstr mem str s"
| "se_step mem (SReserve n) s = se_reserve mem n s"
| "se_step mem SClear s = se_clear s"
| "se_step mem SCopy s = se_copy mem s"

fun se_run :: "(nat \<Rightarrow> byte) \<Rightarrow> str_op list \<Rightarrow> string_eager \<Rightarrow> string_eager option" where
  "se_run mem [] s = Some s"
| "se_run mem (op # ops) s = do { s \<leftarrow> se_step mem op s; se_run mem ops s }"

text \<open>The byte strings the operations are meant to compute, and what they may be asked for.\<close>

definition c_string :: "byte list \<Rightarrow> byte list" where
  "c_string str = takeWhile (\<lambda>c. c \<noteq> 0) str"

fun str_spec :: "str_op \<Rightarrow> byte list \<Rightarrow> byte list" where
  "str_spec (SAssign str len) xs = take len str"
| "str_spec (SAssignC str) xs = c_string str"
| "str_spec (SPushBack c) xs = xs @ [c]"
| "str_spec (SAppend str len) xs = xs @ take len str"
| "str_spec (SAppendC str) xs = xs @ c_string str"
| "str_spec (SReserve n) xs = xs"
| "str_spec SClear xs = []"
| "str_spec SCopy xs = xs"

fun str_allowed :: "str_op \<Rightarrow> bool" where
  "str_allowed (SAssign str len) \<longleftrightarrow> len \<le> length str"
| "str_allowed (SAssignC str) \<longleftrightarrow> 0 \<in> set str"
| "str_allowed (SAppend str len) \<longleftrightarrow> len \<le> length str"
| "str_allowed (SAppendC str) \<longleftrightarrow> 0 \<in> set str"
| "str_allowed (SReserve n) \<longleftrightarrow> n < 2 ^ 32 - 1"
| "str_allowed _ \<longleftrightarrow> True"

fun fits :: "str_op list \<Rightarrow> byte list \<Rightarrow> bool" where
  "fits [] xs = True"
| "fits (op # ops) xs \<longleftrightarrow> str_allowed op \<and> length (str_spec op xs) < 2 ^ 32 - 1 \<and> fits ops (str_spec op xs)"

lemma se_step_ok:
  assumes "se_ok s" and "str_allowed op" and "length (str_spec op (content s)) < 2 ^ 32 - 1"
  shows "\<exists>s'. se_step mem op s = Some s' \<and> se_ok s' \<and> content s' = str_spec op (content s)"
proof -
  have n: "length (content s) = se_size s" using assms(1) by (rule se_okE)
  have c: "length (c_string str) \<le> length str" for str unfolding c_string_def by (rule length_takeWhile_le)
  have t: "take (length (c_string str)) str = c_string str" for str unfolding c_string_def by (rule takeWhile_eq_take [symmetric])
  show ?thesis
  proof (cases op)
    case (SAssign str len)
    with assms assign_ok [OF assms(1), of len str mem] show ?thesis by simp
  next
    case (SAssignC str)
    with assms assign_ok [OF assms(1) c, of str mem] show ?thesis
      by (simp add: se_assign_cstr_def strlen_returns t flip: c_string_def)
  next
    case (SPushBack ch)
    with assms push_back_ok [OF assms(1), of mem ch] n show ?thesis by simp
  next
    case (SAppend str len)
    with assms append_ok [OF assms(1), of len str mem] n show ?thesis by simp
  next
    case (SAppendC str)
    with assms append_ok [OF assms(1) c, of str mem] n show ?thesis
      by (simp add: se_append_cstr_def strlen_returns t flip: c_string_def)
  next
    case (SReserve m)
    with assms reserve_ok [OF assms(1), of m mem] show ?thesis by auto
  next
    case SClear
    with clear_ok [OF assms(1)] show ?thesis by auto
  next
    case SCopy
    with copy_ok [OF assms(1), of mem] show ?thesis by simp
  qed
qed

lemma se_run_ok:
  "se_ok s \<Longrightarrow> fits ops (content s) \<Longrightarrow>
   \<exists>s'. se_run mem ops s = Some s' \<and> se_ok s' \<and> content s' = fold str_spec ops (content s)"
proof (induction ops arbitrary: s)
  case (Cons op ops)
  from se_step_ok [OF Cons.prems(1), of op mem] Cons.prems(2) obtain s1 where
    "se_step mem op s = Some s1" "se_ok s1" "content s1 = str_spec op (content s)" by auto
  with Cons.IH [of s1] Cons.prems(2) show ?case by simp
qed simp

lemma se_empty_ok: "se_ok se_empty" "content se_empty = []"
  by (simp_all add: se_empty_def se_ok_def content_def)

subsection \<open>Properties\<close>



end
