(* ===== verification/QueueLogs.thy ===== *)
theory QueueLogs
  imports LogFiles
begin

text \<open>
  The queue-based asynchronous logger of \<^verbatim>\<open>logging/AsyncLoggingQueue.h\<close>: front ends put messages into a
  blocking queue, a thread takes them out and appends them to a \<open>LogFile\<close>.

  The queue is the FIFO that \<open>Monitors\<close> shows both blocking queues to be, bounded when \<open>ql_cap\<close> is
  given; an operation that would block leaves the state alone and may be scheduled again.
  \<open>ql_limit\<close> is the array size of \<open>LogMessage\<close>, absent for \<open>MSG = string\<close>.  \<open>ql_puts\<close> is a ghost
  field: all messages put so far.
\<close>

datatype ql_pc = QNotStarted | QBegin | QTake | QDone

record AsyncLoggingT =
  ql_running :: bool
  ql_basename :: string
  ql_rollSize :: nat
  ql_latch :: int
  ql_cap :: "nat option"
  ql_limit :: "nat option"
  ql_queue :: "string list"
  ql_pc :: ql_pc
  ql_output :: "LogFile option"
  ql_puts :: "string list"

definition AsyncLoggingT_new :: "string \<Rightarrow> nat \<Rightarrow> nat option \<Rightarrow> nat option \<Rightarrow> AsyncLoggingT" where
  "AsyncLoggingT_new basename rollSize cap limit =
     \<lparr> ql_running = False, ql_basename = basename, ql_rollSize = rollSize, ql_latch = 1, ql_cap = cap, ql_limit = limit,
       ql_queue = [], ql_pc = QNotStarted, ql_output = None, ql_puts = [] \<rparr>"

definition ql_put :: "string \<Rightarrow> AsyncLoggingT \<Rightarrow> AsyncLoggingT" where
  "ql_put msg s =
     (if (case ql_cap s of None \<Rightarrow> False | Some c \<Rightarrow> c \<le> length (ql_queue s)) then s
      else s\<lparr> ql_queue := ql_queue s @ [msg], ql_puts := ql_puts s @ [msg] \<rparr>)"

text \<open>\<open>LogMessage\<close> copies the line into its array of 4000 bytes.\<close>

definition LogMessage_new :: "nat option \<Rightarrow> string \<Rightarrow> string option" where
  "LogMessage_new limit line =
     do { check (case limit of None \<Rightarrow> True | Some n \<Rightarrow> length line \<le> n); Some line }"

definition ql_append :: "string \<Rightarrow> AsyncLoggingT \<Rightarrow> AsyncLoggingT option" where
  "ql_append line s = do { msg \<leftarrow> LogMessage_new (ql_limit s) line; Some (ql_put msg s) }"

definition ql_start :: "AsyncLoggingT \<Rightarrow> AsyncLoggingT option" where
  "ql_start s = do {
     let s = s\<lparr> ql_running := True \<rparr>;
     check (ql_pc s = QNotStarted);
     Some (s\<lparr> ql_pc := QBegin \<rparr>) }"

text \<open>
  \<open>stop\<close> in two steps, as other threads may run between them; it cannot begin before \<open>start\<close> has
  returned from the latch.
\<close>

definition ql_stop_flag :: "AsyncLoggingT \<Rightarrow> AsyncLoggingT" where
  "ql_stop_flag s = (if ql_latch s > 0 then s else s\<lparr> ql_running := False \<rparr>)"

definition ql_stop_put :: "AsyncLoggingT \<Rightarrow> AsyncLoggingT" where
  "ql_stop_put s = (if ql_running s \<or> ql_latch s > 0 then s else ql_put [] s)"

definition ql_begin :: "log_env \<Rightarrow> AsyncLoggingT \<Rightarrow> AsyncLoggingT option" where
  "ql_begin e s = do {
     check (ql_running s);
     let s = s\<lparr> ql_latch := ql_latch s - 1 \<rparr>;
     output \<leftarrow> LogFile_new (ql_basename s) (ql_rollSize s) False 3 (le_pid e) (le_roll_now e);
     Some (s\<lparr> ql_output := Some output, ql_pc := QTake \<rparr>) }"

definition ql_take :: "log_env \<Rightarrow> AsyncLoggingT \<Rightarrow> AsyncLoggingT option" where
  "ql_take e s = (case ql_queue s of
       [] \<Rightarrow> Some s
     | msg # queue \<Rightarrow> do {
         let s = s\<lparr> ql_queue := queue \<rparr>;
         output \<leftarrow> ql_output s;
         if msg = [] then do {
           check (\<not> ql_running s);
           output \<leftarrow> lf_flush output;
           Some (s\<lparr> ql_output := Some output, ql_pc := QDone \<rparr>) }
         else do {
           output \<leftarrow> lf_append e msg output;
           Some (s\<lparr> ql_output := Some output \<rparr>) } })"

definition ql_thread :: "log_env \<Rightarrow> AsyncLoggingT \<Rightarrow> AsyncLoggingT option" where
  "ql_thread e s = (case ql_pc s of QNotStarted \<Rightarrow> Some s | QBegin \<Rightarrow> ql_begin e s | QTake \<Rightarrow> ql_take e s | QDone \<Rightarrow> Some s)"

subsection \<open>Interleavings\<close>

datatype ql_action = QAppend string | QStopFlag | QStopPut | QThread log_env

fun ql_step :: "ql_action \<Rightarrow> AsyncLoggingT \<Rightarrow> AsyncLoggingT option" where
  "ql_step (QAppend l) s = ql_append l s"
| "ql_step QStopFlag s = Some (ql_stop_flag s)"
| "ql_step QStopPut s = Some (ql_stop_put s)"
| "ql_step (QThread e) s = ql_thread e s"

fun ql_run :: "ql_action list \<Rightarrow> AsyncLoggingT \<Rightarrow> AsyncLoggingT option" where
  "ql_run [] s = Some s"
| "ql_run (a # as) s = ql_step a s \<bind> ql_run as"

definition ql_text :: "AsyncLoggingT \<Rightarrow> string" where
  "ql_text s = (case ql_output s of None \<Rightarrow> [] | Some lf \<Rightarrow> log_text lf)"

text \<open>
  The invariant: the end marker is only in the queue once the logger was stopped, and the files hold the
  messages put and no longer queued, up to the first marker.
\<close>

definition ql_inv :: "AsyncLoggingT \<Rightarrow> bool" where
  "ql_inv s \<longleftrightarrow> CHR ''/'' \<notin> set (ql_basename s)
     \<and> (ql_pc s \<in> {QNotStarted, QBegin} \<longrightarrow> ql_output s = None \<and> ql_latch s = 1 \<and> [] \<notin> set (ql_puts s) \<and> ql_queue s = ql_puts s)
     \<and> (ql_pc s = QBegin \<longrightarrow> ql_running s)
     \<and> (ql_pc s \<in> {QTake, QDone} \<longrightarrow> (\<exists>lf. ql_output s = Some lf \<and> log_open lf) \<and> ql_latch s \<le> 0)
     \<and> (ql_pc s = QTake \<longrightarrow> ([] \<in> set (ql_queue s) \<longrightarrow> \<not> ql_running s)
          \<and> (\<exists>done. ql_puts s = done @ ql_queue s \<and> [] \<notin> set done \<and> ql_text s = concat done))
     \<and> (ql_pc s = QDone \<longrightarrow> \<not> ql_running s
          \<and> (\<exists>done. ql_puts s = done @ [] # ql_queue s \<and> [] \<notin> set done \<and> ql_text s = concat done))"

fun ql_allowed :: "nat option \<Rightarrow> ql_action \<Rightarrow> bool" where
  "ql_allowed limit (QAppend l) \<longleftrightarrow> l \<noteq> [] \<and> (case limit of None \<Rightarrow> True | Some n \<Rightarrow> length l \<le> n)"
| "ql_allowed limit (QThread e) \<longleftrightarrow> writes_ok e \<and> 0 < le_roll_now e"
| "ql_allowed limit _ \<longleftrightarrow> True"

lemma ql_put_inv:
  assumes "ql_inv s" and "msg = [] \<longrightarrow> \<not> ql_running s \<and> ql_latch s \<le> 0"
  shows "ql_inv (ql_put msg s)"
proof (cases "ql_pc s")
  case QTake
  with assms obtain d where "ql_puts s = d @ ql_queue s" "[] \<notin> set d" "ql_text s = concat d" by (auto simp: ql_inv_def)
  with assms QTake show ?thesis by (auto simp: ql_inv_def ql_put_def ql_text_def)
next
  case QDone
  with assms obtain d where "ql_puts s = d @ [] # ql_queue s" "[] \<notin> set d" "ql_text s = concat d" by (auto simp: ql_inv_def)
  with assms QDone show ?thesis by (auto simp: ql_inv_def ql_put_def ql_text_def)
qed (use assms in \<open>auto simp: ql_inv_def ql_put_def ql_text_def\<close>)

lemma ql_begin_ok:
  assumes "ql_inv s" and "ql_pc s = QBegin" and "0 < le_roll_now e"
  shows "\<exists>s'. ql_begin e s = Some s' \<and> ql_inv s' \<and> ql_pc s' = QTake \<and> ql_queue s' = ql_queue s \<and> ql_limit s' = ql_limit s"
proof -
  have b: "CHR ''/'' \<notin> set (ql_basename s)" "ql_running s" using assms by (auto simp: ql_inv_def)
  from LogFile_new_open [OF b(1) assms(3)] obtain lf where
    "LogFile_new (ql_basename s) (ql_rollSize s) False 3 (le_pid e) (le_roll_now e) = Some lf" "log_open lf" "log_text lf = []" by blast
  with assms b show ?thesis by (auto simp: ql_begin_def Let_def ql_inv_def ql_text_def)
qed

lemma ql_inv_takeI:
  assumes "ql_pc s = QTake" and "CHR ''/'' \<notin> set (ql_basename s)" and "ql_output s = Some lf" and "log_open lf" and "ql_latch s \<le> 0"
    and "[] \<in> set (ql_queue s) \<longrightarrow> \<not> ql_running s" and "ql_puts s = d @ ql_queue s" and "[] \<notin> set d" and "log_text lf = concat d"
  shows "ql_inv s"
  unfolding ql_inv_def ql_text_def using assms by simp

lemma ql_take_ok:
  assumes "ql_inv s" and "ql_pc s = QTake" and "writes_ok e"
  shows "\<exists>s'. ql_take e s = Some s' \<and> ql_inv s' \<and> ql_limit s' = ql_limit s
    \<and> (ql_queue s \<noteq> [] \<longrightarrow> ql_queue s' = tl (ql_queue s) \<and> (ql_pc s' = QDone \<longleftrightarrow> hd (ql_queue s) = []))
    \<and> (ql_pc s' = QTake \<or> ql_pc s' = QDone)"
proof (cases "ql_queue s")
  case Nil
  with assms show ?thesis by (simp add: ql_take_def)
next
  case (Cons msg queue)
  from assms(1,2) obtain lf d where lf: "ql_output s = Some lf" "log_open lf"
    and d: "ql_puts s = d @ ql_queue s" "[] \<notin> set d" "log_text lf = concat d" by (auto simp: ql_inv_def ql_text_def)
  show ?thesis
  proof (cases "msg = []")
    case True
    with Cons assms have "\<not> ql_running s" by (auto simp: ql_inv_def)
    with logf.flush_text [OF lf(2)] lf(1) d Cons True assms show ?thesis
      by (auto simp: ql_take_def Let_def ql_inv_def ql_text_def)
  next
    case False
    from logf.append_text [OF lf(2) assms(3), of msg] obtain lf' where
      lf': "lf_append e msg lf = Some lf'" "log_open lf'" "log_text lf' = log_text lf @ msg" by blast
    let ?s = "s\<lparr> ql_queue := queue, ql_output := Some lf' \<rparr>"
    have "ql_inv ?s"
    proof (rule ql_inv_takeI [where d = "d @ [msg]"])
      show "ql_puts ?s = (d @ [msg]) @ ql_queue ?s" using d(1) Cons by simp
      show "[] \<notin> set (d @ [msg])" using d(2) False by simp
      show "log_text lf' = concat (d @ [msg])" using lf' d(3) by simp
    qed (use assms lf' Cons in \<open>auto simp: ql_inv_def\<close>)
    moreover have "ql_take e s = Some ?s" using lf' lf(1) Cons False by (simp add: ql_take_def)
    ultimately show ?thesis using Cons False assms(2) by simp
  qed
qed

lemma ql_stop_flag_inv: "ql_inv s \<Longrightarrow> ql_inv (ql_stop_flag s)"
  unfolding ql_inv_def ql_text_def ql_stop_flag_def by (cases "ql_pc s") simp_all

lemma ql_step_ok:
  assumes "ql_inv s" and "ql_allowed (ql_limit s) a"
  shows "\<exists>s'. ql_step a s = Some s' \<and> ql_inv s' \<and> ql_limit s' = ql_limit s"
proof (cases a)
  case (QAppend l)
  with assms ql_put_inv [of s l] show ?thesis by (simp add: ql_append_def LogMessage_new_def ql_put_def)
next
  case QStopFlag
  with assms ql_stop_flag_inv [of s] show ?thesis by (simp add: ql_stop_flag_def)
next
  case QStopPut
  with assms ql_put_inv [of s "[]"] show ?thesis by (auto simp: ql_stop_put_def ql_put_def)
next
  case (QThread e)
  with assms ql_begin_ok [OF assms(1), of e] ql_take_ok [OF assms(1), of e] show ?thesis
    by (cases "ql_pc s") (auto simp: ql_thread_def)
qed

lemma ql_run_ok:
  "ql_inv s \<Longrightarrow> list_all (ql_allowed (ql_limit s)) as \<Longrightarrow> \<exists>s'. ql_run as s = Some s' \<and> ql_inv s' \<and> ql_limit s' = ql_limit s"
proof (induction as arbitrary: s)
  case (Cons a as)
  with ql_step_ok [of s a] obtain s1 where "ql_step a s = Some s1" "ql_inv s1" "ql_limit s1 = ql_limit s" by auto
  with Cons.IH [of s1] Cons.prems show ?case by simp
qed simp

text \<open>Once the end marker is queued, the thread alone comes to its end.\<close>

lemma ql_drains:
  assumes "ql_inv s" and "ql_pc s = QTake" and "[] \<in> set (ql_queue s)" and "writes_ok e"
  shows "\<exists>s'. ql_run (replicate (length (ql_queue s)) (QThread e)) s = Some s' \<and> ql_pc s' = QDone"
  using assms
proof (induction "ql_queue s" arbitrary: s)
  case Nil
  then show ?case by simp
next
  case (Cons msg queue)
  from ql_take_ok [OF Cons.prems(1,2,4)] Cons.hyps(2) [symmetric] obtain s1 where
    s1: "ql_take e s = Some s1" "ql_inv s1" "ql_queue s1 = queue" "ql_pc s1 = QDone \<longleftrightarrow> msg = []" "ql_pc s1 = QTake \<or> ql_pc s1 = QDone" by auto
  have stay: "ql_run (replicate n (QThread e)) s1 = Some s1" if "ql_pc s1 = QDone" for n
    using that by (induction n) (simp_all add: ql_thread_def)
  have step: "ql_run (replicate (length (ql_queue s)) (QThread e)) s = ql_run (replicate (length queue) (QThread e)) s1"
    using s1(1) Cons.prems(2) Cons.hyps(2) [symmetric] by (simp add: ql_thread_def)
  show ?case
  proof (cases "msg = []")
    case True
    then show ?thesis using stay s1(4) unfolding step by blast
  next
    case False
    then have "[] \<in> set (ql_queue s1)" using Cons.prems(3) Cons.hyps(2) [symmetric] s1(3) by auto
    with Cons.hyps(1) [OF s1(3) [symmetric] s1(2) _ _ Cons.prems(4)] s1(3-5) False show ?thesis unfolding step by auto
  qed
qed

fun appended :: "ql_action list \<Rightarrow> string list" where
  "appended [] = []"
| "appended (QAppend l # as) = l # appended as"
| "appended (a # as) = appended as"

lemma appended_append: "appended (xs @ ys) = appended xs @ appended ys"
  by (induction xs rule: appended.induct) simp_all

lemma ql_thread_frame:
  "ql_thread e s = Some s' \<Longrightarrow> ql_puts s' = ql_puts s \<and> ql_cap s' = ql_cap s \<and> (ql_pc s = QNotStarted \<longrightarrow> ql_pc s' = QNotStarted)"
  by (cases "ql_pc s")
    (auto simp: ql_thread_def ql_begin_def ql_take_def Let_def bind_Some_iff check_def split: if_splits list.splits)

lemma ql_step_frame:
  assumes "ql_step a s = Some s'" and "ql_allowed (ql_limit s) a"
  shows "ql_cap s' = ql_cap s" and "ql_pc s = QNotStarted \<Longrightarrow> ql_pc s' = QNotStarted"
    and "ql_cap s = None \<Longrightarrow> filter (\<lambda>l. l \<noteq> []) (ql_puts s') = filter (\<lambda>l. l \<noteq> []) (ql_puts s) @ appended [a]"
  using assms by (cases a; auto simp: ql_append_def LogMessage_new_def ql_put_def ql_stop_flag_def ql_stop_put_def bind_Some_iff
      dest: ql_thread_frame)+

lemma ql_run_frame:
  "ql_run as s = Some s' \<Longrightarrow> ql_inv s \<Longrightarrow> list_all (ql_allowed (ql_limit s)) as \<Longrightarrow>
   ql_cap s' = ql_cap s \<and> (ql_pc s = QNotStarted \<longrightarrow> ql_pc s' = QNotStarted)
   \<and> (ql_cap s = None \<longrightarrow> filter (\<lambda>l. l \<noteq> []) (ql_puts s') = filter (\<lambda>l. l \<noteq> []) (ql_puts s) @ appended as)"
proof (induction as arbitrary: s)
  case (Cons a as)
  then obtain s1 where s1: "ql_step a s = Some s1" "ql_run as s1 = Some s'" by (auto simp: bind_Some_iff)
  have al: "ql_allowed (ql_limit s) a" using Cons.prems(3) by simp
  from ql_step_ok [OF Cons.prems(2) al] s1(1) have i: "ql_inv s1" "ql_limit s1 = ql_limit s" by auto
  from Cons.IH [OF s1(2) i(1)] i(2) Cons.prems(3) ql_step_frame [OF s1(1) al] show ?case
    using appended_append [of "[a]" as] by auto
qed simp

lemma ql_start_ok:
  "ql_inv s \<Longrightarrow> ql_pc s = QNotStarted \<Longrightarrow>
   \<exists>s'. ql_start s = Some s' \<and> ql_inv s' \<and> ql_limit s' = ql_limit s \<and> ql_cap s' = ql_cap s \<and> ql_puts s' = ql_puts s"
  by (auto simp: ql_start_def Let_def ql_inv_def)

text \<open>An empty log line is taken for the end marker of a logger that still runs.\<close>

lemma empty_line_aborts:
  assumes "ql_pc s = QTake" and "ql_running s" and "ql_queue s = []" and "ql_cap s = None"
  shows "\<exists>s1. ql_append [] s = Some s1 \<and> ql_thread e s1 = None"
  using assms by (cases "ql_output s")
    (simp_all add: ql_append_def LogMessage_new_def ql_put_def ql_thread_def ql_take_def split: option.splits)

subsection \<open>Properties\<close>


definition quiet_env :: "log_env" where
  "quiet_env = \<lparr> le_writes = [], le_now = 5, le_roll_now = 5, le_pid = 1 \<rparr>"


end
