(* ===== verification/Loggers.thy ===== *)
theory Loggers
  imports LogStreams Dates
begin

text \<open>
  The front end of the logging library, \<^verbatim>\<open>logging/Logging.h\<close> and \<^verbatim>\<open>logging/Logging.cc\<close>: one \<open>Logger\<close> object
  per statement formats a header, takes what the statement streams into it and hands the line to
  \<open>g_output\<close> when it is destroyed.

  \<open>log_tls\<close> holds the thread-local cache of the formatted second.  \<open>gmtime_r\<close> is the conversion to UTC
  that \<open>Dates\<close> verifies.  The clock, the thread id, \<open>errno\<close> and the text of \<open>strerror_r\<close> are arguments.
\<close>

datatype LogLevel = TRACE | DEBUG | INFO | WARN | ERROR | FATAL

fun LogLevelName :: "LogLevel \<Rightarrow> string" where
  "LogLevelName TRACE = ''TRACE ''"
| "LogLevelName DEBUG = ''DEBUG ''"
| "LogLevelName INFO = ''INFO  ''"
| "LogLevelName WARN = ''WARN  ''"
| "LogLevelName ERROR = ''ERROR ''"
| "LogLevelName FATAL = ''FATAL ''"

fun level_index :: "LogLevel \<Rightarrow> nat" where
  "level_index TRACE = 0" | "level_index DEBUG = 1" | "level_index INFO = 2"
| "level_index WARN = 3" | "level_index ERROR = 4" | "level_index FATAL = 5"

record log_tls =
  t_time :: string
  t_lastSecond :: int

definition tls_new :: log_tls where
  "tls_new = \<lparr> t_time = [], t_lastSecond = 0 \<rparr>"

text \<open>What a statement finds in its environment.\<close>

record stmt_env =
  se_now :: int
  se_tid :: "32 word"
  se_strerror :: string
  se_mem :: string
  se_fmt1 :: string
  se_fmt2 :: string

record logger =
  lg_stream :: FixedBuffer
  lg_level :: LogLevel
  lg_line :: "32 word"
  lg_basename :: string

subsection \<open>printf\<close>

text \<open>The conversions \<open>%wd\<close> and \<open>%0wd\<close>.\<close>

definition fmt_d :: "nat \<Rightarrow> int \<Rightarrow> string" where
  "fmt_d w i = replicate (w - length (decimal_int i)) (CHR '' '') @ decimal_int i"

definition fmt_0d :: "nat \<Rightarrow> int \<Rightarrow> string" where
  "fmt_0d w i =
     (if i < 0 then CHR ''-'' # replicate (w - 1 - length (decimal (nat (- i)))) (CHR ''0'') @ decimal (nat (- i))
      else replicate (w - length (decimal (nat i))) (CHR ''0'') @ decimal (nat i))"

text \<open>The C string in the array of a \<open>Fmt\<close>.\<close>

definition fmt_cstr :: "Fmt \<Rightarrow> string" where
  "fmt_cstr f = takeWhile (\<lambda>c. c \<noteq> CHR 0x00) (fmt_buf f)"

subsection \<open>Logger::Impl\<close>

definition basename_of :: "string \<Rightarrow> string" where
  "basename_of file = rev (takeWhile (\<lambda>c. c \<noteq> CHR ''/'') (rev file))"

definition second_text :: "tm \<Rightarrow> string" where
  "second_text t =
     fmt_d 4 (tm_year t + 1900) @ fmt_0d 2 (tm_mon t + 1) @ fmt_0d 2 (tm_mday t) @ '' ''
       @ fmt_0d 2 (tm_hour t) @ '':'' @ fmt_0d 2 (tm_min t) @ '':'' @ fmt_0d 2 (tm_sec t)"

definition formatTime :: "stmt_env \<Rightarrow> log_tls \<Rightarrow> FixedBuffer \<Rightarrow> (log_tls \<times> FixedBuffer) option" where
  "formatTime e tls stream = do {
     let seconds = se_now e sdiv 1000000;
     let microseconds = se_now e smod 1000000;
     tls \<leftarrow> (if seconds \<noteq> t_lastSecond tls then do {
         let text = second_text (toUtcTime seconds False);
         check (length text = 17);
         Some (tls\<lparr> t_lastSecond := seconds, t_time := text \<rparr>) }
       else Some tls);
     us \<leftarrow> Fmt_new (se_fmt1 e) (''.'' @ fmt_0d 6 microseconds @ ''Z '');
     check (fmt_length us = 9);
     t1 \<leftarrow> T_new (t_time tls) 17;
     stream \<leftarrow> put_T t1 stream;
     t2 \<leftarrow> T_new (fmt_cstr us) 9;
     stream \<leftarrow> put_T t2 stream;
     Some (tls, stream) }"

definition Impl_new :: "stmt_env \<Rightarrow> log_tls \<Rightarrow> LogLevel \<Rightarrow> 32 word \<Rightarrow> string \<Rightarrow> 32 word \<Rightarrow> (log_tls \<times> logger) option" where
  "Impl_new e tls level savedErrno file line = do {
     (tls, stream) \<leftarrow> formatTime e tls (LogStream_new (se_mem e));
     tid \<leftarrow> Fmt_new (se_fmt2 e) (fmt_d 5 (sint (se_tid e)) @ '' '');
     t1 \<leftarrow> T_new (fmt_cstr tid) (fmt_length tid);
     stream \<leftarrow> put_T t1 stream;
     t2 \<leftarrow> T_new (LogLevelName level) 6;
     stream \<leftarrow> put_T t2 stream;
     stream \<leftarrow> (if savedErrno \<noteq> 0
       then put_all [ICstr (se_strerror e), ICstr '' (errno='', IInt savedErrno, ICstr '') ''] stream
       else Some stream);
     Some (tls, \<lparr> lg_stream = stream, lg_level = level, lg_line = line, lg_basename = basename_of file \<rparr>) }"

definition finish :: "logger \<Rightarrow> logger option" where
  "finish lg = do {
     stream \<leftarrow> put_all [ICstr '' - '', ICstr (lg_basename lg), IChar (CHR '':''), IInt (lg_line lg), IChar (CHR 0x0A)] (lg_stream lg);
     Some (lg\<lparr> lg_stream := stream \<rparr>) }"

subsection \<open>Logger\<close>

text \<open>The four constructors; the last one is that of \<open>LOG_SYSERR\<close> and \<open>LOG_SYSFATAL\<close>.\<close>

definition Logger_info :: "stmt_env \<Rightarrow> log_tls \<Rightarrow> string \<Rightarrow> 32 word \<Rightarrow> (log_tls \<times> logger) option" where
  "Logger_info e tls file line = Impl_new e tls INFO 0 file line"

definition Logger_func :: "stmt_env \<Rightarrow> log_tls \<Rightarrow> string \<Rightarrow> 32 word \<Rightarrow> LogLevel \<Rightarrow> string \<Rightarrow> (log_tls \<times> logger) option" where
  "Logger_func e tls file line level func = do {
     (tls, lg) \<leftarrow> Impl_new e tls level 0 file line;
     stream \<leftarrow> put_all [ICstr func, IChar (CHR '' '')] (lg_stream lg);
     Some (tls, lg\<lparr> lg_stream := stream \<rparr>) }"

definition Logger_level :: "stmt_env \<Rightarrow> log_tls \<Rightarrow> string \<Rightarrow> 32 word \<Rightarrow> LogLevel \<Rightarrow> (log_tls \<times> logger) option" where
  "Logger_level e tls file line level = Impl_new e tls level 0 file line"

definition Logger_sys :: "stmt_env \<Rightarrow> log_tls \<Rightarrow> string \<Rightarrow> 32 word \<Rightarrow> bool \<Rightarrow> 32 word \<Rightarrow> (log_tls \<times> logger) option" where
  "Logger_sys e tls file line toAbort savedErrno =
     Impl_new e tls (if toAbort then FATAL else ERROR) savedErrno file line"

text \<open>The destructor: what \<open>g_output\<close> gets, and whether it flushes and aborts.\<close>

definition Logger_destroy :: "logger \<Rightarrow> (string \<times> bool) option" where
  "Logger_destroy lg = do {
     lg \<leftarrow> finish lg;
     Some (take (fb_length (lg_stream lg)) (fb_data (lg_stream lg)), lg_level lg = FATAL) }"

datatype log_macro = LOG_TRACE | LOG_DEBUG | LOG_INFO | LOG_WARN | LOG_ERROR | LOG_FATAL | LOG_SYSERR | LOG_SYSFATAL

definition log_enabled :: "LogLevel \<Rightarrow> log_macro \<Rightarrow> bool" where
  "log_enabled g_logLevel m = (case m of
       LOG_TRACE \<Rightarrow> level_index g_logLevel \<le> level_index TRACE
     | LOG_DEBUG \<Rightarrow> level_index g_logLevel \<le> level_index DEBUG
     | LOG_INFO \<Rightarrow> level_index g_logLevel \<le> level_index INFO
     | _ \<Rightarrow> True)"

definition log_macro_new :: "stmt_env \<Rightarrow> log_tls \<Rightarrow> log_macro \<Rightarrow> string \<Rightarrow> 32 word \<Rightarrow> string \<Rightarrow> 32 word \<Rightarrow> (log_tls \<times> logger) option" where
  "log_macro_new e tls m file line func errno = (case m of
       LOG_TRACE \<Rightarrow> Logger_func e tls file line TRACE func
     | LOG_DEBUG \<Rightarrow> Logger_func e tls file line DEBUG func
     | LOG_INFO \<Rightarrow> Logger_info e tls file line
     | LOG_WARN \<Rightarrow> Logger_level e tls file line WARN
     | LOG_ERROR \<Rightarrow> Logger_level e tls file line ERROR
     | LOG_FATAL \<Rightarrow> Logger_level e tls file line FATAL
     | LOG_SYSERR \<Rightarrow> Logger_sys e tls file line False errno
     | LOG_SYSFATAL \<Rightarrow> Logger_sys e tls file line True errno)"

text \<open>A whole statement \<open>LOG_X << item1 << item2 ...;\<close>\<close>

definition log_statement ::
    "stmt_env \<Rightarrow> log_tls \<Rightarrow> LogLevel \<Rightarrow> log_macro \<Rightarrow> string \<Rightarrow> 32 word \<Rightarrow> string \<Rightarrow> 32 word \<Rightarrow> log_item list
      \<Rightarrow> (log_tls \<times> (string \<times> bool) option) option" where
  "log_statement e tls g_logLevel m file line func errno is =
     (if log_enabled g_logLevel m
      then do {
        (tls, lg) \<leftarrow> log_macro_new e tls m file line func errno;
        stream \<leftarrow> put_all is (lg_stream lg);
        out \<leftarrow> Logger_destroy (lg\<lparr> lg_stream := stream \<rparr>);
        Some (tls, Some out) }
      else Some (tls, None))"

subsection \<open>Lengths of the header fields\<close>

lemma length_fmt_0d: "0 \<le> i \<Longrightarrow> i < 10 ^ Suc k \<Longrightarrow> length (fmt_0d (Suc k) i) = Suc k"
  using decimal_length [of "nat i" k] by (simp add: fmt_0d_def nat_less_iff)

lemma length_fmt_d: "0 \<le> i \<Longrightarrow> i < 10 ^ Suc k \<Longrightarrow> length (fmt_d (Suc k) i) = Suc k"
  using decimal_length [of "nat i" k] by (simp add: fmt_d_def decimal_int_def nat_less_iff)

lemma length_second_text:
  assumes "-2440588 * 86400 \<le> s" and "-1900 \<le> tm_year (toUtcTime s False)" and "tm_year (toUtcTime s False) \<le> 8099"
  shows "length (second_text (toUtcTime s False)) = 17"
proof -
  let ?t = "toUtcTime s False"
  have r: "0 \<le> tm_sec ?t" "tm_sec ?t < 60" "0 \<le> tm_min ?t" "tm_min ?t < 60" "0 \<le> tm_hour ?t" "tm_hour ?t < 24"
    "0 \<le> tm_mon ?t" "tm_mon ?t < 12" "1 \<le> tm_mday ?t" "tm_mday ?t \<le> 31"
    using utc_time_ok [OF assms(1), of False] by (simp_all add: Let_def)
  have two: "length (fmt_0d 2 i) = 2" if "0 \<le> i" "i < 100" for i
    using length_fmt_0d [of i 1] that by (simp add: numeral_2_eq_2)
  have "length (fmt_d 4 (tm_year ?t + 1900)) = 4"
    using length_fmt_d [of "tm_year ?t + 1900" 3] assms(2,3) by (simp add: eval_nat_numeral)
  then show ?thesis using r unfolding second_text_def by (simp add: two)
qed

lemma digit_not_nul: "d < 10 \<Longrightarrow> digit_char d \<noteq> CHR 0x00"
proof
  assume "d < 10" "digit_char d = CHR 0x00"
  then have "(48 + d :: nat) = of_char (CHR 0x00)" by (metis of_char_digit)
  then show False by simp
qed

lemma decimal_no_nul: "CHR 0x00 \<notin> set (decimal n)"
  using decimal_digits [of "CHR 0x00" n] digit_not_nul by metis

lemma fmt_no_nul: "CHR 0x00 \<notin> set (fmt_0d w i)" "CHR 0x00 \<notin> set (fmt_d w i)"
  using decimal_no_nul by (auto simp: fmt_0d_def fmt_d_def decimal_int_def)

lemma Fmt_new_cstr:
  assumes "length mem = 32" and "length out < 32" and "CHR 0x00 \<notin> set out"
  shows "\<exists>f. Fmt_new mem out = Some f \<and> fmt_cstr f = out \<and> fmt_length f = length out"
proof -
  have "takeWhile (\<lambda>c. c \<noteq> CHR 0x00) (out @ CHR 0x00 # rest) = out" for rest
    using assms(3) by (induction out) auto
  then show ?thesis using assms(1,2) by (simp add: Fmt_new_def Let_def fmt_cstr_def blit_def)
qed

lemma length_fmt_tid: "length (fmt_d 5 (sint (v :: 32 word))) \<le> 20"
proof -
  have "nat \<bar>sint v\<bar> < 10 ^ Suc 9" using sint_ge [of v] sint_lt [of v] by simp
  from decimal_length [OF this] show ?thesis by (simp add: fmt_d_def decimal_int_def abs_if split: if_splits)
qed

subsection \<open>The text of a line\<close>

definition T_of :: "string \<Rightarrow> T" where
  "T_of s = \<lparr> t_str = s, t_len = length s \<rparr>"

lemma T_new_of [simp]: "length s = n \<Longrightarrow> T_new s n = Some (T_of s)"
  by (simp add: T_new_def T_of_def)

definition header_items :: "stmt_env \<Rightarrow> LogLevel \<Rightarrow> 32 word \<Rightarrow> log_item list" where
  "header_items e level errno =
     [IT (T_of (second_text (toUtcTime (se_now e div 1000000) False))),
      IT (T_of (''.'' @ fmt_0d 6 (se_now e mod 1000000) @ ''Z '')),
      IT (T_of (fmt_d 5 (sint (se_tid e)) @ '' '')),
      IT (T_of (LogLevelName level))]
     @ (if errno \<noteq> 0 then [ICstr (se_strerror e), ICstr '' (errno='', IInt errno, ICstr '') ''] else [])"

definition trailer_items :: "string \<Rightarrow> 32 word \<Rightarrow> log_item list" where
  "trailer_items file line = [ICstr '' - '', ICstr (basename_of file), IChar (CHR '':''), IInt line, IChar (CHR 0x0A)]"

fun macro_level :: "log_macro \<Rightarrow> LogLevel" where
  "macro_level LOG_TRACE = TRACE" | "macro_level LOG_DEBUG = DEBUG" | "macro_level LOG_INFO = INFO"
| "macro_level LOG_WARN = WARN" | "macro_level LOG_ERROR = ERROR" | "macro_level LOG_FATAL = FATAL"
| "macro_level LOG_SYSERR = ERROR" | "macro_level LOG_SYSFATAL = FATAL"

definition line_items :: "stmt_env \<Rightarrow> log_macro \<Rightarrow> string \<Rightarrow> 32 word \<Rightarrow> string \<Rightarrow> 32 word \<Rightarrow> log_item list \<Rightarrow> log_item list" where
  "line_items e m file line func errno is =
     header_items e (macro_level m) (if m \<in> {LOG_SYSERR, LOG_SYSFATAL} then errno else 0)
     @ (if m \<in> {LOG_TRACE, LOG_DEBUG} then [ICstr func, IChar (CHR '' '')] else [])
     @ is @ trailer_items file line"

definition stmt_env_ok :: "stmt_env \<Rightarrow> bool" where
  "stmt_env_ok e \<longleftrightarrow> 1000000 \<le> se_now e \<and> tm_year (toUtcTime (se_now e div 1000000) False) \<in> {-1900..8099}
     \<and> length (se_mem e) = kSmallBuffer \<and> length (se_fmt1 e) = 32 \<and> length (se_fmt2 e) = 32 \<and> length (se_strerror e) < 2 ^ 31"

text \<open>The cached second, once there is one, is formatted.\<close>

definition tls_ok :: "log_tls \<Rightarrow> bool" where
  "tls_ok tls \<longleftrightarrow> t_lastSecond tls = 0
     \<or> t_time tls = second_text (toUtcTime (t_lastSecond tls) False) \<and> length (t_time tls) = 17"

lemma put_all_append: "put_all (xs @ ys) b = put_all xs b \<bind> put_all ys"
  by (induction xs arbitrary: b) (auto intro: Option.bind_cong)

lemma put_all_fun: "put_all (i # is) = (\<lambda>b. put i b \<bind> put_all is)"
  by (rule ext) simp

lemma put_all_single: "put_all [i] = put i"
proof
  fix b
  show "put_all [i] b = put i b" by (cases "put i b") simp_all
qed

lemma option_bind_map: "do { s \<leftarrow> f b; s \<leftarrow> g s; Some (x, s) } = map_option (Pair x) (f b \<bind> (\<lambda>s. g s \<bind> Some))"
  by (cases "f b"; auto simp: map_option_case split: option.split bind_splits)

lemma formatTime_items:
  assumes "stmt_env_ok e" and "tls_ok tls"
  shows "\<exists>tls'. tls_ok tls' \<and> formatTime e tls b
    = map_option (Pair tls') (put_all (take 2 (header_items e level errno)) b)"
proof -
  let ?s = "se_now e div 1000000" and ?us = "''.'' @ fmt_0d 6 (se_now e mod 1000000) @ ''Z ''"
  have "1000000 \<le> se_now e" using assms(1) by (simp add: stmt_env_ok_def)
  then have now: "se_now e sdiv 1000000 = ?s" "se_now e smod 1000000 = se_now e mod 1000000" "1 \<le> ?s"
    by (simp_all add: signed_divide_int_def signed_modulo_int_def sgn_if minus_div_mult_eq_mod)
  have len: "length (second_text (toUtcTime ?s False)) = 17"
    using assms(1) now(3) by (intro length_second_text) (simp_all add: stmt_env_ok_def)
  have l6: "length (fmt_0d 6 (se_now e mod 1000000)) = 6"
    using length_fmt_0d [of "se_now e mod 1000000" 5] by (simp add: eval_nat_numeral)
  obtain f where f: "Fmt_new (se_fmt1 e) ?us = Some f" "fmt_cstr f = ?us" "fmt_length f = 9"
    using Fmt_new_cstr [of "se_fmt1 e" ?us] assms(1) l6 fmt_no_nul by (auto simp: stmt_env_ok_def)
  define tls' where "tls' = (if ?s \<noteq> t_lastSecond tls then tls\<lparr> t_lastSecond := ?s, t_time := second_text (toUtcTime ?s False) \<rparr> else tls)"
  have tls': "t_time tls' = second_text (toUtcTime ?s False)" "tls_ok tls'"
    using assms(2) now(3) len by (auto simp: tls'_def tls_ok_def)
  have c: "(if ?s \<noteq> t_lastSecond tls then do {
         let text = second_text (toUtcTime ?s False);
         check (length text = 17);
         Some (tls\<lparr> t_lastSecond := ?s, t_time := text \<rparr>) }
       else Some tls) = Some tls'"
    using len by (simp add: tls'_def)
  have l17: "length (t_time tls') = 17" using tls'(1) len by simp
  have "formatTime e tls b
      = do { s \<leftarrow> put_T (T_of (second_text (toUtcTime ?s False))) b; s \<leftarrow> put_T (T_of ?us) s; Some (tls', s) }"
    unfolding formatTime_def now(1,2) Let_def c [unfolded Let_def] using f l6 l17 tls'(1) by simp
  then have "formatTime e tls b = map_option (Pair tls') (put_all (take 2 (header_items e level errno)) b)"
    by (simp add: header_items_def numeral_2_eq_2 option_bind_map put_all_single)
  with tls'(2) show ?thesis by blast
qed

lemma header_items_ok:
  assumes "stmt_env_ok e"
  shows "list_all item_ok (header_items e level errno)"
proof -
  have "1 \<le> se_now e div 1000000" using assms by (simp add: stmt_env_ok_def zdiv_mono1 [of 1000000 _ 1000000, simplified])
  then have "length (second_text (toUtcTime (se_now e div 1000000) False)) = 17"
    using assms by (intro length_second_text) (simp_all add: stmt_env_ok_def)
  moreover have "length (fmt_0d 6 (se_now e mod 1000000)) = 6"
    using length_fmt_0d [of "se_now e mod 1000000" 5] by (simp add: eval_nat_numeral)
  moreover have "length (LogLevelName level) = 6" by (cases level) simp_all
  ultimately show ?thesis using assms length_fmt_tid [of "se_tid e"] by (auto simp: header_items_def T_of_def stmt_env_ok_def)
qed

lemma Impl_new_items:
  assumes "stmt_env_ok e" and "tls_ok tls"
  shows "\<exists>tls'. tls_ok tls' \<and> Impl_new e tls level errno file line
    = map_option (\<lambda>b. (tls', \<lparr> lg_stream = b, lg_level = level, lg_line = line, lg_basename = basename_of file \<rparr>))
        (put_all (header_items e level errno) (LogStream_new (se_mem e)))"
proof -
  let ?b = "LogStream_new (se_mem e)" and ?tid = "fmt_d 5 (sint (se_tid e)) @ '' ''"
  obtain tls' where t: "tls_ok tls'" "formatTime e tls ?b = map_option (Pair tls') (put_all (take 2 (header_items e level errno)) ?b)"
    using formatTime_items [OF assms] by blast
  obtain f where f: "Fmt_new (se_fmt2 e) ?tid = Some f" "fmt_cstr f = ?tid" "fmt_length f = length ?tid"
    using Fmt_new_cstr [of "se_fmt2 e" ?tid] assms(1) length_fmt_tid [of "se_tid e"] fmt_no_nul by (auto simp: stmt_env_ok_def)
  have l6: "T_new (LogLevelName level) 6 = Some (T_of (LogLevelName level))" by (cases level) simp_all
  have split: "header_items e level errno = take 2 (header_items e level errno)
      @ [IT (T_of ?tid), IT (T_of (LogLevelName level))]
      @ (if errno \<noteq> 0 then [ICstr (se_strerror e), ICstr '' (errno='', IInt errno, ICstr '') ''] else [])"
    by (simp add: header_items_def numeral_2_eq_2)
  have "Impl_new e tls level errno file line
    = map_option (\<lambda>b. (tls', \<lparr> lg_stream = b, lg_level = level, lg_line = line, lg_basename = basename_of file \<rparr>))
        (put_all (header_items e level errno) ?b)"
  proof (cases "put_all (take 2 (header_items e level errno)) ?b")
    case None
    then show ?thesis by (subst split) (simp add: Impl_new_def t(2) put_all_append)
  next
    case (Some b1)
    let ?err = "if errno \<noteq> 0 then [ICstr (se_strerror e), ICstr '' (errno='', IInt errno, ICstr '') ''] else []"
    let ?lg = "\<lambda>b. (tls', \<lparr> lg_stream = b, lg_level = level, lg_line = line, lg_basename = basename_of file \<rparr>)"
    have T: "T_new (fmt_cstr f) (fmt_length f) = Some (T_of ?tid)" using f by simp
    have err: "(if errno \<noteq> 0 then put_all [ICstr (se_strerror e), ICstr '' (errno='', IInt errno, ICstr '') ''] s else Some s) = put_all ?err s" for s
      by simp
    have "Impl_new e tls level errno file line
        = put_T (T_of ?tid) b1 \<bind> (\<lambda>s. put_T (T_of (LogLevelName level)) s \<bind> (\<lambda>s. put_all ?err s \<bind> (\<lambda>s. Some (?lg s))))"
      unfolding Impl_new_def t(2) Some f(1) T l6 err option.map Option.bind_lunit prod.case by (simp only: Option.bind.simps prod.case)
    also have "\<dots> = map_option ?lg (put_T (T_of ?tid) b1 \<bind> (\<lambda>s. put_T (T_of (LogLevelName level)) s \<bind> put_all ?err))"
      unfolding map_conv_bind_option bind_assoc comp_def by (simp only: bind_assoc)
    also have "\<dots> = map_option ?lg (put_all (header_items e level errno) ?b)"
      by (subst split) (simp only: put_all_append Some Option.bind_lunit append_Cons append_Nil put_all_fun put.simps)
    finally show ?thesis .
  qed
  with t(1) show ?thesis by blast
qed

lemma log_macro_items:
  assumes "stmt_env_ok e" and "tls_ok tls"
  shows "\<exists>tls'. tls_ok tls' \<and> log_macro_new e tls m file line func errno
    = map_option (\<lambda>b. (tls', \<lparr> lg_stream = b, lg_level = macro_level m, lg_line = line, lg_basename = basename_of file \<rparr>))
        (put_all (header_items e (macro_level m) (if m \<in> {LOG_SYSERR, LOG_SYSFATAL} then errno else 0)
           @ (if m \<in> {LOG_TRACE, LOG_DEBUG} then [ICstr func, IChar (CHR '' '')] else [])) (LogStream_new (se_mem e)))"
proof -
  let ?errno = "if m \<in> {LOG_SYSERR, LOG_SYSFATAL} then errno else 0" and ?b = "LogStream_new (se_mem e)"
  let ?hd = "header_items e (macro_level m) ?errno"
  let ?lg = "\<lambda>b. \<lparr> lg_stream = b, lg_level = macro_level m, lg_line = line, lg_basename = basename_of file \<rparr>"
  obtain tls' where t: "tls_ok tls'" "Impl_new e tls (macro_level m) ?errno file line = map_option (\<lambda>b. (tls', ?lg b)) (put_all ?hd ?b)"
    using Impl_new_items [OF assms] by blast
  show ?thesis
  proof (cases "m \<in> {LOG_TRACE, LOG_DEBUG}")
    case True
    then have "log_macro_new e tls m file line func errno = do {
       (tls, lg) \<leftarrow> Impl_new e tls (macro_level m) ?errno file line;
       stream \<leftarrow> put_all [ICstr func, IChar (CHR '' '')] (lg_stream lg);
       Some (tls, lg\<lparr> lg_stream := stream \<rparr>) }"
      by (auto simp: log_macro_new_def Logger_func_def)
    also have "\<dots> = map_option (\<lambda>b. (tls', ?lg b)) (put_all (?hd @ [ICstr func, IChar (CHR '' '')]) ?b)"
      unfolding t(2) put_all_append by (cases "put_all ?hd ?b") (simp_all add: map_conv_bind_option comp_def)
    finally show ?thesis using t(1) True by auto
  next
    case False
    then have "log_macro_new e tls m file line func errno = Impl_new e tls (macro_level m) ?errno file line"
      by (cases m) (simp_all add: log_macro_new_def Logger_info_def Logger_level_def Logger_sys_def)
    with t False show ?thesis by auto
  qed
qed

lemma spec_put_room:
  "length acc + sum_list (map (\<lambda>i. length (render i)) is) + 64 \<le> cap \<Longrightarrow> list_all item_ok is \<Longrightarrow>
   foldl (spec_put cap) acc is = acc @ concat (map render is)"
proof (induction "is" arbitrary: acc)
  case (Cons i "is")
  have "room i \<le> length (render i) + 64" using Cons.prems(2) by (cases i) auto
  with Cons.prems(1) have "spec_put cap acc i = acc @ render i" by (simp add: spec_put_def)
  with Cons show ?case by simp
qed simp

lemma basename_shorter: "length (basename_of file) \<le> length file"
  unfolding basename_of_def by (metis length_rev length_takeWhile_le)

lemma line_items_ok:
  assumes "stmt_env_ok e" and "list_all item_ok is" and "length file < 2 ^ 31" and "length func < 2 ^ 31"
  shows "list_all item_ok (line_items e m file line func errno is)"
  using header_items_ok [OF assms(1)] assms basename_shorter [of "file"]
  by (auto simp: line_items_def trailer_items_def)

subsection \<open>Properties\<close>


definition noon_env :: stmt_env where
  "noon_env = \<lparr> se_now = 43200000042, se_tid = 77, se_strerror = ''busy'', se_mem = replicate 4000 (CHR ''?''),
     se_fmt1 = replicate 32 (CHR ''?''), se_fmt2 = replicate 32 (CHR ''?'') \<rparr>"

lemma noon_time: "toUtcTime 43200 False =
    \<lparr>tm_sec = 0, tm_min = 0, tm_hour = 12, tm_mday = 1, tm_mon = 0, tm_year = 70, tm_wday = 4, tm_yday = 0\<rparr>"
  by code_simp

lemma noon_env_ok: "stmt_env_ok noon_env" "tls_ok tls_new"
  by (simp_all add: stmt_env_ok_def noon_env_def kSmallBuffer_def noon_time tls_ok_def tls_new_def)


end
