(* ===== verification/WideInts.thy ===== *)
theory WideInts
  imports Prelude
begin

text \<open>
  The 128-bit unsigned integers of \<^verbatim>\<open>basic/int128.h\<close>: two 64-bit words with wrap-around.  The header has two
  branches; the suffix \<open>x86\<close> marks the one in inline assembly, with \<open>addq\<close>/\<open>adcq\<close> and \<open>mulq\<close> as the
  instructions compute, and the plain name the portable one.
\<close>

unbundle bit_operations_syntax

record uint128 =
  low :: "64 word"
  high :: "64 word"

definition uint128_int32 :: "32 word \<Rightarrow> uint128" where
  "uint128_int32 l = \<lparr> low = scast l, high = (if sint l < 0 then -1 else 0) \<rparr>"

definition uint128_u64 :: "64 word \<Rightarrow> uint128" where
  "uint128_u64 l = \<lparr> low = l, high = 0 \<rparr>"

definition uint128_pair :: "64 word \<Rightarrow> 64 word \<Rightarrow> uint128" where
  "uint128_pair h l = \<lparr> low = l, high = h \<rparr>"

definition carry :: "bool \<Rightarrow> 64 word" where "carry b = (if b then 1 else 0)"

definition u128_add_x86 :: "uint128 \<Rightarrow> uint128 \<Rightarrow> uint128" where
  "u128_add_x86 s rhs =
     \<lparr> low = low s + low rhs,
       high = high s + high rhs + carry (2 ^ 64 \<le> unat (low s) + unat (low rhs)) \<rparr>"

definition u128_add :: "uint128 \<Rightarrow> uint128 \<Rightarrow> uint128" where
  "u128_add s rhs =
     (let s = s\<lparr> low := low s + low rhs \<rparr>
      in s\<lparr> high := high s + (high rhs + carry (low s < low rhs)) \<rparr>)"

definition multiply128_x86 :: "64 word \<Rightarrow> 64 word \<Rightarrow> uint128" where
  "multiply128_x86 x y =
     \<lparr> low = of_nat (unat x * unat y), high = of_nat (unat x * unat y div 2 ^ 64) \<rparr>"

definition multiply128 :: "64 word \<Rightarrow> 64 word \<Rightarrow> uint128" where
  "multiply128 x y =
     (let a = ucast (x AND 0xFFFFFFFF) :: 32 word;
          c = ucast (drop_bit 32 x) :: 32 word;
          b = ucast (y AND 0xFFFFFFFF) :: 32 word;
          d = ucast (drop_bit 32 y) :: 32 word;
          ab = ucast a * ucast b :: 64 word;
          bc = ucast b * ucast c :: 64 word;
          ad = ucast a * ucast d :: 64 word;
          cd = ucast c * ucast d :: 64 word;
          lo = ab + push_bit 32 bc;
          hi = cd + drop_bit 32 bc + drop_bit 32 ad + carry (lo < ab);
          lo = lo + push_bit 32 ad;
          hi = hi + carry (lo < push_bit 32 ad)
      in uint128_pair hi lo)"

definition u128_multiply64 :: "64 word \<Rightarrow> uint128 \<Rightarrow> uint128" where
  "u128_multiply64 rhs s =
     (let h = high s * rhs;
          s = multiply128 (low s) rhs
      in s\<lparr> high := high s + h \<rparr>)"

definition u128_multiply :: "uint128 \<Rightarrow> uint128 \<Rightarrow> uint128" where
  "u128_multiply rhs s =
     (let h = low s * high rhs + high s * low rhs;
          s = multiply128 (low s) (low rhs)
      in s\<lparr> high := high s + h \<rparr>)"

subsection \<open>Values\<close>

definition u128_val :: "uint128 \<Rightarrow> nat" where
  "u128_val s = unat (high s) * 2 ^ 64 + unat (low s)"

lemma u128_val_inject: "u128_val s = u128_val t \<longleftrightarrow> s = t"
proof
  assume eq: "u128_val s = u128_val t"
  have l: "unat (low s) < 2 ^ 64" "unat (low t) < 2 ^ 64" using unsigned_less [of "low s"] unsigned_less [of "low t"] by simp_all
  from eq have "u128_val s mod 2 ^ 64 = u128_val t mod 2 ^ 64" "u128_val s div 2 ^ 64 = u128_val t div 2 ^ 64" by simp_all
  then have "low s = low t" "high s = high t" using l unfolding u128_val_def by (simp_all add: word_unat_eq_iff)
  then show "s = t" by (cases s, cases t) simp
qed simp

lemma unat_carry [simp]: "unat (carry b) = (if b then 1 else 0)"
  by (simp add: carry_def)

text \<open>The carry out of a 64-bit addition, read off the result.\<close>

lemma add_carry: "unat (x + y) + (if x + y < x then 2 ^ 64 else 0) = unat x + unat y" for x y :: "64 word"
proof -
  have b: "unat x < 2 ^ 64" "unat y < 2 ^ 64" using unsigned_less [of x] unsigned_less [of y] by simp_all
  have u: "unat (x + y) = (unat x + unat y) mod 2 ^ 64" by (simp add: unat_word_ariths)
  show ?thesis
  proof (cases "unat x + unat y < 2 ^ 64")
    case True
    then show ?thesis using u by (simp add: word_less_nat_alt)
  next
    case False
    then have "unat (x + y) = unat x + unat y - 2 ^ 64" using b u by (simp add: mod_if)
    then show ?thesis using False b by (simp add: word_less_nat_alt)
  qed
qed

lemma unat_high_add: "(unat (h + k) * 2 ^ 64 + l) mod 2 ^ 128 = ((unat h + unat k) * 2 ^ 64 + l) mod 2 ^ 128" for h k :: "64 word"
proof -
  have "unat (h + k) * 2 ^ 64 = (unat h + unat k) * 2 ^ 64 mod 2 ^ 128"
    by (simp add: unat_word_ariths mult_mod_left [symmetric] mod_mult_mult2 flip: mod_mult_mult2 [of _ "2 ^ 64" "2 ^ 64", simplified])
  then show ?thesis by (simp add: mod_simps)
qed

lemma unat_less64: "unat x < 2 ^ 64" for x :: "64 word"
  using unsigned_less [where ?'a = nat, of x] by simp

lemma u128_val_less: "u128_val s < 2 ^ 128"
proof -
  have "unat (low s) < 2 ^ 64" "unat (high s) \<le> 2 ^ 64 - 1"
    using unat_less64 [of "low s"] unat_less64 [of "high s"] by simp_all
  then have "unat (high s) * 2 ^ 64 + unat (low s) < (2 ^ 64 - 1) * 2 ^ 64 + 2 ^ 64" by (intro add_le_less_mono mult_le_mono1)
  then show ?thesis by (simp add: u128_val_def)
qed

lemma u128_mod: "u128_val s = u128_val s mod 2 ^ 128"
  using u128_val_less [of s] by simp

lemma u128_add_val: "u128_val (u128_add s rhs) = (u128_val s + u128_val rhs) mod 2 ^ 128"
proof -
  let ?c = "low s + low rhs < low rhs"
  have c: "unat (low s + low rhs) + (if ?c then 2 ^ 64 else 0) = unat (low s) + unat (low rhs)"
    using add_carry [of "low rhs" "low s"] by (simp add: add.commute)
  have "u128_val (u128_add s rhs) = (unat (high s + (high rhs + carry ?c)) * 2 ^ 64 + unat (low s + low rhs)) mod 2 ^ 128"
    using u128_mod [of "u128_add s rhs"] by (simp add: u128_val_def u128_add_def)
  also have "\<dots> = (unat (high s) * 2 ^ 64 + (unat (high rhs + carry ?c) * 2 ^ 64 + unat (low s + low rhs))) mod 2 ^ 128"
    by (simp only: unat_high_add add_mult_distrib add.assoc)
  also have "\<dots> = (unat (high s) * 2 ^ 64 + ((unat (high rhs) + unat (carry ?c)) * 2 ^ 64 + unat (low s + low rhs))) mod 2 ^ 128"
    by (rule mod_add_cong [OF refl unat_high_add])
  also have "unat (high s) * 2 ^ 64 + ((unat (high rhs) + unat (carry ?c)) * 2 ^ 64 + unat (low s + low rhs)) = u128_val s + u128_val rhs"
    using c by (auto simp: u128_val_def algebra_simps)
  finally show ?thesis .
qed

lemma u128_add_agree: "u128_add_x86 s rhs = u128_add s rhs"
proof -
  have "2 ^ 64 \<le> unat (low s) + unat (low rhs) \<longleftrightarrow> low s + low rhs < low rhs"
    using add_carry [of "low rhs" "low s"] unat_less64 [of "low s + low rhs"] by (auto simp: add.commute split: if_splits)
  then show ?thesis by (simp add: u128_add_x86_def u128_add_def Let_def add.assoc)
qed

text \<open>The halves of a word, and the four partial products.\<close>

lemma unat_drop32: "unat (drop_bit 32 w) = unat w div 2 ^ 32" for w :: "64 word"
  unfolding unsigned_drop_bit_eq unfolding drop_bit_eq_div
  using unat_less64 [of w] by (simp add: take_bit_nat_eq_self)

lemma unat_halves:
  "unat (ucast (x AND 0xFFFFFFFF) :: 32 word) = unat x mod 2 ^ 32" "unat (ucast (drop_bit 32 x) :: 32 word) = unat x div 2 ^ 32"
  for x :: "64 word"
proof -
  have m: "x AND 0xFFFFFFFF = take_bit 32 x"
    by (simp add: take_bit_eq_mask mask_eq_exp_minus_1)
  show "unat (ucast (x AND 0xFFFFFFFF) :: 32 word) = unat x mod 2 ^ 32"
    unfolding m unsigned_ucast_eq unsigned_take_bit_eq by (simp add: take_bit_eq_mod)
  have "unat x div 2 ^ 32 < 2 ^ 32" using unat_less64 [of x] by (simp add: div_less_iff_less_mult)
  then show "unat (ucast (drop_bit 32 x) :: 32 word) = unat x div 2 ^ 32"
    unfolding unsigned_ucast_eq unat_drop32 by (simp add: take_bit_nat_eq_self)
qed

lemma unat_product32: "unat (ucast a * ucast b :: 64 word) = unat a * unat b" for a b :: "32 word"
proof -
  have l: "unat a < 2 ^ 32" "unat b < 2 ^ 32"
    using unsigned_less [where ?'a = nat, of a] unsigned_less [where ?'a = nat, of b] by simp_all
  then have "unat a * unat b < 2 ^ 32 * 2 ^ 32" by (intro mult_strict_mono') simp_all
  moreover have "unat (ucast a :: 64 word) = unat a" "unat (ucast b :: 64 word) = unat b"
    using l by (simp_all add: unsigned_ucast_eq take_bit_nat_eq_self)
  ultimately show ?thesis by (simp add: unat_word_ariths)
qed

lemma shifted_split: "unat (drop_bit 32 w) * 2 ^ 64 + unat (push_bit 32 w) = unat w * 2 ^ 32" for w :: "64 word"
proof -
  have "unat (push_bit 32 w) = (unat w * 2 ^ 32) mod 2 ^ 64"
    unfolding unsigned_push_bit_eq by (simp add: take_bit_eq_mod push_bit_eq_mult)
  moreover have "(unat w * 2 ^ 32) div 2 ^ 64 = unat w div 2 ^ 32" by simp
  moreover have "unat (drop_bit 32 w) = unat w div 2 ^ 32" by (rule unat_drop32)
  ultimately show ?thesis using div_mult_mod_eq [of "unat w * 2 ^ 32" "2 ^ 64"] by simp
qed

lemma unat_add_exact: "unat h + unat k < 2 ^ 64 \<Longrightarrow> unat (h + k) = unat h + unat k" for h k :: "64 word"
  by (simp add: unat_word_ariths)

text \<open>
  The portable product is exact: the two additions to the low word lose a carry each, which the comparisons
  put into the high word, and the high word does not overflow since the product fits.
\<close>

lemma multiply128_val: "u128_val (multiply128 x y) = unat x * unat y"
proof -
  define a where "a = (ucast (x AND 0xFFFFFFFF) :: 32 word)"
  define c where "c = (ucast (drop_bit 32 x) :: 32 word)"
  define b where "b = (ucast (y AND 0xFFFFFFFF) :: 32 word)"
  define d where "d = (ucast (drop_bit 32 y) :: 32 word)"
  define ab where "ab = (ucast a * ucast b :: 64 word)"
  define bc where "bc = (ucast b * ucast c :: 64 word)"
  define ad where "ad = (ucast a * ucast d :: 64 word)"
  define cd where "cd = (ucast c * ucast d :: 64 word)"
  define lo where "lo = ab + push_bit 32 bc"
  define hi where "hi = cd + drop_bit 32 bc + drop_bit 32 ad + carry (lo < ab)"
  define lo' where "lo' = lo + push_bit 32 ad"
  define hi' where "hi' = hi + carry (lo' < push_bit 32 ad)"
  have m: "multiply128 x y = uint128_pair hi' lo'"
    by (simp add: multiply128_def Let_def a_def b_def c_def d_def ab_def bc_def ad_def cd_def lo_def hi_def lo'_def hi'_def)
  have p: "unat ab = unat a * unat b" "unat bc = unat b * unat c" "unat ad = unat a * unat d" "unat cd = unat c * unat d"
    by (simp_all add: ab_def bc_def ad_def cd_def unat_product32)
  have xy: "unat x = unat c * 2 ^ 32 + unat a" "unat y = unat d * 2 ^ 32 + unat b"
    unfolding a_def b_def c_def d_def unat_halves by simp_all
  have c1: "unat lo + (if lo < ab then 2 ^ 64 else 0) = unat ab + unat (push_bit 32 bc)"
    unfolding lo_def by (rule add_carry)
  have c2: "unat lo' + (if lo' < push_bit 32 ad then 2 ^ 64 else 0) = unat lo + unat (push_bit 32 ad)"
    using add_carry [of "push_bit 32 ad" lo] by (simp add: lo'_def add.commute)
  let ?H = "unat cd + unat (drop_bit 32 bc) + unat (drop_bit 32 ad) + unat (carry (lo < ab)) + unat (carry (lo' < push_bit 32 ad))"
  have total: "?H * 2 ^ 64 + unat lo' = unat x * unat y"
  proof -
    have "?H * 2 ^ 64 + unat lo' = unat cd * 2 ^ 64 + unat (drop_bit 32 bc) * 2 ^ 64 + unat (drop_bit 32 ad) * 2 ^ 64
        + (if lo < ab then 2 ^ 64 else 0) + ((if lo' < push_bit 32 ad then 2 ^ 64 else 0) + unat lo')" by simp
    also have "\<dots> = unat cd * 2 ^ 64 + unat ab + (unat (drop_bit 32 bc) * 2 ^ 64 + unat (push_bit 32 bc))
        + (unat (drop_bit 32 ad) * 2 ^ 64 + unat (push_bit 32 ad))" using c1 c2 by linarith
    also have "\<dots> = unat cd * 2 ^ 64 + unat ab + unat bc * 2 ^ 32 + unat ad * 2 ^ 32" by (simp only: shifted_split)
    also have "\<dots> = unat x * unat y" unfolding p xy by (simp add: algebra_simps)
    finally show ?thesis .
  qed
  have "unat x * unat y < 2 ^ 64 * 2 ^ 64" using unat_less64 [of x] unat_less64 [of y] by (intro mult_strict_mono') simp_all
  with total have H: "?H < 2 ^ 64" by (metis (no_types, lifting) add_lessD1 mult_less_cancel2)
  have s1: "unat (cd + drop_bit 32 bc) = unat cd + unat (drop_bit 32 bc)" by (rule unat_add_exact) (use H in linarith)
  have s2: "unat (cd + drop_bit 32 bc + drop_bit 32 ad) = unat cd + unat (drop_bit 32 bc) + unat (drop_bit 32 ad)"
    unfolding s1 [symmetric] by (rule unat_add_exact) (use H s1 in linarith)
  have s3: "unat hi = unat cd + unat (drop_bit 32 bc) + unat (drop_bit 32 ad) + unat (carry (lo < ab))"
    unfolding hi_def s2 [symmetric] by (rule unat_add_exact) (use H s2 in linarith)
  have "unat hi' = ?H" unfolding hi'_def s3 [symmetric] by (rule unat_add_exact) (use H s3 in linarith)
  with total m show ?thesis by (simp add: u128_val_def uint128_pair_def)
qed

lemma multiply128_agree: "multiply128_x86 x y = multiply128 x y"
proof -
  have "unat x * unat y < 2 ^ 64 * 2 ^ 64" using unat_less64 [of x] unat_less64 [of y] by (intro mult_strict_mono') simp_all
  then have "unat x * unat y div 2 ^ 64 < 2 ^ 64" by (simp add: div_less_iff_less_mult)
  then have "u128_val (multiply128_x86 x y) = unat x * unat y"
    by (simp add: u128_val_def multiply128_x86_def unsigned_of_nat take_bit_eq_mod unat_word_ariths(2))
  then show ?thesis unfolding u128_val_inject [symmetric] multiply128_val .
qed

lemma u128_add_high: "u128_val (s\<lparr> high := high s + h \<rparr>) = (u128_val s + unat h * 2 ^ 64) mod 2 ^ 128"
proof -
  have "u128_val (s\<lparr> high := high s + h \<rparr>) = (unat (high s + h) * 2 ^ 64 + unat (low s)) mod 2 ^ 128"
    using u128_mod [of "s\<lparr> high := high s + h \<rparr>"] by (simp add: u128_val_def)
  then show ?thesis unfolding unat_high_add by (simp add: u128_val_def algebra_simps)
qed

lemma unat_mult_high: "unat (h * k) * 2 ^ 64 mod 2 ^ 128 = unat h * unat k * 2 ^ 64 mod 2 ^ 128" for h k :: "64 word"
proof -
  have "unat (h * k) * 2 ^ 64 = (unat h * unat k * 2 ^ 64) mod (2 ^ 64 * 2 ^ 64)"
    unfolding mod_mult_mult2 by (simp add: unat_word_ariths)
  then show ?thesis by simp
qed

lemma u128_multiply64_val: "u128_val (u128_multiply64 rhs s) = (u128_val s * unat rhs) mod 2 ^ 128"
proof -
  have "u128_val (u128_multiply64 rhs s) = (unat (low s) * unat rhs + unat (high s * rhs) * 2 ^ 64) mod 2 ^ 128"
    unfolding u128_multiply64_def Let_def u128_add_high multiply128_val ..
  also have "\<dots> = (unat (low s) * unat rhs + unat (high s) * unat rhs * 2 ^ 64) mod 2 ^ 128"
    by (rule mod_add_cong [OF refl unat_mult_high])
  finally show ?thesis by (simp add: u128_val_def algebra_simps)
qed

lemma u128_multiply_val: "u128_val (u128_multiply rhs s) = (u128_val s * u128_val rhs) mod 2 ^ 128"
proof -
  let ?h = "low s * high rhs" and ?k = "high s * low rhs"
  have "u128_val (u128_multiply rhs s) = (unat (low s) * unat (low rhs) + unat (?h + ?k) * 2 ^ 64) mod 2 ^ 128"
    unfolding u128_multiply_def Let_def u128_add_high multiply128_val ..
  also have "\<dots> = (unat (low s) * unat (low rhs) + (unat (low s) * unat (high rhs) * 2 ^ 64 + unat (high s) * unat (low rhs) * 2 ^ 64)) mod 2 ^ 128"
  proof (rule mod_add_cong [OF refl])
    have "unat (?h + ?k) * 2 ^ 64 mod 2 ^ 128 = (unat ?h * 2 ^ 64 + unat ?k * 2 ^ 64) mod 2 ^ 128"
      using unat_high_add [of ?h ?k 0] by (simp only: add_mult_distrib add_0_right)
    also have "\<dots> = (unat (low s) * unat (high rhs) * 2 ^ 64 + unat (high s) * unat (low rhs) * 2 ^ 64) mod 2 ^ 128"
      by (rule mod_add_cong [OF unat_mult_high unat_mult_high])
    finally show "unat (?h + ?k) * 2 ^ 64 mod 2 ^ 128
        = (unat (low s) * unat (high rhs) * 2 ^ 64 + unat (high s) * unat (low rhs) * 2 ^ 64) mod 2 ^ 128" .
  qed
  also have "\<dots> = (unat (low s) * unat (low rhs) + (unat (low s) * unat (high rhs) * 2 ^ 64 + unat (high s) * unat (low rhs) * 2 ^ 64)
      + unat (high s) * unat (high rhs) * 2 ^ 128) mod 2 ^ 128" by (rule mod_mult_self1 [symmetric])
  also have "unat (low s) * unat (low rhs) + (unat (low s) * unat (high rhs) * 2 ^ 64 + unat (high s) * unat (low rhs) * 2 ^ 64)
      + unat (high s) * unat (high rhs) * 2 ^ 128 = u128_val s * u128_val rhs"
    by (simp add: u128_val_def algebra_simps)
  finally show ?thesis .
qed

lemma uint128_int32_val: "int (u128_val (uint128_int32 l)) = sint l mod 2 ^ 128"
proof -
  have b: "- (2 ^ 31) \<le> sint l" "sint l < 2 ^ 31" using sint_ge [of l] sint_lt [of l] by simp_all
  have lo: "int (unat (scast l :: 64 word)) = sint l mod 2 ^ 64"
  proof -
    have "uint (scast l :: 64 word) = take_bit 64 (sint l)" by (subst uint_sint) (simp add: sint_up_scast is_up)
    then show ?thesis by (simp add: take_bit_eq_mod)
  qed
  show ?thesis
  proof (cases "sint l < 0")
    case True
    have neg: "k mod m = k + m" if "- m \<le> k" "k < 0" "0 < m" for k m :: int
      using that mod_pos_pos_trivial [of "k + m" m] by simp
    have "sint l mod 2 ^ 64 = sint l + 2 ^ 64" "sint l mod 2 ^ 128 = sint l + 2 ^ 128"
      using b True by (intro neg; simp)+
    moreover have "int (unat (-1 :: 64 word)) = 2 ^ 64 - 1" by (simp add: unsigned_minus_1_eq_mask mask_eq_exp_minus_1)
    ultimately show ?thesis using True lo by (simp add: u128_val_def uint128_int32_def)
  next
    case False
    then show ?thesis using b lo by (simp add: u128_val_def uint128_int32_def)
  qed
qed

subsection \<open>Properties\<close>

text \<open>
  Claim C35.  The 128-bit integers compute modulo \<open>2 ^ 128\<close>: addition, both multiplications and the
  conversion of signed integers, and the product of two 64-bit words is exact.  The portable branch, which
  recovers every carry by comparing words, agrees with the machine instructions.
\<close>

theorem uint128_arithmetic:
  "u128_val (u128_add s t) = (u128_val s + u128_val t) mod 2 ^ 128
   \<and> u128_val (multiply128 x y) = unat x * unat y
   \<and> u128_val (u128_multiply64 x s) = (u128_val s * unat x) mod 2 ^ 128
   \<and> u128_val (u128_multiply t s) = (u128_val s * u128_val t) mod 2 ^ 128
   \<and> int (u128_val (uint128_int32 l)) = sint l mod 2 ^ 128
   \<and> u128_add_x86 s t = u128_add s t \<and> multiply128_x86 x y = multiply128 x y"
  by (intro conjI u128_add_val multiply128_val u128_multiply64_val u128_multiply_val uint128_int32_val
      u128_add_agree multiply128_agree)

end
