(* ===== verification/CountedPtrs.thy ===== *)
theory CountedPtrs
  imports Prelude
begin

text \<open>
  The reference-counted smart pointer of \<^verbatim>\<open>basic/counted_ptr.h\<close>.

  The state holds the smart pointers of a program in numbered variables, the live objects of type \<open>T\<close>
  and the heap cells of the counts; addresses are never used twice.  Reading or freeing a dead cell, or
  deleting a dead object, is \<open>None\<close>.  The by-value parameter of \<open>operator=\<close> is a further variable that
  lives during the call.  A count that leaves the range of \<open>int\<close> needs more pointers than memory has.
\<close>

record counted_ptr =
  cp_ptr :: "addr option"
  cp_count :: "addr option"

record cp_state =
  cp_vars :: "counted_ptr option list"
  cp_objs :: "addr set"
  cp_counts :: "addr \<Rightarrow> int option"
  cp_next :: addr

definition cp_init :: "nat \<Rightarrow> cp_state" where
  "cp_init n = \<lparr> cp_vars = replicate n None, cp_objs = {}, cp_counts = Map.empty, cp_next = 1 \<rparr>"

definition cp_nullptr :: counted_ptr where
  "cp_nullptr = \<lparr> cp_ptr = None, cp_count = None \<rparr>"

subsection \<open>Operations on one pointer\<close>

text \<open>The constructor takes a pointer or \<open>nullptr\<close>; \<open>new T\<close> is the caller's.\<close>

definition new_T :: "cp_state \<Rightarrow> addr \<times> cp_state" where
  "new_T s = (let p = cp_next s in (p, s\<lparr> cp_objs := insert p (cp_objs s), cp_next := p + 1 \<rparr>))"

definition cp_ctor :: "addr option \<Rightarrow> cp_state \<Rightarrow> counted_ptr \<times> cp_state" where
  "cp_ctor p s =
     (if p \<noteq> None
      then let c = cp_next s
           in (\<lparr> cp_ptr = p, cp_count = Some c \<rparr>,
               s\<lparr> cp_counts := (cp_counts s)(c \<mapsto> 1), cp_next := c + 1 \<rparr>)
      else (\<lparr> cp_ptr = p, cp_count = None \<rparr>, s))"

definition cp_copy :: "counted_ptr \<Rightarrow> cp_state \<Rightarrow> (counted_ptr \<times> cp_state) option" where
  "cp_copy rhs s = (case cp_count rhs of
       None \<Rightarrow> Some (rhs, s)
     | Some c \<Rightarrow> do {
         n \<leftarrow> cp_counts s c;
         Some (rhs, s\<lparr> cp_counts := (cp_counts s)(c \<mapsto> n + 1) \<rparr>) })"

definition cp_move :: "counted_ptr \<Rightarrow> counted_ptr \<times> counted_ptr" where
  "cp_move rhs = (rhs, cp_nullptr)"

definition cp_reset :: "counted_ptr \<Rightarrow> cp_state \<Rightarrow> (counted_ptr \<times> cp_state) option" where
  "cp_reset q s = (case cp_count q of
       None \<Rightarrow> Some (q, s)
     | Some c \<Rightarrow> do {
         n \<leftarrow> cp_counts s c;
         let s = s\<lparr> cp_counts := (cp_counts s)(c \<mapsto> n - 1) \<rparr>;
         s \<leftarrow> (if n - 1 = 0 then do {
                 p \<leftarrow> cp_ptr q;
                 check (p \<in> cp_objs s);
                 let s = s\<lparr> cp_objs := cp_objs s - {p} \<rparr>;
                 Some (s\<lparr> cp_counts := (cp_counts s)(c := None) \<rparr>) }
               else Some s);
         Some (cp_nullptr, s) })"

definition cp_swap :: "counted_ptr \<Rightarrow> counted_ptr \<Rightarrow> counted_ptr \<times> counted_ptr" where
  "cp_swap q rhs =
     (let tp = cp_ptr q; q = q\<lparr> cp_ptr := cp_ptr rhs \<rparr>; rhs = rhs\<lparr> cp_ptr := tp \<rparr>;
          tc = cp_count q; q = q\<lparr> cp_count := cp_count rhs \<rparr>; rhs = rhs\<lparr> cp_count := tc \<rparr>
      in (q, rhs))"

definition use_count :: "counted_ptr \<Rightarrow> cp_state \<Rightarrow> int option" where
  "use_count q s = (case cp_count q of None \<Rightarrow> Some 0 | Some c \<Rightarrow> cp_counts s c)"

subsection \<open>Programs\<close>

text \<open>
  An operation on variables in the wrong state (constructing one that lives, using one that does not) is
  not a program and leaves the state alone.
\<close>

datatype cp_op = CNew nat | CNull nat | CCopy nat nat | CMove nat nat | CAssign nat nat | CAssignMove nat nat
  | CReset nat | CSwap nat nat | CDestroy nat

definition live :: "cp_state \<Rightarrow> nat \<Rightarrow> bool" where
  "live s i \<longleftrightarrow> i < length (cp_vars s) \<and> cp_vars s ! i \<noteq> None"

definition free :: "cp_state \<Rightarrow> nat \<Rightarrow> bool" where
  "free s i \<longleftrightarrow> i < length (cp_vars s) \<and> cp_vars s ! i = None"

definition var :: "cp_state \<Rightarrow> nat \<Rightarrow> counted_ptr" where
  "var s i = the (cp_vars s ! i)"

definition set_var :: "nat \<Rightarrow> counted_ptr option \<Rightarrow> cp_state \<Rightarrow> cp_state" where
  "set_var i v s = s\<lparr> cp_vars := (cp_vars s)[i := v] \<rparr>"

text \<open>\<open>operator=\<close> once its parameter \<open>rhs\<close> is initialised: swap, and the destructor of the parameter.\<close>

definition cp_assign :: "nat \<Rightarrow> counted_ptr \<Rightarrow> cp_state \<Rightarrow> cp_state option" where
  "cp_assign i rhs s = do {
     let (q, rhs) = cp_swap (var s i) rhs;
     (_, s) \<leftarrow> cp_reset rhs (set_var i (Some q) s);
     Some s }"

fun cp_step :: "cp_op \<Rightarrow> cp_state \<Rightarrow> cp_state option" where
  "cp_step (CNew i) s =
     Some (if free s i
           then let (p, s) = new_T s; (q, s) = cp_ctor (Some p) s in set_var i (Some q) s else s)"
| "cp_step (CNull i) s = Some (if free s i then let (q, s) = cp_ctor None s in set_var i (Some q) s else s)"
| "cp_step (CCopy i j) s =
     (if free s i \<and> live s j then do { (q, s) \<leftarrow> cp_copy (var s j) s; Some (set_var i (Some q) s) } else Some s)"
| "cp_step (CMove i j) s =
     Some (if free s i \<and> live s j
           then let (q, r) = cp_move (var s j) in set_var j (Some r) (set_var i (Some q) s) else s)"
| "cp_step (CAssign i j) s =
     (if live s i \<and> live s j then do { (q, s) \<leftarrow> cp_copy (var s j) s; cp_assign i q s } else Some s)"
| "cp_step (CAssignMove i j) s =
     (if live s i \<and> live s j
      then let (q, r) = cp_move (var s j) in cp_assign i q (set_var j (Some r) s) else Some s)"
| "cp_step (CReset i) s =
     (if live s i then do { (q, s) \<leftarrow> cp_reset (var s i) s; Some (set_var i (Some q) s) } else Some s)"
| "cp_step (CSwap i j) s =
     Some (if live s i \<and> live s j
           then let (q, r) = cp_swap (var s i) (var s j) in set_var j (Some r) (set_var i (Some q) s) else s)"
| "cp_step (CDestroy i) s =
     (if live s i then do { (q, s) \<leftarrow> cp_reset (var s i) s; Some (set_var i None s) } else Some s)"

fun cp_run :: "cp_op list \<Rightarrow> cp_state \<Rightarrow> cp_state option" where
  "cp_run [] s = Some s"
| "cp_run (op # ops) s = cp_step op s \<bind> cp_run ops"

subsection \<open>Ownership\<close>

text \<open>The invariant is stated over the multiset of pointers that exist, in variables or as parameters.\<close>

definition sharing :: "counted_ptr multiset \<Rightarrow> addr \<Rightarrow> nat" where
  "sharing M c = size (filter_mset (\<lambda>q. cp_count q = Some c) M)"

definition owns :: "counted_ptr multiset \<Rightarrow> cp_state \<Rightarrow> bool" where
  "owns M s \<longleftrightarrow>
     (\<forall>c. cp_counts s c = (if sharing M c = 0 then None else Some (int (sharing M c))))
     \<and> (\<forall>q\<in>#M. cp_ptr q = None \<longleftrightarrow> cp_count q = None)
     \<and> (\<forall>q\<in>#M. \<forall>r\<in>#M. cp_ptr q = cp_ptr r \<longleftrightarrow> cp_count q = cp_count r)
     \<and> cp_objs s = {p. \<exists>q\<in>#M. cp_ptr q = Some p}
     \<and> (\<forall>q\<in>#M. \<forall>a. cp_ptr q = Some a \<or> cp_count q = Some a \<longrightarrow> a < cp_next s)"

definition holders :: "cp_state \<Rightarrow> counted_ptr multiset" where
  "holders s = mset (map the (filter (\<lambda>v. v \<noteq> None) (cp_vars s)))"

lemma sharing_add: "sharing (add_mset q M) c = sharing M c + (if cp_count q = Some c then 1 else 0)"
  by (simp add: sharing_def)

lemma sharing_0: "sharing M c = 0 \<longleftrightarrow> (\<forall>q\<in>#M. cp_count q \<noteq> Some c)"
  by (induction M) (auto simp: sharing_def)

lemma owns_counts: "owns M s \<Longrightarrow> cp_counts s c = (if sharing M c = 0 then None else Some (int (sharing M c)))"
  by (simp add: owns_def)

lemma owns_live_count:
  assumes "owns M s" "q \<in># M" "cp_count q = Some c"
  shows "cp_counts s c = Some (int (sharing M c))" "0 < sharing M c"
proof -
  show "0 < sharing M c" using assms(2,3) sharing_0 [of M c] by auto
  then show "cp_counts s c = Some (int (sharing M c))" using owns_counts [OF assms(1)] by simp
qed

lemma owns_live_ptr:
  assumes "owns M s" "q \<in># M" "cp_count q = Some c"
  obtains p where "cp_ptr q = Some p" "p \<in> cp_objs s"
proof -
  have "cp_ptr q \<noteq> None" using assms by (auto simp: owns_def)
  then obtain p where "cp_ptr q = Some p" by auto
  then show thesis using that assms by (auto simp: owns_def)
qed

lemma owns_null: "owns (add_mset cp_nullptr M) s \<longleftrightarrow> owns M s"
proof -
  have "sharing (add_mset cp_nullptr M) c = sharing M c" for c by (simp add: sharing_add cp_nullptr_def)
  then show ?thesis by (auto simp: owns_def cp_nullptr_def)
qed

lemma owns_null_count:
  assumes "owns (add_mset q M) s" "cp_count q = None"
  shows "q = cp_nullptr"
  using assms by (cases q) (auto simp: owns_def cp_nullptr_def)

lemma owns_copy:
  assumes M: "owns M s" and q: "q \<in># M"
  obtains s' where "cp_copy q s = Some (q, s')" "owns (add_mset q M) s'" "cp_vars s' = cp_vars s"
proof (cases "cp_count q")
  case None
  then have "q = cp_nullptr" using M q owns_null_count [of q "M - {#q#}" s] by simp
  then have "owns (add_mset q M) s" using M by (simp add: owns_null)
  then show thesis using None that [of s] by (simp add: cp_copy_def)
next
  case (Some c)
  define s' where "s' = s\<lparr> cp_counts := (cp_counts s)(c \<mapsto> int (sharing M c) + 1) \<rparr>"
  have "cp_copy q s = Some (q, s')"
    using Some owns_live_count [OF M q Some] by (simp add: cp_copy_def s'_def)
  moreover have "owns (add_mset q M) s'"
    using M q Some by (auto simp: owns_def s'_def sharing_add)
  ultimately show thesis using that by (simp add: s'_def)
qed

lemma owns_reset:
  assumes M: "owns (add_mset q M) s"
  obtains s' where "cp_reset q s = Some (cp_nullptr, s')" "owns M s'" "cp_vars s' = cp_vars s"
proof (cases "cp_count q")
  case None
  then have "q = cp_nullptr" using M owns_null_count by blast
  then show thesis using M that [of s] by (simp add: cp_reset_def owns_null) (simp add: cp_nullptr_def)
next
  case (Some c)
  have n: "cp_counts s c = Some (int (sharing M c) + 1)"
    using owns_live_count(1) [OF M _ Some] Some by (simp add: sharing_add)
  obtain p where p: "cp_ptr q = Some p" "p \<in> cp_objs s" using owns_live_ptr [OF M _ Some] by auto
  define gone where "gone \<longleftrightarrow> sharing M c = 0"
  define s' where "s' = s\<lparr> cp_counts := (cp_counts s)(c := if gone then None else Some (int (sharing M c))),
                          cp_objs := (if gone then cp_objs s - {p} else cp_objs s) \<rparr>"
  have run: "cp_reset q s = Some (cp_nullptr, s')"
    using Some n p by (simp add: cp_reset_def s'_def gone_def check_def)
  have same: "cp_ptr r = Some p \<longleftrightarrow> cp_count r = Some c" if "r \<in># M" for r
    using M p Some that by (auto simp: owns_def)
  have "cp_objs s' = {p. \<exists>q\<in>#M. cp_ptr q = Some p}"
  proof (cases gone)
    case True
    then have "cp_ptr r \<noteq> Some p" if "r \<in># M" for r using same that by (auto simp: gone_def sharing_0)
    then show ?thesis using M p True by (auto simp: owns_def s'_def)
  next
    case False
    then obtain r where "r \<in># M" "cp_ptr r = Some p" using same by (auto simp: gone_def sharing_0)
    then show ?thesis using M p False by (auto simp: owns_def s'_def)
  qed
  moreover have "cp_counts s' d = (if sharing M d = 0 then None else Some (int (sharing M d)))" for d
    using owns_counts [OF M, of d] Some by (auto simp: s'_def gone_def sharing_add)
  ultimately have "owns M s'" using M by (simp add: owns_def s'_def)
  then show thesis using run that by (simp add: s'_def)
qed

subsection \<open>Every step keeps ownership\<close>

lemma owns_set_var [simp]: "owns M (set_var i v s) \<longleftrightarrow> owns M s"
  by (simp add: owns_def set_var_def)

lemma cp_swap_swaps: "cp_swap q r = (r, q)"
  by (simp add: cp_swap_def)

lemma owns_new:
  assumes "owns M s" "new_T s = (p, s1)" "cp_ctor (Some p) s1 = (q, s2)"
  shows "owns (add_mset q M) s2 \<and> cp_vars s2 = cp_vars s"
proof -
  have fresh: "sharing M (Suc (cp_next s)) = 0" using assms(1) by (force simp: owns_def sharing_0)
  have old: "cp_ptr r \<noteq> Some (cp_next s)" "cp_count r \<noteq> Some (Suc (cp_next s))" if "r \<in># M" for r
    using assms(1) that by (force simp: owns_def)+
  have "owns (add_mset q M) s2"
    unfolding owns_def
  proof (intro conjI)
    show "\<forall>c. cp_counts s2 c = (if sharing (add_mset q M) c = 0 then None else Some (int (sharing (add_mset q M) c)))"
      using assms fresh by (auto simp: new_T_def cp_ctor_def Let_def sharing_add owns_counts)
    show "\<forall>r\<in>#add_mset q M. \<forall>t\<in>#add_mset q M. (cp_ptr r = cp_ptr t) = (cp_count r = cp_count t)"
      using assms old by (auto simp: new_T_def cp_ctor_def Let_def owns_def)
    show "\<forall>r\<in>#add_mset q M. (cp_ptr r = None) = (cp_count r = None)"
      using assms by (auto simp: new_T_def cp_ctor_def Let_def owns_def)
    show "cp_objs s2 = {p. \<exists>r\<in>#add_mset q M. cp_ptr r = Some p}"
      using assms by (auto simp: new_T_def cp_ctor_def Let_def owns_def)
    show "\<forall>r\<in>#add_mset q M. \<forall>a. cp_ptr r = Some a \<or> cp_count r = Some a \<longrightarrow> a < cp_next s2"
      using assms by (auto simp: new_T_def cp_ctor_def Let_def owns_def less_Suc_eq)
  qed
  then show ?thesis using assms by (auto simp: new_T_def cp_ctor_def Let_def)
qed

lemma holders_set: "i < length (cp_vars s) \<Longrightarrow> holders (set_var i (Some q) s) = add_mset q (holders (set_var i None s))"
  by (simp add: holders_def set_var_def upd_conv_take_nth_drop)

lemma holders_live: "live s i \<Longrightarrow> holders s = add_mset (var s i) (holders (set_var i None s))"
proof -
  assume i: "live s i"
  then have "set_var i (Some (var s i)) s = s" by (auto simp: set_var_def var_def live_def)
  then show ?thesis using holders_set [of i s "var s i"] i by (simp add: live_def)
qed

lemma holders_free: "free s i \<Longrightarrow> holders (set_var i None s) = holders s"
proof -
  assume "free s i"
  then have "(cp_vars s)[i := None] = cp_vars s" using list_update_id [of "cp_vars s" i] by (simp add: free_def)
  then show ?thesis by (simp add: holders_def set_var_def)
qed

lemma var_set: "i < length (cp_vars s) \<Longrightarrow> var (set_var i (Some q) s) j = (if i = j then q else var s j)"
  by (simp add: var_def set_var_def)

lemma live_set: "live (set_var i (Some q) s) j \<longleftrightarrow> (if i = j then i < length (cp_vars s) else live s j)"
  by (auto simp: live_def set_var_def)

lemma set_var_set [simp]: "set_var i v (set_var i w s) = set_var i v s"
  by (simp add: set_var_def)

lemma set_var_swap: "i \<noteq> j \<Longrightarrow> set_var i v (set_var j w s) = set_var j w (set_var i v s)"
  by (simp add: set_var_def list_update_swap)

lemma holders_cong: "cp_vars s = cp_vars t \<Longrightarrow> holders s = holders t"
  by (simp add: holders_def)

lemma assign_owns:
  assumes s: "owns (add_mset q (holders s)) s" and i: "live s i"
  obtains s' where "cp_assign i q s = Some s'" "owns (holders s') s'"
proof -
  have i': "i < length (cp_vars s)" using i by (simp add: live_def)
  have "add_mset q (holders s) = add_mset (var s i) (holders (set_var i (Some q) s))"
    using holders_live [OF i] by (simp add: holders_set i')
  then have "owns (add_mset (var s i) (holders (set_var i (Some q) s))) (set_var i (Some q) s)"
    using s by simp
  then obtain s' where s': "cp_reset (var s i) (set_var i (Some q) s) = Some (cp_nullptr, s')"
      "owns (holders (set_var i (Some q) s)) s'" "cp_vars s' = cp_vars (set_var i (Some q) s)"
    by (rule owns_reset)
  then show thesis
    using that [of s'] holders_cong [OF s'(3)] by (simp add: cp_assign_def cp_swap_swaps)
qed

lemma free_not_live: "free s i \<Longrightarrow> live s j \<Longrightarrow> i \<noteq> j"
  by (auto simp: free_def live_def)

lemma free_len: "free s i \<Longrightarrow> i < length (cp_vars s)" and live_len: "live s i \<Longrightarrow> i < length (cp_vars s)"
  by (simp_all add: free_def live_def)

lemma live_in_holders: "live s i \<Longrightarrow> var s i \<in># holders s"
  by (simp add: holders_live)

lemma holders_fill:
  assumes "free s i" "cp_vars s' = cp_vars s"
  shows "holders (set_var i (Some q) s') = add_mset q (holders s)"
proof -
  have "free s' i" using assms by (simp add: free_def)
  then show ?thesis
    using holders_set [OF free_len] holders_free holders_cong [OF assms(2)] by metis
qed

lemma holders_move:
  assumes "free s i" "live s j"
  shows "holders (set_var j (Some r) (set_var i (Some (var s j)) s)) = add_mset r (holders s)"
proof -
  let ?t = "set_var i (Some (var s j)) s"
  have ij: "i \<noteq> j" using free_not_live assms by blast
  have "live ?t j" "var ?t j = var s j" using ij assms by (auto simp: live_set var_set free_len)
  then have "add_mset (var s j) (holders (set_var j None ?t)) = add_mset (var s j) (holders s)"
    using holders_live [of ?t j] holders_fill [OF assms(1) refl] by simp
  then show ?thesis using \<open>live ?t j\<close> by (simp add: holders_set live_len)
qed

lemma holders_swap:
  assumes "live s i" "live s j"
  shows "holders (set_var j (Some (var s i)) (set_var i (Some (var s j)) s)) = holders s"
proof (cases "i = j")
  case True
  then show ?thesis using holders_set [OF live_len] holders_live assms by simp
next
  case False
  let ?t = "set_var i (Some (var s j)) s"
  have t: "live ?t j" "var ?t j = var s j" using False assms by (auto simp: live_set var_set live_len)
  have "add_mset (var s j) (holders (set_var j (Some (var s i)) ?t)) = add_mset (var s i) (holders ?t)"
    using holders_live [OF t(1)] t by (simp add: holders_set live_len)
  also have "\<dots> = add_mset (var s j) (holders s)"
    using holders_live [OF assms(1)] by (simp add: holders_set live_len assms(1))
  finally show ?thesis by simp
qed

lemma reset_var_owns:
  assumes "owns (holders s) s" "live s i"
  obtains s' where "cp_reset (var s i) s = Some (cp_nullptr, s')"
    "owns (holders (set_var i None s')) s'" "i < length (cp_vars s')"
proof -
  obtain s' where s': "cp_reset (var s i) s = Some (cp_nullptr, s')" "owns (holders (set_var i None s)) s'"
      "cp_vars s' = cp_vars s"
    using assms owns_reset holders_live by metis
  have "holders (set_var i None s') = holders (set_var i None s)"
    by (rule holders_cong) (simp add: set_var_def s'(3))
  then show thesis using that s' assms(2) by (simp add: live_len)
qed

lemma copy_var_owns:
  assumes "owns (holders s) s" "live s j"
  obtains s' where "cp_copy (var s j) s = Some (var s j, s')" "owns (add_mset (var s j) (holders s')) s'"
    "cp_vars s' = cp_vars s"
proof -
  obtain s' where s': "cp_copy (var s j) s = Some (var s j, s')" "owns (add_mset (var s j) (holders s)) s'"
      "cp_vars s' = cp_vars s"
    using owns_copy [OF assms(1) live_in_holders [OF assms(2)]] by blast
  show thesis using that [OF s'(1)] s'(2,3) holders_cong [OF s'(3)] by simp
qed

lemma step_copy_owns:
  assumes s: "owns (holders s) s"
  shows "\<exists>s'. cp_step (CCopy i j) s = Some s' \<and> owns (holders s') s'"
    and "\<exists>s'. cp_step (CAssign i j) s = Some s' \<and> owns (holders s') s'"
proof -
  show "\<exists>s'. cp_step (CCopy i j) s = Some s' \<and> owns (holders s') s'"
  proof (cases "free s i \<and> live s j")
    case True
    then obtain s' where s': "cp_copy (var s j) s = Some (var s j, s')" "owns (add_mset (var s j) (holders s')) s'"
        "cp_vars s' = cp_vars s"
      using copy_var_owns [OF s] by blast
    moreover have "free s' i" using True s'(3) by (simp add: free_def)
    ultimately show ?thesis using True by (simp add: holders_fill)
  qed (use s in auto)
  show "\<exists>s'. cp_step (CAssign i j) s = Some s' \<and> owns (holders s') s'"
  proof (cases "live s i \<and> live s j")
    case True
    then obtain t where t: "cp_copy (var s j) s = Some (var s j, t)" "owns (add_mset (var s j) (holders t)) t"
        "cp_vars t = cp_vars s"
      using copy_var_owns [OF s] by blast
    have "live t i" using True t(3) by (simp add: live_def)
    then obtain s' where "cp_assign i (var s j) t = Some s'" "owns (holders s') s'" using assign_owns [OF t(2)] by blast
    then show ?thesis using True t(1) by simp
  qed (use s in auto)
qed

lemma step_move_owns:
  assumes s: "owns (holders s) s"
  shows "\<exists>s'. cp_step (CAssignMove i j) s = Some s' \<and> owns (holders s') s'"
proof (cases "live s i \<and> live s j")
  case True
  let ?t = "set_var j (Some cp_nullptr) s"
  have "owns (add_mset (var s j) (holders ?t)) ?t"
    using s True holders_live [of s j] owns_null by (simp add: holders_set live_len add_mset_commute)
  moreover have "live ?t i" using True by (auto simp: live_set live_len)
  ultimately obtain s' where "cp_assign i (var s j) ?t = Some s'" "owns (holders s') s'" by (rule assign_owns)
  then show ?thesis using True by (simp add: cp_move_def)
qed (use s in auto)

lemma step_reset_owns:
  assumes s: "owns (holders s) s"
  shows "\<exists>s'. cp_step (CReset i) s = Some s' \<and> owns (holders s') s'"
    and "\<exists>s'. cp_step (CDestroy i) s = Some s' \<and> owns (holders s') s'"
proof -
  have "\<exists>s'. cp_reset (var s i) s = Some (cp_nullptr, s') \<and> owns (holders (set_var i None s')) s'
              \<and> i < length (cp_vars s')" if "live s i"
    using reset_var_owns [OF s that] by blast
  then show "\<exists>s'. cp_step (CReset i) s = Some s' \<and> owns (holders s') s'"
      and "\<exists>s'. cp_step (CDestroy i) s = Some s' \<and> owns (holders s') s'"
    using s by (auto simp: holders_set owns_null)
qed

lemma step_owns:
  assumes s: "owns (holders s) s"
  shows "\<exists>s'. cp_step op s = Some s' \<and> owns (holders s') s'"
proof (cases op)
  case (CNew i)
  obtain p s1 q s2 where new: "new_T s = (p, s1)" "cp_ctor (Some p) s1 = (q, s2)" by fastforce
  show ?thesis
  proof (cases "free s i")
    case True
    then show ?thesis using CNew owns_new [OF s new] new by (simp add: holders_fill)
  qed (use s CNew in simp)
next
  case (CNull i)
  then show ?thesis
    using s by (auto simp: cp_ctor_def holders_fill owns_null simp flip: cp_nullptr_def)
next
  case (CMove i j)
  then show ?thesis using s by (simp add: cp_move_def holders_move owns_null)
next
  case (CSwap i j)
  then show ?thesis using s by (simp add: cp_swap_swaps holders_swap)
qed (use step_copy_owns [OF s] step_move_owns [OF s] step_reset_owns [OF s] in blast)+

lemma run_owns: "owns (holders s) s \<Longrightarrow> \<exists>s'. cp_run ops s = Some s' \<and> owns (holders s') s'"
proof (induction ops arbitrary: s)
  case (Cons op ops)
  obtain t where "cp_step op s = Some t" "owns (holders t) t" using step_owns [OF Cons.prems] by blast
  then show ?case using Cons.IH by simp
qed simp

lemma init_owns: "owns (holders (cp_init n)) (cp_init n)"
  by (simp add: owns_def cp_init_def holders_def sharing_def)

lemma in_holders: "q \<in># holders s \<longleftrightarrow> (\<exists>i. live s i \<and> q = var s i)"
  by (force simp: holders_def live_def var_def in_set_conv_nth)

lemma sharing_holders: "sharing (holders s) c = card {i. live s i \<and> cp_count (var s i) = Some c}"
proof -
  have "sharing (holders s) c
          = length (filter (\<lambda>q. cp_count q = Some c) (map the (filter (\<lambda>v. v \<noteq> None) (cp_vars s))))"
    by (simp only: sharing_def holders_def mset_filter [symmetric] size_mset)
  also have "\<dots> = length (filter (\<lambda>v. v \<noteq> None \<and> cp_count (the v) = Some c) (cp_vars s))"
    by (simp add: filter_map o_def conj_commute)
  also have "\<dots> = card {i. live s i \<and> cp_count (var s i) = Some c}"
    by (simp add: length_filter_conv_card live_def var_def conj_assoc)
  finally show ?thesis .
qed

text \<open>
  Claim C34. Whatever pointers a program constructs, copies, moves, assigns (also to themselves), swaps, resets
  and destroys, no operation reads or frees a dead count or deletes a dead object; the objects alive are
  exactly those that some pointer holds, the counts alive exactly those of the pointers that are not null,
  and \<open>use_count()\<close> is the number of pointers that hold the same object, 0 for a null pointer.
\<close>
theorem counted_ptr_owns:
  "\<exists>s. cp_run ops (cp_init n) = Some s
     \<and> cp_objs s = {p. \<exists>i. live s i \<and> cp_ptr (var s i) = Some p}
     \<and> dom (cp_counts s) = {c. \<exists>i. live s i \<and> cp_count (var s i) = Some c}
     \<and> {use_count (var s i) s | i. live s i \<and> cp_ptr (var s i) = None} \<subseteq> {Some 0}
     \<and> {i. live s i \<and> cp_ptr (var s i) \<noteq> None}
         \<subseteq> {i. use_count (var s i) s = Some (int (card {j. live s j \<and> cp_ptr (var s j) = cp_ptr (var s i)}))}"
proof -
  obtain s where run: "cp_run ops (cp_init n) = Some s" and s: "owns (holders s) s"
    using run_owns [OF init_owns] by blast
  have same: "cp_ptr (var s i) = cp_ptr (var s j) \<longleftrightarrow> cp_count (var s i) = cp_count (var s j)"
    if "live s i" "live s j" for i j
    using s that [THEN live_in_holders] by (simp add: owns_def)
  have null: "cp_ptr (var s i) = None \<longleftrightarrow> cp_count (var s i) = None" if "live s i" for i
    using s that [THEN live_in_holders] by (simp add: owns_def)
  have "use_count (var s i) s = Some (int (card {j. live s j \<and> cp_ptr (var s j) = cp_ptr (var s i)}))"
    if i: "live s i" "cp_ptr (var s i) \<noteq> None" for i
  proof -
    obtain c where c: "cp_count (var s i) = Some c" using null i by auto
    then have "{j. live s j \<and> cp_ptr (var s j) = cp_ptr (var s i)} = {j. live s j \<and> cp_count (var s j) = Some c}"
      using same [OF _ i(1)] by (auto simp: c)
    then show ?thesis
      using owns_live_count(1) [OF s live_in_holders [OF i(1)] c] c by (simp add: use_count_def sharing_holders)
  qed
  moreover have "use_count (var s i) s = Some 0" if "live s i" "cp_ptr (var s i) = None" for i
    using null that by (simp add: use_count_def)
  moreover have "cp_objs s = {p. \<exists>i. live s i \<and> cp_ptr (var s i) = Some p}"
    using s in_holders [of _ s] by (force simp: owns_def)
  moreover have "dom (cp_counts s) = {c. \<exists>i. live s i \<and> cp_count (var s i) = Some c}"
    using in_holders [of _ s] by (force simp: dom_def owns_counts [OF s] sharing_0 split: if_splits)
  ultimately show ?thesis using run by blast
qed

end
