(* ===== verification/WaterPours.thy ===== *)
theory WaterPours
  imports Prelude
begin

text \<open>
  The water pouring puzzle of \<^verbatim>\<open>puzzle/waterpour.cc\<close>: a breadth-first search for a way to have the target
  volume in the big jug and nothing in the small one.

  \<open>steps\<close> is both the queue and the record of how each state was reached.  A failed assertion and a read
  beyond the end of \<open>steps\<close> are \<open>None\<close>.  Volumes are integers: the capacities are not negative and their
  sum fits an \<open>int\<close>.
\<close>

record jugs =
  big :: int
  small :: int

record pstep =
  st :: jugs
  parent :: int

definition jugs_of :: "int \<Rightarrow> int \<Rightarrow> jugs" where
  "jugs_of b s = \<lparr> big = b, small = s \<rparr>"

subsection \<open>The search\<close>

text \<open>The end of each of the six branches: the assertion and the conditional \<open>push_back\<close>.\<close>

definition push_next :: "jugs set \<Rightarrow> nat \<Rightarrow> jugs \<Rightarrow> pstep list \<Rightarrow> pstep list option" where
  "push_next seen cur next steps = do {
     check (st (steps ! cur) \<noteq> next);
     Some (if next \<notin> seen then steps @ [\<lparr> st = next, parent = int cur \<rparr>] else steps) }"

definition pour_to_small :: "int \<Rightarrow> int \<Rightarrow> int \<Rightarrow> jugs" where
  "pour_to_small kSmall b s =
     (let smallSpace = kSmall - s
      in if b > smallSpace then jugs_of (b - smallSpace) (s + smallSpace) else jugs_of 0 (s + b))"

definition pour_to_big :: "int \<Rightarrow> int \<Rightarrow> int \<Rightarrow> jugs" where
  "pour_to_big kBig b s =
     (let bigSpace = kBig - b
      in if s > bigSpace then jugs_of kBig (s - bigSpace) else jugs_of (s + b) 0)"

definition explore :: "int \<Rightarrow> int \<Rightarrow> jugs set \<Rightarrow> nat \<Rightarrow> pstep list \<Rightarrow> pstep list option" where
  "explore kBig kSmall seen cur steps =
     (let b = big (st (steps ! cur)); s = small (st (steps ! cur)) in do {
        steps \<leftarrow> (if b > 0 then push_next seen cur (jugs_of 0 s) steps else Some steps);
        steps \<leftarrow> (if s > 0 then push_next seen cur (jugs_of b 0) steps else Some steps);
        steps \<leftarrow> (if b < kBig then push_next seen cur (jugs_of kBig s) steps else Some steps);
        steps \<leftarrow> (if s < kSmall then push_next seen cur (jugs_of b kSmall) steps else Some steps);
        steps \<leftarrow> (if b > 0 \<and> s < kSmall
                  then do { let next = pour_to_small kSmall b s;
                            check (b + s = big next + small next);
                            push_next seen cur next steps }
                  else Some steps);
        (if b < kBig \<and> s > 0
         then do { let next = pour_to_big kBig b s;
                   check (b + s = big next + small next);
                   push_next seen cur next steps }
         else Some steps) })"

partial_function (option) search_loop ::
    "int \<Rightarrow> int \<Rightarrow> jugs \<Rightarrow> nat \<Rightarrow> jugs set \<Rightarrow> pstep list \<Rightarrow> (nat \<times> jugs set \<times> pstep list) option" where
  "search_loop kBig kSmall kFinal cur seen steps = do {
     check (cur < length steps);
     if st (steps ! cur) \<noteq> kFinal
     then do {
       check (parent (steps ! cur) \<noteq> int cur);
       (seen, steps) \<leftarrow>
         (if st (steps ! cur) \<notin> seen
          then do { let seen = insert (st (steps ! cur)) seen;
                    steps \<leftarrow> explore kBig kSmall seen cur steps;
                    Some (seen, steps) }
          else Some (seen, steps));
       let cur = cur + 1;
       if cur \<ge> length steps then Some (cur, seen, steps)
       else search_loop kBig kSmall kFinal cur seen steps }
     else Some (cur, seen, steps) }"

declare search_loop.simps [code]

text \<open>\<open>print\<close> returns the lines it writes.\<close>

partial_function (option) print_steps :: "pstep list \<Rightarrow> int \<Rightarrow> jugs list option" where
  "print_steps steps cur =
     (if cur \<ge> 0
      then do {
        check (cur < int (length steps));
        rest \<leftarrow> print_steps steps (parent (steps ! nat cur));
        Some (st (steps ! nat cur) # rest) }
      else Some [])"

declare print_steps.simps [code]

datatype outcome = Found nat nat "jugs list" | NotFound nat nat

definition pour_init :: "pstep list" where
  "pour_init = [\<lparr> st = jugs_of 0 0, parent = -1 \<rparr>]"

definition pour_main :: "int \<Rightarrow> int \<Rightarrow> int \<Rightarrow> outcome option" where
  "pour_main kBig kSmall target = do {
     (cur, seen, steps) \<leftarrow> search_loop kBig kSmall (jugs_of target 0) 0 {} pour_init;
     check (cur < length steps);
     if st (steps ! cur) = jugs_of target 0
     then do { p \<leftarrow> print_steps steps (int cur); Some (Found (length steps) (card seen) p) }
     else Some (NotFound (length steps) (card seen)) }"

subsection \<open>The puzzle\<close>

inductive pours :: "int \<Rightarrow> int \<Rightarrow> jugs \<Rightarrow> jugs \<Rightarrow> bool" for B S where
  empty_big: "b > 0 \<Longrightarrow> pours B S (jugs_of b s) (jugs_of 0 s)"
| empty_small: "s > 0 \<Longrightarrow> pours B S (jugs_of b s) (jugs_of b 0)"
| fill_big: "b < B \<Longrightarrow> pours B S (jugs_of b s) (jugs_of B s)"
| fill_small: "s < S \<Longrightarrow> pours B S (jugs_of b s) (jugs_of b S)"
| big_to_small: "d = min b (S - s) \<Longrightarrow> d > 0 \<Longrightarrow> pours B S (jugs_of b s) (jugs_of (b - d) (s + d))"
| small_to_big: "d = min s (B - b) \<Longrightarrow> d > 0 \<Longrightarrow> pours B S (jugs_of b s) (jugs_of (b + d) (s - d))"

text \<open>A list of states, newest first, as the program prints them.\<close>

fun pour_path :: "int \<Rightarrow> int \<Rightarrow> jugs list \<Rightarrow> bool" where
  "pour_path B S [] \<longleftrightarrow> False"
| "pour_path B S [x] \<longleftrightarrow> x = jugs_of 0 0"
| "pour_path B S (x # y # xs) \<longleftrightarrow> pours B S y x \<and> pour_path B S (y # xs)"

subsection \<open>One expansion\<close>

definition in_box :: "int \<Rightarrow> int \<Rightarrow> jugs \<Rightarrow> bool" where
  "in_box B S x \<longleftrightarrow> 0 \<le> big x \<and> big x \<le> B \<and> 0 \<le> small x \<and> small x \<le> S"

definition nexts :: "int \<Rightarrow> int \<Rightarrow> int \<Rightarrow> int \<Rightarrow> jugs list" where
  "nexts B S b s =
     (if b > 0 then [jugs_of 0 s] else []) @ (if s > 0 then [jugs_of b 0] else [])
     @ (if b < B then [jugs_of B s] else []) @ (if s < S then [jugs_of b S] else [])
     @ (if b > 0 \<and> s < S then [pour_to_small S b s] else []) @ (if b < B \<and> s > 0 then [pour_to_big B b s] else [])"

definition pushed :: "jugs set \<Rightarrow> nat \<Rightarrow> jugs list \<Rightarrow> pstep list" where
  "pushed seen cur ns = map (\<lambda>n. \<lparr> st = n, parent = int cur \<rparr>) (filter (\<lambda>n. n \<notin> seen) ns)"

lemma jugs_of_sel [simp]: "big (jugs_of b s) = b" "small (jugs_of b s) = s" "jugs_of (big x) (small x) = x"
  by (simp_all add: jugs_of_def)

lemma jugs_of_eq [simp]: "jugs_of b s = jugs_of b' s' \<longleftrightarrow> b = b' \<and> s = s'"
  by (simp add: jugs_of_def)

lemma pours_iff: "in_box B S (jugs_of b s) \<Longrightarrow> pours B S (jugs_of b s) y \<longleftrightarrow> y \<in> set (nexts B S b s)"
  by (auto simp: pours.simps in_box_def nexts_def pour_to_small_def pour_to_big_def Let_def min_def)

lemma nexts_box: "in_box B S (jugs_of b s) \<Longrightarrow> y \<in> set (nexts B S b s) \<Longrightarrow> in_box B S y"
  by (auto simp: in_box_def nexts_def pour_to_small_def pour_to_big_def Let_def split: if_splits)

lemma push_next_pushes:
  "cur < length T \<Longrightarrow> n \<noteq> st (T ! cur) \<Longrightarrow> push_next seen cur n T = Some (T @ pushed seen cur [n])"
  by (auto simp: push_next_def pushed_def check_def)

lemma pushed_Nil [simp]: "pushed seen cur [] = []"
  by (simp add: pushed_def)

lemma pushed_append: "pushed seen cur (ms @ ns) = pushed seen cur ms @ pushed seen cur ns"
  by (simp add: pushed_def)

lemma explore_pushes:
  assumes cur: "cur < length steps" and box: "in_box B S (st (steps ! cur))"
  shows "explore B S seen cur steps
         = Some (steps @ pushed seen cur (nexts B S (big (st (steps ! cur))) (small (st (steps ! cur)))))"
proof -
  define b s where bs: "b = big (st (steps ! cur))" "s = small (st (steps ! cur))"
  have x: "st (steps ! cur) = jugs_of b s" by (simp add: bs)
  have sum: "b + s = big (pour_to_small S b s) + small (pour_to_small S b s)"
      "b + s = big (pour_to_big B b s) + small (pour_to_big B b s)"
    by (auto simp: pour_to_small_def pour_to_big_def Let_def)
  have ne: "b > 0 \<and> s < S \<Longrightarrow> pour_to_small S b s \<noteq> jugs_of b s" "b < B \<and> s > 0 \<Longrightarrow> pour_to_big B b s \<noteq> jugs_of b s"
    by (auto simp: pour_to_small_def pour_to_big_def Let_def)
  show ?thesis
    using cur x ne sum
    by (auto simp: explore_def Let_def push_next_pushes nth_append nexts_def pushed_append bind_check)
qed

subsection \<open>Chains of parents\<close>

function chain :: "pstep list \<Rightarrow> nat \<Rightarrow> jugs list" where
  "chain steps i = st (steps ! i) #
     (if 0 \<le> parent (steps ! i) \<and> nat (parent (steps ! i)) < i then chain steps (nat (parent (steps ! i))) else [])"
  by pat_completeness auto
termination by (relation "measure snd") auto

declare chain.simps [simp del]

definition dep :: "pstep list \<Rightarrow> nat \<Rightarrow> nat" where
  "dep steps i = length (chain steps i)"

lemma chain_append: "i < length steps \<Longrightarrow> chain (steps @ E) i = chain steps i"
proof (induction steps i rule: chain.induct)
  case (1 steps i)
  then show ?case
    by (subst (1 2) chain.simps) (auto simp: nth_append)
qed

lemma dep_append: "i < length steps \<Longrightarrow> dep (steps @ E) i = dep steps i"
  by (simp add: dep_def chain_append)

lemma dep_child:
  assumes "0 \<le> parent (steps ! i)" "parent (steps ! i) < int i"
  shows "dep steps i = dep steps (nat (parent (steps ! i))) + 1"
proof -
  have "nat (parent (steps ! i)) < i" using assms by linarith
  then show ?thesis unfolding dep_def using assms by (subst chain.simps) simp
qed

subsection \<open>The invariant of the search\<close>

definition pour_inv :: "int \<Rightarrow> int \<Rightarrow> jugs \<Rightarrow> nat \<Rightarrow> jugs set \<Rightarrow> pstep list \<Rightarrow> bool" where
  "pour_inv B S fin cur seen steps \<longleftrightarrow>
     cur \<le> length steps \<and> steps \<noteq> [] \<and> steps ! 0 = \<lparr> st = jugs_of 0 0, parent = -1 \<rparr>
     \<and> (\<forall>i. 0 < i \<and> i < length steps \<longrightarrow> 0 \<le> parent (steps ! i) \<and> parent (steps ! i) < int i
            \<and> pours B S (st (steps ! nat (parent (steps ! i)))) (st (steps ! i)))
     \<and> (\<forall>i<length steps. in_box B S (st (steps ! i)))
     \<and> seen = (\<lambda>i. st (steps ! i)) ` {..<cur}
     \<and> (\<forall>i j. i \<le> j \<and> j < length steps \<longrightarrow> dep steps i \<le> dep steps j)
     \<and> (cur < length steps \<longrightarrow> (\<forall>j<length steps. dep steps j \<le> dep steps cur + 1))
     \<and> (\<forall>j<cur. \<forall>y. pours B S (st (steps ! j)) y \<longrightarrow> (\<exists>i<length steps. st (steps ! i) = y \<and> dep steps i \<le> dep steps j + 1))
     \<and> (\<forall>j<cur. st (steps ! j) \<noteq> fin)"

lemma inv_sorted: "pour_inv B S fin cur seen steps \<Longrightarrow> i \<le> j \<Longrightarrow> j < length steps \<Longrightarrow> dep steps i \<le> dep steps j"
  unfolding pour_inv_def by blast

lemma inv_near: "pour_inv B S fin cur seen steps \<Longrightarrow> cur < length steps \<Longrightarrow> j < length steps \<Longrightarrow> dep steps j \<le> dep steps cur + 1"
  unfolding pour_inv_def by blast

lemma inv_closed:
  "pour_inv B S fin cur seen steps \<Longrightarrow> j < cur \<Longrightarrow> pours B S (st (steps ! j)) y
   \<Longrightarrow> \<exists>i<length steps. st (steps ! i) = y \<and> dep steps i \<le> dep steps j + 1"
  unfolding pour_inv_def by blast

lemma inv_box: "pour_inv B S fin cur seen steps \<Longrightarrow> i < length steps \<Longrightarrow> in_box B S (st (steps ! i))"
  unfolding pour_inv_def by blast

lemma inv_seen: "pour_inv B S fin cur seen steps \<Longrightarrow> seen = (\<lambda>i. st (steps ! i)) ` {..<cur}"
  unfolding pour_inv_def by blast

lemma inv_parent:
  "pour_inv B S fin cur seen steps \<Longrightarrow> 0 < i \<Longrightarrow> i < length steps
   \<Longrightarrow> 0 \<le> parent (steps ! i) \<and> parent (steps ! i) < int i \<and> pours B S (st (steps ! nat (parent (steps ! i)))) (st (steps ! i))"
  by (simp add: pour_inv_def)

lemma inv_start: "0 \<le> B \<Longrightarrow> 0 \<le> S \<Longrightarrow> pour_inv B S fin 0 {} pour_init"
  unfolding pour_inv_def pour_init_def by (simp add: in_box_def less_Suc_eq_0_disj) auto

lemma pours_box: "in_box B S x \<Longrightarrow> pours B S x y \<Longrightarrow> in_box B S y"
  using pours_iff [of B S "big x" "small x"] nexts_box [of B S "big x" "small x"] by simp

lemma dep_new:
  assumes E: "\<And>e. e \<in> set E \<Longrightarrow> parent e = int cur" and cur: "cur < length steps"
    and i: "length steps \<le> i" "i < length (steps @ E)"
  shows "dep (steps @ E) i = dep steps cur + 1"
proof -
  have "(steps @ E) ! i \<in> set E" using i by (auto simp: nth_append)
  then have "parent ((steps @ E) ! i) = int cur" using E by blast
  then show ?thesis using dep_child [of "steps @ E" i] cur i by (simp add: dep_append)
qed

lemma extend_inv:
  assumes inv: "pour_inv B S fin cur seen steps" and cur: "cur < length steps" and fin: "st (steps ! cur) \<noteq> fin"
    and E: "\<And>e. e \<in> set E \<Longrightarrow> parent e = int cur \<and> pours B S (st (steps ! cur)) (st e)"
    and closed: "\<And>y. pours B S (st (steps ! cur)) y
                   \<Longrightarrow> \<exists>i<length (steps @ E). st ((steps @ E) ! i) = y \<and> dep (steps @ E) i \<le> dep steps cur + 1"
  shows "pour_inv B S fin (cur + 1) (insert (st (steps ! cur)) seen) (steps @ E)"
proof -
  let ?T = "steps @ E"
  have new: "?T ! i \<in> set E" if "length steps \<le> i" "i < length ?T" for i using that by (auto simp: nth_append)
  have old: "?T ! i = steps ! i" if "i < length steps" for i using that by (simp add: nth_append)
  have depnew: "dep ?T i = dep steps cur + 1" if "length steps \<le> i" "i < length ?T" for i
    using dep_new [of E cur steps i] E cur that by blast
  have par: "0 \<le> parent (?T ! i) \<and> parent (?T ! i) < int i \<and> pours B S (st (?T ! nat (parent (?T ! i)))) (st (?T ! i))"
    if i: "0 < i" "i < length ?T" for i
  proof (cases "i < length steps")
    case True
    then have "nat (parent (steps ! i)) < length steps" using inv_parent [OF inv i(1) True] by linarith
    then show ?thesis using inv_parent [OF inv i(1) True] True by (simp add: old)
  next
    case False
    then show ?thesis using E [OF new [of i]] i cur by (simp add: old)
  qed
  have box: "in_box B S (st (?T ! i))" if "i < length ?T" for i
  proof (cases "i < length steps")
    case False
    then show ?thesis using E [OF new [of i]] that inv_box [OF inv cur] pours_box by auto
  qed (use inv_box [OF inv] in \<open>simp add: old\<close>)
  have near: "dep ?T i \<le> dep steps cur + 1" if "i < length ?T" for i
    using depnew [of i] inv_near [OF inv cur, of i] that by (cases "i < length steps") (auto simp: dep_append)
  have sorted: "dep ?T i \<le> dep ?T j" if "i \<le> j" "j < length ?T" for i j
    using near [of i] depnew [of j] inv_sorted [OF inv, of i j] that
    by (cases "j < length steps") (auto simp: dep_append)
  have "dep ?T i \<le> dep ?T (cur + 1) + 1" if "i < length ?T" "cur + 1 < length ?T" for i
    using near [OF that(1)] sorted [of cur "cur + 1"] that cur by (simp add: dep_append)
  moreover have "\<exists>i<length ?T. st (?T ! i) = y \<and> dep ?T i \<le> dep ?T j + 1" if jy: "j < cur + 1" "pours B S (st (?T ! j)) y" for j y
  proof (cases "j = cur")
    case False
    then have j: "j < cur" "?T ! j = steps ! j" using jy(1) cur by (auto simp: old)
    then obtain i where "i < length steps" "st (steps ! i) = y" "dep steps i \<le> dep steps j + 1"
      using inv_closed [OF inv, of j y] jy(2) by auto
    then show ?thesis using j cur by (intro exI [of _ i]) (auto simp: old dep_append)
  qed (use jy closed cur in \<open>simp add: old dep_append\<close>)
  moreover have "insert (st (steps ! cur)) seen = (\<lambda>i. st (?T ! i)) ` {..<cur + 1}"
    using inv_seen [OF inv] cur by (auto simp: lessThan_Suc old)
  moreover have "st (?T ! j) \<noteq> fin" if "j < cur + 1" for j
    using inv that fin cur by (cases "j = cur") (auto simp: pour_inv_def old)
  moreover have "steps \<noteq> []" "steps ! 0 = \<lparr> st = jugs_of 0 0, parent = -1 \<rparr>" using inv by (auto simp: pour_inv_def)
  ultimately show ?thesis
    unfolding pour_inv_def using par box sorted cur old [of 0] by (auto simp: Suc_le_eq)
qed

subsection \<open>The search ends and is right\<close>

definition box :: "int \<Rightarrow> int \<Rightarrow> jugs set" where
  "box B S = (\<lambda>(b, s). jugs_of b s) ` ({0..B} \<times> {0..S})"

lemma box_iff: "x \<in> box B S \<longleftrightarrow> in_box B S x"
proof
  assume "in_box B S x"
  then have "x = (\<lambda>(b, s). jugs_of b s) (big x, small x)" "(big x, small x) \<in> {0..B} \<times> {0..S}" by (auto simp: in_box_def)
  then show "x \<in> box B S" unfolding box_def by (rule image_eqI)
qed (auto simp: box_def in_box_def)

lemma finite_box [simp]: "finite (box B S)"
  by (simp add: box_def)

lemma length_nexts: "length (nexts B S b s) \<le> 6"
  by (simp add: nexts_def)

text \<open>One turn of the loop, up to the test that ends it.\<close>

lemma turn:
  assumes inv: "pour_inv B S fin cur seen steps" and cur: "cur < length steps" and fin: "st (steps ! cur) \<noteq> fin"
  obtains seen' E where
    "(if st (steps ! cur) \<notin> seen
      then do { let seen = insert (st (steps ! cur)) seen; steps \<leftarrow> explore B S seen cur steps; Some (seen, steps) }
      else Some (seen, steps)) = Some (seen', steps @ E)"
    "pour_inv B S fin (cur + 1) seen' (steps @ E)"
    "7 * card (box B S - seen') + length E < 7 * card (box B S - seen) + 1"
proof (cases "st (steps ! cur) \<in> seen")
  case True
  then obtain j where j: "j < cur" "st (steps ! j) = st (steps ! cur)" using inv_seen [OF inv] by auto
  have "\<exists>i<length (steps @ []). st ((steps @ []) ! i) = y \<and> dep (steps @ []) i \<le> dep steps cur + 1"
    if "pours B S (st (steps ! cur)) y" for y
    using inv_closed [OF inv j(1), of y] that j(2) inv_sorted [OF inv, of j cur] j(1) cur by fastforce
  then have "pour_inv B S fin (cur + 1) (insert (st (steps ! cur)) seen) (steps @ [])"
    by (intro extend_inv [OF inv cur fin]) auto
  then show thesis using True that [of seen "[]"] by (simp add: insert_absorb)
next
  case False
  let ?x = "st (steps ! cur)" and ?seen = "insert (st (steps ! cur)) seen"
  let ?ns = "nexts B S (big ?x) (small ?x)" and ?E = "pushed ?seen cur (nexts B S (big ?x) (small ?x))"
  have box: "in_box B S ?x" using inv_box [OF inv cur] .
  have ns: "pours B S ?x y \<longleftrightarrow> y \<in> set ?ns" for y using pours_iff [of B S "big ?x" "small ?x" y] box by simp
  have "\<exists>i<length (steps @ ?E). st ((steps @ ?E) ! i) = y \<and> dep (steps @ ?E) i \<le> dep steps cur + 1"
    if "pours B S ?x y" for y
  proof (cases "y \<in> ?seen")
    case True
    then have "\<exists>j\<le>cur. st (steps ! j) = y" using inv_seen [OF inv] by (auto intro: less_imp_le)
    then obtain j where "j \<le> cur" "st (steps ! j) = y" by blast
    then show ?thesis using inv_sorted [OF inv, of j cur] cur
      by (intro exI [of _ j]) (auto simp: nth_append dep_append)
  next
    case False
    then have "y \<in> st ` set ?E" using that ns by (force simp: pushed_def)
    then obtain i where "i < length ?E" "st (?E ! i) = y" by (auto simp: in_set_conv_nth)
    moreover have "parent e = int cur" if "e \<in> set ?E" for e using that by (auto simp: pushed_def)
    then have "dep (steps @ ?E) (length steps + i) = dep steps cur + 1" if "i < length ?E"
      using that cur by (intro dep_new) auto
    ultimately show ?thesis by (intro exI [of _ "length steps + i"]) auto
  qed
  then have inv': "pour_inv B S fin (cur + 1) ?seen (steps @ ?E)"
    by (intro extend_inv [OF inv cur fin]) (auto simp: pushed_def ns)
  have "length ?E \<le> length ?ns" unfolding pushed_def length_map by (rule length_filter_le)
  then have E6: "length ?E \<le> 6" using length_nexts [of B S "big ?x" "small ?x"] by linarith
  have "?x \<in> box B S - seen" using box False by (simp add: box_iff)
  then have "card ((box B S - seen) - {?x}) < card (box B S - seen)" by (intro card_Diff1_less) simp_all
  moreover have "box B S - ?seen = (box B S - seen) - {?x}" by blast
  ultimately have fewer: "card (box B S - ?seen) < card (box B S - seen)" by (simp only:)
  then show thesis using False that [of ?seen ?E] explore_pushes [OF cur box] inv' E6 by (simp add: Let_def)
qed

lemma search_ends:
  assumes "pour_inv B S fin cur seen steps" "cur < length steps"
  shows "\<exists>cur' seen' steps'. search_loop B S fin cur seen steps = Some (cur', seen', steps')
           \<and> pour_inv B S fin cur' seen' steps' \<and> (cur' < length steps' \<longrightarrow> st (steps' ! cur') = fin)"
  using assms
proof (induction "7 * card (box B S - seen) + (length steps - cur)" arbitrary: cur seen steps rule: less_induct)
  case less
  show ?case
  proof (cases "st (steps ! cur) = fin")
    case True
    then show ?thesis using less.prems by (subst search_loop.simps) simp
  next
    case False
    have par: "parent (steps ! cur) \<noteq> int cur"
      using inv_parent [OF less.prems(1), of cur] less.prems by (cases "cur = 0") (auto simp: pour_inv_def)
    obtain seen' E where t: "(if st (steps ! cur) \<notin> seen
        then do { let seen = insert (st (steps ! cur)) seen; steps \<leftarrow> explore B S seen cur steps; Some (seen, steps) }
        else Some (seen, steps)) = Some (seen', steps @ E)"
      "pour_inv B S fin (cur + 1) seen' (steps @ E)"
      "7 * card (box B S - seen') + length E < 7 * card (box B S - seen) + 1"
      using turn [OF less.prems False] by blast
    have eq: "search_loop B S fin cur seen steps
      = (if cur + 1 \<ge> length (steps @ E) then Some (cur + 1, seen', steps @ E)
         else search_loop B S fin (cur + 1) seen' (steps @ E))"
      unfolding search_loop.simps [of B S fin cur] t(1) using False par less.prems(2) by simp
    show ?thesis
    proof (cases "cur + 1 \<ge> length (steps @ E)")
      case True
      then show ?thesis unfolding eq using t(2) by auto
    next
      case False
      then have "\<exists>cur' seen'' steps'. search_loop B S fin (cur + 1) seen' (steps @ E) = Some (cur', seen'', steps')
           \<and> pour_inv B S fin cur' seen'' steps' \<and> (cur' < length steps' \<longrightarrow> st (steps' ! cur') = fin)"
        using t(2,3) less.prems(2) by (intro less.hyps) auto
      then show ?thesis unfolding eq using False by auto
    qed
  qed
qed

lemma hd_chain: "hd (chain steps i) = st (steps ! i)"
  by (subst chain.simps) simp

lemma chain_not_Nil: "chain steps i \<noteq> []"
  by (subst chain.simps) simp

lemma pour_path_Cons: "xs \<noteq> [] \<Longrightarrow> pour_path B S (x # xs) \<longleftrightarrow> pours B S (hd xs) x \<and> pour_path B S xs"
  by (cases xs) auto

lemma chain_prints:
  assumes inv: "pour_inv B S fin cur seen steps" and "i < length steps"
  shows "print_steps steps (int i) = Some (chain steps i) \<and> pour_path B S (chain steps i)"
  using assms(2)
proof (induction i rule: less_induct)
  case (less i)
  show ?case
  proof (cases "i = 0")
    case True
    then have "steps ! i = \<lparr> st = jugs_of 0 0, parent = -1 \<rparr>" using inv by (simp add: pour_inv_def)
    then show ?thesis
      using less.prems True by (subst print_steps.simps, subst (1 2) chain.simps) (simp add: print_steps.simps)
  next
    case False
    then have p: "0 \<le> parent (steps ! i)" "nat (parent (steps ! i)) < i" "int (nat (parent (steps ! i))) = parent (steps ! i)"
        "pours B S (st (steps ! nat (parent (steps ! i)))) (st (steps ! i))"
      using inv_parent [OF inv, of i] less.prems by auto
    have ch: "chain steps i = st (steps ! i) # chain steps (nat (parent (steps ! i)))"
      using p(1,2) by (subst chain.simps) simp
    have "print_steps steps (int i) = Some (chain steps i)"
      using less.IH [OF p(2)] p(2,3) less.prems by (subst print_steps.simps) (simp add: ch)
    moreover have "pour_path B S (chain steps i)"
      using less.IH [OF p(2)] p(2,4) less.prems by (simp add: ch pour_path_Cons chain_not_Nil hd_chain)
    ultimately show ?thesis by blast
  qed
qed

lemma path_indexed:
  assumes inv: "pour_inv B S fin cur seen steps" and "pour_path B S p"
  shows "(\<exists>i<length steps. st (steps ! i) = hd p \<and> dep steps i \<le> length p) \<or> (cur < length steps \<and> dep steps cur \<le> length p)"
  using assms(2)
proof (induction p rule: induct_list012)
  case (2 x)
  have "steps \<noteq> []" "steps ! 0 = \<lparr> st = jugs_of 0 0, parent = -1 \<rparr>" using inv by (auto simp: pour_inv_def)
  then show ?case using 2 by (intro disjI1 exI [of _ 0]) (simp add: dep_def chain.simps)
next
  case (3 x y xs)
  then consider (i) i where "i < length steps" "st (steps ! i) = y" "dep steps i \<le> length (y # xs)"
    | (cur) "cur < length steps" "dep steps cur \<le> length (y # xs)"
    by auto
  then show ?case
  proof cases
    case i
    show ?thesis
    proof (cases "i < cur")
      case True
      then show ?thesis using inv_closed [OF inv, of i x] i 3(3) by fastforce
    next
      case False
      then have "dep steps cur \<le> dep steps i" using inv_sorted [OF inv, of cur i] i by simp
      then show ?thesis using False i by simp
    qed
  qed simp
qed simp

lemma search_finds:
  assumes inv: "pour_inv B S fin cur seen steps" and "pour_path B S p" "hd p = fin"
  shows "cur < length steps \<and> dep steps cur \<le> length p"
  using path_indexed [OF inv assms(2)]
proof
  assume "\<exists>i<length steps. st (steps ! i) = hd p \<and> dep steps i \<le> length p"
  then obtain i where i: "i < length steps" "st (steps ! i) = fin" "dep steps i \<le> length p" using assms(3) by blast
  then have "\<not> i < cur" using inv by (auto simp: pour_inv_def)
  then show ?thesis using inv_sorted [OF inv, of cur i] i by simp
qed

text \<open>
  Claim C32. The search ends.  When pouring can bring the target volume into the big jug and leave the small one
  empty, the program prints such a sequence of states, each of them one move from the next, and no sequence is
  shorter.  When it cannot, the loop leaves \<open>curr\<close> at the end of \<open>steps\<close> and the program reads there,
  outside the vector, before it could report that nothing was found.
\<close>

theorem water_pour_shortest:
  assumes "0 \<le> kBig" "0 \<le> kSmall" "kBig + kSmall < 2 ^ 31"
  shows "(\<exists>cur seen steps. search_loop kBig kSmall (jugs_of target 0) 0 {} pour_init = Some (cur, seen, steps))
     \<and> (\<forall>p. pour_path kBig kSmall p \<and> hd p = jugs_of target 0 \<longrightarrow>
          (\<exists>n m q. pour_main kBig kSmall target = Some (Found n m q) \<and> pour_path kBig kSmall q
             \<and> hd q = jugs_of target 0 \<and> length q \<le> length p))
     \<and> ((\<nexists>p. pour_path kBig kSmall p \<and> hd p = jugs_of target 0) \<longrightarrow> pour_main kBig kSmall target = None)"
proof -
  let ?fin = "jugs_of target 0"
  have start: "0 < length pour_init" by (simp add: pour_init_def)
  obtain cur seen steps where run: "search_loop kBig kSmall ?fin 0 {} pour_init = Some (cur, seen, steps)"
      and inv: "pour_inv kBig kSmall ?fin cur seen steps" and fin: "cur < length steps \<Longrightarrow> st (steps ! cur) = ?fin"
    using search_ends [OF inv_start [OF assms(1,2)] start] by blast
  have found: "pour_main kBig kSmall target = Some (Found (length steps) (card seen) (chain steps cur))"
      "pour_path kBig kSmall (chain steps cur)" "hd (chain steps cur) = ?fin" if "cur < length steps"
    using run fin that chain_prints [OF inv that] by (simp_all add: pour_main_def hd_chain)
  have "\<not> cur < length steps" if "\<nexists>p. pour_path kBig kSmall p \<and> hd p = ?fin" using found that by blast
  then have "pour_main kBig kSmall target = None" if "\<nexists>p. pour_path kBig kSmall p \<and> hd p = ?fin"
    using run that by (simp add: pour_main_def)
  moreover have "\<exists>n m q. pour_main kBig kSmall target = Some (Found n m q) \<and> pour_path kBig kSmall q
             \<and> hd q = ?fin \<and> length q \<le> length p" if "pour_path kBig kSmall p" "hd p = ?fin" for p
    using search_finds [OF inv that] found by (auto simp: dep_def)
  ultimately show ?thesis using run by blast
qed

theorem water_pour_shortest_witness:
  "\<exists>n m q. pour_main 5 3 4 = Some (Found n m q) \<and> pour_path 5 3 q \<and> hd q = jugs_of 4 0 \<and> length q \<le> 8"
proof -
  let ?p = "[jugs_of 4 0, jugs_of 4 3, jugs_of 5 2, jugs_of 0 2, jugs_of 2 0, jugs_of 2 3, jugs_of 5 0, jugs_of 0 0]"
  have p: "pour_path 5 3 ?p \<and> hd ?p = jugs_of 4 0" by (simp add: pours.simps)
  have "\<forall>p. pour_path 5 3 p \<and> hd p = jugs_of 4 0 \<longrightarrow>
      (\<exists>n m q. pour_main 5 3 4 = Some (Found n m q) \<and> pour_path 5 3 q \<and> hd q = jugs_of 4 0 \<and> length q \<le> length p)"
    by (rule water_pour_shortest [THEN conjunct2, THEN conjunct1]) simp_all
  note q = this [rule_format, OF p]
  have "length ?p = 8" by simp
  with q show ?thesis by (simp only:)
qed

end
