(* ===== verification/NQueens.thy ===== *)
theory NQueens
  imports Prelude
begin

unbundle bit_operations_syntax

text \<open>
  The four programs that count the solutions of the n-queens puzzle: \<^verbatim>\<open>puzzle/nqueens.cc\<close> and
  \<^verbatim>\<open>puzzle/nqueens_mt.cc\<close> search with arrays of flags, \<^verbatim>\<open>puzzle/nqueens_opt.cc\<close> and
  \<^verbatim>\<open>puzzle/nqueens_opt_mt.cc\<close> with words of 32 bits.  All but the first split the search by the queen of the
  first row and use the mirror symmetry of the board.

  A failed assertion and an array index out of range are \<open>None\<close>, as is a search that does not end.  A negative
  number of queens fails the assertion that 0 fails.  The counts of solutions fit 64 bits; \<open>backtracking\<close>
  of \<^verbatim>\<open>nqueens_opt.cc\<close> returns its total as an \<open>int\<close>, which is a 32-bit word here.
\<close>

subsection \<open>Search with flags\<close>

record back_tracking =
  bt_N :: nat
  bt_count :: nat
  columns :: "bool list"
  diagnoal :: "bool list"
  antidiagnoal :: "bool list"

definition BackTracking_new :: "nat \<Rightarrow> nat \<Rightarrow> back_tracking option" where
  "BackTracking_new kMaxQueens nqueens = do {
     check (0 < nqueens \<and> nqueens \<le> kMaxQueens);
     Some \<lparr> bt_N = nqueens, bt_count = 0, columns = replicate kMaxQueens False,
            diagnoal = replicate (2 * kMaxQueens) False, antidiagnoal = replicate (2 * kMaxQueens) False \<rparr> }"

definition mark :: "nat \<Rightarrow> nat \<Rightarrow> bool \<Rightarrow> back_tracking \<Rightarrow> back_tracking" where
  "mark row i v b =
     b\<lparr> columns := (columns b)[i := v], antidiagnoal := (antidiagnoal b)[row + i := v],
        diagnoal := (diagnoal b)[bt_N b + row - i := v] \<rparr>"

text \<open>\<open>search(row)\<close> from the value \<open>i\<close> of its loop variable on.\<close>

partial_function (option) bt_search :: "nat \<Rightarrow> nat \<Rightarrow> back_tracking \<Rightarrow> back_tracking option" where
  "bt_search row i b =
     (if i < bt_N b then do {
        let d = bt_N b + row - i;
        check (i < length (columns b) \<and> row + i < length (antidiagnoal b) \<and> d < length (diagnoal b));
        b \<leftarrow> (if \<not> (columns b ! i \<or> antidiagnoal b ! (row + i) \<or> diagnoal b ! d)
              then if row = bt_N b - 1 then Some (b\<lparr> bt_count := bt_count b + 1 \<rparr>)
                   else do { b \<leftarrow> bt_search (row + 1) 0 (mark row i True b); Some (mark row i False b) }
              else Some b);
        bt_search row (i + 1) b }
      else Some b)"

declare bt_search.simps [code]

definition backtracking :: "nat \<Rightarrow> nat option" where
  "backtracking N = do { bt \<leftarrow> BackTracking_new 16 N; bt \<leftarrow> bt_search 0 0 bt; Some (bt_count bt) }"

text \<open>The version that splits by the first row.\<close>

definition mt_backtrackingsub :: "nat \<Rightarrow> nat \<Rightarrow> nat option" where
  "mt_backtrackingsub N i = do {
     bt \<leftarrow> BackTracking_new 20 N;
     bt \<leftarrow> bt_search 1 0 (mark 0 i True bt);
     Some (bt_count bt) }"

subsection \<open>Splitting\<close>

text \<open>The loop \<open>for (i = 0; i < N/2; ++i) total += backtrackingsub(N, i)\<close>.\<close>

fun add_subs :: "(nat \<Rightarrow> nat option) \<Rightarrow> nat list \<Rightarrow> nat \<Rightarrow> nat option" where
  "add_subs sub [] tot = Some tot"
| "add_subs sub (i # js) tot = do { c \<leftarrow> sub i; add_subs sub js (tot + c) }"

definition split_total :: "(nat \<Rightarrow> nat \<Rightarrow> nat option) \<Rightarrow> nat \<Rightarrow> nat option" where
  "split_total sub N = do {
     tot \<leftarrow> add_subs (sub N) [0..<N div 2] 0;
     let tot = tot * 2;
     if N mod 2 = 1 then do { c \<leftarrow> sub N (N div 2); Some (tot + c) } else Some tot }"

definition mt_backtracking :: "nat \<Rightarrow> nat option" where
  "mt_backtracking N = split_total mt_backtrackingsub N"

text \<open>What a thread adds to the atomic total; the threads finish in the order of \<open>order\<close>.\<close>

definition backtracking_thr :: "(nat \<Rightarrow> nat \<Rightarrow> nat option) \<Rightarrow> nat \<Rightarrow> nat \<Rightarrow> nat option" where
  "backtracking_thr sub N i =
     (if N mod 2 = 1 \<and> i = N div 2 then sub N i else do { c \<leftarrow> sub N i; Some (2 * c) })"

definition threads_total :: "(nat \<Rightarrow> nat \<Rightarrow> nat option) \<Rightarrow> nat \<Rightarrow> nat list \<Rightarrow> nat option" where
  "threads_total sub N order = add_subs (backtracking_thr sub N) order 0"

text \<open>The threads that \<open>backtracking_mt\<close> starts, in the two versions.\<close>

definition mt_threads :: "nat \<Rightarrow> nat list" where
  "mt_threads N = [0..<N div 2] @ (if N mod 2 = 1 then [N div 2] else [])"

definition opt_mt_threads :: "nat \<Rightarrow> nat list" where
  "opt_mt_threads N = [0..<(N + 1) div 2]"

subsection \<open>Search with words\<close>

definition ctz :: "32 word \<Rightarrow> nat" where
  "ctz w = length (takeWhile (\<lambda>i. \<not> bit w i) [0..<32])"

record opt_tracking =
  opt_N :: nat
  opt_count :: nat
  ocolumns :: "32 word list"
  odiagnoal :: "32 word list"
  oantidiagnoal :: "32 word list"

definition OptTracking_new :: "nat \<Rightarrow> opt_tracking option" where
  "OptTracking_new nqueens = do {
     check (0 < nqueens \<and> nqueens \<le> 20);
     Some \<lparr> opt_N = nqueens, opt_count = 0, ocolumns = replicate 20 0,
            odiagnoal = replicate 20 0, oantidiagnoal = replicate 20 0 \<rparr> }"

definition avail_at :: "nat \<Rightarrow> opt_tracking \<Rightarrow> 32 word option" where
  "avail_at row b = do {
     check (row < length (ocolumns b) \<and> row < length (odiagnoal b) \<and> row < length (oantidiagnoal b));
     Some (NOT (ocolumns b ! row OR odiagnoal b ! row OR oantidiagnoal b ! row)) }"

definition place_next :: "nat \<Rightarrow> nat \<Rightarrow> opt_tracking \<Rightarrow> opt_tracking option" where
  "place_next row i b = do {
     check (row + 1 < length (ocolumns b) \<and> row + 1 < length (odiagnoal b) \<and> row + 1 < length (oantidiagnoal b));
     let m = push_bit i 1;
     Some (b\<lparr> ocolumns := (ocolumns b)[row + 1 := ocolumns b ! row OR m],
             odiagnoal := (odiagnoal b)[row + 1 := drop_bit 1 (odiagnoal b ! row OR m)],
             oantidiagnoal := (oantidiagnoal b)[row + 1 := push_bit 1 (oantidiagnoal b ! row OR m)] \<rparr>) }"

text \<open>The loop of \<open>search(row)\<close>.\<close>

partial_function (option) opt_loop :: "nat \<Rightarrow> 32 word \<Rightarrow> opt_tracking \<Rightarrow> opt_tracking option" where
  "opt_loop row avail b =
     (if avail \<noteq> 0 then let i = ctz avail in
        if i \<ge> opt_N b then Some b
        else do {
          b \<leftarrow> (if row = opt_N b - 1 then Some (b\<lparr> opt_count := opt_count b + 1 \<rparr>)
                else do { b \<leftarrow> place_next row i b; av \<leftarrow> avail_at (row + 1) b; opt_loop (row + 1) av b });
          opt_loop row (avail AND (avail - 1)) b }
      else Some b)"

declare opt_loop.simps [code]

definition opt_search :: "nat \<Rightarrow> opt_tracking \<Rightarrow> opt_tracking option" where
  "opt_search row b = do { av \<leftarrow> avail_at row b; opt_loop row av b }"

definition opt_backtrackingsub :: "nat \<Rightarrow> nat \<Rightarrow> nat option" where
  "opt_backtrackingsub N i = do {
     let m = push_bit i 1;
     bt \<leftarrow> OptTracking_new N;
     let bt = bt\<lparr> ocolumns := (ocolumns bt)[1 := m], odiagnoal := (odiagnoal bt)[1 := drop_bit 1 m],
                   oantidiagnoal := (oantidiagnoal bt)[1 := push_bit 1 m] \<rparr>;
     bt \<leftarrow> opt_search 1 bt;
     Some (opt_count bt) }"

definition opt_backtracking :: "nat \<Rightarrow> 32 word option" where
  "opt_backtracking N = do { tot \<leftarrow> split_total opt_backtrackingsub N; Some (word_of_nat tot) }"

text \<open>The version of \<^verbatim>\<open>nqueens_opt_mt.cc\<close> passes the words as arguments and masks the high bits.\<close>

partial_function (option) mask_loop ::
    "nat \<Rightarrow> nat \<Rightarrow> 32 word \<Rightarrow> 32 word \<Rightarrow> 32 word \<Rightarrow> 32 word \<Rightarrow> nat \<Rightarrow> nat option" where
  "mask_loop N row cs ds as avail cnt =
     (if avail \<noteq> 0 then let i = ctz avail; avail = avail AND (avail - 1) in do {
          cnt \<leftarrow> (if row = N - 1 then Some (cnt + 1)
                else let m = push_bit i 1; cs' = cs OR m; ds' = drop_bit 1 (ds OR m); as' = push_bit 1 (as OR m)
                     in mask_loop N (row + 1) cs' ds' as'
                          (NOT (cs' OR ds' OR as' OR NOT (push_bit N 1 - 1))) cnt);
          mask_loop N row cs ds as avail cnt }
      else Some cnt)"

declare mask_loop.simps [code]

definition mask_search :: "nat \<Rightarrow> nat \<Rightarrow> 32 word \<Rightarrow> 32 word \<Rightarrow> 32 word \<Rightarrow> nat \<Rightarrow> nat option" where
  "mask_search N row cs ds as cnt = mask_loop N row cs ds as (NOT (cs OR ds OR as OR NOT (push_bit N 1 - 1))) cnt"

definition opt_mt_backtrackingsub :: "nat \<Rightarrow> nat \<Rightarrow> nat option" where
  "opt_mt_backtrackingsub N i = do {
     check (0 < N \<and> N \<le> 20);
     let m = push_bit i 1;
     mask_search N 1 m (drop_bit 1 m) (push_bit 1 m) 0 }"

definition opt_mt_backtracking :: "nat \<Rightarrow> nat option" where
  "opt_mt_backtracking N = split_total opt_mt_backtrackingsub N"

subsection \<open>The puzzle\<close>

text \<open>A placement lists the columns of the queens of the first rows.\<close>

definition attack :: "nat \<Rightarrow> nat \<Rightarrow> nat \<Rightarrow> nat \<Rightarrow> bool" where
  "attack r c r' c' \<longleftrightarrow> c = c' \<or> r + c = r' + c' \<or> r + c' = r' + c"

definition fits :: "nat list \<Rightarrow> nat \<Rightarrow> bool" where
  "fits p i \<longleftrightarrow> (\<forall>r<length p. \<not> attack r (p ! r) (length p) i)"

definition queens_ok :: "nat \<Rightarrow> nat list \<Rightarrow> bool" where
  "queens_ok N p \<longleftrightarrow> (\<forall>r<length p. p ! r < N) \<and> (\<forall>r<length p. \<forall>r'<r. \<not> attack r' (p ! r') r (p ! r))"

definition solutions :: "nat \<Rightarrow> nat list set" where
  "solutions N = {p. length p = N \<and> queens_ok N p}"

definition completions :: "nat \<Rightarrow> nat list \<Rightarrow> nat" where
  "completions N p = card {q \<in> solutions N. take (length p) q = p}"

lemma finite_solutions [simp]: "finite (solutions N)"
proof (rule finite_subset)
  show "solutions N \<subseteq> {p. set p \<subseteq> {..<N} \<and> length p = N}"
    by (auto simp: solutions_def queens_ok_def in_set_conv_nth)
qed (rule finite_lists_length_eq, simp)

lemma queens_ok_snoc: "queens_ok N (p @ [i]) \<longleftrightarrow> queens_ok N p \<and> i < N \<and> fits p i"
  unfolding queens_ok_def fits_def by (auto simp: less_Suc_eq nth_append)

lemma queens_ok_take: "queens_ok N p \<Longrightarrow> queens_ok N (take n p)"
  by (auto simp: queens_ok_def)

lemma completions_full: "length p = N \<Longrightarrow> queens_ok N p \<Longrightarrow> completions N p = 1"
proof -
  assume "length p = N" "queens_ok N p"
  then have "{q \<in> solutions N. take (length p) q = p} = {p}" by (auto simp: solutions_def)
  then show ?thesis by (simp add: completions_def)
qed

lemma completions_split:
  assumes p: "length p < N"
  shows "completions N p = (\<Sum>i\<in>{i. i < N \<and> fits p i}. completions N (p @ [i]))"
proof -
  let ?Q = "\<lambda>p. {q \<in> solutions N. take (length p) q = p}"
  have next_queen: "q ! length p < N \<and> fits p (q ! length p) \<and> q \<in> ?Q (p @ [q ! length p])" if "q \<in> ?Q p" for q
  proof -
    have q: "length q = N" "queens_ok N q" "take (length p) q = p" using that by (auto simp: solutions_def)
    then have t: "take (Suc (length p)) q = p @ [q ! length p]" using p by (simp add: take_Suc_conv_app_nth)
    then have "queens_ok N (p @ [q ! length p])" using queens_ok_take q(2) by metis
    then show ?thesis using t that by (simp add: queens_ok_snoc)
  qed
  have shorter: "q \<in> ?Q p \<and> q ! length p = i" if "q \<in> ?Q (p @ [i])" for q i
  proof -
    have t: "take (Suc (length p)) q = p @ [i]" using that by simp
    then have "take (length p) (take (Suc (length p)) q) = p" "take (Suc (length p)) q ! length p = i" by simp_all
    then show ?thesis using that by simp
  qed
  have "?Q p = (\<Union>i\<in>{i. i < N \<and> fits p i}. ?Q (p @ [i]))" using next_queen shorter by blast
  moreover have "card (\<Union>i\<in>{i. i < N \<and> fits p i}. ?Q (p @ [i])) = (\<Sum>i\<in>{i. i < N \<and> fits p i}. card (?Q (p @ [i])))"
    using shorter by (intro card_UN_disjoint) auto
  ultimately show ?thesis by (simp add: completions_def)
qed

lemma card_solutions: "0 < N \<Longrightarrow> card (solutions N) = (\<Sum>i<N. completions N [i])"
proof -
  assume "0 < N"
  have "{i. i < N \<and> fits [] i} = {..<N}" by (auto simp: fits_def)
  then show ?thesis using completions_split [of "[]" N] \<open>0 < N\<close> by (simp add: completions_def)
qed

subsection \<open>Mirror symmetry\<close>

definition mirror :: "nat \<Rightarrow> nat list \<Rightarrow> nat list" where
  "mirror N p = map (\<lambda>c. N - 1 - c) p"

lemma attack_mirror: "c < N \<Longrightarrow> c' < N \<Longrightarrow> attack r (N - 1 - c) r' (N - 1 - c') \<longleftrightarrow> attack r c r' c'"
  unfolding attack_def by auto

lemma mirror_solution: "p \<in> solutions N \<Longrightarrow> mirror N p \<in> solutions N"
proof -
  assume "p \<in> solutions N"
  then have p: "length p = N" "\<And>r. r < N \<Longrightarrow> p ! r < N" "\<And>r r'. r < N \<Longrightarrow> r' < r \<Longrightarrow> \<not> attack r' (p ! r') r (p ! r)"
    by (auto simp: solutions_def queens_ok_def)
  then have "\<not> attack r' (mirror N p ! r') r (mirror N p ! r)" if "r < N" "r' < r" for r r'
    using that attack_mirror [of "p ! r'" N "p ! r" r' r] by (simp add: mirror_def)
  moreover have "mirror N p ! r < N" if "r < N" for r using p that by (simp add: mirror_def)
  ultimately show ?thesis using p(1) by (simp add: solutions_def queens_ok_def mirror_def)
qed

lemma mirror_mirror: "p \<in> solutions N \<Longrightarrow> mirror N (mirror N p) = p"
  by (rule nth_equalityI) (auto simp: solutions_def queens_ok_def mirror_def)

lemma completions_mirror:
  assumes "i < N"
  shows "completions N [N - 1 - i] = completions N [i]"
proof -
  have hd: "{q \<in> solutions N. take (length [c]) q = [c]} = {q \<in> solutions N. q ! 0 = c}" for c
  proof -
    have "take (Suc 0) q = [c] \<longleftrightarrow> q ! 0 = c" if "length q = N" for q using that assms by (cases q) auto
    then show ?thesis by (auto simp: solutions_def)
  qed
  have "bij_betw (mirror N) {q \<in> solutions N. q ! 0 = i} {q \<in> solutions N. q ! 0 = N - 1 - i}"
  proof (rule bij_betw_byWitness [where f' = "mirror N"])
    have nth: "mirror N q ! 0 = N - 1 - q ! 0" if "q \<in> solutions N" for q
      using that assms by (simp add: solutions_def mirror_def)
    show "mirror N ` {q \<in> solutions N. q ! 0 = i} \<subseteq> {q \<in> solutions N. q ! 0 = N - 1 - i}"
      and "mirror N ` {q \<in> solutions N. q ! 0 = N - 1 - i} \<subseteq> {q \<in> solutions N. q ! 0 = i}"
      using mirror_solution nth assms by auto
  qed (auto simp: mirror_mirror)
  then have "card {q \<in> solutions N. q ! 0 = i} = card {q \<in> solutions N. q ! 0 = N - 1 - i}"
    by (rule bij_betw_same_card)
  then show ?thesis unfolding completions_def hd by simp
qed

lemma halves:
  fixes N :: nat
  assumes "\<And>i. i < N \<Longrightarrow> f (N - 1 - i) = (f i :: nat)"
  shows "(\<Sum>i<N. f i) = 2 * (\<Sum>i<N div 2. f i) + (if N mod 2 = 1 then f (N div 2) else 0)"
proof -
  let ?h = "N div 2" and ?k = "(N + 1) div 2"
  have sym: "f (N - Suc i) = f i" if "i < N" for i using assms [OF that] by simp
  have "(\<Sum>i\<in>{?k..<N}. f i) = (\<Sum>i<?h. f i)"
    by (rule sum.reindex_bij_witness [of _ "\<lambda>i. N - 1 - i" "\<lambda>i. N - 1 - i"]) (auto simp: sym)
  moreover have "(\<Sum>i<N. f i) = (\<Sum>i<?k. f i) + (\<Sum>i\<in>{?k..<N}. f i)"
    using sum.atLeastLessThan_concat [of 0 ?k N f] by (simp add: lessThan_atLeast0)
  moreover have "(\<Sum>i<?k. f i) = (\<Sum>i<?h. f i) + (if N mod 2 = 1 then f ?h else 0)"
  proof (cases "N mod 2 = 1")
    case True
    then have "?k = Suc ?h" by presburger
    then show ?thesis using True by simp
  next
    case False
    then have "?k = ?h" by presburger
    then show ?thesis using False by simp
  qed
  ultimately show ?thesis by simp
qed

subsection \<open>The flags count the completions\<close>

definition flags_rep :: "nat \<Rightarrow> nat list \<Rightarrow> back_tracking \<Rightarrow> bool" where
  "flags_rep K p b \<longleftrightarrow>
     bt_N b \<le> K \<and> length (columns b) = K \<and> length (diagnoal b) = 2 * K \<and> length (antidiagnoal b) = 2 * K
     \<and> (\<forall>i<K. columns b ! i \<longleftrightarrow> (\<exists>r<length p. p ! r = i))
     \<and> (\<forall>k<2 * K. antidiagnoal b ! k \<longleftrightarrow> (\<exists>r<length p. r + p ! r = k))
     \<and> (\<forall>k<2 * K. diagnoal b ! k \<longleftrightarrow> (\<exists>r<length p. bt_N b + r - p ! r = k))"

lemma none_of: "(\<forall>r<(n::nat). \<not> (A r \<or> B r \<or> C r)) \<longleftrightarrow> \<not> (\<exists>r<n. A r) \<and> \<not> (\<exists>r<n. B r) \<and> \<not> (\<exists>r<n. C r)"
  by blast

lemma flags_fit:
  assumes "flags_rep K p b" "queens_ok (bt_N b) p" "length p < bt_N b" "i < bt_N b"
  shows "\<not> (columns b ! i \<or> antidiagnoal b ! (length p + i) \<or> diagnoal b ! (bt_N b + length p - i)) \<longleftrightarrow> fits p i"
proof -
  have diag: "bt_N b + r - p ! r = bt_N b + length p - i \<longleftrightarrow> r + i = length p + p ! r" if "r < length p" for r
    using that assms(2,4) unfolding queens_ok_def by force
  have K: "i < K" "length p + i < 2 * K" "bt_N b + length p - i < 2 * K"
    using assms(1,3,4) by (auto simp: flags_rep_def)
  have flags: "columns b ! i \<longleftrightarrow> (\<exists>r<length p. p ! r = i)"
    "antidiagnoal b ! (length p + i) \<longleftrightarrow> (\<exists>r<length p. r + p ! r = length p + i)"
    "diagnoal b ! (bt_N b + length p - i) \<longleftrightarrow> (\<exists>r<length p. r + i = length p + p ! r)"
    using assms(1) K diag unfolding flags_rep_def by auto
  have fits: "fits p i \<longleftrightarrow> \<not> (\<exists>r<length p. p ! r = i) \<and> \<not> (\<exists>r<length p. r + p ! r = length p + i)
      \<and> \<not> (\<exists>r<length p. r + i = length p + p ! r)"
    by (simp only: fits_def attack_def none_of)
  show ?thesis unfolding flags fits de_Morgan_disj by (rule refl)
qed

lemma ex_snoc: "(\<exists>r<length (p @ [i]). Q r ((p @ [i]) ! r)) \<longleftrightarrow> (\<exists>r<length p. Q r (p ! r)) \<or> Q (length p) i"
proof -
  have "(p @ [i]) ! r = (if r < length p then p ! r else i)" if "r < length (p @ [i])" for r
    using that by (simp add: nth_append)
  then show ?thesis by (metis length_append_singleton less_Suc_eq less_irrefl_nat)
qed

lemma flags_mark:
  assumes "flags_rep K p b" "length p < bt_N b" "i < bt_N b"
  shows "flags_rep K (p @ [i]) (mark (length p) i True b)"
proof -
  have "(\<exists>r<length (p @ [i]). (p @ [i]) ! r = k) \<longleftrightarrow> (\<exists>r<length p. p ! r = k) \<or> i = k" for k
    by (rule ex_snoc [of p i "\<lambda>r c. c = k"])
  moreover have "(\<exists>r<length (p @ [i]). r + (p @ [i]) ! r = k) \<longleftrightarrow> (\<exists>r<length p. r + p ! r = k) \<or> length p + i = k" for k
    by (rule ex_snoc [of p i "\<lambda>r c. r + c = k"])
  moreover have "(\<exists>r<length (p @ [i]). bt_N b + r - (p @ [i]) ! r = k)
       \<longleftrightarrow> (\<exists>r<length p. bt_N b + r - p ! r = k) \<or> bt_N b + length p - i = k" for k
    by (rule ex_snoc [of p i "\<lambda>r c. bt_N b + r - c = k"])
  ultimately show ?thesis using assms unfolding flags_rep_def
    by (auto simp: mark_def nth_list_update simp del: length_append)
qed

lemma update_same: "\<not> xs ! i \<Longrightarrow> xs[i := False] = xs"
  by (metis (full_types) list_update_id)

lemma flags_unmark:
  assumes "\<not> (columns b ! i \<or> antidiagnoal b ! (row + i) \<or> diagnoal b ! (bt_N b + row - i))"
  shows "mark row i False ((mark row i True b)\<lparr> bt_count := c \<rparr>) = b\<lparr> bt_count := c \<rparr>"
  using assms by (simp add: mark_def update_same)

lemma mark_sel [simp]: "bt_N (mark row i v b) = bt_N b" "bt_count (mark row i v b) = bt_count b"
  by (simp_all add: mark_def)

lemma sum_from:
  fixes f :: "nat \<Rightarrow> nat"
  assumes "i < N"
  shows "(\<Sum>j\<in>{j. i \<le> j \<and> j < N \<and> P j}. f j) = (if P i then f i else 0) + (\<Sum>j\<in>{j. Suc i \<le> j \<and> j < N \<and> P j}. f j)"
proof (cases "P i")
  case True
  then have "{j. i \<le> j \<and> j < N \<and> P j} = insert i {j. Suc i \<le> j \<and> j < N \<and> P j}" using assms by (auto simp: Suc_le_eq)
  then show ?thesis using True by simp
next
  case False
  then have "{j. i \<le> j \<and> j < N \<and> P j} = {j. Suc i \<le> j \<and> j < N \<and> P j}" by (metis Suc_leD Suc_leI le_neq_implies_less)
  then show ?thesis using False by simp
qed

lemma bt_search_counts:
  assumes "flags_rep K p b" "queens_ok (bt_N b) p" "length p < bt_N b"
  shows "bt_search (length p) i b = Some (b\<lparr> bt_count := bt_count b
           + (\<Sum>j\<in>{j. i \<le> j \<and> j < bt_N b \<and> fits p j}. completions (bt_N b) (p @ [j])) \<rparr>)"
  using assms
proof (induction "(bt_N b - length p) * (bt_N b + 1) + (bt_N b - i)" arbitrary: p b i rule: less_induct)
  case less
  define N where "N = bt_N b"
  show ?case
  proof (cases "i < N")
    case False
    then have "{j. i \<le> j \<and> j < N \<and> fits p j} = {}" by auto
    then show ?thesis using False unfolding N_def by (subst bt_search.simps) (simp only: if_False sum.empty, simp)
  next
    case True
    have K: "i < length (columns b) \<and> length p + i < length (antidiagnoal b) \<and> N + length p - i < length (diagnoal b)"
      using less.prems True by (auto simp: flags_rep_def N_def)
    let ?free = "\<not> (columns b ! i \<or> antidiagnoal b ! (length p + i) \<or> diagnoal b ! (N + length p - i))"
    have free: "?free \<longleftrightarrow> fits p i" using flags_fit less.prems True unfolding N_def by blast
    let ?c = "if fits p i then completions N (p @ [i]) else 0"
    have body: "(if ?free
          then if length p = N - 1 then Some (b\<lparr> bt_count := bt_count b + 1 \<rparr>)
               else do { b \<leftarrow> bt_search (length p + 1) 0 (mark (length p) i True b); Some (mark (length p) i False b) }
          else Some b) = Some (b\<lparr> bt_count := bt_count b + ?c \<rparr>)"
    proof (cases "fits p i")
      case fit: True
      have ok: "queens_ok N (p @ [i])" using less.prems(2) True fit by (simp add: N_def queens_ok_snoc)
      show ?thesis
      proof (cases "length p = N - 1")
        case True
        then have "completions N (p @ [i]) = 1" using ok less.prems(3) by (intro completions_full) (auto simp: N_def)
        then show ?thesis using True fit free by simp
      next
        case False
        let ?b = "mark (length p) i True b" and ?p = "p @ [i]"
        have "bt_search (length ?p) 0 ?b = Some (?b\<lparr> bt_count := bt_count ?b
                + (\<Sum>j\<in>{j. 0 \<le> j \<and> j < bt_N ?b \<and> fits ?p j}. completions (bt_N ?b) (?p @ [j])) \<rparr>)"
        proof (rule less.hyps)
          have "N - length p = Suc (N - length ?p)" using less.prems(3) by (simp add: N_def)
          then have "(N - length ?p) * (N + 1) + (N + 1) = (N - length p) * (N + 1)" by simp
          then show "(bt_N ?b - length ?p) * (bt_N ?b + 1) + (bt_N ?b - 0)
                     < (bt_N b - length p) * (bt_N b + 1) + (bt_N b - i)" by (simp add: N_def)
          show "flags_rep K ?p ?b" using less.prems True by (intro flags_mark) (auto simp: N_def)
        qed (use ok False less.prems(3) in \<open>auto simp: N_def\<close>)
        then have "bt_search (length p + 1) 0 ?b = Some (?b\<lparr> bt_count := bt_count b + completions N ?p \<rparr>)"
          using completions_split [of ?p N] False less.prems(3) by (simp add: N_def)
        then show ?thesis using fit free False flags_unmark [of b i "length p"] by (simp add: N_def)
      qed
    qed (use free in simp)
    have "bt_search (length p) i b = bt_search (length p) (i + 1) (b\<lparr> bt_count := bt_count b + ?c \<rparr>)"
      using K True body unfolding N_def by (subst bt_search.simps) (simp only: Let_def, simp)
    also have "\<dots> = Some (b\<lparr> bt_count := bt_count b + ?c
                 + (\<Sum>j\<in>{j. Suc i \<le> j \<and> j < N \<and> fits p j}. completions N (p @ [j])) \<rparr>)"
      using less.hyps [of "b\<lparr> bt_count := bt_count b + ?c \<rparr>" p "i + 1"] less.prems True
      by (simp add: N_def flags_rep_def)
    finally show ?thesis using sum_from [OF True, where P = "fits p" and f = "\<lambda>j. completions N (p @ [j])"] by (simp add: N_def)
  qed
qed

subsection \<open>Bits of words\<close>

lemma ctz_bit:
  assumes "w \<noteq> 0"
  shows "bit w (ctz w)" "ctz w < 32" "j < ctz w \<Longrightarrow> \<not> bit w j"
proof -
  have "\<exists>i. bit w i" using assms by (metis bit_0_eq bit_eqI bot_apply bot_bool_def)
  then obtain i where i: "bit w i" "i < 32" using bit_imp_le_length by fastforce
  let ?P = "\<lambda>i. \<not> bit w i"
  have "\<exists>x\<in>set [0..<32]. \<not> ?P x" using i by auto
  then have lt: "length (takeWhile ?P [0..<32]) < length [0..<32]"
    by (metis (mono_tags, lifting) takeWhile_eq_all_conv length_takeWhile_le nat_less_le takeWhile_eq_take take_all)
  then show "ctz w < 32" by (simp add: ctz_def)
  show "bit w (ctz w)" using nth_length_takeWhile [OF lt] lt by (simp add: ctz_def)
  assume j: "j < ctz w"
  then have "takeWhile ?P [0..<32] ! j = j" using lt by (simp add: ctz_def takeWhile_nth)
  then show "\<not> bit w j" using nth_mem [of j "takeWhile ?P [0..<32]"] j set_takeWhileD by (fastforce simp: ctz_def)
qed

lemma clear_low_bit:
  fixes w :: "32 word"
  assumes "w \<noteq> 0"
  shows "bit (w AND (w - 1)) j \<longleftrightarrow> bit w j \<and> j \<noteq> ctz w"
proof -
  define k where "k = ctz w"
  define v where "v = unset_bit k w"
  note k = ctz_bit [OF assms, folded k_def]
  have w: "w = v OR push_bit k 1"
    using k by (intro bit_word_eqI) (auto simp: v_def bit_unset_bit_iff bit_simps)
  have v: "v AND push_bit k 1 = 0" "v AND mask k = 0"
    using k by (auto intro!: bit_word_eqI simp: v_def bit_unset_bit_iff bit_simps)
  have "w = v + push_bit k 1" using v(1) w by (simp add: disjunctive_add_eq_or)
  then have "w - 1 = v + mask k" by (simp add: mask_eq_exp_minus_1 push_bit_eq_mult)
  also have "\<dots> = v OR mask k" using v(2) by (simp add: disjunctive_add_eq_or)
  finally have "w - 1 = v OR mask k" .
  then have "w AND (w - 1) = v"
    by (subst w) (auto intro!: bit_word_eqI simp: v_def bit_unset_bit_iff bit_simps)
  then show ?thesis by (simp add: v_def k_def bit_unset_bit_iff bit_simps) blast
qed

definition bits :: "32 word \<Rightarrow> nat set" where
  "bits w = {j. bit w j}"

lemma finite_bits [simp]: "finite (bits w)"
proof (rule finite_subset)
  show "bits w \<subseteq> {..<32}" using bit_imp_le_length [of w] by (auto simp: bits_def)
qed simp

lemma bits_clear: "w \<noteq> 0 \<Longrightarrow> bits (w AND (w - 1)) = bits w - {ctz w}"
  by (auto simp: bits_def clear_low_bit)

text \<open>The words that represent a placement.\<close>

definition words_rep :: "nat list \<Rightarrow> 32 word \<Rightarrow> 32 word \<Rightarrow> 32 word \<Rightarrow> bool" where
  "words_rep p cs ds as \<longleftrightarrow>
     (\<forall>j<32. (bit cs j \<longleftrightarrow> (\<exists>r<length p. p ! r = j))
        \<and> (bit ds j \<longleftrightarrow> (\<exists>r<length p. r + p ! r = length p + j))
        \<and> (bit as j \<longleftrightarrow> (\<exists>r<length p. r + j = length p + p ! r)))"

lemma words_fit: "words_rep p cs ds as \<Longrightarrow> j < 32 \<Longrightarrow> \<not> (bit cs j \<or> bit ds j \<or> bit as j) \<longleftrightarrow> fits p j"
  unfolding words_rep_def fits_def attack_def none_of de_Morgan_disj by blast

lemma words_place:
  assumes rep: "words_rep p cs ds as" and p: "\<forall>r<length p. p ! r < 32" and i: "i < 32"
  shows "words_rep (p @ [i]) (cs OR push_bit i 1) (drop_bit 1 (ds OR push_bit i 1)) (push_bit 1 (as OR push_bit i 1))"
proof -
  have up: "bit ds (Suc j) \<longleftrightarrow> (\<exists>r<length p. r + p ! r = length p + Suc j)" for j
  proof (cases "Suc j < 32")
    case False
    have "r + p ! r \<noteq> length p + Suc j" if "r < length p" for r using p [rule_format, OF that] that False by linarith
    then show ?thesis using False bit_imp_le_length [of ds "Suc j"] by auto
  qed (use rep in \<open>auto simp: words_rep_def\<close>)
  have c: "(\<exists>r<length (p @ [i]). (p @ [i]) ! r = j) \<longleftrightarrow> (\<exists>r<length p. p ! r = j) \<or> i = j" for j
    by (rule ex_snoc [of p i "\<lambda>r c. c = j"])
  have d: "(\<exists>r<length (p @ [i]). r + (p @ [i]) ! r = length (p @ [i]) + j)
           \<longleftrightarrow> (\<exists>r<length p. r + p ! r = length (p @ [i]) + j) \<or> length p + i = length (p @ [i]) + j" for j
    by (rule ex_snoc [of p i "\<lambda>r c. r + c = length (p @ [i]) + j"])
  have a: "(\<exists>r<length (p @ [i]). r + j = length (p @ [i]) + (p @ [i]) ! r)
           \<longleftrightarrow> (\<exists>r<length p. r + j = length (p @ [i]) + p ! r) \<or> length p + j = length (p @ [i]) + i" for j
    by (rule ex_snoc [of p i "\<lambda>r c. r + j = length (p @ [i]) + c"])
  show ?thesis
    unfolding words_rep_def
  proof (intro allI impI conjI)
    fix j :: nat assume j: "j < 32"
    show "bit (cs OR push_bit i 1) j \<longleftrightarrow> (\<exists>r<length (p @ [i]). (p @ [i]) ! r = j)"
      unfolding c using rep i j by (auto simp: words_rep_def bit_simps)
    show "bit (drop_bit 1 (ds OR push_bit i 1)) j \<longleftrightarrow> (\<exists>r<length (p @ [i]). r + (p @ [i]) ! r = length (p @ [i]) + j)"
      unfolding d using up [of j] i j by (auto simp: bit_simps)
    show "bit (push_bit 1 (as OR push_bit i 1)) j \<longleftrightarrow> (\<exists>r<length (p @ [i]). r + j = length (p @ [i]) + (p @ [i]) ! r)"
    proof (cases j)
      case (Suc j')
      then have "bit (push_bit 1 (as OR push_bit i 1)) j \<longleftrightarrow> bit (as OR push_bit i 1) j'"
        using j bit_push_bit_iff [of 1 "as OR push_bit i 1" j] by (simp del: push_bit_numeral push_bit_Suc)
      then show ?thesis unfolding a using Suc rep i j by (auto simp: words_rep_def bit_simps)
    next
      case 0
      have "\<not> bit (push_bit 1 (as OR push_bit i 1)) j" unfolding 0 bit_push_bit_iff by simp
      then show ?thesis unfolding a using 0 by auto
    qed
  qed
qed

lemma card_bits: "card (bits w) \<le> 32"
proof -
  have "bits w \<subseteq> {..<32}" using bit_imp_le_length [of w] by (auto simp: bits_def)
  then have "card (bits w) \<le> card {..<32::nat}" by (intro card_mono) simp_all
  then show ?thesis by simp
qed

lemma card_bits_clear: "w \<noteq> 0 \<Longrightarrow> card (bits (w AND (w - 1))) < card (bits w)"
  unfolding bits_clear by (intro card_Diff1_less) (simp_all add: bits_def ctz_bit)

text \<open>The completions that start with a column of \<open>w\<close>.\<close>

definition via :: "nat \<Rightarrow> nat list \<Rightarrow> 32 word \<Rightarrow> nat" where
  "via N p w = (\<Sum>j\<in>{j \<in> bits w. j < N}. completions N (p @ [j]))"

lemma via_0 [simp]: "via N p 0 = 0"
  by (simp add: via_def bits_def)

lemma via_high: "w \<noteq> 0 \<Longrightarrow> N \<le> ctz w \<Longrightarrow> via N p w = 0"
proof -
  assume "w \<noteq> 0" "N \<le> ctz w"
  then have "{j \<in> bits w. j < N} = {}" using ctz_bit(3) [of w] by (force simp: bits_def)
  then show ?thesis unfolding via_def by (simp only: sum.empty)
qed

lemma via_low: "w \<noteq> 0 \<Longrightarrow> ctz w < N \<Longrightarrow> via N p w = completions N (p @ [ctz w]) + via N p (w AND (w - 1))"
proof -
  assume w: "w \<noteq> 0" "ctz w < N"
  have "{j \<in> bits w. j < N} = insert (ctz w) {j \<in> bits (w AND (w - 1)). j < N}"
    using w ctz_bit(1) [OF w(1)] by (auto simp: bits_def clear_low_bit)
  moreover have "ctz w \<notin> {j \<in> bits (w AND (w - 1)). j < N}" using w by (simp add: bits_clear)
  ultimately show ?thesis by (simp add: via_def)
qed

lemma via_completions:
  assumes "length p < N" "\<And>j. j < N \<Longrightarrow> bit w j \<longleftrightarrow> fits p j"
  shows "via N p w = completions N p"
proof -
  have "{j \<in> bits w. j < N} = {i. i < N \<and> fits p i}" using assms(2) by (auto simp: bits_def)
  then show ?thesis using completions_split [OF assms(1)] by (simp add: via_def)
qed

definition same_upto :: "nat \<Rightarrow> opt_tracking \<Rightarrow> opt_tracking \<Rightarrow> bool" where
  "same_upto n b b' \<longleftrightarrow> opt_N b' = opt_N b
     \<and> length (ocolumns b') = length (ocolumns b) \<and> length (odiagnoal b') = length (odiagnoal b)
     \<and> length (oantidiagnoal b') = length (oantidiagnoal b)
     \<and> (\<forall>k<n. ocolumns b' ! k = ocolumns b ! k \<and> odiagnoal b' ! k = odiagnoal b ! k
            \<and> oantidiagnoal b' ! k = oantidiagnoal b ! k)"

definition opt_rep :: "nat list \<Rightarrow> opt_tracking \<Rightarrow> bool" where
  "opt_rep p b \<longleftrightarrow> opt_N b \<le> 20 \<and> length (ocolumns b) = 20 \<and> length (odiagnoal b) = 20 \<and> length (oantidiagnoal b) = 20
     \<and> queens_ok (opt_N b) p \<and> length p < opt_N b
     \<and> words_rep p (ocolumns b ! length p) (odiagnoal b ! length p) (oantidiagnoal b ! length p)"

lemma same_upto_rep: "same_upto (Suc (length p)) b b' \<Longrightarrow> opt_rep p b \<Longrightarrow> opt_rep p b'"
  by (simp add: same_upto_def opt_rep_def)

lemma same_upto_trans: "same_upto n b b' \<Longrightarrow> same_upto m b' b'' \<Longrightarrow> n \<le> m \<Longrightarrow> same_upto n b b''"
  by (simp add: same_upto_def)

lemma place_rep:
  assumes rep: "opt_rep p b" and i: "i < opt_N b" "fits p i" and row: "length p \<noteq> opt_N b - 1"
  obtains b' av where "place_next (length p) i b = Some b'" "opt_rep (p @ [i]) b'" "same_upto (Suc (length p)) b b'"
    "opt_count b' = opt_count b" "avail_at (length p + 1) b' = Some av" "\<And>j. j < opt_N b \<Longrightarrow> bit av j \<longleftrightarrow> fits (p @ [i]) j"
proof -
  have n: "Suc (length p) < 20" "Suc (length p) < opt_N b" "opt_N b \<le> 20" using rep row by (auto simp: opt_rep_def)
  obtain b' where b': "place_next (length p) i b = Some b'" using rep n by (simp add: place_next_def opt_rep_def Let_def)
  have p: "\<forall>r<length p. p ! r < 32" using rep n(3) by (force simp: opt_rep_def queens_ok_def)
  have wr: "words_rep (p @ [i]) (ocolumns b' ! Suc (length p)) (odiagnoal b' ! Suc (length p)) (oantidiagnoal b' ! Suc (length p))"
    using words_place [of p "ocolumns b ! length p" "odiagnoal b ! length p" "oantidiagnoal b ! length p" i] rep b' n p i
    by (auto simp: opt_rep_def place_next_def Let_def)
  then have rep': "opt_rep (p @ [i]) b'"
    using rep b' n i by (auto simp: opt_rep_def place_next_def Let_def queens_ok_snoc)
  have n': "opt_N b' = opt_N b" using b' rep n by (auto simp: place_next_def Let_def opt_rep_def)
  obtain av where av: "avail_at (length p + 1) b' = Some av" "av = NOT (ocolumns b' ! Suc (length p)
      OR odiagnoal b' ! Suc (length p) OR oantidiagnoal b' ! Suc (length p))"
    using rep' n by (simp add: avail_at_def opt_rep_def)
  have "bit av j \<longleftrightarrow> fits (p @ [i]) j" if "j < opt_N b" for j
    using words_fit [OF wr, of j] that n by (simp add: av(2) bit_simps)
  moreover have "same_upto (Suc (length p)) b b'" "opt_count b' = opt_count b"
    using b' rep n by (auto simp: same_upto_def place_next_def Let_def opt_rep_def)
  ultimately show thesis using that b' rep' av(1) by blast
qed

lemma opt_loop_counts:
  assumes "opt_rep p b" "\<And>j. j < opt_N b \<Longrightarrow> bit av j \<Longrightarrow> fits p j"
  shows "\<exists>b'. opt_loop (length p) av b = Some b' \<and> same_upto (Suc (length p)) b b'
           \<and> opt_count b' = opt_count b + via (opt_N b) p av"
  using assms
proof (induction "(opt_N b - length p) * 40 + card (bits av)" arbitrary: p b av rule: less_induct)
  case less
  define N where "N = opt_N b"
  consider "av = 0" | "av \<noteq> 0" "N \<le> ctz av" | (go) "av \<noteq> 0" "ctz av < N" by linarith
  then show ?case
  proof cases
    case go
    let ?i = "ctz av"
    have fit: "fits p ?i" using less.prems(2) go ctz_bit(1) by (simp add: N_def)
    have ok: "queens_ok N (p @ [?i])" using less.prems(1) go fit by (simp add: N_def queens_ok_snoc opt_rep_def)
    have p: "length p < N" using less.prems(1) by (simp add: opt_rep_def N_def)
    obtain b1 where b1: "(if length p = N - 1 then Some (b\<lparr> opt_count := opt_count b + 1 \<rparr>)
          else do { b \<leftarrow> place_next (length p) ?i b; a \<leftarrow> avail_at (length p + 1) b; opt_loop (length p + 1) a b }) = Some b1"
        "same_upto (Suc (length p)) b b1" "opt_count b1 = opt_count b + completions N (p @ [?i])"
    proof (cases "length p = N - 1")
      case True
      then have "completions N (p @ [?i]) = 1" using ok p by (intro completions_full) auto
      then show thesis using True that [of "b\<lparr> opt_count := opt_count b + 1 \<rparr>"] by (simp add: same_upto_def)
    next
      case False
      then obtain c a where c: "place_next (length p) ?i b = Some c" "opt_rep (p @ [?i]) c"
          "same_upto (Suc (length p)) b c" "opt_count c = opt_count b" "avail_at (length p + 1) c = Some a"
          "\<And>j. j < opt_N b \<Longrightarrow> bit a j \<longleftrightarrow> fits (p @ [?i]) j"
        using place_rep [OF less.prems(1) _ fit] go by (auto simp: N_def)
      have n: "opt_N c = N" using c(3) by (simp add: same_upto_def N_def)
      have "(opt_N c - length (p @ [?i])) * 40 + card (bits a) < (opt_N b - length p) * 40 + card (bits av)"
        using card_bits [of a] p n by (simp add: N_def)
      then obtain d where d: "opt_loop (length (p @ [?i])) a c = Some d" "same_upto (Suc (length (p @ [?i]))) c d"
          "opt_count d = opt_count c + via (opt_N c) (p @ [?i]) a"
        using less.hyps [of c "p @ [?i]" a] c(2,6) n by (auto simp: N_def)
      have "via N (p @ [?i]) a = completions N (p @ [?i])" using c(6) p False by (intro via_completions) (auto simp: N_def)
      then show thesis using that [of d] c d n False same_upto_trans [OF c(3) d(2)] by simp
    qed
    have "opt_N b1 = N" "opt_rep p b1" using b1(2) less.prems(1) same_upto_rep by (auto simp: same_upto_def N_def)
    then obtain b2 where "opt_loop (length p) (av AND (av - 1)) b1 = Some b2" "same_upto (Suc (length p)) b1 b2"
        "opt_count b2 = opt_count b1 + via N p (av AND (av - 1))"
      using less.hyps [of b1 p "av AND (av - 1)"] less.prems card_bits_clear [OF go(1)] go(1)
      by (auto simp: N_def clear_low_bit)
    then show ?thesis
      using go b1 via_low [OF go] same_upto_trans [OF b1(2)] unfolding N_def
      by (subst opt_loop.simps) (simp add: Let_def)
  qed (subst opt_loop.simps, simp add: same_upto_def N_def via_high)+
qed

lemma avail_mask:
  assumes "words_rep p cs ds as" "N \<le> 20"
  shows "bit (NOT (cs OR ds OR as OR NOT (push_bit N 1 - 1))) j \<longleftrightarrow> j < N \<and> fits p j"
proof -
  have "push_bit N 1 - 1 = (mask N :: 32 word)" by (simp add: mask_eq_exp_minus_1)
  then have "bit (NOT (cs OR ds OR as OR NOT (push_bit N 1 - 1))) j \<longleftrightarrow> j < 32 \<and> \<not> (bit cs j \<or> bit ds j \<or> bit as j) \<and> j < N"
    by (auto simp: bit_simps)
  then show ?thesis using words_fit [OF assms(1), of j] assms(2) by auto
qed

lemma mask_loop_counts:
  assumes "N \<le> 20" "length p < N" "queens_ok N p" "words_rep p cs ds as" "\<And>j. bit av j \<Longrightarrow> j < N \<and> fits p j"
  shows "mask_loop N (length p) cs ds as av cnt = Some (cnt + via N p av)"
  using assms
proof (induction "(N - length p) * 40 + card (bits av)" arbitrary: p cs ds as av cnt rule: less_induct)
  case less
  show ?case
  proof (cases "av = 0")
    case False
    let ?i = "ctz av" and ?av = "av AND (av - 1)"
    have i: "?i < N" "fits p ?i" "?i < 32" using less.prems(5) ctz_bit(1,2) [OF False] by blast+
    have ok: "queens_ok N (p @ [?i])" using less.prems(3) i by (simp add: queens_ok_snoc)
    let ?cs = "cs OR push_bit ?i 1" and ?ds = "drop_bit 1 (ds OR push_bit ?i 1)" and ?as = "push_bit 1 (as OR push_bit ?i 1)"
    let ?new = "NOT (?cs OR ?ds OR ?as OR NOT (push_bit N 1 - 1))"
    have sub: "(if length p = N - 1 then Some (cnt + 1) else mask_loop N (length p + 1) ?cs ?ds ?as ?new cnt)
               = Some (cnt + completions N (p @ [?i]))"
    proof (cases "length p = N - 1")
      case True
      then have "completions N (p @ [?i]) = 1" using ok less.prems(2) by (intro completions_full) auto
      then show ?thesis using True by simp
    next
      case False
      have p: "\<forall>r<length p. p ! r < 32" using less.prems(1,3) by (force simp: queens_ok_def)
      have wr: "words_rep (p @ [?i]) ?cs ?ds ?as" using words_place [OF less.prems(4) p i(3)] .
      have new: "bit ?new j \<longleftrightarrow> j < N \<and> fits (p @ [?i]) j" for j using avail_mask [OF wr less.prems(1)] .
      have l: "length (p @ [?i]) < N" using less.prems(2) False by simp
      have "card (bits ?new) < 40" using card_bits [of ?new] by linarith
      moreover have "N - length p = Suc (N - length (p @ [?i]))" using less.prems(2) by simp
      ultimately have "(N - length (p @ [?i])) * 40 + card (bits ?new) < (N - length p) * 40 + card (bits av)" by linarith
      then have "mask_loop N (length (p @ [?i])) ?cs ?ds ?as ?new cnt = Some (cnt + via N (p @ [?i]) ?new)"
        using less.prems(1) l ok wr new [THEN iffD1] by (rule less.hyps)
      moreover have "via N (p @ [?i]) ?new = completions N (p @ [?i])"
        using l new by (intro via_completions) (blast+)
      ultimately show ?thesis using False by (simp only: length_append_singleton Suc_eq_plus1 if_False)
    qed
    have "mask_loop N (length p) cs ds as ?av (cnt + completions N (p @ [?i]))
          = Some (cnt + completions N (p @ [?i]) + via N p ?av)"
      using less.prems card_bits_clear [OF False] False by (intro less.hyps) (auto simp: clear_low_bit)
    then show ?thesis
      using False sub via_low [OF False i(1)] by (subst mask_loop.simps) (simp only: Let_def if_False if_True not_False_eq_True simp_thms bind.bind_lunit add.assoc)
  qed (subst mask_loop.simps, simp)
qed

subsection \<open>The programs\<close>

text \<open>A program that searches the boards with the first queen in a given column.\<close>

locale first_row =
  fixes sub :: "nat \<Rightarrow> nat \<Rightarrow> nat option"
  assumes sub_counts: "2 \<le> N \<Longrightarrow> N \<le> 20 \<Longrightarrow> i < N \<Longrightarrow> sub N i = Some (completions N [i])"
begin

lemma subs_sum:
  assumes "\<And>i. i \<in> set js \<Longrightarrow> f i = Some (g i)"
  shows "add_subs f js c = Some (c + sum_list (map g js))"
  using assms by (induction js arbitrary: c) (auto simp: ac_simps)

lemma split_counts:
  assumes N: "2 \<le> N" "N \<le> 20"
  shows "split_total sub N = Some (card (solutions N))"
proof -
  have "add_subs (sub N) [0..<N div 2] 0 = Some (0 + sum_list (map (\<lambda>i. completions N [i]) [0..<N div 2]))"
    using N sub_counts by (intro subs_sum) auto
  then have "add_subs (sub N) [0..<N div 2] 0 = Some (\<Sum>i<N div 2. completions N [i])"
    by (simp add: interv_sum_list_conv_sum_set_nat atLeast_upt lessThan_atLeast0)
  moreover have "sub N (N div 2) = Some (completions N [N div 2])" using N by (intro sub_counts) auto
  ultimately show ?thesis
    using halves [of N "\<lambda>i. completions N [i]"] completions_mirror card_solutions [of N] N
    by (simp add: split_total_def)
qed

lemma thr_counts:
  assumes "2 \<le> N" "N \<le> 20" "i < N"
  shows "backtracking_thr sub N i
         = Some (if N mod 2 = 1 \<and> i = N div 2 then completions N [i] else 2 * completions N [i])"
  using assms by (simp add: backtracking_thr_def sub_counts)

lemma threads_count:
  assumes N: "2 \<le> N" "N \<le> 20" and order: "mset order = mset (mt_threads N)"
  shows "threads_total sub N order = Some (card (solutions N))"
proof -
  let ?g = "\<lambda>i. if N mod 2 = 1 \<and> i = N div 2 then completions N [i] else 2 * completions N [i]"
  have lt: "i < N" if "i \<in> set (mt_threads N)" for i using that N by (auto simp: mt_threads_def split: if_splits)
  then have "i < N" if "i \<in> set order" for i using that order mset_eq_setD by blast
  then have "threads_total sub N order = Some (0 + sum_list (map ?g order))"
    unfolding threads_total_def using thr_counts N by (intro subs_sum) blast
  moreover have "mset (map ?g order) = mset (map ?g (mt_threads N))" using order by (simp only: mset_map)
  then have "sum_list (map ?g order) = sum_list (map ?g (mt_threads N))" by (simp only: flip: sum_mset_sum_list)
  moreover have "sum_list (map ?g [0..<N div 2]) = 2 * (\<Sum>i<N div 2. completions N [i])"
    by (simp add: interv_sum_list_conv_sum_set_nat atLeast_upt lessThan_atLeast0 sum_distrib_left)
  ultimately show ?thesis
    using halves [of N "\<lambda>i. completions N [i]"] completions_mirror card_solutions [of N] N
    by (auto simp: mt_threads_def)
qed

end

lemma fits_sum: "length p < N \<Longrightarrow> (\<Sum>j\<in>{j. 0 \<le> j \<and> j < N \<and> fits p j}. completions N (p @ [j])) = completions N p"
  by (simp add: completions_split)

lemma flags_new:
  assumes "0 < N" "N \<le> K"
  obtains b where "BackTracking_new K N = Some b" "flags_rep K [] b" "bt_N b = N" "bt_count b = 0"
  using assms that by (simp add: BackTracking_new_def flags_rep_def)

lemma backtracking_counts:
  assumes "0 < N" "N \<le> 16"
  shows "backtracking N = Some (card (solutions N))"
proof -
  obtain b where b: "BackTracking_new 16 N = Some b" "flags_rep 16 [] b" "bt_N b = N" "bt_count b = 0"
    using flags_new assms by blast
  have "bt_search (length []) 0 b = Some (b\<lparr> bt_count := bt_count b + completions N [] \<rparr>)"
    using bt_search_counts [OF b(2), of 0] fits_sum [of "[]" N] assms(1) b(3) by (simp add: queens_ok_def)
  then show ?thesis using b by (simp add: backtracking_def completions_def)
qed

lemma single_ok: "i < N \<Longrightarrow> queens_ok N [i]"
  using queens_ok_snoc [of N "[]" i] by (simp add: queens_ok_def fits_def)

lemma words_single: "i < 32 \<Longrightarrow> words_rep [i] (push_bit i 1) (drop_bit 1 (push_bit i 1)) (push_bit 1 (push_bit i 1))"
  using words_place [of "[]" 0 0 0 i] by (simp add: words_rep_def)

interpretation mt: first_row mt_backtrackingsub
proof
  fix N i :: nat assume N: "2 \<le> N" "N \<le> 20" "i < N"
  obtain b where b: "BackTracking_new 20 N = Some b" "flags_rep 20 [] b" "bt_N b = N" "bt_count b = 0"
    using flags_new [of N 20] N by auto
  let ?b = "mark 0 i True b"
  have "flags_rep 20 [i] ?b" using flags_mark [OF b(2), of i] N b by simp
  then have "bt_search (length [i]) 0 ?b = Some (?b\<lparr> bt_count := bt_count ?b + completions N [i] \<rparr>)"
    using bt_search_counts [of 20 "[i]" ?b 0] fits_sum [of "[i]" N] single_ok N b(3) by simp
  then show "mt_backtrackingsub N i = Some (completions N [i])"
    using b by (simp add: mt_backtrackingsub_def)
qed

interpretation opt: first_row opt_backtrackingsub
proof
  fix N i :: nat assume N: "2 \<le> N" "N \<le> 20" "i < N"
  let ?m = "push_bit i 1 :: 32 word"
  define b where "b = \<lparr> opt_N = N, opt_count = 0, ocolumns = (replicate 20 0)[1 := ?m],
      odiagnoal = (replicate 20 0)[1 := drop_bit 1 ?m], oantidiagnoal = (replicate 20 0)[1 := push_bit 1 ?m] \<rparr>"
  have wr: "words_rep [i] ?m (drop_bit 1 ?m) (push_bit 1 ?m)" using words_single N by simp
  then have rep: "opt_rep [i] b" using N single_ok by (simp add: opt_rep_def b_def)
  define av where "av = NOT (?m OR drop_bit 1 ?m OR push_bit 1 ?m)"
  have av: "avail_at 1 b = Some av" by (simp add: avail_at_def b_def av_def)
  have bits: "bit av j \<longleftrightarrow> fits [i] j" if "j < N" for j
    using words_fit [OF wr, of j] that N unfolding av_def bit_not_iff bit_or_iff by simp
  obtain b' where "opt_loop 1 av b = Some b'" "opt_count b' = via N [i] av"
    using opt_loop_counts [OF rep, of av] bits by (auto simp: b_def)
  moreover have "via N [i] av = completions N [i]" using bits N by (intro via_completions) auto
  moreover have "opt_backtrackingsub N i = opt_search 1 b \<bind> (\<lambda>bt. Some (opt_count bt))"
    unfolding opt_backtrackingsub_def OptTracking_new_def b_def using N by (simp add: Let_def)
  ultimately show "opt_backtrackingsub N i = Some (completions N [i])" using av by (simp add: opt_search_def)
qed

interpretation opt_mt: first_row opt_mt_backtrackingsub
proof
  fix N i :: nat assume N: "2 \<le> N" "N \<le> 20" "i < N"
  let ?m = "push_bit i 1 :: 32 word"
  let ?av = "NOT (?m OR drop_bit 1 ?m OR push_bit 1 ?m OR NOT (push_bit N 1 - 1))"
  have wr: "words_rep [i] ?m (drop_bit 1 ?m) (push_bit 1 ?m)" using words_single N by simp
  note av = avail_mask [OF wr N(2)]
  have "mask_loop N (length [i]) ?m (drop_bit 1 ?m) (push_bit 1 ?m) ?av 0 = Some (0 + via N [i] ?av)"
    using N single_ok wr av by (intro mask_loop_counts) (auto simp only: length_Cons list.size)
  moreover have "via N [i] ?av = completions N [i]" using av N by (intro via_completions) (simp, blast)
  ultimately show "opt_mt_backtrackingsub N i = Some (completions N [i])"
    using N unfolding opt_mt_backtrackingsub_def mask_search_def Let_def by simp
qed

lemma opt_mt_threads_same: "opt_mt_threads N = mt_threads N"
proof (cases "N mod 2 = 1")
  case True
  then have "(N + 1) div 2 = Suc (N div 2)" by presburger
  then show ?thesis using True by (simp add: opt_mt_threads_def mt_threads_def)
next
  case False
  then have "(N + 1) div 2 = N div 2" by presburger
  then show ?thesis using False by (simp add: opt_mt_threads_def mt_threads_def)
qed

lemma one_queen: "solutions 1 = {[0]}"
  by (auto simp: solutions_def queens_ok_def length_Suc_conv)



end
