(* ===== verification/Sudokus.thy ===== *)
theory Sudokus
  imports Prelude
begin

text \<open>
  The Sudoku programs of \<^verbatim>\<open>sudoku/\<close>: the table of neighbours, the three backtracking solvers and the test of the
  result in \<^verbatim>\<open>main.cc\<close>.

  The global arrays are the fields of a record.  The solvers have the same control flow; they differ in how they
  choose the next space, how they test a guess and what they record when they make and take back a guess, which are
  the fields of the argument of \<open>solve\<close>.  A failed assertion is \<open>None\<close>, as is a search that does not end.
  Indices are cells, spaces and values, which the tables of neighbours, the list of spaces and the assertions on the
  input keep in range.
\<close>

definition NUM :: nat where "NUM = 9"
definition N_CELLS :: nat where "N_CELLS = 81"
definition NEIGHBOR :: nat where "NEIGHBOR = 20"

record sudoku =
  neighbors :: "nat list list"
  board :: "nat list"
  spaces :: "nat list"
  nspaces :: nat
  occupied :: "bool list list"
  arity :: "int list"

subsection \<open>Neighbours\<close>

definition set_adj :: "nat \<Rightarrow> nat \<Rightarrow> bool list list \<Rightarrow> bool list list" where
  "set_adj y x adjacent = adjacent[y := (adjacent ! y)[x := True]]"

fun mark_lines :: "nat \<Rightarrow> nat \<Rightarrow> nat list \<Rightarrow> bool list list \<Rightarrow> bool list list" where
  "mark_lines row col [] adjacent = adjacent"
| "mark_lines row col (i # js) adjacent = mark_lines row col js (set_adj i col (set_adj row i adjacent))"

definition mark_adjacent :: "nat \<Rightarrow> nat \<Rightarrow> bool list list \<Rightarrow> bool list list" where
  "mark_adjacent row col adjacent =
     (let adjacent = mark_lines row col [0..<NUM] adjacent;
          top = (row div 3) * 3; left = (col div 3) * 3
      in set_adj (top + 2) (left + 2) (set_adj (top + 2) (left + 1) (set_adj (top + 2) left
           (set_adj (top + 1) (left + 2) (set_adj (top + 1) (left + 1) (set_adj (top + 1) left
             (set_adj top (left + 2) (set_adj top (left + 1) (set_adj top left adjacent)))))))))"

fun collect :: "bool list list \<Rightarrow> nat \<Rightarrow> nat \<Rightarrow> (nat \<times> nat) list \<Rightarrow> nat list \<Rightarrow> nat list option" where
  "collect adjacent row col [] ns = Some ns"
| "collect adjacent row col ((y, x) # cells) ns =
     (if adjacent ! y ! x \<and> \<not> (y = row \<and> x = col)
      then do { check (length ns < NEIGHBOR); collect adjacent row col cells (ns @ [y * 9 + x]) }
      else collect adjacent row col cells ns)"

definition all_cells :: "(nat \<times> nat) list" where
  "all_cells = concat (map (\<lambda>y. map (\<lambda>x. (y, x)) [0..<9]) [0..<9])"

definition collect_neighbors :: "bool list list \<Rightarrow> nat \<Rightarrow> nat \<Rightarrow> nat list option" where
  "collect_neighbors adjacent row col = do {
     ns \<leftarrow> collect adjacent row col all_cells [];
     check (length ns = NEIGHBOR);
     Some ns }"

fun init_rows :: "(nat \<times> nat) list \<Rightarrow> nat list list option" where
  "init_rows [] = Some []"
| "init_rows ((row, col) # cells) = do {
     ns \<leftarrow> collect_neighbors (mark_adjacent row col (replicate 9 (replicate 9 False))) row col;
     rest \<leftarrow> init_rows cells;
     Some (ns # rest) }"

definition init_neighbors :: "nat list list option" where
  "init_neighbors = init_rows all_cells"

subsection \<open>Input\<close>

text \<open>The loop of \<open>find_spaces\<close>.\<close>

fun find_from :: "nat list \<Rightarrow> sudoku \<Rightarrow> sudoku" where
  "find_from [] s = s"
| "find_from (cell # cells) s =
     find_from cells (if board s ! cell = 0
       then s\<lparr> spaces := (spaces s)[nspaces s := cell], nspaces := nspaces s + 1 \<rparr> else s)"

definition find_spaces :: "sudoku \<Rightarrow> sudoku" where
  "find_spaces s = find_from [0..<N_CELLS] (s\<lparr> nspaces := 0 \<rparr>)"

fun read_cells :: "string \<Rightarrow> nat list \<Rightarrow> sudoku \<Rightarrow> sudoku option" where
  "read_cells inp [] s = Some s"
| "read_cells inp (cell # cells) s = do {
     let v = int (of_char (inp ! cell)) - int (of_char (CHR ''0''));
     check (0 \<le> v \<and> v \<le> int NUM);
     read_cells inp cells (s\<lparr> board := (board s)[cell := nat v] \<rparr>) }"

definition input :: "string \<Rightarrow> sudoku \<Rightarrow> sudoku option" where
  "input inp s = do { s \<leftarrow> read_cells inp [0..<N_CELLS] s; Some (find_spaces s) }"

subsection \<open>The search\<close>

text \<open>
  \<open>choose_next\<close> finds the space to fill, \<open>is_free\<close> tests a guess, \<open>hold\<close> makes it and returns what
  \<open>unhold\<close> needs to take it back.
\<close>

record solver =
  choose_next :: "nat \<Rightarrow> sudoku \<Rightarrow> sudoku"
  is_free :: "nat \<Rightarrow> nat \<Rightarrow> sudoku \<Rightarrow> bool"
  hold :: "nat \<Rightarrow> nat \<Rightarrow> sudoku \<Rightarrow> (nat list \<times> sudoku) option"
  unhold :: "nat \<Rightarrow> nat \<Rightarrow> nat list \<Rightarrow> sudoku \<Rightarrow> sudoku option"

text \<open>The loop over the guesses for \<open>cell\<close>, the space number \<open>w\<close>, with the recursive call inside.\<close>

partial_function (option) solve_loop :: "solver \<Rightarrow> nat \<Rightarrow> nat \<Rightarrow> nat \<Rightarrow> sudoku \<Rightarrow> (bool \<times> sudoku) option" where
  "solve_loop sv w cell guess s =
     (if guess \<le> NUM
      then if is_free sv guess cell s
        then do {
          (m, s) \<leftarrow> hold sv cell guess s;
          (r, s) \<leftarrow> (if w + 1 \<ge> nspaces s then Some (True, s)
                    else let s = choose_next sv (w + 1) s in solve_loop sv (w + 1) (spaces s ! (w + 1)) 1 s);
          if r then Some (True, s)
          else do { s \<leftarrow> unhold sv cell guess m s; solve_loop sv w cell (guess + 1) s } }
        else solve_loop sv w cell (guess + 1) s
      else Some (False, s))"

declare solve_loop.simps [code]

definition solve :: "solver \<Rightarrow> nat \<Rightarrow> sudoku \<Rightarrow> (bool \<times> sudoku) option" where
  "solve sv which_space s =
     (if which_space \<ge> nspaces s then Some (True, s)
      else let s = choose_next sv which_space s in solve_loop sv which_space (spaces s ! which_space) 1 s)"

subsection \<open>The basic solver\<close>

definition available :: "nat \<Rightarrow> nat \<Rightarrow> sudoku \<Rightarrow> bool" where
  "available guess cell s \<longleftrightarrow> (\<forall>neighbor\<in>set (neighbors s ! cell). board s ! neighbor \<noteq> guess)"

definition hold_board :: "nat \<Rightarrow> nat \<Rightarrow> sudoku \<Rightarrow> (nat list \<times> sudoku) option" where
  "hold_board cell guess s = do {
     check (board s ! cell = 0);
     Some ([], s\<lparr> board := (board s)[cell := guess] \<rparr>) }"

definition unhold_board :: "nat \<Rightarrow> nat \<Rightarrow> nat list \<Rightarrow> sudoku \<Rightarrow> sudoku option" where
  "unhold_board cell guess m s = do {
     check (board s ! cell = guess);
     Some (s\<lparr> board := (board s)[cell := 0] \<rparr>) }"

definition keep_order :: "nat \<Rightarrow> sudoku \<Rightarrow> sudoku" where
  "keep_order which_space s = s"

definition solve_sudoku_basic :: "nat \<Rightarrow> sudoku \<Rightarrow> (bool \<times> sudoku) option" where
  "solve_sudoku_basic which_space s = solve
     \<lparr> choose_next = keep_order, is_free = available, hold = hold_board, unhold = unhold_board \<rparr> which_space s"

subsection \<open>Choosing the space with the fewest guesses\<close>

text \<open>The number of values of \<open>1, \<dots>, 9\<close> that no neighbour has.\<close>

definition cell_arity :: "nat \<Rightarrow> sudoku \<Rightarrow> int" where
  "cell_arity cell s =
     (let occ = fold (\<lambda>neighbor occ. occ[board s ! neighbor := True]) (neighbors s ! cell) (replicate 10 False)
      in int (length (filter (\<lambda>v. \<not> occ ! v) [1..<10])))"

text \<open>The loop of \<open>find_min_arity\<close>, for the two ways to find the arity of a cell.\<close>

fun min_loop :: "(nat \<Rightarrow> int) \<Rightarrow> nat list \<Rightarrow> nat list \<Rightarrow> int \<Rightarrow> nat \<Rightarrow> nat" where
  "min_loop ar sps [] min_arity min_space = min_space"
| "min_loop ar sps (sp # js) min_arity min_space =
     (if min_arity > 1
      then if ar (sps ! sp) < min_arity then min_loop ar sps js (ar (sps ! sp)) sp
           else min_loop ar sps js min_arity min_space
      else min_space)"

definition swap_spaces :: "nat \<Rightarrow> nat \<Rightarrow> sudoku \<Rightarrow> sudoku" where
  "swap_spaces min_space space s =
     (if space \<noteq> min_space
      then s\<lparr> spaces := (spaces s)[min_space := spaces s ! space, space := spaces s ! min_space] \<rparr> else s)"

definition find_min_arity :: "nat \<Rightarrow> sudoku \<Rightarrow> sudoku" where
  "find_min_arity space s =
     swap_spaces (min_loop (\<lambda>cell. cell_arity cell s) (spaces s) [space + 1..<nspaces s]
                    (cell_arity (spaces s ! space) s) space) space s"

definition solve_sudoku_min_arity :: "nat \<Rightarrow> sudoku \<Rightarrow> (bool \<times> sudoku) option" where
  "solve_sudoku_min_arity which_space s = solve
     \<lparr> choose_next = find_min_arity, is_free = available, hold = hold_board, unhold = unhold_board \<rparr> which_space s"

subsection \<open>The solver with a cache\<close>

definition cached_min_arity :: "nat \<Rightarrow> sudoku \<Rightarrow> sudoku" where
  "cached_min_arity space s =
     swap_spaces (min_loop (\<lambda>cell. arity s ! cell) (spaces s) [space + 1..<nspaces s]
                    (arity s ! (spaces s ! space)) space) space s"

definition set_occupied :: "nat \<Rightarrow> nat \<Rightarrow> bool \<Rightarrow> sudoku \<Rightarrow> sudoku" where
  "set_occupied cell v b s = s\<lparr> occupied := (occupied s)[cell := (occupied s ! cell)[v := b]] \<rparr>"

definition add_arity :: "nat \<Rightarrow> int \<Rightarrow> sudoku \<Rightarrow> sudoku" where
  "add_arity cell d s = s\<lparr> arity := (arity s)[cell := arity s ! cell + d] \<rparr>"

text \<open>Marks the value in the neighbours that do not have it yet, and collects these.\<close>

fun occupy :: "nat \<Rightarrow> nat list \<Rightarrow> sudoku \<Rightarrow> nat list \<times> sudoku" where
  "occupy v [] s = ([], s)"
| "occupy v (neighbor # js) s =
     (if \<not> occupied s ! neighbor ! v
      then let (m, s) = occupy v js (add_arity neighbor (-1) (set_occupied neighbor v True s)) in (neighbor # m, s)
      else occupy v js s)"

fun cache_cells :: "nat list \<Rightarrow> sudoku \<Rightarrow> sudoku" where
  "cache_cells [] s = s"
| "cache_cells (cell # cells) s =
     (let s = set_occupied cell 0 True s; v = board s ! cell
      in cache_cells cells
           (if v > 0 then snd (occupy v (neighbors s ! cell) (set_occupied cell v True s)) else s))"

definition init_cache :: "sudoku \<Rightarrow> sudoku" where
  "init_cache s =
     cache_cells [0..<N_CELLS]
       (s\<lparr> occupied := replicate N_CELLS (replicate (NUM + 1) False), arity := replicate N_CELLS (int NUM) \<rparr>)"

definition cache_free :: "nat \<Rightarrow> nat \<Rightarrow> sudoku \<Rightarrow> bool" where
  "cache_free guess cell s \<longleftrightarrow> \<not> occupied s ! cell ! guess"

definition cache_hold :: "nat \<Rightarrow> nat \<Rightarrow> sudoku \<Rightarrow> (nat list \<times> sudoku) option" where
  "cache_hold cell guess s = do {
     check (board s ! cell = 0);
     let s = set_occupied cell guess True (s\<lparr> board := (board s)[cell := guess] \<rparr>);
     Some (occupy guess (neighbors s ! cell) s) }"

fun undo :: "nat \<Rightarrow> nat list \<Rightarrow> sudoku \<Rightarrow> sudoku option" where
  "undo v [] s = Some s"
| "undo v (neighbor # js) s = do {
     check (occupied s ! neighbor ! v);
     undo v js (add_arity neighbor 1 (set_occupied neighbor v False s)) }"

definition cache_unhold :: "nat \<Rightarrow> nat \<Rightarrow> nat list \<Rightarrow> sudoku \<Rightarrow> sudoku option" where
  "cache_unhold cell guess modified s = do {
     let s = set_occupied cell guess False s;
     check (board s ! cell = guess);
     undo guess modified (s\<lparr> board := (board s)[cell := 0] \<rparr>) }"

definition solve_sudoku_min_arity_cache :: "nat \<Rightarrow> sudoku \<Rightarrow> (bool \<times> sudoku) option" where
  "solve_sudoku_min_arity_cache which_space s = solve
     \<lparr> choose_next = cached_min_arity, is_free = cache_free, hold = cache_hold, unhold = cache_unhold \<rparr> which_space s"

subsection \<open>The test of the result\<close>

text \<open>
  The nine values of a row, a column or a box counted in \<open>occurs\<close>: nine of its entries have to be 1.  The rows
  assert that every value is one of \<open>1, \<dots>, 9\<close>.
\<close>

definition occurs_once :: "nat list \<Rightarrow> bool" where
  "occurs_once vals =
     (let occurs = fold (\<lambda>v occurs. occurs[v := occurs ! v + 1]) vals (replicate 10 (0 :: nat))
      in length (filter (\<lambda>n. n = 1) occurs) = NUM)"

definition row_vals :: "nat list \<Rightarrow> nat \<Rightarrow> nat list" where
  "row_vals b row = map (\<lambda>col. b ! (row * 9 + col)) [0..<9]"

definition col_vals :: "nat list \<Rightarrow> nat \<Rightarrow> nat list" where
  "col_vals b col = map (\<lambda>row. b ! (row * 9 + col)) [0..<9]"

definition box_vals :: "nat list \<Rightarrow> nat \<Rightarrow> nat \<Rightarrow> nat list" where
  "box_vals b row col = map (\<lambda>(i, j). b ! ((row + i) * 9 + (col + j)))
     [(0, 0), (0, 1), (0, 2), (1, 0), (1, 1), (1, 2), (2, 0), (2, 1), (2, 2)]"

fun rows_ok :: "nat list list \<Rightarrow> bool option" where
  "rows_ok [] = Some True"
| "rows_ok (vals # rest) = do {
     check (\<forall>v\<in>set vals. 1 \<le> v \<and> v \<le> NUM);
     if occurs_once vals then rows_ok rest else Some False }"

definition solved :: "sudoku \<Rightarrow> bool option" where
  "solved s = do {
     ok \<leftarrow> rows_ok (map (row_vals (board s)) [0..<9]);
     Some (ok \<and> list_all occurs_once (map (col_vals (board s)) [0..<9])
           \<and> list_all (\<lambda>row. list_all (\<lambda>col. occurs_once (box_vals (board s) row col)) [0, 3, 6]) [0, 3, 6]) }"

text \<open>
  What \<open>main\<close> does with a line of at least 81 characters, for one of the solvers: the board if the puzzle is
  solved, \<open>None\<close> inside if the solver finds no solution.
\<close>

definition new_sudoku :: "nat list list \<Rightarrow> sudoku" where
  "new_sudoku ns = \<lparr> neighbors = ns, board = replicate N_CELLS 0, spaces = replicate N_CELLS 0, nspaces = 0,
     occupied = replicate N_CELLS (replicate (NUM + 1) False), arity = replicate N_CELLS 0 \<rparr>"

definition solve_line :: "(nat \<Rightarrow> sudoku \<Rightarrow> (bool \<times> sudoku) option) \<Rightarrow> string \<Rightarrow> sudoku \<Rightarrow> (nat list option \<times> sudoku) option" where
  "solve_line solver puzzle s = do {
     s \<leftarrow> input puzzle s;
     (r, s) \<leftarrow> solver 0 (init_cache s);
     if r then do { ok \<leftarrow> solved s; check ok; Some (Some (board s), s) }
     else Some (None, s) }"

subsection \<open>The table of neighbours\<close>

definition same_unit :: "nat \<Rightarrow> nat \<Rightarrow> bool" where
  "same_unit c n \<longleftrightarrow> c div 9 = n div 9 \<or> c mod 9 = n mod 9
     \<or> (c div 9 div 3 = n div 9 div 3 \<and> c mod 9 div 3 = n mod 9 div 3)"

lemma same_unit_sym: "same_unit c n \<longleftrightarrow> same_unit n c"
  by (auto simp: same_unit_def)

definition matrix :: "bool list list \<Rightarrow> bool" where
  "matrix A \<longleftrightarrow> length A = 9 \<and> (\<forall>y<9. length (A ! y) = 9)"

lemma set_adj_nth:
  assumes "matrix A" "a < 9" "b < 9" "y < 9" "x < 9"
  shows "set_adj a b A ! y ! x \<longleftrightarrow> (y = a \<and> x = b) \<or> A ! y ! x"
  using assms by (auto simp: set_adj_def matrix_def nth_list_update)

lemma matrix_set_adj [simp]: "matrix A \<Longrightarrow> matrix (set_adj a b A)"
  by (cases "a < 9") (auto simp: set_adj_def matrix_def nth_list_update list_update_beyond)

lemma mark_lines_nth:
  assumes "matrix A" "row < 9" "col < 9" "y < 9" "x < 9" "\<forall>i\<in>set js. i < 9"
  shows "matrix (mark_lines row col js A) \<and>
         (mark_lines row col js A ! y ! x \<longleftrightarrow> (y = row \<and> x \<in> set js) \<or> (x = col \<and> y \<in> set js) \<or> A ! y ! x)"
  using assms(1,6)
proof (induction js arbitrary: A)
  case (Cons i js)
  then have "matrix (mark_lines row col js (set_adj i col (set_adj row i A))) \<and>
     (mark_lines row col js (set_adj i col (set_adj row i A)) ! y ! x \<longleftrightarrow>
       (y = row \<and> x \<in> set js) \<or> (x = col \<and> y \<in> set js) \<or> set_adj i col (set_adj row i A) ! y ! x)"
    by (intro Cons.IH) auto
  then show ?case using Cons.prems assms(2-5) by (auto simp: set_adj_nth)
qed simp

lemma third: "(y::nat) div 3 = k \<longleftrightarrow> y = k * 3 \<or> y = k * 3 + 1 \<or> y = k * 3 + 2"
  by presburger

lemma mark_adjacent_nth:
  assumes "row < 9" "col < 9" "y < 9" "x < 9"
  shows "mark_adjacent row col (replicate 9 (replicate 9 False)) ! y ! x
         \<longleftrightarrow> y = row \<or> x = col \<or> (y div 3 = row div 3 \<and> x div 3 = col div 3)"
proof -
  let ?z = "replicate 9 (replicate 9 False)" and ?t = "row div 3 * 3" and ?l = "col div 3 * 3"
  let ?A = "mark_lines row col [0..<NUM] ?z"
  have lt: "?t < 9" "?t + 1 < 9" "?t + 2 < 9" "?l < 9" "?l + 1 < 9" "?l + 2 < 9" proof -
    have "row div 3 < 3" "col div 3 < 3" using assms by auto
    then show "?t < 9" "?t + 1 < 9" "?t + 2 < 9" "?l < 9" "?l + 1 < 9" "?l + 2 < 9" by linarith+
  qed
  have z: "matrix ?z" "\<not> ?z ! y ! x" using assms by (auto simp: matrix_def)
  then have A: "matrix ?A" "?A ! y ! x \<longleftrightarrow> y = row \<or> x = col"
    using mark_lines_nth [of ?z row col y x "[0..<NUM]"] assms by (auto simp: NUM_def)
  show ?thesis
    unfolding mark_adjacent_def Let_def using A lt assms(3,4)
    by (simp only: set_adj_nth matrix_set_adj third [of y] third [of x]) blast
qed

lemma collect_filter:
  assumes "length ns + length (filter (\<lambda>(y, x). adjacent ! y ! x \<and> \<not> (y = row \<and> x = col)) cells) \<le> 20"
  shows "collect adjacent row col cells ns
         = Some (ns @ map (\<lambda>(y, x). y * 9 + x) (filter (\<lambda>(y, x). adjacent ! y ! x \<and> \<not> (y = row \<and> x = col)) cells))"
  using assms
proof (induction cells arbitrary: ns)
  case (Cons c cells)
  obtain y x where "c = (y, x)" by fastforce
  then show ?case using Cons by (auto simp: NEIGHBOR_def)
qed simp

lemma length_filter_map: "length (filter P (map f xs)) = length (filter (P \<circ> f) xs)"
  by (induction xs) auto

lemma all_cells_nth: "all_cells = map (\<lambda>c. (c div 9, c mod 9)) [0..<81]"
  by code_simp

lemma upt9: "[0..<9] = [0, 1, 2, 3, 4, 5, 6, 7, 8]"
  by code_simp

lemma less9: "(n::nat) < 9 \<Longrightarrow> n \<in> {0, 1, 2, 3, 4, 5, 6, 7, 8}"
  by auto

lemma column_counts:
  assumes "col < 9"
  shows "length (filter (\<lambda>x. x \<noteq> col) [0..<9]) = 8"
    and "length (filter (\<lambda>x. x = col \<or> x div 3 = col div 3) [0..<9]) = 3"
    and "length (filter (\<lambda>x. x = col) [0..<9]) = 1"
  using less9 [OF assms] by (elim insertE emptyE; simp add: upt9)+

lemma neighbor_count:
  assumes "row < 9" "col < 9"
  shows "length (filter (\<lambda>(y, x). (y = row \<or> x = col \<or> (y div 3 = row div 3 \<and> x div 3 = col div 3)) \<and> \<not> (y = row \<and> x = col))
           all_cells) = 20"
proof -
  let ?P = "\<lambda>y x. (y = row \<or> x = col \<or> (y div 3 = row div 3 \<and> x div 3 = col div 3)) \<and> \<not> (y = row \<and> x = col)"
  define n where "n y = length (filter (?P y) [0..<9])" for y
  have "n y = (if y = row then length (filter (\<lambda>x. x \<noteq> col) [0..<9])
               else if y div 3 = row div 3 then length (filter (\<lambda>x. x = col \<or> x div 3 = col div 3) [0..<9])
               else length (filter (\<lambda>x. x = col) [0..<9]))" for y
    by (simp add: n_def cong: filter_cong)
  then have n: "n y = (if y = row then 8 else if y div 3 = row div 3 then 3 else 1)" for y
    using column_counts [OF assms(2)] by simp
  have "length (filter (\<lambda>(y, x). ?P y x) all_cells) = sum_list (map n [0..<9])"
    unfolding n_def [abs_def] by (simp add: all_cells_def filter_concat length_concat length_filter_map o_def)
  also have "\<dots> = 20" using less9 [OF assms(1)] by (elim insertE emptyE; simp add: n upt9)
  finally show ?thesis .
qed

definition nbs_ok :: "nat list list \<Rightarrow> bool" where
  "nbs_ok ns \<longleftrightarrow> length ns = 81 \<and> (\<forall>c<81. set (ns ! c) = {n. n < 81 \<and> n \<noteq> c \<and> same_unit c n})"

lemma init_rows_map:
  "(\<And>row col. (row, col) \<in> set cells \<Longrightarrow>
      collect_neighbors (mark_adjacent row col (replicate 9 (replicate 9 False))) row col = Some (f row col))
   \<Longrightarrow> init_rows cells = Some (map (\<lambda>(row, col). f row col) cells)"
  by (induction cells rule: init_rows.induct) auto

lemma all_cells_set: "(y, x) \<in> set all_cells \<longleftrightarrow> y < 9 \<and> x < 9"
  by (auto simp: all_cells_def image_iff)

lemma init_neighbors_ok: "\<exists>ns. init_neighbors = Some ns \<and> nbs_ok ns"
proof -
  let ?P = "\<lambda>row col (y, x). (y = row \<or> x = col \<or> (y div 3 = row div 3 \<and> x div 3 = col div 3)) \<and> \<not> (y = row \<and> x = col)"
  define f :: "nat \<Rightarrow> nat \<Rightarrow> nat list" where
    "f row col = map (\<lambda>(y, x). y * 9 + x) (filter (?P row col) all_cells)" for row col
  have "collect_neighbors (mark_adjacent row col (replicate 9 (replicate 9 False))) row col = Some (f row col)"
    if rc: "row < 9" "col < 9" for row col
  proof -
    let ?A = "mark_adjacent row col (replicate 9 (replicate 9 False))"
    have "filter (\<lambda>(y, x). ?A ! y ! x \<and> \<not> (y = row \<and> x = col)) all_cells = filter (?P row col) all_cells"
      using rc by (intro filter_cong) (auto simp: all_cells_set mark_adjacent_nth)
    then show ?thesis
      using collect_filter [of "[]" ?A row col all_cells] neighbor_count [OF rc]
      by (simp add: collect_neighbors_def f_def NEIGHBOR_def check_def)
  qed
  then have init: "init_neighbors = Some (map (\<lambda>(row, col). f row col) all_cells)"
    unfolding init_neighbors_def by (intro init_rows_map) (simp add: all_cells_set)
  have "set (f (c div 9) (c mod 9)) = {n. n < 81 \<and> n \<noteq> c \<and> same_unit c n}" if "c < 81" for c
  proof (intro set_eqI iffI)
    fix n assume "n \<in> set (f (c div 9) (c mod 9))"
    then obtain y x where n: "n = y * 9 + x" "y < 9" "x < 9" "?P (c div 9) (c mod 9) (y, x)"
      by (auto simp: f_def all_cells_set)
    then have "n div 9 = y" "n mod 9 = x" "n < 81" by auto
    then show "n \<in> {n. n < 81 \<and> n \<noteq> c \<and> same_unit c n}" using n(4) unfolding same_unit_def by auto
  next
    fix n assume n: "n \<in> {n. n < 81 \<and> n \<noteq> c \<and> same_unit c n}"
    then have "(n div 9, n mod 9) \<in> set all_cells" "n = n div 9 * 9 + n mod 9" by (auto simp: all_cells_set)
    moreover have "?P (c div 9) (c mod 9) (n div 9, n mod 9)"
    proof -
      have "\<not> (n div 9 = c div 9 \<and> n mod 9 = c mod 9)" using n by (metis (mono_tags, lifting) div_mult_mod_eq mem_Collect_eq)
      then show ?thesis using n by (auto simp: same_unit_def)
    qed
    ultimately show "n \<in> set (f (c div 9) (c mod 9))" unfolding f_def set_map set_filter
      by (intro image_eqI [of _ _ "(n div 9, n mod 9)"]) auto
  qed
  then have "nbs_ok (map (\<lambda>(row, col). f row col) all_cells)" by (simp add: nbs_ok_def all_cells_nth)
  then show ?thesis using init by blast
qed

subsection \<open>Puzzles and their solutions\<close>

text \<open>
  \<open>fills b b'\<close>: \<open>b'\<close> completes the board \<open>b\<close>, and the cells that were empty differ from all cells of their row,
  column and box.  A \<open>solution\<close> asks this of all cells.
\<close>

definition fills :: "nat list \<Rightarrow> nat list \<Rightarrow> bool" where
  "fills b b' \<longleftrightarrow> length b' = 81
     \<and> (\<forall>c<81. 1 \<le> b' ! c \<and> b' ! c \<le> 9 \<and> (b ! c \<noteq> 0 \<longrightarrow> b' ! c = b ! c)
          \<and> (b ! c = 0 \<longrightarrow> (\<forall>n<81. n \<noteq> c \<and> same_unit c n \<longrightarrow> b' ! n \<noteq> b' ! c)))"

definition no_conflict :: "nat list \<Rightarrow> bool" where
  "no_conflict b \<longleftrightarrow> (\<forall>c<81. \<forall>n<81. n \<noteq> c \<and> same_unit c n \<and> b ! c \<noteq> 0 \<longrightarrow> b ! n \<noteq> b ! c)"

definition solution :: "nat list \<Rightarrow> nat list \<Rightarrow> bool" where
  "solution b b' \<longleftrightarrow> length b' = 81 \<and> (\<forall>c<81. 1 \<le> b' ! c \<and> b' ! c \<le> 9 \<and> (b ! c \<noteq> 0 \<longrightarrow> b' ! c = b ! c)) \<and> no_conflict b'"

lemma fills_solution: "fills b b' \<Longrightarrow> no_conflict b \<longleftrightarrow> no_conflict b'"
proof
  assume f: "fills b b'" and "no_conflict b'"
  then show "no_conflict b" unfolding no_conflict_def fills_def by (metis)
next
  assume f: "fills b b'" and b: "no_conflict b"
  have "b' ! n \<noteq> b' ! c" if "c < 81" "n < 81" "n \<noteq> c" "same_unit c n" for c n
  proof (cases "b ! c = 0 \<or> b ! n = 0")
    case True
    then show ?thesis using f that same_unit_sym [of c n] unfolding fills_def by metis
  next
    case False
    then show ?thesis using f b that unfolding fills_def no_conflict_def by metis
  qed
  then show "no_conflict b'" unfolding no_conflict_def by blast
qed

lemma solution_iff: "solution b b' \<longleftrightarrow> fills b b' \<and> no_conflict b"
proof
  assume s: "solution b b'"
  then have "fills b b'" unfolding solution_def fills_def no_conflict_def by (metis not_one_le_zero)
  then show "fills b b' \<and> no_conflict b" using s fills_solution by (simp add: solution_def)
next
  assume f: "fills b b' \<and> no_conflict b"
  then have "no_conflict b'" using fills_solution by blast
  then show "solution b b'" using f by (simp add: solution_def fills_def)
qed

lemma fills_guess:
  assumes b: "length b = 81" "c < 81" "b ! c = 0" and g: "1 \<le> g" "g \<le> 9"
  shows "fills b b' \<and> b' ! c = g \<longleftrightarrow> (\<forall>n<81. n \<noteq> c \<and> same_unit c n \<longrightarrow> b ! n \<noteq> g) \<and> fills (b[c := g]) b'"
proof
  assume f: "fills b b' \<and> b' ! c = g"
  have "b ! n \<noteq> g" if "n < 81" "n \<noteq> c" "same_unit c n" for n
    using f b g that unfolding fills_def by (metis not_one_le_zero)
  moreover have "fills (b[c := g]) b'" using f b g unfolding fills_def by (auto simp: nth_list_update)
  ultimately show "(\<forall>n<81. n \<noteq> c \<and> same_unit c n \<longrightarrow> b ! n \<noteq> g) \<and> fills (b[c := g]) b'" by blast
next
  assume f: "(\<forall>n<81. n \<noteq> c \<and> same_unit c n \<longrightarrow> b ! n \<noteq> g) \<and> fills (b[c := g]) b'"
  then have c: "b' ! c = g" using b g by (auto simp: fills_def)
  have upd: "b[c := g] ! n = b ! n" if "n \<noteq> c" for n using that by simp
  have "b' ! n \<noteq> b' ! c" if "n < 81" "n \<noteq> c" "same_unit c n" for n
  proof (cases "b ! n = 0")
    case True
    then show ?thesis using f that b(2) upd same_unit_sym [of c n] unfolding fills_def by metis
  next
    case False
    then show ?thesis using f that c upd unfolding fills_def by metis
  qed
  then show "fills b b' \<and> b' ! c = g" using f c b g upd unfolding fills_def by metis
qed

lemma fills_full: "length b = 81 \<Longrightarrow> \<forall>c<81. 1 \<le> b ! c \<and> b ! c \<le> 9 \<Longrightarrow> fills b b"
  by (force simp: fills_def)

subsection \<open>The search\<close>

definition grid :: "sudoku \<Rightarrow> bool" where
  "grid s \<longleftrightarrow> nbs_ok (neighbors s) \<and> length (board s) = 81 \<and> (\<forall>c<81. board s ! c \<le> 9)
     \<and> length (spaces s) = 81 \<and> nspaces s \<le> 81"

definition empties :: "nat list \<Rightarrow> nat set" where
  "empties b = {c. c < 81 \<and> b ! c = 0}"

text \<open>From position \<open>w\<close> on the spaces are the empty cells, each once.\<close>

definition ready :: "nat \<Rightarrow> sudoku \<Rightarrow> bool" where
  "ready w s \<longleftrightarrow> grid s \<and> w \<le> nspaces s
     \<and> mset (drop w (take (nspaces s) (spaces s))) = mset_set (empties (board s))"

definition reordered :: "nat \<Rightarrow> sudoku \<Rightarrow> sudoku \<Rightarrow> bool" where
  "reordered w s s' \<longleftrightarrow> s' = s\<lparr> spaces := spaces s' \<rparr> \<and> length (spaces s') = length (spaces s)
     \<and> take w (spaces s') = take w (spaces s)
     \<and> mset (drop w (take (nspaces s) (spaces s'))) = mset (drop w (take (nspaces s) (spaces s)))"

lemma finite_empties [simp]: "finite (empties b)"
  by (simp add: empties_def)

lemma reordered_refl [simp]: "reordered w s s"
  by (simp add: reordered_def)

lemma reordered_fields:
  assumes "reordered w s s'"
  shows "board s' = board s" "neighbors s' = neighbors s" "nspaces s' = nspaces s"
  using assms unfolding reordered_def by (metis sudoku.select_convs sudoku.surjective sudoku.update_convs(3))+

lemma reordered_trans: "reordered w s s' \<Longrightarrow> reordered w s' s'' \<Longrightarrow> reordered w s s''"
  unfolding reordered_def by (metis (no_types, lifting) sudoku.ext_inject sudoku.surjective sudoku.update_convs(3))

lemma reordered_ready: "ready w s \<Longrightarrow> reordered w s s' \<Longrightarrow> ready w s'"
  using reordered_fields [of w s s'] by (simp add: ready_def grid_def reordered_def)

lemma drop_space: "w < n \<Longrightarrow> n \<le> length sp \<Longrightarrow> drop w (take n sp) = sp ! w # drop (Suc w) (take n sp)"
  by (simp add: Cons_nth_drop_Suc [symmetric])

lemma reordered_Suc:
  assumes r: "reordered (Suc w) s s'" and w: "w < nspaces s" "nspaces s \<le> length (spaces s)"
  shows "reordered w s s'" "spaces s' ! w = spaces s ! w"
proof -
  have t: "take (Suc w) (spaces s') = take (Suc w) (spaces s)" "length (spaces s') = length (spaces s)"
    using r by (simp_all add: reordered_def)
  then show nth: "spaces s' ! w = spaces s ! w" by (metis lessI nth_take)
  have "take w (spaces s') = take w (spaces s)" using t(1) by (metis Suc_leD le_refl take_take min.absorb1)
  then show "reordered w s s'" using r w nth t(2) by (simp add: reordered_def drop_space)
qed

lemma swap_reordered:
  assumes "w \<le> k" "k < nspaces s" "nspaces s \<le> length (spaces s)"
  shows "reordered w s (swap_spaces k w s)"
proof (cases "w = k")
  case False
  let ?xs = "drop w (take (nspaces s) (spaces s))"
  have "drop w (take (nspaces s) ((spaces s)[k := spaces s ! w, w := spaces s ! k]))
        = ?xs[k - w := ?xs ! 0, 0 := ?xs ! (k - w)]"
    using assms by (simp add: take_update_swap drop_update_swap)
  moreover have "mset (?xs[k - w := ?xs ! 0, 0 := ?xs ! (k - w)]) = mset ?xs" using assms by (intro mset_swap) auto
  ultimately show ?thesis using False assms by (simp add: reordered_def swap_spaces_def)
qed (simp add: swap_spaces_def)

lemma ready_space:
  assumes "ready w s" "w < nspaces s"
  shows "spaces s ! w < 81" "board s ! (spaces s ! w) = 0"
proof -
  have "spaces s ! w \<in># mset (drop w (take (nspaces s) (spaces s)))"
    using assms by (simp add: ready_def grid_def drop_space)
  then have "spaces s ! w \<in># mset_set (empties (board s))" using assms(1) by (simp only: ready_def)
  then have "spaces s ! w \<in> empties (board s)" by simp
  then show "spaces s ! w < 81" "board s ! (spaces s ! w) = 0" by (simp_all add: empties_def)
qed

lemma ready_hold:
  assumes r: "ready w s" "w < nspaces s" and g: "1 \<le> g" "g \<le> 9"
    and s': "board s' = (board s)[spaces s ! w := g]" "neighbors s' = neighbors s" "spaces s' = spaces s" "nspaces s' = nspaces s"
  shows "ready (Suc w) s'"
proof -
  let ?c = "spaces s ! w"
  note c = ready_space [OF r]
  have g': "grid s" "nspaces s \<le> length (spaces s)" using r(1) by (auto simp: ready_def grid_def)
  have "empties (board s') = empties (board s) - {?c}"
    using c g s' g'(1) by (auto simp: empties_def grid_def nth_list_update)
  then have "mset_set (empties (board s')) = mset_set (empties (board s)) - {#?c#}"
    using c by (simp add: mset_set_Diff empties_def)
  moreover have "mset_set (empties (board s)) = add_mset ?c (mset (drop (Suc w) (take (nspaces s) (spaces s))))"
    using r g' drop_space [OF r(2) g'(2)] by (simp add: ready_def)
  ultimately show ?thesis
    using r g' g s' c unfolding ready_def grid_def by (auto simp: nth_list_update)
qed

text \<open>What the search asks of a solver; \<open>cached\<close> is what it keeps besides the board.\<close>

locale solver_laws =
  fixes sv :: solver and cached :: "sudoku \<Rightarrow> bool"
  assumes chooses: "ready w s \<Longrightarrow> w < nspaces s \<Longrightarrow> cached s \<Longrightarrow> \<exists>k. w \<le> k \<and> k < nspaces s \<and> choose_next sv w s = swap_spaces k w s"
    and cached_spaces: "cached (s\<lparr> spaces := sp \<rparr>) \<longleftrightarrow> cached s"
    and frees: "grid s \<Longrightarrow> cached s \<Longrightarrow> c < 81 \<Longrightarrow> board s ! c = 0 \<Longrightarrow> 1 \<le> g \<Longrightarrow> g \<le> 9
                \<Longrightarrow> is_free sv g c s \<longleftrightarrow> available g c s"
    and holds: "grid s \<Longrightarrow> cached s \<Longrightarrow> c < 81 \<Longrightarrow> board s ! c = 0 \<Longrightarrow> 1 \<le> g \<Longrightarrow> g \<le> 9 \<Longrightarrow> available g c s \<Longrightarrow>
      \<exists>m s'. hold sv c g s = Some (m, s') \<and> cached s' \<and> board s' = (board s)[c := g] \<and> neighbors s' = neighbors s
        \<and> spaces s' = spaces s \<and> nspaces s' = nspaces s
        \<and> (\<forall>sp. unhold sv c g m (s'\<lparr> spaces := sp \<rparr>) = Some (s\<lparr> spaces := sp \<rparr>))"
begin

lemma cached_reordered: "reordered w s s' \<Longrightarrow> cached s' \<longleftrightarrow> cached s"
  unfolding reordered_def by (metis cached_spaces)

lemma chosen:
  assumes "ready w s" "w < nspaces s" "cached s"
  shows "reordered w s (choose_next sv w s)"
proof -
  obtain k where "w \<le> k" "k < nspaces s" "choose_next sv w s = swap_spaces k w s" using chooses assms by blast
  then show ?thesis using assms swap_reordered by (simp add: ready_def grid_def)
qed

lemma available_iff: "grid s \<Longrightarrow> c < 81 \<Longrightarrow> available g c s \<longleftrightarrow> (\<forall>n<81. n \<noteq> c \<and> same_unit c n \<longrightarrow> board s ! n \<noteq> g)"
  by (auto simp: available_def grid_def nbs_ok_def)

text \<open>The outcome of a search among the completions that satisfy \<open>P\<close>.\<close>

abbreviation outcome where
  "outcome w s P res \<equiv> (\<exists>r s'. res = Some (r, s')
     \<and> (r \<longrightarrow> fills (board s) (board s') \<and> neighbors s' = neighbors s \<and> length (spaces s') = 81)
     \<and> (\<not> r \<longrightarrow> (\<forall>b. fills (board s) b \<longrightarrow> \<not> P b) \<and> reordered w s s'))"

lemma guess_none:
  assumes "grid s" "c < 81" "board s ! c = 0" "1 \<le> g" "g \<le> 9" "\<not> available g c s"
  shows "fills (board s) b \<Longrightarrow> b ! c \<noteq> g"
  using fills_guess [of "board s" c g b] assms available_iff [of s c g] by (auto simp: grid_def)

lemma full_fills:
  assumes "ready w s" "w \<ge> nspaces s"
  shows "fills (board s) (board s)"
proof -
  have "mset_set (empties (board s)) = {#}" using assms by (simp add: ready_def)
  then have e: "empties (board s) = {}" by (simp add: mset_set_empty_iff)
  have "1 \<le> board s ! c \<and> board s ! c \<le> 9" if "c < 81" for c
  proof -
    have "c \<notin> empties (board s)" using e by simp
    then have "board s ! c \<noteq> 0" using that by (simp add: empties_def)
    then show ?thesis using assms(1) that by (auto simp: ready_def grid_def Suc_le_eq)
  qed
  then show ?thesis using assms(1) by (intro fills_full) (auto simp: ready_def grid_def)
qed

lemma recursive_call:
  assumes r: "ready w t" and "cached t"
    and IH: "\<And>u. ready w u \<Longrightarrow> w < nspaces u \<Longrightarrow> cached u \<Longrightarrow> nspaces u = nspaces t \<Longrightarrow>
      outcome (Suc w) u (\<lambda>b. 1 \<le> b ! (spaces u ! w)) (solve_loop sv w (spaces u ! w) 1 u)"
  shows "outcome w t (\<lambda>b. True) (if w \<ge> nspaces t then Some (True, t)
    else let u = choose_next sv w t in solve_loop sv w (spaces u ! w) 1 u)"
proof (cases "w \<ge> nspaces t")
  case True
  then show ?thesis using full_fills [OF r True] r by (auto simp: ready_def grid_def)
next
  case False
  let ?u = "choose_next sv w t"
  have u: "reordered w t ?u" using chosen r False assms(2) by simp
  note f = reordered_fields [OF u] and ru = reordered_ready [OF r u]
  have "outcome (Suc w) ?u (\<lambda>b. 1 \<le> b ! (spaces ?u ! w)) (solve_loop sv w (spaces ?u ! w) 1 ?u)"
    using ru f False cached_reordered [OF u] assms(2) by (intro IH) auto
  then obtain x v where v: "solve_loop sv w (spaces ?u ! w) 1 ?u = Some (x, v)"
      "x \<longrightarrow> fills (board t) (board v) \<and> neighbors v = neighbors t \<and> length (spaces v) = 81"
      "\<not> x \<longrightarrow> (\<forall>b. fills (board t) b \<longrightarrow> \<not> 1 \<le> b ! (spaces ?u ! w)) \<and> reordered (Suc w) ?u v"
    unfolding f by blast
  have "1 \<le> b ! (spaces ?u ! w)" if "fills (board t) b" for b
    using that ready_space(1) [OF ru] f False by (simp add: fills_def)
  moreover have "reordered w t v" if "reordered (Suc w) ?u v"
    using reordered_trans [OF u reordered_Suc(1) [OF that]] f False ru by (simp add: ready_def grid_def)
  ultimately show ?thesis using v False by (auto simp: Let_def)
qed

lemma loop_outcome:
  assumes "ready w s" "w < nspaces s" "cached s" "1 \<le> g" "g \<le> 10"
  shows "outcome (Suc w) s (\<lambda>b. g \<le> b ! (spaces s ! w)) (solve_loop sv w (spaces s ! w) g s)"
  using assms
proof (induction "(nspaces s - w) * 11 + (10 - g)" arbitrary: w s g rule: less_induct)
  case less
  let ?c = "spaces s ! w"
  have gr: "grid s" "nspaces s \<le> length (spaces s)" "length (board s) = 81" using less.prems(1) by (auto simp: ready_def grid_def)
  note c = ready_space [OF less.prems(1,2)]
  show ?case
  proof (cases "g \<le> 9")
    case False
    then have none: "\<forall>b. fills (board s) b \<longrightarrow> \<not> g \<le> b ! ?c" "reordered (Suc w) s s" using c by (auto simp: fills_def)
    have "solve_loop sv w ?c g s = Some (False, s)" using False by (subst solve_loop.simps) (simp add: NUM_def)
    then show ?thesis using none by blast
  next
    case g9: True
    have next_guess: "outcome (Suc w) s (\<lambda>b. g \<le> b ! ?c) (solve_loop sv w ?c (g + 1) t)"
      if t: "reordered (Suc w) s t" and no: "\<forall>b. fills (board s) b \<longrightarrow> b ! ?c \<noteq> g" for t
    proof -
      note rw = reordered_Suc [OF t less.prems(2) gr(2)]
      have "outcome (Suc w) t (\<lambda>b. g + 1 \<le> b ! (spaces t ! w)) (solve_loop sv w (spaces t ! w) (g + 1) t)"
        using less.prems g9 rw reordered_fields [OF rw(1)] cached_reordered [OF rw(1)] reordered_ready [OF less.prems(1) rw(1)]
        by (intro less.hyps) auto
      then obtain r t' where t': "solve_loop sv w ?c (g + 1) t = Some (r, t')"
          "r \<longrightarrow> fills (board s) (board t') \<and> neighbors t' = neighbors s \<and> length (spaces t') = 81"
          "\<not> r \<longrightarrow> (\<forall>b. fills (board s) b \<longrightarrow> \<not> g + 1 \<le> b ! ?c) \<and> reordered (Suc w) t t'"
        using rw(2) reordered_fields [OF rw(1)] by auto
      moreover have "\<not> g \<le> b ! ?c" if "fills (board s) b" "\<not> g + 1 \<le> b ! ?c" for b
        using no that by (metis Suc_eq_plus1 le_antisym not_less_eq_eq)
      ultimately show ?thesis using reordered_trans [OF t] by blast
    qed
    show ?thesis
    proof (cases "available g ?c s")
      case False
      then have "solve_loop sv w ?c g s = solve_loop sv w ?c (g + 1) s"
        using frees gr c less.prems g9 by (subst solve_loop.simps) (simp add: NUM_def)
      then show ?thesis
        using next_guess [of s] guess_none [OF gr(1) c less.prems(4) g9 False] by auto
    next
      case True
      obtain m t where t: "hold sv ?c g s = Some (m, t)" "cached t" "board t = (board s)[?c := g]"
          "neighbors t = neighbors s" "spaces t = spaces s" "nspaces t = nspaces s"
          "\<And>sp. unhold sv ?c g m (t\<lparr> spaces := sp \<rparr>) = Some (s\<lparr> spaces := sp \<rparr>)"
        using holds [OF gr(1) less.prems(3) c less.prems(4) g9 True] by blast
      have rt: "ready (w + 1) t" using ready_hold [OF less.prems(1,2,4) g9 t(3-6)] by simp
      have "outcome (w + 1) t (\<lambda>b. True) (if w + 1 \<ge> nspaces t then Some (True, t)
          else let u = choose_next sv (w + 1) t in solve_loop sv (w + 1) (spaces u ! (w + 1)) 1 u)"
      proof (rule recursive_call [OF rt t(2)])
        fix u assume "ready (w + 1) u" "w + 1 < nspaces u" "cached u" "nspaces u = nspaces t"
        then show "outcome (Suc (w + 1)) u (\<lambda>b. 1 \<le> b ! (spaces u ! (w + 1))) (solve_loop sv (w + 1) (spaces u ! (w + 1)) 1 u)"
          using less.prems(2) t(6) by (intro less.hyps) auto
      qed
      then obtain r u where u: "(if w + 1 \<ge> nspaces t then Some (True, t)
          else let u = choose_next sv (w + 1) t in solve_loop sv (w + 1) (spaces u ! (w + 1)) 1 u) = Some (r, u)"
          "r \<longrightarrow> fills (board t) (board u) \<and> neighbors u = neighbors t \<and> length (spaces u) = 81"
          "\<not> r \<longrightarrow> (\<forall>b. \<not> fills (board t) b) \<and> reordered (Suc w) t u"
        unfolding Suc_eq_plus1 by blast
      have guess: "fills (board s) b \<and> b ! ?c = g \<longleftrightarrow> fills (board t) b" for b
        using fills_guess [OF gr(3) c less.prems(4) g9, of b] available_iff [OF gr(1) c(1), of g] True t(3) by auto
      have step: "solve_loop sv w ?c g s = (if r then Some (True, u) else unhold sv ?c g m u \<bind> solve_loop sv w ?c (g + 1))"
        using frees [OF gr(1) less.prems(3) c less.prems(4) g9] True t(1) g9 u(1)
        by (subst solve_loop.simps) (simp add: NUM_def)
      show ?thesis
      proof (cases r)
        case True
        then show ?thesis using step u(2) guess [of "board u"] t(4) by auto
      next
        case False
        then have ru: "reordered (Suc w) t u" "\<forall>b. \<not> fills (board t) b" using u(3) by auto
        let ?s = "s\<lparr> spaces := spaces u \<rparr>"
        have "u = t\<lparr> spaces := spaces u \<rparr>" using ru(1) by (simp add: reordered_def)
        then have "unhold sv ?c g m u = Some ?s" using t(7) by metis
        moreover have "reordered (Suc w) s ?s" using ru(1) t(5,6) by (simp add: reordered_def)
        ultimately show ?thesis using step False next_guess [of ?s] ru(2) guess by auto
      qed
    qed
  qed
qed

lemma solve_outcome:
  assumes "ready 0 s" "cached s"
  shows "outcome 0 s (\<lambda>b. True) (solve sv 0 s)"
  unfolding solve_def using assms loop_outcome by (intro recursive_call) auto

end

lemma min_loop_range: "min_loop ar sps js a k \<in> insert k (set js)"
  by (induction ar sps js a k rule: min_loop.induct) auto

lemma min_loop_chooses:
  "w < n \<Longrightarrow> w \<le> min_loop ar sps [w + 1..<n] a w \<and> min_loop ar sps [w + 1..<n] a w < n"
  using min_loop_range [of ar sps "[w + 1..<n]" a w] by auto

lemma hold_board_laws:
  assumes "grid s" "c < 81" "board s ! c = 0"
  shows "\<exists>m s'. hold_board c g s = Some (m, s') \<and> board s' = (board s)[c := g] \<and> neighbors s' = neighbors s
        \<and> spaces s' = spaces s \<and> nspaces s' = nspaces s
        \<and> (\<forall>sp. unhold_board c g m (s'\<lparr> spaces := sp \<rparr>) = Some (s\<lparr> spaces := sp \<rparr>))"
proof -
  have "(board s)[c := 0] = board s" using assms(3) by (metis list_update_id)
  then show ?thesis using assms by (simp add: hold_board_def unhold_board_def grid_def)
qed

interpretation basic: solver_laws
  "\<lparr> choose_next = keep_order, is_free = available, hold = hold_board, unhold = unhold_board \<rparr>" "\<lambda>s. True"
proof
  fix w and s :: sudoku assume "w < nspaces s"
  then show "\<exists>k. w \<le> k \<and> k < nspaces s \<and>
      choose_next \<lparr> choose_next = keep_order, is_free = available, hold = hold_board, unhold = unhold_board \<rparr> w s = swap_spaces k w s"
    by (intro exI [of _ w]) (simp add: keep_order_def swap_spaces_def)
qed (use hold_board_laws in simp_all)

interpretation min_arity: solver_laws
  "\<lparr> choose_next = find_min_arity, is_free = available, hold = hold_board, unhold = unhold_board \<rparr>" "\<lambda>s. True"
proof
  fix w and s :: sudoku assume "w < nspaces s"
  then show "\<exists>k. w \<le> k \<and> k < nspaces s \<and>
      choose_next \<lparr> choose_next = find_min_arity, is_free = available, hold = hold_board, unhold = unhold_board \<rparr> w s = swap_spaces k w s"
    unfolding solver.simps find_min_arity_def using min_loop_chooses by blast
qed (use hold_board_laws in simp_all)

subsection \<open>The cache\<close>

definition cache_shape :: "sudoku \<Rightarrow> bool" where
  "cache_shape s \<longleftrightarrow> length (occupied s) = 81 \<and> (\<forall>n<81. length (occupied s ! n) = 10) \<and> length (arity s) = 81"

definition only_cache :: "sudoku \<Rightarrow> sudoku \<Rightarrow> bool" where
  "only_cache s s' \<longleftrightarrow> board s' = board s \<and> neighbors s' = neighbors s \<and> spaces s' = spaces s \<and> nspaces s' = nspaces s"

lemma set_occupied_nth:
  assumes "cache_shape s" "c < 81" "v < 10" "n < 81" "u < 10"
  shows "occupied (set_occupied c v b s) ! n ! u \<longleftrightarrow> (if n = c \<and> u = v then b else occupied s ! n ! u)"
  using assms by (auto simp: set_occupied_def cache_shape_def nth_list_update)

lemma cache_shape_updates [simp]:
  "cache_shape (set_occupied c v b s) \<longleftrightarrow> cache_shape s" "cache_shape (add_arity c d s) \<longleftrightarrow> cache_shape s"
  "cache_shape (s\<lparr> board := bd \<rparr>) \<longleftrightarrow> cache_shape s" "cache_shape (s\<lparr> spaces := sp \<rparr>) \<longleftrightarrow> cache_shape s"
proof -
  have "length ((occupied s)[c := (occupied s ! c)[v := b]] ! n) = length (occupied s ! n)" for n
    by (cases "c < length (occupied s)") (auto simp: nth_list_update list_update_beyond)
  then show "cache_shape (set_occupied c v b s) \<longleftrightarrow> cache_shape s" by (simp add: cache_shape_def set_occupied_def)
qed (simp_all add: cache_shape_def add_arity_def)

lemma cache_updates [simp]:
  "board (set_occupied c v b s) = board s" "neighbors (set_occupied c v b s) = neighbors s"
  "spaces (set_occupied c v b s) = spaces s" "nspaces (set_occupied c v b s) = nspaces s" "arity (set_occupied c v b s) = arity s"
  "board (add_arity c d s) = board s" "neighbors (add_arity c d s) = neighbors s"
  "spaces (add_arity c d s) = spaces s" "nspaces (add_arity c d s) = nspaces s" "occupied (add_arity c d s) = occupied s"
  by (simp_all add: set_occupied_def add_arity_def)

lemma occupy_effect:
  assumes "occupy v js s = (m, s')" "cache_shape s" "v < 10" "\<forall>n\<in>set js. n < 81"
  shows "only_cache s s' \<and> cache_shape s' \<and> distinct m \<and> set m = {n \<in> set js. \<not> occupied s ! n ! v}
     \<and> (\<forall>n<81. \<forall>u<10. occupied s' ! n ! u \<longleftrightarrow> occupied s ! n ! u \<or> (u = v \<and> n \<in> set js))
     \<and> (\<forall>n<81. arity s' ! n = arity s ! n - (if n \<in> set m then 1 else 0))"
  using assms
proof (induction js arbitrary: s m s')
  case (Cons k js)
  let ?t = "add_arity k (-1) (set_occupied k v True s)"
  show ?case
  proof (cases "occupied s ! k ! v")
    case True
    then have "only_cache s s' \<and> cache_shape s' \<and> distinct m \<and> set m = {n \<in> set js. \<not> occupied s ! n ! v}
     \<and> (\<forall>n<81. \<forall>u<10. occupied s' ! n ! u \<longleftrightarrow> occupied s ! n ! u \<or> (u = v \<and> n \<in> set js))
     \<and> (\<forall>n<81. arity s' ! n = arity s ! n - (if n \<in> set m then 1 else 0))"
      using Cons.prems by (intro Cons.IH) auto
    then show ?thesis using True by auto
  next
    case False
    obtain m' where m': "occupy v js ?t = (m', s')" "m = k # m'" using Cons.prems(1) False by (auto split: prod.splits)
    have occ: "occupied ?t ! n ! u \<longleftrightarrow> n = k \<and> u = v \<or> occupied s ! n ! u" if "n < 81" "u < 10" for n u
      using set_occupied_nth [of s k v n u True] Cons.prems that by auto
    have ar: "arity ?t ! n = arity s ! n - (if n = k then 1 else 0)" if "n < 81" for n
      using Cons.prems that by (auto simp: add_arity_def cache_shape_def nth_list_update)
    have IH: "only_cache ?t s' \<and> cache_shape s' \<and> distinct m' \<and> set m' = {n \<in> set js. \<not> occupied ?t ! n ! v}
     \<and> (\<forall>n<81. \<forall>u<10. occupied s' ! n ! u \<longleftrightarrow> occupied ?t ! n ! u \<or> (u = v \<and> n \<in> set js))
     \<and> (\<forall>n<81. arity s' ! n = arity ?t ! n - (if n \<in> set m' then 1 else 0))"
      using Cons.prems m'(1) by (intro Cons.IH) auto
    have set: "set m' = {n \<in> set js. n \<noteq> k \<and> \<not> occupied s ! n ! v}" using IH occ Cons.prems(3,4) by auto
    have "set m = {n \<in> set (k # js). \<not> occupied s ! n ! v}" "distinct m" using set IH False m'(2) by auto
    moreover have "only_cache s s'" using IH by (simp add: only_cache_def)
    moreover have "\<forall>n<81. \<forall>u<10. occupied s' ! n ! u \<longleftrightarrow> occupied s ! n ! u \<or> (u = v \<and> n \<in> set (k # js))"
      using IH occ by auto
    moreover have "arity s' ! n = arity s ! n - (if n \<in> set m then 1 else 0)" if "n < 81" for n
    proof -
      have "arity s' ! n = arity ?t ! n - (if n \<in> set m' then 1 else 0)" using IH that by blast
      moreover have "k \<notin> set m'" using set by blast
      ultimately show ?thesis using ar [OF that] m'(2) by auto
    qed
    ultimately show ?thesis using IH by blast
  qed
qed (auto simp: only_cache_def)

lemma undo_effect:
  assumes "cache_shape s" "v < 10" "distinct m" "\<forall>n\<in>set m. n < 81 \<and> occupied s ! n ! v"
  shows "\<exists>s'. undo v m s = Some s' \<and> only_cache s s' \<and> cache_shape s'
     \<and> (\<forall>n<81. \<forall>u<10. occupied s' ! n ! u \<longleftrightarrow> occupied s ! n ! u \<and> \<not> (u = v \<and> n \<in> set m))
     \<and> (\<forall>n<81. arity s' ! n = arity s ! n + (if n \<in> set m then 1 else 0))"
  using assms
proof (induction m arbitrary: s)
  case (Cons k m)
  let ?t = "add_arity k 1 (set_occupied k v False s)"
  have occ: "occupied ?t ! n ! u \<longleftrightarrow> \<not> (n = k \<and> u = v) \<and> occupied s ! n ! u" if "n < 81" "u < 10" for n u
    using set_occupied_nth [of s k v n u False] Cons.prems that by auto
  have ar: "arity ?t ! n = arity s ! n + (if n = k then 1 else 0)" if "n < 81" for n
    using Cons.prems that by (auto simp: add_arity_def cache_shape_def nth_list_update)
  have "\<exists>s'. undo v m ?t = Some s' \<and> only_cache ?t s' \<and> cache_shape s'
     \<and> (\<forall>n<81. \<forall>u<10. occupied s' ! n ! u \<longleftrightarrow> occupied ?t ! n ! u \<and> \<not> (u = v \<and> n \<in> set m))
     \<and> (\<forall>n<81. arity s' ! n = arity ?t ! n + (if n \<in> set m then 1 else 0))"
    using Cons.prems occ by (intro Cons.IH) auto
  then show ?case using Cons.prems occ ar by (auto simp: only_cache_def)
qed (auto simp: only_cache_def)

text \<open>The cache knows of every empty cell which values its neighbours have.\<close>

definition cache_ok :: "sudoku \<Rightarrow> bool" where
  "cache_ok s \<longleftrightarrow> cache_shape s
     \<and> (\<forall>c<81. board s ! c = 0 \<longrightarrow> (\<forall>v. 1 \<le> v \<and> v \<le> 9 \<longrightarrow> (occupied s ! c ! v \<longleftrightarrow> \<not> available v c s)))"

lemma available_board:
  assumes "grid s" "neighbors s' = neighbors s" "board s' = (board s)[c := g]" "c < 81" "board s ! c = 0" "n < 81" "1 \<le> v"
  shows "available v n s' \<longleftrightarrow> available v n s \<and> \<not> (v = g \<and> c \<in> set (neighbors s ! n))"
  using assms unfolding available_def by (auto simp: grid_def nbs_ok_def nth_list_update)

lemma neighbors_sym: "grid s \<Longrightarrow> c < 81 \<Longrightarrow> n < 81 \<Longrightarrow> c \<in> set (neighbors s ! n) \<longleftrightarrow> n \<in> set (neighbors s ! c)"
  using same_unit_sym [of c n] by (auto simp: grid_def nbs_ok_def)

text \<open>The state after a guess, compared to the state before.\<close>

definition held :: "nat \<Rightarrow> nat \<Rightarrow> sudoku \<Rightarrow> nat list \<Rightarrow> sudoku \<Rightarrow> bool" where
  "held c g s m s' \<longleftrightarrow> board s' = (board s)[c := g] \<and> neighbors s' = neighbors s
     \<and> spaces s' = spaces s \<and> nspaces s' = nspaces s \<and> cache_shape s' \<and> distinct m
     \<and> set m = {n \<in> set (neighbors s ! c). \<not> occupied s ! n ! g}
     \<and> (\<forall>n<81. \<forall>u<10. occupied s' ! n ! u
          \<longleftrightarrow> occupied s ! n ! u \<or> (u = g \<and> (n = c \<or> n \<in> set (neighbors s ! c))))
     \<and> (\<forall>n<81. arity s' ! n = arity s ! n - (if n \<in> set m then 1 else 0))"

lemma cache_hold_effect:
  assumes s: "grid s" "cache_ok s" and c: "c < 81" "board s ! c = 0" and g: "1 \<le> g" "g \<le> 9"
  obtains m s' where "cache_hold c g s = Some (m, s')" "held c g s m s'"
proof -
  let ?t = "set_occupied c g True (s\<lparr> board := (board s)[c := g] \<rparr>)"
  obtain m s' where run: "occupy g (neighbors s ! c) ?t = (m, s')" by fastforce
  have sh: "cache_shape s" using s(2) by (simp add: cache_ok_def)
  have occ: "occupied ?t ! n ! u \<longleftrightarrow> (n = c \<and> u = g) \<or> occupied s ! n ! u" if "n < 81" "u < 10" for n u
    using set_occupied_nth [of "s\<lparr> board := (board s)[c := g] \<rparr>" c g n u True] sh that c g by auto
  have nb: "\<forall>n\<in>set (neighbors s ! c). n < 81 \<and> n \<noteq> c" using s(1) c(1) by (simp add: grid_def nbs_ok_def)
  note e = occupy_effect [OF run]
  have e: "only_cache ?t s' \<and> cache_shape s' \<and> distinct m \<and> set m = {n \<in> set (neighbors s ! c). \<not> occupied ?t ! n ! g}
     \<and> (\<forall>n<81. \<forall>u<10. occupied s' ! n ! u \<longleftrightarrow> occupied ?t ! n ! u \<or> (u = g \<and> n \<in> set (neighbors s ! c)))
     \<and> (\<forall>n<81. arity s' ! n = arity ?t ! n - (if n \<in> set m then 1 else 0))"
    using sh g nb by (intro e) auto
  have "set m = {n \<in> set (neighbors s ! c). \<not> occupied s ! n ! g}" using e nb occ g by auto
  moreover have "cache_hold c g s = Some (m, s')" using run c by (simp add: cache_hold_def Let_def)
  ultimately show thesis
    using that [of m s'] e occ by (auto simp: only_cache_def held_def)
qed

lemma cache_hold_ok:
  assumes s: "grid s" "cache_ok s" and c: "c < 81" "board s ! c = 0" and g: "1 \<le> g" "g \<le> 9"
    and t: "held c g s m t"
  shows "cache_ok t"
proof -
  note t = t [unfolded held_def]
  have occ: "occupied t ! n ! u \<longleftrightarrow> occupied s ! n ! u \<or> (u = g \<and> (n = c \<or> n \<in> set (neighbors s ! c)))"
    if "n < 81" "u < 10" for n u using t that by blast
  have "occupied t ! n ! v \<longleftrightarrow> \<not> available v n t" if n: "n < 81" "board t ! n = 0" and v: "1 \<le> v" "v \<le> 9" for n v
  proof -
    have nc: "n \<noteq> c" "board s ! n = 0" using n t g s(1) c by (auto simp: grid_def nth_list_update split: if_splits)
    then have "occupied s ! n ! v \<longleftrightarrow> \<not> available v n s" using s(2) n v by (simp add: cache_ok_def)
    then show ?thesis
      using occ [OF n(1), of v] available_board [OF s(1) _ _ c n(1) v(1), of t g] t neighbors_sym [OF s(1) c(1) n(1)] nc v by auto
  qed
  then show ?thesis using t by (simp add: cache_ok_def)
qed

lemma cache_equal:
  assumes "cache_shape s" "cache_shape s'" "only_cache s s'"
    and "\<And>n u. n < 81 \<Longrightarrow> u < 10 \<Longrightarrow> occupied s' ! n ! u \<longleftrightarrow> occupied s ! n ! u" "\<And>n. n < 81 \<Longrightarrow> arity s' ! n = arity s ! n"
  shows "s' = (s :: sudoku)"
proof -
  have "occupied s' = occupied s"
  proof (rule nth_equalityI)
    fix n assume "n < length (occupied s')"
    then have n: "n < 81" using assms(2) by (simp add: cache_shape_def)
    then show "occupied s' ! n = occupied s ! n"
      using assms(1,2,4) by (intro nth_equalityI) (auto simp: cache_shape_def)
  qed (use assms(1,2) in \<open>simp add: cache_shape_def\<close>)
  moreover have "arity s' = arity s" using assms(1,2,5) by (intro nth_equalityI) (auto simp: cache_shape_def)
  ultimately show ?thesis using assms(3) by (simp add: only_cache_def)
qed

lemma cache_unhold_restores:
  assumes s: "grid s" "cache_ok s" and c: "c < 81" "board s ! c = 0" and g: "1 \<le> g" "g \<le> 9" and av: "available g c s"
    and held: "held c g s m s'"
  shows "cache_unhold c g m (s'\<lparr> spaces := sp \<rparr>) = Some (s\<lparr> spaces := sp \<rparr>)"
proof -
  have t: "board s' = (board s)[c := g]" "neighbors s' = neighbors s" "nspaces s' = nspaces s" "cache_shape s'" "distinct m"
      "set m = {n \<in> set (neighbors s ! c). \<not> occupied s ! n ! g}"
    and occ': "\<And>n u. n < 81 \<Longrightarrow> u < 10 \<Longrightarrow> occupied s' ! n ! u
        \<longleftrightarrow> occupied s ! n ! u \<or> (u = g \<and> (n = c \<or> n \<in> set (neighbors s ! c)))"
    and ar: "\<And>n. n < 81 \<Longrightarrow> arity s' ! n = arity s ! n - (if n \<in> set m then 1 else 0)"
    using held unfolding held_def by blast+
  have sh: "cache_shape s" and nocc: "\<not> occupied s ! c ! g" using s(2) c g av by (auto simp: cache_ok_def)
  have nb: "\<forall>n\<in>set (neighbors s ! c). n < 81 \<and> n \<noteq> c" using s(1) c(1) by (simp add: grid_def nbs_ok_def)
  let ?u = "(set_occupied c g False (s'\<lparr> spaces := sp \<rparr>))\<lparr> board := board s \<rparr>"
  have shu: "cache_shape ?u" using t(4) by simp
  have occ: "occupied ?u ! n ! u \<longleftrightarrow> occupied s ! n ! u \<or> (u = g \<and> n \<in> set (neighbors s ! c))" if "n < 81" "u < 10" for n u
    using set_occupied_nth [of "s'\<lparr> spaces := sp \<rparr>" c g n u False] t(4) occ' [OF that] that c g nocc nb by auto
  have "\<forall>n\<in>set m. n < 81 \<and> occupied ?u ! n ! g" using t(6) nb occ g by auto
  then obtain v where v: "undo g m ?u = Some v" "only_cache ?u v" "cache_shape v"
      "\<forall>n<81. \<forall>u<10. occupied v ! n ! u \<longleftrightarrow> occupied ?u ! n ! u \<and> \<not> (u = g \<and> n \<in> set m)"
      "\<forall>n<81. arity v ! n = arity ?u ! n + (if n \<in> set m then 1 else 0)"
    using undo_effect [OF shu, of g m] t(5) g by auto
  have "v = s\<lparr> spaces := sp \<rparr>"
  proof (rule cache_equal)
    show "only_cache (s\<lparr> spaces := sp \<rparr>) v" using v(2) t(2,3) by (simp add: only_cache_def)
    show "occupied v ! n ! u \<longleftrightarrow> occupied (s\<lparr> spaces := sp \<rparr>) ! n ! u" if "n < 81" "u < 10" for n u
      using v(4) that occ [OF that] t(6) by auto
    show "arity v ! n = arity (s\<lparr> spaces := sp \<rparr>) ! n" if "n < 81" for n
      using v(5) ar [OF that] that by auto
  qed (use v(3) sh in simp_all)
  moreover have "(board s)[c := 0] = board s" using c(2) by (metis list_update_id)
  then have "cache_unhold c g m (s'\<lparr> spaces := sp \<rparr>) = undo g m ?u"
    using t(1) c s(1) by (simp add: cache_unhold_def Let_def grid_def)
  ultimately show ?thesis using v(1) by simp
qed

interpretation cache: solver_laws
  "\<lparr> choose_next = cached_min_arity, is_free = cache_free, hold = cache_hold, unhold = cache_unhold \<rparr>" cache_ok
proof
  fix w and s :: sudoku assume "w < nspaces s"
  then show "\<exists>k. w \<le> k \<and> k < nspaces s \<and>
      choose_next \<lparr> choose_next = cached_min_arity, is_free = cache_free, hold = cache_hold, unhold = cache_unhold \<rparr> w s = swap_spaces k w s"
    unfolding solver.simps cached_min_arity_def using min_loop_chooses by blast
next
  fix s :: sudoku and sp
  show "cache_ok (s\<lparr> spaces := sp \<rparr>) \<longleftrightarrow> cache_ok s" by (simp add: cache_ok_def available_def)
next
  fix s :: sudoku and c g :: nat assume "cache_ok s" "c < 81" "board s ! c = 0" "1 \<le> g" "g \<le> 9"
  then show "is_free \<lparr> choose_next = cached_min_arity, is_free = cache_free, hold = cache_hold, unhold = cache_unhold \<rparr> g c s
      \<longleftrightarrow> available g c s"
    by (simp add: cache_free_def cache_ok_def)
next
  fix s :: sudoku and c g :: nat
  assume s: "grid s" "cache_ok s" "c < 81" "board s ! c = 0" "1 \<le> g" "g \<le> 9" "available g c s"
  obtain m s' where m: "cache_hold c g s = Some (m, s')" "held c g s m s'" using cache_hold_effect [OF s(1-6)] .
  then show "\<exists>m s'. hold \<lparr> choose_next = cached_min_arity, is_free = cache_free, hold = cache_hold, unhold = cache_unhold \<rparr> c g s
      = Some (m, s') \<and> cache_ok s' \<and> board s' = (board s)[c := g] \<and> neighbors s' = neighbors s
        \<and> spaces s' = spaces s \<and> nspaces s' = nspaces s
        \<and> (\<forall>sp. unhold \<lparr> choose_next = cached_min_arity, is_free = cache_free, hold = cache_hold, unhold = cache_unhold \<rparr> c g m
                  (s'\<lparr> spaces := sp \<rparr>) = Some (s\<lparr> spaces := sp \<rparr>))"
    using cache_hold_ok [OF s(1-6) m(2)] cache_unhold_restores [OF s m(2)] by (simp add: held_def)
qed

lemma cache_cells_ok:
  assumes "grid s" "cache_shape s" "\<forall>c\<in>set cells. c < 81"
    and "\<And>n v. n < 81 \<Longrightarrow> board s ! n = 0 \<Longrightarrow> 1 \<le> v \<Longrightarrow> v \<le> 9 \<Longrightarrow>
           occupied s ! n ! v \<longleftrightarrow> (\<exists>k\<in>D. board s ! k = v \<and> n \<in> set (neighbors s ! k))"
  shows "only_cache s (cache_cells cells s) \<and> cache_shape (cache_cells cells s) \<and>
     (\<forall>n<81. board s ! n = 0 \<longrightarrow> (\<forall>v. 1 \<le> v \<and> v \<le> 9 \<longrightarrow>
        (occupied (cache_cells cells s) ! n ! v \<longleftrightarrow> (\<exists>k\<in>D \<union> set cells. board s ! k = v \<and> n \<in> set (neighbors s ! k)))))"
  using assms
proof (induction cells arbitrary: s D)
  case (Cons c cells)
  let ?t = "set_occupied c 0 True s" and ?v = "board s ! c"
  have nb: "\<forall>n\<in>set (neighbors s ! c). n < 81" and v10: "?v < 10" and c: "c < 81"
    using Cons.prems(1,3) by (auto simp: grid_def nbs_ok_def less_Suc_eq_le)
  have t: "occupied ?t ! n ! u \<longleftrightarrow> occupied s ! n ! u" if "n < 81" "1 \<le> u" "u \<le> 9" for n u
    using set_occupied_nth [of s c 0 n u True] Cons.prems(2) c that by auto
  define s1 where "s1 = (if ?v > 0 then snd (occupy ?v (neighbors s ! c) (set_occupied c ?v True ?t)) else ?t)"
  have s1: "only_cache s s1 \<and> cache_shape s1 \<and> (\<forall>n<81. board s ! n = 0 \<longrightarrow> (\<forall>v. 1 \<le> v \<and> v \<le> 9 \<longrightarrow>
      (occupied s1 ! n ! v \<longleftrightarrow> occupied s ! n ! v \<or> (?v = v \<and> n \<in> set (neighbors s ! c)))))"
  proof (cases "?v > 0")
    case False
    then show ?thesis using t Cons.prems(2) by (auto simp: s1_def only_cache_def)
  next
    case True
    let ?u = "set_occupied c ?v True ?t"
    obtain m u' where run: "occupy ?v (neighbors s ! c) ?u = (m, u')" by fastforce
    have e: "only_cache ?u u' \<and> cache_shape u' \<and> distinct m \<and> set m = {n \<in> set (neighbors s ! c). \<not> occupied ?u ! n ! ?v}
     \<and> (\<forall>n<81. \<forall>u<10. occupied u' ! n ! u \<longleftrightarrow> occupied ?u ! n ! u \<or> (u = ?v \<and> n \<in> set (neighbors s ! c)))
     \<and> (\<forall>n<81. arity u' ! n = arity ?u ! n - (if n \<in> set m then 1 else 0))"
      using Cons.prems(2) nb v10 by (intro occupy_effect [OF run]) auto
    have "occupied ?u ! n ! w \<longleftrightarrow> occupied s ! n ! w" if "n < 81" "board s ! n = 0" "1 \<le> w" "w \<le> 9" for n w
      using set_occupied_nth [of ?t c ?v n w True] Cons.prems(2) c v10 that t True by auto
    then show ?thesis using e True run by (auto simp: s1_def only_cache_def)
  qed
  have b1: "board s1 = board s" "neighbors s1 = neighbors s" using s1 by (auto simp: only_cache_def)
  have "only_cache s1 (cache_cells cells s1) \<and> cache_shape (cache_cells cells s1) \<and>
     (\<forall>n<81. board s1 ! n = 0 \<longrightarrow> (\<forall>v. 1 \<le> v \<and> v \<le> 9 \<longrightarrow>
        (occupied (cache_cells cells s1) ! n ! v
           \<longleftrightarrow> (\<exists>k\<in>insert c D \<union> set cells. board s1 ! k = v \<and> n \<in> set (neighbors s1 ! k)))))"
  proof (rule Cons.IH)
    show "grid s1" using s1 Cons.prems(1) by (simp add: grid_def only_cache_def)
    show "occupied s1 ! n ! v \<longleftrightarrow> (\<exists>k\<in>insert c D. board s1 ! k = v \<and> n \<in> set (neighbors s1 ! k))"
      if "n < 81" "board s1 ! n = 0" "1 \<le> v" "v \<le> 9" for n v
      using s1 Cons.prems(4) [of n v] that b1 by auto
  qed (use s1 Cons.prems(3) in auto)
  moreover have "cache_cells (c # cells) s = cache_cells cells s1" by (simp add: Let_def s1_def)
  ultimately show ?case using s1 b1 by (auto simp: only_cache_def)
qed (auto simp: only_cache_def)

lemma init_cache_ok:
  assumes "grid s"
  shows "only_cache s (init_cache s) \<and> cache_ok (init_cache s)"
proof -
  let ?t = "s\<lparr> occupied := replicate N_CELLS (replicate (NUM + 1) False), arity := replicate N_CELLS (int NUM) \<rparr>"
  have g: "grid ?t" using assms by (simp add: grid_def)
  have "only_cache ?t (init_cache s) \<and> cache_shape (init_cache s) \<and>
     (\<forall>n<81. board ?t ! n = 0 \<longrightarrow> (\<forall>v. 1 \<le> v \<and> v \<le> 9 \<longrightarrow>
        (occupied (init_cache s) ! n ! v
          \<longleftrightarrow> (\<exists>k\<in>{} \<union> set [0..<N_CELLS]. board ?t ! k = v \<and> n \<in> set (neighbors ?t ! k)))))"
    unfolding init_cache_def using g
    by (intro cache_cells_ok) (auto simp: cache_shape_def N_CELLS_def NUM_def)
  then have e: "only_cache s (init_cache s)" "cache_shape (init_cache s)"
    "\<And>n v. n < 81 \<Longrightarrow> board s ! n = 0 \<Longrightarrow> 1 \<le> v \<Longrightarrow> v \<le> 9 \<Longrightarrow>
       occupied (init_cache s) ! n ! v \<longleftrightarrow> (\<exists>k<81. board s ! k = v \<and> n \<in> set (neighbors s ! k))"
    by (auto simp: only_cache_def N_CELLS_def Bex_def)
  have "(\<exists>k<81. board s ! k = v \<and> n \<in> set (neighbors s ! k)) \<longleftrightarrow> \<not> available v n (init_cache s)" if "n < 81" for n v
  proof -
    have "available v n (init_cache s) \<longleftrightarrow> (\<forall>k\<in>set (neighbors s ! n). board s ! k \<noteq> v)"
      using e(1) by (simp add: available_def only_cache_def)
    moreover have "\<forall>k\<in>set (neighbors s ! n). k < 81" using assms that by (simp add: grid_def nbs_ok_def)
    ultimately show ?thesis using neighbors_sym [OF assms _ that] by blast
  qed
  then show ?thesis using e by (simp add: cache_ok_def only_cache_def)
qed

subsection \<open>Reading a puzzle\<close>

definition digit_char :: "char \<Rightarrow> bool" where
  "digit_char ch \<longleftrightarrow> 48 \<le> (of_char ch :: nat) \<and> (of_char ch :: nat) \<le> 57"

definition givens :: "string \<Rightarrow> nat list" where
  "givens inp = map (\<lambda>ch. of_char ch - 48) (take 81 inp)"

lemma read_cells_board:
  assumes "\<forall>c\<in>set cells. c < length inp \<and> digit_char (inp ! c)" "\<forall>c\<in>set cells. c < length (board s)"
  shows "\<exists>b. read_cells inp cells s = Some (s\<lparr> board := b \<rparr>) \<and> length b = length (board s)
     \<and> (\<forall>c<length b. b ! c = (if c \<in> set cells then of_char (inp ! c) - 48 else board s ! c))"
  using assms
proof (induction cells arbitrary: s)
  case (Cons c cells)
  let ?s = "s\<lparr> board := (board s)[c := of_char (inp ! c) - 48] \<rparr>"
  have "\<exists>b. read_cells inp cells ?s = Some (?s\<lparr> board := b \<rparr>) \<and> length b = length (board ?s)
     \<and> (\<forall>c<length b. b ! c = (if c \<in> set cells then of_char (inp ! c) - 48 else board ?s ! c))"
    using Cons.prems by (intro Cons.IH) auto
  then obtain b where b: "read_cells inp cells ?s = Some (?s\<lparr> board := b \<rparr>)" "length b = length (board s)"
      "\<forall>c<length b. b ! c = (if c \<in> set cells then of_char (inp ! c) - 48 else board ?s ! c)" by auto
  have "digit_char (inp ! c)" using Cons.prems(1) by simp
  then have "read_cells inp (c # cells) s = read_cells inp cells ?s"
    by (simp add: digit_char_def NUM_def nat_diff_distrib Let_def)
  then show ?case using b by (intro exI [of _ b]) (auto simp: nth_list_update)
next
  case Nil
  show ?case by (intro exI [of _ "board s"]) simp
qed

lemma find_from_spaces:
  assumes "nspaces s + length cells \<le> length (spaces s)"
  shows "\<exists>sp n. find_from cells s = s\<lparr> spaces := sp, nspaces := n \<rparr> \<and> length sp = length (spaces s) \<and> n \<le> nspaces s + length cells
     \<and> take n sp = take (nspaces s) (spaces s) @ filter (\<lambda>c. board s ! c = 0) cells"
  using assms
proof (induction cells arbitrary: s)
  case Nil
  show ?case by (intro exI [of _ "spaces s"] exI [of _ "nspaces s"]) simp
next
  case (Cons c cells)
  show ?case
  proof (cases "board s ! c = 0")
    case True
    let ?s = "s\<lparr> spaces := (spaces s)[nspaces s := c], nspaces := nspaces s + 1 \<rparr>"
    have "\<exists>sp n. find_from cells ?s = ?s\<lparr> spaces := sp, nspaces := n \<rparr> \<and> length sp = length (spaces ?s)
       \<and> n \<le> nspaces ?s + length cells \<and> take n sp = take (nspaces ?s) (spaces ?s) @ filter (\<lambda>c. board ?s ! c = 0) cells"
      using Cons.prems by (intro Cons.IH) simp
    moreover have "take (nspaces ?s) (spaces ?s) = take (nspaces s) (spaces s) @ [c]"
      using Cons.prems by (simp add: take_Suc_conv_app_nth)
    ultimately show ?thesis using True by auto
  next
    case False
    then show ?thesis using Cons.IH [of s] Cons.prems by force
  qed
qed

lemma input_ready:
  assumes inp: "81 \<le> length inp" "\<forall>c<81. digit_char (inp ! c)"
    and s: "nbs_ok (neighbors s)" "length (board s) = 81" "length (spaces s) = 81"
  shows "\<exists>s'. input inp s = Some s' \<and> ready 0 s' \<and> board s' = givens inp \<and> neighbors s' = neighbors s"
proof -
  obtain b where b: "read_cells inp [0..<N_CELLS] s = Some (s\<lparr> board := b \<rparr>)" "length b = 81"
      "\<forall>c<81. b ! c = of_char (inp ! c) - 48"
    using read_cells_board [of "[0..<N_CELLS]" inp s] inp s by (auto simp: N_CELLS_def)
  have bg: "b = givens inp" using b(2,3) inp(1) by (intro nth_equalityI) (auto simp: givens_def)
  have b9: "\<forall>c<81. b ! c \<le> 9" using b(3) inp(2) by (auto simp: digit_char_def)
  let ?t = "s\<lparr> board := b, nspaces := 0 \<rparr>"
  obtain sp n where f: "find_from [0..<N_CELLS] ?t = ?t\<lparr> spaces := sp, nspaces := n \<rparr>" "length sp = 81" "n \<le> 81"
      "take n sp = filter (\<lambda>c. b ! c = 0) [0..<81]"
    using find_from_spaces [of ?t "[0..<N_CELLS]"] s(3) by (auto simp: N_CELLS_def)
  have "mset (filter (\<lambda>c. b ! c = 0) [0..<81]) = mset_set (set (filter (\<lambda>c. b ! c = 0) [0..<81]))"
    by (intro mset_set_set [symmetric]) simp
  also have "set (filter (\<lambda>c. b ! c = 0) [0..<81]) = empties b" by (auto simp: empties_def)
  finally have "ready 0 (?t\<lparr> spaces := sp, nspaces := n \<rparr>)" using f s b(2) b9 by (simp add: ready_def grid_def)
  moreover have "input inp s = Some (?t\<lparr> spaces := sp, nspaces := n \<rparr>)"
    using b(1) f(1) by (simp add: input_def find_spaces_def)
  ultimately show ?thesis using bg by simp
qed

subsection \<open>The test of the result\<close>

lemma occurs_count:
  assumes "\<forall>v\<in>set vals. v < 10" "length occ = 10"
  shows "length (fold (\<lambda>v occ. occ[v := occ ! v + (1::nat)]) vals occ) = 10
     \<and> (\<forall>u<10. fold (\<lambda>v occ. occ[v := occ ! v + 1]) vals occ ! u = occ ! u + count_list vals u)"
  using assms
proof (induction vals arbitrary: occ)
  case (Cons v vals)
  then show ?case using Cons.IH [of "occ[v := occ ! v + 1]"] by (auto simp: nth_list_update)
qed simp

lemma count_once: "distinct xs \<Longrightarrow> u \<in> set xs \<Longrightarrow> count_list xs u = 1"
  by (induction xs) auto

lemma occurs_once_distinct:
  assumes vals: "\<forall>v\<in>set vals. 1 \<le> v \<and> v \<le> 9" "length vals = 9"
  shows "occurs_once vals \<longleftrightarrow> distinct vals"
proof -
  have lt: "\<forall>v\<in>set vals. v < 10" using vals(1) by force
  define occ where "occ = fold (\<lambda>v occ. occ[v := occ ! v + (1::nat)]) vals (replicate 10 0)"
  have occ: "length occ = 10" "\<And>u. u < 10 \<Longrightarrow> occ ! u = count_list vals u"
    using occurs_count [OF lt, of "replicate 10 0"] by (auto simp: occ_def)
  have "length (filter (\<lambda>n. n = 1) occ) = card {u. u < 10 \<and> count_list vals u = 1}"
    using occ by (simp add: length_filter_conv_card cong: conj_cong)
  then have once: "occurs_once vals \<longleftrightarrow> card {u. u < 10 \<and> count_list vals u = 1} = 9"
    by (simp add: occurs_once_def NUM_def Let_def occ_def)
  have mem: "u \<in> set vals" if "count_list vals u = 1" for u using that count_notin [of u vals] by fastforce
  show ?thesis
  proof
    assume "occurs_once vals"
    moreover have "{u. u < 10 \<and> count_list vals u = 1} \<subseteq> set vals" using mem by blast
    then have "card {u. u < 10 \<and> count_list vals u = 1} \<le> card (set vals)" by (intro card_mono) simp_all
    ultimately have "9 \<le> card (set vals)" using once by simp
    then show "distinct vals" using vals(2) card_length [of vals] by (intro card_distinct) simp
  next
    assume d: "distinct vals"
    then have "count_list vals u = 1" if "u \<in> set vals" for u using that by (simp add: count_once)
    then have "{u. u < 10 \<and> count_list vals u = 1} = set vals" using lt mem by blast
    then show "occurs_once vals" using once d vals(2) by (simp add: distinct_card)
  qed
qed

definition cell_conflict :: "nat list \<Rightarrow> nat \<Rightarrow> nat \<Rightarrow> nat \<Rightarrow> nat \<Rightarrow> bool" where
  "cell_conflict b y x y' x' \<longleftrightarrow> (y, x) \<noteq> (y', x') \<and> b ! (y * 9 + x) = b ! (y' * 9 + x')"

lemma no_conflict_cells:
  assumes "\<forall>c<81. b ! c \<noteq> 0"
  shows "no_conflict b \<longleftrightarrow> (\<forall>y<9. \<forall>x<9. \<forall>y'<9. \<forall>x'<9.
     y = y' \<or> x = x' \<or> (y div 3 = y' div 3 \<and> x div 3 = x' div 3) \<longrightarrow> \<not> cell_conflict b y x y' x')"
proof
  assume n: "no_conflict b"
  show "\<forall>y<9. \<forall>x<9. \<forall>y'<9. \<forall>x'<9. y = y' \<or> x = x' \<or> (y div 3 = y' div 3 \<and> x div 3 = x' div 3) \<longrightarrow> \<not> cell_conflict b y x y' x'"
  proof (intro allI impI)
    fix y x y' x' :: nat
    assume lt: "y < 9" "x < 9" "y' < 9" "x' < 9" and u: "y = y' \<or> x = x' \<or> (y div 3 = y' div 3 \<and> x div 3 = x' div 3)"
    then have dm: "(y * 9 + x) div 9 = y" "(y * 9 + x) mod 9 = x" "(y' * 9 + x') div 9 = y'" "(y' * 9 + x') mod 9 = x'"
        "y * 9 + x < 81" "y' * 9 + x' < 81" by auto
    then have "same_unit (y' * 9 + x') (y * 9 + x)" unfolding same_unit_def dm using u by auto
    moreover have "y * 9 + x \<noteq> y' * 9 + x'" if "(y, x) \<noteq> (y', x')" using dm that by metis
    ultimately show "\<not> cell_conflict b y x y' x'"
      using n dm(5,6) assms unfolding no_conflict_def cell_conflict_def by blast
  qed
next
  assume h: "\<forall>y<9. \<forall>x<9. \<forall>y'<9. \<forall>x'<9. y = y' \<or> x = x' \<or> (y div 3 = y' div 3 \<and> x div 3 = x' div 3) \<longrightarrow> \<not> cell_conflict b y x y' x'"
  have "b ! n \<noteq> b ! c" if "c < 81" "n < 81" "n \<noteq> c" "same_unit c n" for c n
  proof -
    have "\<not> cell_conflict b (n div 9) (n mod 9) (c div 9) (c mod 9)"
    proof -
      have "n div 9 < 9" "n mod 9 < 9" "c div 9 < 9" "c mod 9 < 9" using that(1,2) by auto
      then show ?thesis using h that(4) unfolding same_unit_def by metis
    qed
    moreover have "(n div 9, n mod 9) \<noteq> (c div 9, c mod 9)" using that(3) by (metis div_mult_mod_eq prod.inject)
    ultimately show ?thesis unfolding cell_conflict_def div_mult_mod_eq by blast
  qed
  then show "no_conflict b" unfolding no_conflict_def by blast
qed

lemma distinct_rows: "distinct (row_vals b y) \<longleftrightarrow> (\<forall>x<9. \<forall>x'<9. \<not> cell_conflict b y x y x')"
  unfolding row_vals_def distinct_map inj_on_def cell_conflict_def by (simp add: Ball_def) blast

lemma distinct_cols: "distinct (col_vals b x) \<longleftrightarrow> (\<forall>y<9. \<forall>y'<9. \<not> cell_conflict b y x y' x)"
  unfolding col_vals_def distinct_map inj_on_def cell_conflict_def by (simp add: Ball_def) blast

lemma distinct_boxes:
  "distinct (box_vals b r k) \<longleftrightarrow> (\<forall>i<3. \<forall>j<3. \<forall>i'<3. \<forall>j'<3. \<not> cell_conflict b (r + i) (k + j) (r + i') (k + j'))"
proof -
  let ?L = "[(0, 0), (0, 1), (0, 2), (1, 0), (1, 1), (1, 2), (2, 0), (2, 1), (2, 2)] :: (nat \<times> nat) list"
  have "{..<3::nat} = {0, 1, 2}" by auto
  then have "set ?L = {..<3} \<times> {..<3}" by auto
  moreover have "distinct ?L" by simp
  ultimately have "distinct (box_vals b r k)
      \<longleftrightarrow> inj_on (\<lambda>(i, j). b ! ((r + i) * 9 + (k + j))) ({..<3} \<times> {..<3})"
    unfolding box_vals_def distinct_map by simp
  also have "\<dots> \<longleftrightarrow> (\<forall>i<3. \<forall>j<3. \<forall>i'<3. \<forall>j'<3. \<not> cell_conflict b (r + i) (k + j) (r + i') (k + j'))"
    unfolding inj_on_def cell_conflict_def by (simp add: Ball_def) blast
  finally show ?thesis .
qed

lemma boxes_conflict:
  "(\<forall>r\<in>{0, 3, 6}. \<forall>k\<in>{0, 3, 6}. distinct (box_vals b r k))
   \<longleftrightarrow> (\<forall>y<9. \<forall>x<9. \<forall>y'<9. \<forall>x'<9. y div 3 = y' div 3 \<and> x div 3 = x' div 3 \<longrightarrow> \<not> cell_conflict b y x y' x')"
proof
  assume d: "\<forall>r\<in>{0, 3, 6}. \<forall>k\<in>{0, 3, 6}. distinct (box_vals b r k)"
  show "\<forall>y<9. \<forall>x<9. \<forall>y'<9. \<forall>x'<9. y div 3 = y' div 3 \<and> x div 3 = x' div 3 \<longrightarrow> \<not> cell_conflict b y x y' x'"
  proof (intro allI impI)
    fix y x y' x' :: nat
    assume lt: "y < 9" "x < 9" "y' < 9" "x' < 9" and u: "y div 3 = y' div 3 \<and> x div 3 = x' div 3"
    let ?r = "y div 3 * 3" and ?k = "x div 3 * 3"
    have "y div 3 < 3" "x div 3 < 3" using lt by auto
    then have "?r \<in> {0, 3, 6}" "?k \<in> {0, 3, 6}" by auto
    then have "\<not> cell_conflict b (?r + y mod 3) (?k + x mod 3) (?r + y' mod 3) (?k + x' mod 3)"
      using d unfolding distinct_boxes by (metis mod_less_divisor zero_less_numeral)
    moreover have "?r + y' mod 3 = y'" "?k + x' mod 3 = x'" using u by simp_all
    ultimately show "\<not> cell_conflict b y x y' x'" by simp
  qed
next
  assume h: "\<forall>y<9. \<forall>x<9. \<forall>y'<9. \<forall>x'<9. y div 3 = y' div 3 \<and> x div 3 = x' div 3 \<longrightarrow> \<not> cell_conflict b y x y' x'"
  have q: "(r + i) div 3 = r div 3 \<and> r + i < 9" if "r \<in> {0, 3, 6}" "i < 3" for r i :: nat using that by auto
  show "\<forall>r\<in>{0, 3, 6}. \<forall>k\<in>{0, 3, 6}. distinct (box_vals b r k)" unfolding distinct_boxes using h q by metis
qed

lemma rows_ok_iff:
  assumes "\<forall>vals\<in>set rows. length vals = 9 \<and> (\<forall>v\<in>set vals. 1 \<le> v \<and> v \<le> 9)"
  shows "rows_ok rows = Some (\<forall>vals\<in>set rows. distinct vals)"
  using assms by (induction rows) (auto simp: occurs_once_distinct NUM_def check_def)

lemma solved_iff:
  assumes "length (board s) = 81" "\<forall>c<81. 1 \<le> board s ! c \<and> board s ! c \<le> 9"
  shows "solved s = Some (no_conflict (board s))"
proof -
  let ?b = "board s"
  have nz: "\<forall>c<81. ?b ! c \<noteq> 0" using assms(2) by force
  have rows: "rows_ok (map (row_vals ?b) [0..<9]) = Some (\<forall>vals\<in>set (map (row_vals ?b) [0..<9]). distinct vals)"
    using assms(2) by (intro rows_ok_iff) (auto simp: row_vals_def)
  have cols: "occurs_once (col_vals ?b x) \<longleftrightarrow> distinct (col_vals ?b x)" if "x < 9" for x
    using assms(2) that by (intro occurs_once_distinct) (auto simp: col_vals_def)
  have boxes: "occurs_once (box_vals ?b r k) \<longleftrightarrow> distinct (box_vals ?b r k)" if "r \<in> {0, 3, 6}" "k \<in> {0, 3, 6}" for r k
    using assms(2) that by (intro occurs_once_distinct) (auto simp: box_vals_def)
  have "solved s = Some ((\<forall>y<9. distinct (row_vals ?b y)) \<and> (\<forall>x<9. distinct (col_vals ?b x))
      \<and> (\<forall>r\<in>{0, 3, 6}. \<forall>k\<in>{0, 3, 6}. distinct (box_vals ?b r k)))"
    using rows cols boxes by (auto simp: solved_def list_all_iff)
  then show ?thesis unfolding no_conflict_cells [OF nz] boxes_conflict distinct_rows distinct_cols by auto
qed

subsection \<open>Properties\<close>

definition solvers :: "(nat \<Rightarrow> sudoku \<Rightarrow> (bool \<times> sudoku) option) set" where
  "solvers = {solve_sudoku_basic, solve_sudoku_min_arity, solve_sudoku_min_arity_cache}"

lemma solver_outcome:
  assumes "solver \<in> solvers" "ready 0 s" "cache_ok s"
  shows "\<exists>r s'. solver 0 s = Some (r, s')
     \<and> (r \<longrightarrow> fills (board s) (board s') \<and> neighbors s' = neighbors s \<and> length (spaces s') = 81)
     \<and> (\<not> r \<longrightarrow> (\<forall>b. \<not> fills (board s) b) \<and> reordered 0 s s')"
  using assms basic.solve_outcome [OF assms(2)] min_arity.solve_outcome [OF assms(2)] cache.solve_outcome [OF assms(2)]
  unfolding solvers_def by (auto simp: solve_sudoku_basic_def solve_sudoku_min_arity_def solve_sudoku_min_arity_cache_def)

text \<open>The state of the global arrays between two puzzles.\<close>

definition globals_ok :: "sudoku \<Rightarrow> bool" where
  "globals_ok s \<longleftrightarrow> init_neighbors = Some (neighbors s) \<and> length (board s) = 81 \<and> length (spaces s) = 81"

lemma solve_line_outcome:
  assumes "solver \<in> solvers" "81 \<le> length puzzle" "\<forall>c<81. digit_char (puzzle ! c)" "globals_ok s"
  obtains b s' where "fills (givens puzzle) b" "globals_ok s'"
      "solve_line solver puzzle s = (if no_conflict (givens puzzle) then Some (Some b, s') else None)"
  | s' where "\<And>b. \<not> fills (givens puzzle) b" "globals_ok s'" "solve_line solver puzzle s = Some (None, s')"
proof -
  have nb: "nbs_ok (neighbors s)" using assms(4) init_neighbors_ok unfolding globals_ok_def by (metis option.inject)
  obtain t where t: "input puzzle s = Some t" "ready 0 t" "board t = givens puzzle" "neighbors t = neighbors s"
    using input_ready [OF assms(2,3) nb] assms(4) by (auto simp: globals_ok_def)
  have c: "only_cache t (init_cache t)" "cache_ok (init_cache t)" using init_cache_ok t(2) by (auto simp: ready_def)
  then have ready: "ready 0 (init_cache t)" using t(2) by (simp add: ready_def grid_def only_cache_def)
  obtain r u where u: "solver 0 (init_cache t) = Some (r, u)"
      "r \<longrightarrow> fills (givens puzzle) (board u) \<and> neighbors u = neighbors s \<and> length (spaces u) = 81"
      "\<not> r \<longrightarrow> (\<forall>b. \<not> fills (givens puzzle) b) \<and> reordered 0 (init_cache t) u"
    using solver_outcome [OF assms(1) ready c(2)] c(1) t(3,4) by (auto simp: only_cache_def)
  show thesis
  proof (cases r)
    case True
    then have f: "fills (givens puzzle) (board u)" using u(2) by simp
    then have "solved u = Some (no_conflict (board u))" by (intro solved_iff) (auto simp: fills_def)
    then have "solve_line solver puzzle s = (if no_conflict (givens puzzle) then Some (Some (board u), u) else None)"
      using t(1) u(1) True fills_solution [OF f] by (simp add: solve_line_def check_def)
    moreover have "globals_ok u" using f u(2) True assms(4) by (simp add: globals_ok_def fills_def)
    ultimately show thesis using that(1) f by blast
  next
    case False
    then have r: "reordered 0 (init_cache t) u" using u(3) by simp
    then have "length (spaces u) = 81" using ready by (simp add: reordered_def ready_def grid_def)
    then have "globals_ok u"
      using reordered_fields [OF r] c(1) t(4) assms(4) ready by (simp add: globals_ok_def only_cache_def ready_def grid_def)
    then show thesis using that(2) [of u] u False t(1) by (simp add: solve_line_def)
  qed
qed

text \<open>
  Claim C36. The table of neighbours is computed without a failed assertion.  For every puzzle whose givens do not
  contradict each other, each of the three solvers ends, no assertion fails, the board printed as solved is a
  solution, and a puzzle is reported as unsolvable only if it has no solution; the arrays are fit for the next
  puzzle.  When two givens contradict each other and the remaining cells can be filled, the solvers, which compare
  only the cells they fill, report success and \<open>main\<close> aborts.
\<close>

theorem sudoku_solvers_correct:
  assumes "solver \<in> solvers" "81 \<le> length puzzle" "\<forall>c<81. digit_char (puzzle ! c)" "globals_ok s"
  shows "init_neighbors \<noteq> None
     \<and> (no_conflict (givens puzzle) \<longrightarrow>
          (\<exists>x s'. solve_line solver puzzle s = Some (x, s') \<and> globals_ok s'
             \<and> (case x of Some b \<Rightarrow> solution (givens puzzle) b | None \<Rightarrow> (\<nexists>b. solution (givens puzzle) b))))
     \<and> (\<not> no_conflict (givens puzzle) \<and> (\<exists>b. fills (givens puzzle) b) \<longrightarrow> solve_line solver puzzle s = None)"
proof -
  have init: "init_neighbors \<noteq> None" using init_neighbors_ok by auto
  show ?thesis
  proof (rule solve_line_outcome [OF assms])
    fix b s' assume "fills (givens puzzle) b" "globals_ok s'"
      "solve_line solver puzzle s = (if no_conflict (givens puzzle) then Some (Some b, s') else None)"
    then show ?thesis using init by (simp add: solution_iff)
  next
    fix s' assume "\<And>b. \<not> fills (givens puzzle) b" "globals_ok s'" "solve_line solver puzzle s = Some (None, s')"
    then show ?thesis using init by (simp add: solution_iff)
  qed
qed

theorem sudoku_solvers_correct_witness:
  "\<exists>x s'. solve_line solve_sudoku_min_arity_cache (replicate 81 (CHR ''0'')) (new_sudoku (the init_neighbors)) = Some (x, s')
     \<and> (case x of Some b \<Rightarrow> solution (replicate 81 0) b | None \<Rightarrow> (\<nexists>b. solution (replicate 81 0) b))"
proof -
  let ?p = "replicate 81 (CHR ''0'')" and ?s = "new_sudoku (the init_neighbors)"
  have "\<forall>c<81. digit_char (?p ! c)" by (simp add: digit_char_def)
  moreover have "init_neighbors = Some (the init_neighbors)" using init_neighbors_ok by (metis option.sel)
  then have "globals_ok ?s" by (simp add: globals_ok_def new_sudoku_def N_CELLS_def)
  moreover have g: "givens ?p = replicate 81 0" by (simp add: givens_def)
  moreover have "no_conflict (replicate 81 0)" by (simp add: no_conflict_def)
  ultimately show ?thesis
    using sudoku_solvers_correct [of solve_sudoku_min_arity_cache ?p ?s] unfolding g by (auto simp: solvers_def)
qed

end
