(* ===== verification/LinkedLists.thy ===== *)
theory LinkedLists
  imports DataRefinement
begin

text \<open>
  The two linked lists of \<^verbatim>\<open>datastruct/list.cpp\<close> and \<^verbatim>\<open>datastruct/double_list.cpp\<close>, on an explicit memory.

  A pointer is an address or null, the memory a partial map from addresses to nodes: the value
  \<open>None\<close> of an operation is undefined behaviour (a null pointer followed, a node used after its
  \<open>delete\<close> or freed twice, an \<open>int\<close> size that overflows).  The exceptions the lists throw
  are values.  A node of the double list extends one of the single list by its back pointer, so
  the walks along \<open>next\<close> and their lemmas serve both.
\<close>

section \<open>Memory\<close>

type_synonym ptr = "addr option"

record 'a snode =
  nd_val :: 'a
  nd_next :: ptr

record 'a dnode = "'a snode" +
  nd_prev :: ptr

record 'n llist =
  ll_mem :: "addr \<rightharpoonup> 'n"
  ll_brk :: addr
  ll_head :: ptr
  ll_tail :: ptr
  ll_size :: int

definition deref :: "'n llist \<Rightarrow> ptr \<Rightarrow> 'n option" where
  "deref l p = do { a \<leftarrow> p; ll_mem l a }"

definition write_node :: "ptr \<Rightarrow> ('n \<Rightarrow> 'n) \<Rightarrow> 'n llist \<Rightarrow> 'n llist option" where
  "write_node p f l = do { a \<leftarrow> p; n \<leftarrow> ll_mem l a; Some (l\<lparr> ll_mem := (ll_mem l)(a \<mapsto> f n) \<rparr>) }"

definition alloc :: "'n \<Rightarrow> 'n llist \<Rightarrow> ptr \<times> 'n llist" where
  "alloc n l = (Some (ll_brk l), l\<lparr> ll_mem := (ll_mem l)(ll_brk l \<mapsto> n), ll_brk := ll_brk l + 1 \<rparr>)"

definition release :: "ptr \<Rightarrow> 'n llist \<Rightarrow> 'n llist option" where
  "release p l = do { a \<leftarrow> p; n \<leftarrow> ll_mem l a; Some (l\<lparr> ll_mem := (ll_mem l)(a := None) \<rparr>) }"

definition INT_MAX32 :: int where "INT_MAX32 = 2 ^ 31 - 1"

definition size_inc :: "'n llist \<Rightarrow> 'n llist option" where
  "size_inc l = do { check (ll_size l < INT_MAX32); Some (l\<lparr> ll_size := ll_size l + 1 \<rparr>) }"

definition size_dec :: "'n llist \<Rightarrow> 'n llist" where
  "size_dec l = l\<lparr> ll_size := ll_size l - 1 \<rparr>"

text \<open>The loop \<open>for (int i = 0; i < index; i++) p = p->next\<close>.\<close>

fun walk :: "('a, 'm) snode_scheme llist \<Rightarrow> nat \<Rightarrow> ptr \<Rightarrow> ptr option" where
  "walk l 0 p = Some p"
| "walk l (Suc n) p = do { nd \<leftarrow> deref l p; walk l n (nd_next nd) }"

text \<open>The values met from \<open>p\<close> until \<open>stop\<close>.\<close>

partial_function (option) values_to :: "('a, 'm) snode_scheme llist \<Rightarrow> ptr \<Rightarrow> ptr \<Rightarrow> 'a list option" where
  "values_to l stop p =
     (if p = stop then Some []
      else do { nd \<leftarrow> deref l p; vs \<leftarrow> values_to l stop (nd_next nd); Some (nd_val nd # vs) })"

section \<open>Exceptions and calls\<close>

datatype list_exn = Index_error int int | No_elements_to_remove | No_elements

datatype 'a list_res = Done | Val 'a | Num int | Flag bool

type_synonym ('a, 'n) list_out = "((list_exn + 'a list_res) \<times> 'n llist) option"

definition isElementIndex :: "'n llist \<Rightarrow> int \<Rightarrow> bool" where
  "isElementIndex l index \<longleftrightarrow> index \<ge> 0 \<and> index < ll_size l"

definition isPositionIndex :: "'n llist \<Rightarrow> int \<Rightarrow> bool" where
  "isPositionIndex l index \<longleftrightarrow> index \<ge> 0 \<and> index \<le> ll_size l"

definition checkElementIndex :: "'n llist \<Rightarrow> int \<Rightarrow> ('a, 'n) list_out \<Rightarrow> ('a, 'n) list_out" where
  "checkElementIndex l index body =
     (if isElementIndex l index then body else Some (Inl (Index_error index (ll_size l)), l))"

definition checkPositionIndex :: "'n llist \<Rightarrow> int \<Rightarrow> ('a, 'n) list_out \<Rightarrow> ('a, 'n) list_out" where
  "checkPositionIndex l index body =
     (if isPositionIndex l index then body else Some (Inl (Index_error index (ll_size l)), l))"

definition list_size :: "'n llist \<Rightarrow> int" where "list_size l = ll_size l"

definition ll_isEmpty :: "'n llist \<Rightarrow> bool" where "ll_isEmpty l \<longleftrightarrow> ll_size l = 0"

section \<open>The single list\<close>

definition SNode :: "'a \<Rightarrow> 'a snode" where
  "SNode v = \<lparr> nd_val = v, nd_next = None \<rparr>"

definition SingleLinkedList_new :: "'a \<Rightarrow> 'a snode llist" where
  "SingleLinkedList_new d =
     \<lparr> ll_mem = [0 \<mapsto> SNode d], ll_brk = 1, ll_head = Some 0, ll_tail = Some 0, ll_size = 0 \<rparr>"

definition sl_addFirst :: "'a \<Rightarrow> 'a snode llist \<Rightarrow> ('a, 'a snode) list_out" where
  "sl_addFirst e l =
     do { let (newNode, l) = alloc (SNode e) l;
          hd \<leftarrow> deref l (ll_head l);
          l \<leftarrow> write_node newNode (nd_next_update (\<lambda>_. nd_next hd)) l;
          l \<leftarrow> write_node (ll_head l) (nd_next_update (\<lambda>_. newNode)) l;
          let l = (if ll_size l = 0 then l\<lparr> ll_tail := newNode \<rparr> else l);
          l \<leftarrow> size_inc l;
          Some (Inr Done, l) }"

definition sl_addLast :: "'a \<Rightarrow> 'a snode llist \<Rightarrow> ('a, 'a snode) list_out" where
  "sl_addLast e l =
     do { let (newNode, l) = alloc (SNode e) l;
          l \<leftarrow> write_node (ll_tail l) (nd_next_update (\<lambda>_. newNode)) l;
          l \<leftarrow> size_inc (l\<lparr> ll_tail := newNode \<rparr>);
          Some (Inr Done, l) }"

definition sl_add :: "int \<Rightarrow> 'a \<Rightarrow> 'a snode llist \<Rightarrow> ('a, 'a snode) list_out" where
  "sl_add index element l =
     checkPositionIndex l index
       (if index = ll_size l then sl_addLast element l
        else do { prev \<leftarrow> walk l (nat index) (ll_head l);
                  let (newNode, l) = alloc (SNode element) l;
                  p \<leftarrow> deref l prev;
                  l \<leftarrow> write_node newNode (nd_next_update (\<lambda>_. nd_next p)) l;
                  l \<leftarrow> write_node prev (nd_next_update (\<lambda>_. newNode)) l;
                  l \<leftarrow> size_inc l;
                  Some (Inr Done, l) })"

definition sl_removeFirst :: "'a snode llist \<Rightarrow> ('a, 'a snode) list_out" where
  "sl_removeFirst l =
     (if ll_isEmpty l then Some (Inl No_elements_to_remove, l)
      else do { hd \<leftarrow> deref l (ll_head l);
                let first = nd_next hd;
                fst_nd \<leftarrow> deref l first;
                l \<leftarrow> write_node (ll_head l) (nd_next_update (\<lambda>_. nd_next fst_nd)) l;
                let l = (if ll_size l = 1 then l\<lparr> ll_tail := ll_head l \<rparr> else l);
                let l = size_dec l;
                nd \<leftarrow> deref l first;
                l \<leftarrow> release first l;
                Some (Inr (Val (nd_val nd)), l) })"

text \<open>The loop \<open>while (prev->next != tail) prev = prev->next\<close>.\<close>

partial_function (option) before_tail :: "('a, 'm) snode_scheme llist \<Rightarrow> ptr \<Rightarrow> ptr option" where
  "before_tail l prev =
     do { nd \<leftarrow> deref l prev;
          if nd_next nd = ll_tail l then Some prev else before_tail l (nd_next nd) }"

definition sl_removeLast :: "'a snode llist \<Rightarrow> ('a, 'a snode) list_out" where
  "sl_removeLast l =
     (if ll_isEmpty l then Some (Inl No_elements_to_remove, l)
      else do { prev \<leftarrow> before_tail l (ll_head l);
                nd \<leftarrow> deref l (ll_tail l);
                l \<leftarrow> release (ll_tail l) l;
                l \<leftarrow> write_node prev (nd_next_update (\<lambda>_. None)) l;
                let l = size_dec (l\<lparr> ll_tail := prev \<rparr>);
                Some (Inr (Val (nd_val nd)), l) })"

definition sl_remove :: "int \<Rightarrow> 'a snode llist \<Rightarrow> ('a, 'a snode) list_out" where
  "sl_remove index l =
     checkElementIndex l index
       (do { prev \<leftarrow> walk l (nat index) (ll_head l);
             p \<leftarrow> deref l prev;
             let nodeToRemove = nd_next p;
             r \<leftarrow> deref l nodeToRemove;
             l \<leftarrow> write_node prev (nd_next_update (\<lambda>_. nd_next r)) l;
             let l = (if index = ll_size l - 1 then l\<lparr> ll_tail := prev \<rparr> else l);
             let l = size_dec l;
             nd \<leftarrow> deref l nodeToRemove;
             l \<leftarrow> release nodeToRemove l;
             Some (Inr (Val (nd_val nd)), l) })"

definition sl_getNode :: "'a snode llist \<Rightarrow> int \<Rightarrow> ptr option" where
  "sl_getNode l index = do { hd \<leftarrow> deref l (ll_head l); walk l (nat index) (nd_next hd) }"

definition sl_getFirst :: "'a snode llist \<Rightarrow> ('a, 'a snode) list_out" where
  "sl_getFirst l =
     (if ll_isEmpty l then Some (Inl No_elements, l)
      else do { hd \<leftarrow> deref l (ll_head l); nd \<leftarrow> deref l (nd_next hd); Some (Inr (Val (nd_val nd)), l) })"

definition sl_getLast :: "'a snode llist \<Rightarrow> ('a, 'a snode) list_out" where
  "sl_getLast l =
     (if ll_isEmpty l then Some (Inl No_elements, l)
      else do { nd \<leftarrow> deref l (ll_tail l); Some (Inr (Val (nd_val nd)), l) })"

definition sl_get :: "int \<Rightarrow> 'a snode llist \<Rightarrow> ('a, 'a snode) list_out" where
  "sl_get index l =
     checkElementIndex l index
       (do { p \<leftarrow> sl_getNode l index; nd \<leftarrow> deref l p; Some (Inr (Val (nd_val nd)), l) })"

definition sl_set :: "int \<Rightarrow> 'a \<Rightarrow> 'a snode llist \<Rightarrow> ('a, 'a snode) list_out" where
  "sl_set index element l =
     checkElementIndex l index
       (do { p \<leftarrow> sl_getNode l index;
             nd \<leftarrow> deref l p;
             l \<leftarrow> write_node p (nd_val_update (\<lambda>_. element)) l;
             Some (Inr (Val (nd_val nd)), l) })"

text \<open>The loop of the destructor.\<close>

partial_function (option) sl_free :: "'a snode llist \<Rightarrow> ptr \<Rightarrow> 'a snode llist option" where
  "sl_free l p =
     (if p = None then Some l
      else do { nd \<leftarrow> deref l p; l \<leftarrow> release p l; sl_free l (nd_next nd) })"

definition SingleLinkedList_destroy :: "'a snode llist \<Rightarrow> 'a snode llist option" where
  "SingleLinkedList_destroy l = sl_free l (ll_head l)"

section \<open>The double list\<close>

definition DNode :: "'a \<Rightarrow> 'a dnode" where
  "DNode v = \<lparr> nd_val = v, nd_next = None, nd_prev = None \<rparr>"

definition DoubleLinkedList_new :: "'a \<Rightarrow> 'a dnode llist" where
  "DoubleLinkedList_new d =
     \<lparr> ll_mem = [0 \<mapsto> (DNode d)\<lparr> nd_next := Some 1 \<rparr>, 1 \<mapsto> (DNode d)\<lparr> nd_prev := Some 0 \<rparr>],
       ll_brk = 2, ll_head = Some 0, ll_tail = Some 1, ll_size = 0 \<rparr>"

definition dl_addLast :: "'a \<Rightarrow> 'a dnode llist \<Rightarrow> ('a, 'a dnode) list_out" where
  "dl_addLast e l =
     do { let (x, l) = alloc (DNode e) l;
          tail \<leftarrow> deref l (ll_tail l);
          let temp = nd_prev tail;
          l \<leftarrow> write_node temp (nd_next_update (\<lambda>_. x)) l;
          l \<leftarrow> write_node x (nd_prev_update (\<lambda>_. temp)) l;
          l \<leftarrow> write_node x (nd_next_update (\<lambda>_. ll_tail l)) l;
          l \<leftarrow> write_node (ll_tail l) (nd_prev_update (\<lambda>_. x)) l;
          l \<leftarrow> size_inc l;
          Some (Inr Done, l) }"

definition dl_addFirst :: "'a \<Rightarrow> 'a dnode llist \<Rightarrow> ('a, 'a dnode) list_out" where
  "dl_addFirst e l =
     do { let (x, l) = alloc (DNode e) l;
          hd \<leftarrow> deref l (ll_head l);
          let temp = nd_next hd;
          l \<leftarrow> write_node temp (nd_prev_update (\<lambda>_. x)) l;
          l \<leftarrow> write_node x (nd_next_update (\<lambda>_. temp)) l;
          l \<leftarrow> write_node (ll_head l) (nd_next_update (\<lambda>_. x)) l;
          l \<leftarrow> write_node x (nd_prev_update (\<lambda>_. ll_head l)) l;
          l \<leftarrow> size_inc l;
          Some (Inr Done, l) }"

text \<open>\<open>getNode\<close> repeats the index check of its callers, which it always passes.\<close>

definition dl_getNode :: "'a dnode llist \<Rightarrow> int \<Rightarrow> (ptr \<Rightarrow> ('a, 'a dnode) list_out) \<Rightarrow> ('a, 'a dnode) list_out" where
  "dl_getNode l index k =
     checkElementIndex l index
       (do { hd \<leftarrow> deref l (ll_head l); p \<leftarrow> walk l (nat index) (nd_next hd); k p })"

definition dl_add :: "int \<Rightarrow> 'a \<Rightarrow> 'a dnode llist \<Rightarrow> ('a, 'a dnode) list_out" where
  "dl_add index element l =
     checkPositionIndex l index
       (if index = ll_size l then dl_addLast element l
        else dl_getNode l index (\<lambda>p.
          do { nd \<leftarrow> deref l p;
               let temp = nd_prev nd;
               let (x, l) = alloc (DNode element) l;
               l \<leftarrow> write_node p (nd_prev_update (\<lambda>_. x)) l;
               l \<leftarrow> write_node temp (nd_next_update (\<lambda>_. x)) l;
               l \<leftarrow> write_node x (nd_prev_update (\<lambda>_. temp)) l;
               l \<leftarrow> write_node x (nd_next_update (\<lambda>_. p)) l;
               l \<leftarrow> size_inc l;
               Some (Inr Done, l) }))"

definition dl_removeFirst :: "'a dnode llist \<Rightarrow> ('a, 'a dnode) list_out" where
  "dl_removeFirst l =
     (if ll_size l < 1 then Some (Inl No_elements_to_remove, l)
      else do { hd \<leftarrow> deref l (ll_head l);
                let x = nd_next hd;
                nd \<leftarrow> deref l x;
                let temp = nd_next nd;
                l \<leftarrow> write_node (ll_head l) (nd_next_update (\<lambda>_. temp)) l;
                l \<leftarrow> write_node temp (nd_prev_update (\<lambda>_. ll_head l)) l;
                nd \<leftarrow> deref l x;
                l \<leftarrow> release x l;
                Some (Inr (Val (nd_val nd)), size_dec l) })"

definition dl_removeLast :: "'a dnode llist \<Rightarrow> ('a, 'a dnode) list_out" where
  "dl_removeLast l =
     (if ll_size l < 1 then Some (Inl No_elements_to_remove, l)
      else do { tail \<leftarrow> deref l (ll_tail l);
                let x = nd_prev tail;
                nd \<leftarrow> deref l x;
                let temp = nd_prev nd;
                l \<leftarrow> write_node (ll_tail l) (nd_prev_update (\<lambda>_. temp)) l;
                l \<leftarrow> write_node temp (nd_next_update (\<lambda>_. ll_tail l)) l;
                nd \<leftarrow> deref l x;
                l \<leftarrow> write_node x (nd_prev_update (\<lambda>_. None)) l;
                l \<leftarrow> write_node x (nd_next_update (\<lambda>_. None)) l;
                l \<leftarrow> release x l;
                Some (Inr (Val (nd_val nd)), size_dec l) })"

definition dl_remove :: "int \<Rightarrow> 'a dnode llist \<Rightarrow> ('a, 'a dnode) list_out" where
  "dl_remove index l =
     checkElementIndex l index
       (dl_getNode l index (\<lambda>x.
          do { nd \<leftarrow> deref l x;
               let prev = nd_prev nd;
               let nxt = nd_next nd;
               l \<leftarrow> write_node prev (nd_next_update (\<lambda>_. nxt)) l;
               l \<leftarrow> write_node nxt (nd_prev_update (\<lambda>_. prev)) l;
               nd \<leftarrow> deref l x;
               l \<leftarrow> write_node x (nd_prev_update (\<lambda>_. None)) l;
               l \<leftarrow> write_node x (nd_next_update (\<lambda>_. None)) l;
               l \<leftarrow> release x l;
               Some (Inr (Val (nd_val nd)), size_dec l) }))"

definition dl_get :: "int \<Rightarrow> 'a dnode llist \<Rightarrow> ('a, 'a dnode) list_out" where
  "dl_get index l =
     checkElementIndex l index
       (dl_getNode l index (\<lambda>p. do { nd \<leftarrow> deref l p; Some (Inr (Val (nd_val nd)), l) }))"

definition dl_getFirst :: "'a dnode llist \<Rightarrow> ('a, 'a dnode) list_out" where
  "dl_getFirst l =
     (if ll_size l < 1 then Some (Inl No_elements, l)
      else do { hd \<leftarrow> deref l (ll_head l); nd \<leftarrow> deref l (nd_next hd); Some (Inr (Val (nd_val nd)), l) })"

definition dl_getLast :: "'a dnode llist \<Rightarrow> ('a, 'a dnode) list_out" where
  "dl_getLast l =
     (if ll_size l < 1 then Some (Inl No_elements, l)
      else do { tail \<leftarrow> deref l (ll_tail l); nd \<leftarrow> deref l (nd_prev tail); Some (Inr (Val (nd_val nd)), l) })"

definition dl_set :: "int \<Rightarrow> 'a \<Rightarrow> 'a dnode llist \<Rightarrow> ('a, 'a dnode) list_out" where
  "dl_set index val l =
     checkElementIndex l index
       (dl_getNode l index (\<lambda>p.
          do { nd \<leftarrow> deref l p;
               l \<leftarrow> write_node p (nd_val_update (\<lambda>_. val)) l;
               Some (Inr (Val (nd_val nd)), l) }))"

text \<open>What \<open>display\<close> prints: the size and the values in the order of the list.\<close>

definition display :: "'a dnode llist \<Rightarrow> (int \<times> 'a list) option" where
  "display l = do { hd \<leftarrow> deref l (ll_head l); vs \<leftarrow> values_to l (ll_tail l) (nd_next hd); Some (ll_size l, vs) }"

partial_function (option) dl_clear :: "'a dnode llist \<Rightarrow> 'a dnode llist option" where
  "dl_clear l = (if ll_size l > 0 then do { (r, l) \<leftarrow> dl_removeFirst l; dl_clear l } else Some l)"

definition DoubleLinkedList_destroy :: "'a dnode llist \<Rightarrow> 'a dnode llist option" where
  "DoubleLinkedList_destroy l =
     do { l \<leftarrow> dl_clear l;
          l \<leftarrow> release (ll_head l) l;
          l \<leftarrow> release (ll_tail l) (l\<lparr> ll_head := None \<rparr>);
          Some (l\<lparr> ll_tail := None \<rparr>) }"

section \<open>Runs of a client\<close>

datatype 'a list_op = AddFirst 'a | AddLast 'a | Add int 'a | RemoveFirst | RemoveLast | Remove int
  | GetFirst | GetLast | Get int | SetAt int 'a | Size | IsEmpty

fun sl_call :: "'a list_op \<Rightarrow> 'a snode llist \<Rightarrow> ('a, 'a snode) list_out" where
  "sl_call (AddFirst e) l = sl_addFirst e l"
| "sl_call (AddLast e) l = sl_addLast e l"
| "sl_call (Add i e) l = sl_add i e l"
| "sl_call RemoveFirst l = sl_removeFirst l"
| "sl_call RemoveLast l = sl_removeLast l"
| "sl_call (Remove i) l = sl_remove i l"
| "sl_call GetFirst l = sl_getFirst l"
| "sl_call GetLast l = sl_getLast l"
| "sl_call (Get i) l = sl_get i l"
| "sl_call (SetAt i e) l = sl_set i e l"
| "sl_call Size l = Some (Inr (Num (list_size l)), l)"
| "sl_call IsEmpty l = Some (Inr (Flag (ll_isEmpty l)), l)"

fun dl_call :: "'a list_op \<Rightarrow> 'a dnode llist \<Rightarrow> ('a, 'a dnode) list_out" where
  "dl_call (AddFirst e) l = dl_addFirst e l"
| "dl_call (AddLast e) l = dl_addLast e l"
| "dl_call (Add i e) l = dl_add i e l"
| "dl_call RemoveFirst l = dl_removeFirst l"
| "dl_call RemoveLast l = dl_removeLast l"
| "dl_call (Remove i) l = dl_remove i l"
| "dl_call GetFirst l = dl_getFirst l"
| "dl_call GetLast l = dl_getLast l"
| "dl_call (Get i) l = dl_get i l"
| "dl_call (SetAt i e) l = dl_set i e l"
| "dl_call Size l = Some (Inr (Num (list_size l)), l)"
| "dl_call IsEmpty l = Some (Inr (Flag (ll_isEmpty l)), l)"

text \<open>A step of a run: its answer, \<open>None\<close> for undefined behaviour, and the list after it.\<close>

definition call_step :: "('n llist \<Rightarrow> ('a, 'n) list_out) \<Rightarrow> 'n llist \<Rightarrow> (list_exn + 'a list_res) option \<times> 'n llist" where
  "call_step f l = (case f l of None \<Rightarrow> (None, l) | Some (r, l') \<Rightarrow> (Some r, l'))"

text \<open>The specification: the operations on a list of values.\<close>

definition grow_spec :: "'a list \<Rightarrow> 'a list \<Rightarrow> (list_exn + 'a list_res) option \<times> 'a list" where
  "grow_spec xs ys = (if int (length xs) < INT_MAX32 then (Some (Inr Done), ys) else (None, xs))"

definition index_spec ::
  "int \<Rightarrow> 'a list \<Rightarrow> 'a list \<Rightarrow> (list_exn + 'a list_res) option \<times> 'a list" where
  "index_spec i xs ys =
     (if 0 \<le> i \<and> i < int (length xs) then (Some (Inr (Val (xs ! nat i))), ys)
      else (Some (Inl (Index_error i (int (length xs)))), xs))"

fun list_spec :: "'a list_op \<Rightarrow> 'a list \<Rightarrow> (list_exn + 'a list_res) option \<times> 'a list" where
  "list_spec (AddFirst e) xs = grow_spec xs (e # xs)"
| "list_spec (AddLast e) xs = grow_spec xs (xs @ [e])"
| "list_spec (Add i e) xs =
     (if 0 \<le> i \<and> i \<le> int (length xs) then grow_spec xs (take (nat i) xs @ e # drop (nat i) xs)
      else (Some (Inl (Index_error i (int (length xs)))), xs))"
| "list_spec RemoveFirst xs = (if xs = [] then (Some (Inl No_elements_to_remove), xs) else (Some (Inr (Val (hd xs))), tl xs))"
| "list_spec RemoveLast xs = (if xs = [] then (Some (Inl No_elements_to_remove), xs) else (Some (Inr (Val (last xs))), butlast xs))"
| "list_spec (Remove i) xs = index_spec i xs (take (nat i) xs @ drop (nat i + 1) xs)"
| "list_spec GetFirst xs = (if xs = [] then (Some (Inl No_elements), xs) else (Some (Inr (Val (hd xs))), xs))"
| "list_spec GetLast xs = (if xs = [] then (Some (Inl No_elements), xs) else (Some (Inr (Val (last xs))), xs))"
| "list_spec (Get i) xs = index_spec i xs xs"
| "list_spec (SetAt i e) xs = index_spec i xs (xs[nat i := e])"
| "list_spec Size xs = (Some (Inr (Num (int (length xs)))), xs)"
| "list_spec IsEmpty xs = (Some (Inr (Flag (xs = []))), xs)"

declare values_to.simps [code] and before_tail.simps [code] and sl_free.simps [code] and dl_clear.simps [code]


section \<open>Chains of nodes\<close>

lemma deref_Some [simp]: "deref l (Some a) = ll_mem l a"
  by (simp add: deref_def)

lemma write_node_Some [simp]: "ll_mem l a = Some n \<Longrightarrow> write_node (Some a) f l = Some (l\<lparr> ll_mem := (ll_mem l)(a \<mapsto> f n) \<rparr>)"
  by (simp add: write_node_def)

lemma release_Some [simp]: "ll_mem l a = Some n \<Longrightarrow> release (Some a) l = Some (l\<lparr> ll_mem := (ll_mem l)(a := None) \<rparr>)"
  by (simp add: release_def)

text \<open>The pointer to the first node of a segment that ends before \<open>nx\<close>, and to the last after \<open>pr\<close>.\<close>

definition first_of :: "(addr \<times> 'a) list \<Rightarrow> ptr \<Rightarrow> ptr" where
  "first_of zs nx = (case zs of [] \<Rightarrow> nx | z # _ \<Rightarrow> Some (fst z))"

definition last_of :: "ptr \<Rightarrow> (addr \<times> 'a) list \<Rightarrow> ptr" where
  "last_of pr zs = (if zs = [] then pr else Some (fst (last zs)))"

lemma first_of_simps [simp]: "first_of [] nx = nx" "first_of (z # zs) nx = Some (fst z)"
  "first_of (xs @ ys) nx = first_of xs (first_of ys nx)"
  by (auto simp: first_of_def split: list.split)

lemma last_of_simps [simp]: "last_of pr [] = pr" "last_of pr (z # zs) = last_of (Some (fst z)) zs"
  "last_of pr (xs @ ys) = last_of (last_of pr xs) ys"
  by (auto simp: last_of_def)

fun linked :: "(addr \<rightharpoonup> ('a, 'm) snode_scheme) \<Rightarrow> (addr \<times> 'a) list \<Rightarrow> ptr \<Rightarrow> bool" where
  "linked m [] nx \<longleftrightarrow> True"
| "linked m ((a, v) # zs) nx \<longleftrightarrow>
     (\<exists>n. m a = Some n \<and> nd_val n = v \<and> nd_next n = first_of zs nx) \<and> linked m zs nx"

lemma linked_append [simp]: "linked m (xs @ ys) nx \<longleftrightarrow> linked m xs (first_of ys nx) \<and> linked m ys nx"
  by (induction xs) auto

lemma linked_frame [simp]: "a \<notin> fst ` set zs \<Longrightarrow> linked (m(a := k)) zs nx \<longleftrightarrow> linked m zs nx"
  by (induction zs) auto

lemma linked_walk:
  "linked (ll_mem l) (us @ ws) nx \<Longrightarrow> walk l (length us) (first_of (us @ ws) nx) = Some (first_of ws nx)"
proof (induction us)
  case (Cons u us)
  then show ?case by (cases u) auto
qed simp

lemma linked_values:
  "linked (ll_mem l) zs stop \<Longrightarrow> \<forall>z \<in> set zs. stop \<noteq> Some (fst z) \<Longrightarrow>
   values_to l stop (first_of zs stop) = Some (map snd zs)"
proof (induction zs)
  case (Cons z zs)
  then show ?case by (cases z) (subst values_to.simps, auto)
qed (subst values_to.simps, simp)

section \<open>Simulation of a call\<close>

text \<open>
  \<open>nodes l zs\<close>: the list \<open>l\<close> consists of the nodes \<open>zs\<close>, an address and a value each, the
  sentinel at the head first.  A call is simulated when its answer and the values it leaves are
  those of the specification.
\<close>

definition call_sim ::
  "('a list_op \<Rightarrow> 'n llist \<Rightarrow> ('a, 'n) list_out) \<Rightarrow> ('n llist \<Rightarrow> (addr \<times> 'a) list \<Rightarrow> bool) \<Rightarrow>
   'a list_op \<Rightarrow> 'n llist \<Rightarrow> (addr \<times> 'a) list \<Rightarrow> bool" where
  "call_sim call nodes op l zs \<longleftrightarrow>
     (\<exists>zs'. nodes (snd (call_step (call op) l)) zs' \<and>
       (fst (call_step (call op) l), map snd (tl zs')) = list_spec op (map snd (tl zs)))"

lemma sim_query:
  "nodes l zs \<Longrightarrow> call op l = Some (r, l) \<Longrightarrow> list_spec op (map snd (tl zs)) = (Some r, map snd (tl zs)) \<Longrightarrow>
   call_sim call nodes op l zs"
  unfolding call_sim_def call_step_def by auto

lemma sim_undefined:
  "nodes l zs \<Longrightarrow> call op l = None \<Longrightarrow> list_spec op (map snd (tl zs)) = (None, map snd (tl zs)) \<Longrightarrow>
   call_sim call nodes op l zs"
  unfolding call_sim_def call_step_def by auto

lemma sim_update:
  "call op l = Some (r, l') \<Longrightarrow> nodes l' zs' \<Longrightarrow> list_spec op (map snd (tl zs)) = (Some r, map snd (tl zs')) \<Longrightarrow>
   call_sim call nodes op l zs"
  unfolding call_sim_def call_step_def by auto

lemma sim_same:
  "call_sim call nodes op' l zs \<Longrightarrow> call op l = call op' l \<Longrightarrow>
   list_spec op (map snd (tl zs)) = list_spec op' (map snd (tl zs)) \<Longrightarrow> call_sim call nodes op l zs"
  unfolding call_sim_def call_step_def by simp

text \<open>A linked list: every call is simulated and \<open>absf\<close> reads the values off the nodes.\<close>

locale linked_list =
  fixes call :: "'a list_op \<Rightarrow> 'n llist \<Rightarrow> ('a, 'n) list_out"
    and nodes :: "'n llist \<Rightarrow> (addr \<times> 'a) list \<Rightarrow> bool"
    and absf :: "'n llist \<Rightarrow> 'a list"
  assumes simulates: "nodes l zs \<Longrightarrow> call_sim call nodes op l zs"
    and absf_eq: "nodes l zs \<Longrightarrow> absf l = map snd (tl zs)"

sublocale linked_list \<subseteq> data_refinement "\<lambda>op. call_step (call op)" list_spec absf "\<lambda>l. \<exists>zs. nodes l zs"
proof
  fix l :: "'n llist" and op :: "'a list_op"
  assume "\<exists>zs. nodes l zs"
  then obtain zs where zs: "nodes l zs" ..
  with simulates [OF this, of op] obtain zs' where *: "nodes (snd (call_step (call op) l)) zs'"
    "(fst (call_step (call op) l), map snd (tl zs')) = list_spec op (map snd (tl zs))"
    unfolding call_sim_def by blast
  then show "\<exists>zs. nodes (snd (call_step (call op) l)) zs"
    "fst (call_step (call op) l) = fst (list_spec op (absf l))"
    "absf (snd (call_step (call op) l)) = snd (list_spec op (absf l))"
    using absf_eq [OF zs] absf_eq [OF *(1)] by (metis fst_conv snd_conv)+
qed

context linked_list
begin

text \<open>A run from a list with no element beside its sentinel.\<close>

lemma run_from_empty:
  assumes "nodes l [z]"
  shows "fst (run_ops (\<lambda>op. call_step (call op)) ops l) = fst (run_ops list_spec ops [])"
    and "\<exists>zs. nodes (snd (run_ops (\<lambda>op. call_step (call op)) ops l)) zs \<and>
           map snd (tl zs) = snd (run_ops list_spec ops [])"
proof -
  have ok: "\<exists>zs. nodes l zs" "absf l = []" using assms absf_eq [OF assms] by auto
  then show "fst (run_ops (\<lambda>op. call_step (call op)) ops l) = fst (run_ops list_spec ops [])"
    using runs_agree [OF ok(1), of ops] by simp
  show "\<exists>zs. nodes (snd (run_ops (\<lambda>op. call_step (call op)) ops l)) zs \<and>
           map snd (tl zs) = snd (run_ops list_spec ops [])"
    using runs_agree [OF ok(1), of ops] ok(2) absf_eq by (metis (no_types, lifting))
qed

end

section \<open>The single list refines a list\<close>

definition sl_inv :: "'a snode llist \<Rightarrow> (addr \<times> 'a) list \<Rightarrow> bool" where
  "sl_inv l zs \<longleftrightarrow>
     linked (ll_mem l) zs None \<and> distinct (map fst zs) \<and> dom (ll_mem l) = fst ` set zs \<and>
     (\<forall>a \<in> fst ` set zs. a < ll_brk l) \<and> zs \<noteq> [] \<and> ll_head l = first_of zs None \<and>
     ll_tail l = last_of None zs \<and> ll_size l = int (length zs) - 1"

lemma sl_fresh: "sl_inv l zs \<Longrightarrow> ll_brk l \<notin> fst ` set zs"
  unfolding sl_inv_def by blast

lemma sl_insert:
  assumes "sl_inv l (us @ (a, v) # ws)" "ll_mem l a = Some n"
  shows "sl_inv (l\<lparr> ll_mem := (ll_mem l)(ll_brk l \<mapsto> \<lparr> nd_val = e, nd_next = first_of ws None \<rparr>,
                                          a \<mapsto> n\<lparr> nd_next := Some (ll_brk l) \<rparr>),
                    ll_brk := ll_brk l + 1, ll_tail := (if ws = [] then Some (ll_brk l) else ll_tail l),
                    ll_size := ll_size l + 1 \<rparr>) (us @ (a, v) # (ll_brk l, e) # ws)"
proof -
  have new: "ll_brk l \<notin> fst ` set us" "ll_brk l \<notin> fst ` set ws" "ll_brk l \<noteq> a"
    using sl_fresh [OF assms(1)] by auto
  show ?thesis
    using assms new unfolding sl_inv_def
    by (auto simp: last_of_def less_Suc_eq)
qed

lemma sl_delete:
  assumes "sl_inv l (us @ (a, v) # (b, w) # ws)" "ll_mem l a = Some n"
  shows "sl_inv (l\<lparr> ll_mem := (ll_mem l)(a \<mapsto> n\<lparr> nd_next := first_of ws None \<rparr>, b := None),
                    ll_tail := (if ws = [] then Some a else ll_tail l),
                    ll_size := ll_size l - 1 \<rparr>) (us @ (a, v) # ws)"
  using assms unfolding sl_inv_def by (auto simp: last_of_def)


definition sl_abs :: "'a snode llist \<Rightarrow> 'a list" where
  "sl_abs l = the (do { hd \<leftarrow> deref l (ll_head l); values_to l None (nd_next hd) })"

lemma sl_abs_eq: "sl_inv l zs \<Longrightarrow> sl_abs l = map snd (tl zs)"
  using linked_values [of l "tl zs" None]
  by (cases zs) (auto simp: sl_inv_def sl_abs_def)

lemma sl_size: "sl_inv l zs \<Longrightarrow> ll_size l = int (length (tl zs)) \<and> zs \<noteq> []"
  by (cases zs) (auto simp: sl_inv_def)

text \<open>The three ways the code links a new node behind the node \<open>a\<close>.\<close>

lemma sl_grow:
  assumes inv: "sl_inv l (us @ (a, v) # ws)"
    and call: "ll_mem l a = Some n \<Longrightarrow> sl_call op l =
        (if ll_size l < INT_MAX32
         then Some (Inr Done, l\<lparr> ll_mem := (ll_mem l)(ll_brk l \<mapsto> \<lparr> nd_val = e, nd_next = first_of ws None \<rparr>,
                                          a \<mapsto> n\<lparr> nd_next := Some (ll_brk l) \<rparr>),
                    ll_brk := ll_brk l + 1, ll_tail := (if ws = [] then Some (ll_brk l) else ll_tail l),
                    ll_size := ll_size l + 1 \<rparr>) else None)"
    and spec: "list_spec op (map snd (tl (us @ (a, v) # ws))) =
        grow_spec (map snd (tl (us @ (a, v) # ws))) (map snd (tl (us @ (a, v) # (ll_brk l, e) # ws)))"
    and n: "ll_mem l a = Some n"
  shows "call_sim sl_call sl_inv op l (us @ (a, v) # ws)"
proof (cases "ll_size l < INT_MAX32")
  case True
  with inv call [OF n] spec sl_insert [OF inv n, of e] sl_size [OF inv] show ?thesis
    by (intro sim_update) (auto simp: grow_spec_def)
next
  case False
  with inv call [OF n] spec sl_size [OF inv] show ?thesis
    by (intro sim_undefined) (auto simp: grow_spec_def)
qed


lemmas ll_defs = alloc_def Let_def size_inc_def size_dec_def SNode_def DNode_def check_def
  isElementIndex_def isPositionIndex_def checkElementIndex_def checkPositionIndex_def ll_isEmpty_def

lemma sl_sim_addFirst:
  assumes inv: "sl_inv l zs"
  shows "call_sim sl_call sl_inv (AddFirst e) l zs"
proof -
  obtain a v ws where zs: "zs = (a, v) # ws" using sl_size [OF inv] by (cases zs) auto
  obtain n where n: "ll_mem l a = Some n" "nd_next n = first_of ws None"
    using inv by (auto simp: zs sl_inv_def)
  show ?thesis
    unfolding zs
    by (rule sl_grow [of _ "[]", simplified, OF _ _ _ n(1)])
      (use inv n sl_fresh [OF inv] in \<open>auto simp: zs sl_inv_def sl_addFirst_def ll_defs\<close>)
qed

lemma sl_sim_addLast:
  assumes inv: "sl_inv l zs"
  shows "call_sim sl_call sl_inv (AddLast e) l zs"
proof -
  obtain us a v where zs: "zs = us @ [(a, v)]" using sl_size [OF inv] by (cases zs rule: rev_cases) auto
  obtain n where n: "ll_mem l a = Some n" "nd_next n = None"
    using inv by (auto simp: zs sl_inv_def)
  show ?thesis
    unfolding zs
    by (rule sl_grow [OF inv [unfolded zs] _ _ n(1)])
      (use inv n sl_fresh [OF inv] in \<open>auto simp: zs sl_inv_def sl_addLast_def ll_defs tl_append split: list.split\<close>)
qed


lemma split_at:
  assumes "i < length zs"
  obtains us a v ws where "zs = us @ (a, v) # ws" "length us = i"
proof
  show "zs = take i zs @ (fst (zs ! i), snd (zs ! i)) # drop (Suc i) zs"
    using id_take_nth_drop [OF assms] by simp
  show "length (take i zs) = i" using assms by simp
qed

lemma split_pair:
  assumes "Suc i < length zs"
  obtains us a v b w ws where "zs = us @ (a, v) # (b, w) # ws" "length us = i"
proof -
  obtain us a v rest where zs: "zs = us @ (a, v) # rest" "length us = i"
    using split_at [of i zs] assms by (metis Suc_lessD)
  with assms obtain z ws where "rest = z # ws" by (cases rest) auto
  with zs that show thesis by (cases z) auto
qed

lemma sl_walk_head: "sl_inv l (us @ (a, v) # ws) \<Longrightarrow> walk l (length us) (ll_head l) = Some (Some a)"
  using linked_walk [of l us "(a, v) # ws" None] by (simp add: sl_inv_def)

lemma sl_sim_add:
  assumes inv: "sl_inv l zs"
  shows "call_sim sl_call sl_inv (Add i e) l zs"
proof (cases "0 \<le> i \<and> i < ll_size l")
  case True
  then have "Suc (nat i) < length zs" using sl_size [OF inv] by auto
  then obtain us a v ws where zs: "zs = us @ (a, v) # ws" "length us = nat i" "ws \<noteq> []"
    by (elim split_pair) blast
  obtain n where n: "ll_mem l a = Some n" "nd_next n = first_of ws None"
    using inv by (auto simp: zs sl_inv_def)
  have walk: "walk l (nat i) (ll_head l) = Some (Some a)"
    using sl_walk_head inv zs by metis
  show ?thesis
    unfolding zs
  proof (rule sl_grow [OF inv [unfolded zs] _ _ n(1)])
    show "list_spec (Add i e) (map snd (tl (us @ (a, v) # ws))) =
        grow_spec (map snd (tl (us @ (a, v) # ws))) (map snd (tl (us @ (a, v) # (ll_brk l, e) # ws)))"
      using True zs(1,3) zs(2) [symmetric] sl_size [OF inv] by (cases us) auto
    show "sl_call (Add i e) l =
        (if ll_size l < INT_MAX32
         then Some (Inr Done, l\<lparr> ll_mem := (ll_mem l)(ll_brk l \<mapsto> \<lparr> nd_val = e, nd_next = first_of ws None \<rparr>,
                                          a \<mapsto> n\<lparr> nd_next := Some (ll_brk l) \<rparr>),
                    ll_brk := ll_brk l + 1, ll_tail := (if ws = [] then Some (ll_brk l) else ll_tail l),
                    ll_size := ll_size l + 1 \<rparr>) else None)"
      using True walk n zs sl_fresh [OF inv] by (auto simp: sl_add_def ll_defs)
  qed
next
  case False
  show ?thesis
  proof (cases "i = ll_size l")
    case True
    with sl_size [OF inv] show ?thesis
      by (intro sim_same [OF sl_sim_addLast [OF inv, of e]]) (simp_all add: sl_add_def ll_defs)
  next
    case no: False
    with False sl_size [OF inv] show ?thesis
      by (intro sim_query [of sl_inv, OF inv]) (auto simp: sl_add_def ll_defs)
  qed
qed

text \<open>The ways the code unlinks the node \<open>b\<close> behind the node \<open>a\<close>.\<close>

lemma sl_shrink:
  assumes inv: "sl_inv l (us @ (a, v) # (b, w) # ws)" and n: "ll_mem l a = Some n"
    and call: "sl_call op l =
        Some (Inr (Val w), l\<lparr> ll_mem := (ll_mem l)(a \<mapsto> n\<lparr> nd_next := first_of ws None \<rparr>, b := None),
                    ll_tail := (if ws = [] then Some a else ll_tail l), ll_size := ll_size l - 1 \<rparr>)"
    and spec: "list_spec op (map snd (tl (us @ (a, v) # (b, w) # ws))) =
        (Some (Inr (Val w)), map snd (tl (us @ (a, v) # ws)))"
  shows "call_sim sl_call sl_inv op l (us @ (a, v) # (b, w) # ws)"
  using call sl_delete [OF inv n] spec by (rule sim_update)

lemma sl_pair:
  assumes "sl_inv l (us @ (a, v) # (b, w) # ws)"
  obtains n k where "ll_mem l a = Some n" "nd_next n = Some b" "ll_mem l b = Some k" "nd_val k = w"
    "nd_next k = first_of ws None" "a \<noteq> b"
  using assms by (auto simp: sl_inv_def)

lemma sl_sim_removeFirst:
  assumes inv: "sl_inv l zs"
  shows "call_sim sl_call sl_inv RemoveFirst l zs"
proof (cases "tl zs")
  case Nil
  with inv sl_size [OF inv] show ?thesis
    by (intro sim_query [of sl_inv, OF inv]) (auto simp: sl_removeFirst_def ll_defs)
next
  case (Cons z ws)
  then obtain a v b w where zs: "zs = [] @ (a, v) # (b, w) # ws" by (cases zs; cases z) auto
  obtain n k where nk: "ll_mem l a = Some n" "nd_next n = Some b" "ll_mem l b = Some k" "nd_val k = w"
    "nd_next k = first_of ws None" "a \<noteq> b" using sl_pair inv zs by metis
  show ?thesis
    unfolding zs
    by (rule sl_shrink [OF inv [unfolded zs] nk(1)])
      (use inv nk in \<open>auto simp: zs sl_inv_def sl_removeFirst_def ll_defs\<close>)
qed

lemma sl_sim_remove:
  assumes inv: "sl_inv l zs"
  shows "call_sim sl_call sl_inv (Remove i) l zs"
proof (cases "0 \<le> i \<and> i < ll_size l")
  case True
  then have "Suc (nat i) < length zs" using sl_size [OF inv] by auto
  then obtain us a v b w ws where zs: "zs = us @ (a, v) # (b, w) # ws" "length us = nat i"
    by (rule split_pair)
  obtain n k where nk: "ll_mem l a = Some n" "nd_next n = Some b" "ll_mem l b = Some k" "nd_val k = w"
    "nd_next k = first_of ws None" "a \<noteq> b" using sl_pair inv zs(1) by metis
  have walk: "walk l (nat i) (ll_head l) = Some (Some a)"
    using sl_walk_head inv zs by metis
  have sz: "ll_size l = i + 1 + int (length ws)" using True zs sl_size [OF inv] by auto
  show ?thesis
    unfolding zs
  proof (rule sl_shrink [OF inv [unfolded zs] nk(1)])
    show "list_spec (Remove i) (map snd (tl (us @ (a, v) # (b, w) # ws))) =
        (Some (Inr (Val w)), map snd (tl (us @ (a, v) # ws)))"
      using True zs(2) [symmetric] by (cases us) (auto simp: index_spec_def nth_append)
    show "sl_call (Remove i) l =
        Some (Inr (Val w), l\<lparr> ll_mem := (ll_mem l)(a \<mapsto> n\<lparr> nd_next := first_of ws None \<rparr>, b := None),
                    ll_tail := (if ws = [] then Some a else ll_tail l), ll_size := ll_size l - 1 \<rparr>)"
      using True walk nk sz by (auto simp: sl_remove_def ll_defs)
  qed
next
  case False
  with sl_size [OF inv] show ?thesis
    by (intro sim_query [of sl_inv, OF inv]) (auto simp: sl_remove_def ll_defs index_spec_def)
qed


lemma linked_before_tail:
  "linked (ll_mem l) (us @ [(a, v), (b, w)]) None \<Longrightarrow> ll_tail l = Some b \<Longrightarrow>
   distinct (map fst (us @ [(a, v), (b, w)])) \<Longrightarrow>
   before_tail l (first_of (us @ [(a, v), (b, w)]) None) = Some (Some a)"
proof (induction us)
  case Nil
  then show ?case by (subst before_tail.simps) auto
next
  case (Cons u us)
  then show ?case by (cases u; cases us) (subst before_tail.simps, auto)+
qed

lemma sl_sim_removeLast:
  assumes inv: "sl_inv l zs"
  shows "call_sim sl_call sl_inv RemoveLast l zs"
proof (cases "tl zs" rule: rev_cases)
  case Nil
  with inv sl_size [OF inv] show ?thesis
    by (intro sim_query [of sl_inv, OF inv]) (auto simp: sl_removeLast_def ll_defs)
next
  case (snoc ys z)
  then have "Suc (length ys) < length zs" "length zs = length ys + 2"
    using sl_size [OF inv] by (cases zs; simp)+
  then obtain us a v b w where zs: "zs = us @ (a, v) # (b, w) # []"
    by (elim split_pair) auto
  obtain n k where nk: "ll_mem l a = Some n" "nd_next n = Some b" "ll_mem l b = Some k" "nd_val k = w"
    "nd_next k = None" "a \<noteq> b" by (rule sl_pair [OF inv [unfolded zs]]) simp
  have t: "ll_tail l = Some b" using inv by (simp add: zs sl_inv_def)
  have prev: "before_tail l (ll_head l) = Some (Some a)"
    using inv t linked_before_tail [of l us a v b w] by (simp add: zs sl_inv_def)
  show ?thesis
    unfolding zs
  proof (rule sl_shrink [OF inv [unfolded zs] nk(1)])
    show "list_spec RemoveLast (map snd (tl (us @ [(a, v), (b, w)]))) =
        (Some (Inr (Val w)), map snd (tl (us @ [(a, v)])))"
      by (cases us) (auto simp: butlast_append)
    show "sl_call RemoveLast l =
        Some (Inr (Val w), l\<lparr> ll_mem := (ll_mem l)(a \<mapsto> n\<lparr> nd_next := first_of [] None \<rparr>, b := None),
                    ll_tail := (if [] = [] then Some a else ll_tail l), ll_size := ll_size l - 1 \<rparr>)"
      using nk prev t sl_size [OF inv] zs
      by (cases us) (auto simp: sl_removeLast_def ll_defs fun_upd_twist)
  qed
qed

text \<open>Reading and writing the node at an index.\<close>

lemma sl_getNode_at:
  assumes "sl_inv l zs" "0 \<le> i" "i < ll_size l"
  obtains us a v ws n where "zs = us @ (a, v) # ws" "length us = Suc (nat i)"
    "sl_getNode l i = Some (Some a)" "ll_mem l a = Some n" "nd_val n = v" "nd_next n = first_of ws None"
proof -
  obtain h d xs where zs: "zs = (h, d) # xs" using sl_size [OF assms(1)] by (cases zs) auto
  with sl_size [OF assms(1)] assms(2,3) have "nat i < length xs" by auto
  then obtain us a v ws where xs: "xs = us @ (a, v) # ws" "length us = nat i" by (rule split_at)
  have "sl_getNode l i = Some (Some a)"
    using assms(1) linked_walk [of l us "(a, v) # ws" None] xs
    by (auto simp: zs sl_inv_def sl_getNode_def)
  moreover obtain n where "ll_mem l a = Some n" "nd_val n = v" "nd_next n = first_of ws None"
    using assms(1) by (auto simp: zs xs(1) sl_inv_def)
  ultimately show thesis using that [of "(h, d) # us"] zs xs by auto
qed

lemma sl_sim_get:
  assumes inv: "sl_inv l zs"
  shows "call_sim sl_call sl_inv (Get i) l zs"
proof (cases "0 \<le> i \<and> i < ll_size l")
  case True
  then obtain us a v ws n where a: "zs = us @ (a, v) # ws" "length us = Suc (nat i)"
    "sl_getNode l i = Some (Some a)" "ll_mem l a = Some n" "nd_val n = v" "nd_next n = first_of ws None"
    using sl_getNode_at [OF inv] by metis
  with True sl_size [OF inv] show ?thesis
    by (intro sim_query [of sl_inv, OF inv]) (auto simp: sl_get_def ll_defs index_spec_def nth_tl nth_append)
next
  case False
  with sl_size [OF inv] show ?thesis
    by (intro sim_query [of sl_inv, OF inv]) (auto simp: sl_get_def ll_defs index_spec_def)
qed

lemma sl_sim_set:
  assumes inv: "sl_inv l zs"
  shows "call_sim sl_call sl_inv (SetAt i e) l zs"
proof (cases "0 \<le> i \<and> i < ll_size l")
  case True
  then obtain us a v ws n where a: "zs = us @ (a, v) # ws" "length us = Suc (nat i)"
    "sl_getNode l i = Some (Some a)" "ll_mem l a = Some n" "nd_val n = v" "nd_next n = first_of ws None"
    using sl_getNode_at [OF inv] by metis
  let ?l = "l\<lparr> ll_mem := (ll_mem l)(a \<mapsto> n\<lparr> nd_val := e \<rparr>) \<rparr>"
  have "sl_inv ?l (us @ (a, e) # ws)"
    using inv a(4-6) unfolding a(1) sl_inv_def by (auto simp: last_of_def)
  moreover have "sl_call (SetAt i e) l = Some (Inr (Val v), ?l)"
    using True a(3-5) by (simp add: sl_set_def ll_defs)
  moreover obtain u us' where "us = u # us'" using a(2) by (cases us) auto
  ultimately show ?thesis
    using True a(1) a(2) [symmetric] sl_size [OF inv]
    by (intro sim_update) (auto simp: index_spec_def nth_append list_update_append)
next
  case False
  with sl_size [OF inv] show ?thesis
    by (intro sim_query [of sl_inv, OF inv]) (auto simp: sl_set_def ll_defs index_spec_def)
qed

lemma sl_sim_ends:
  assumes inv: "sl_inv l zs"
  shows "call_sim sl_call sl_inv GetFirst l zs" "call_sim sl_call sl_inv GetLast l zs" "call_sim sl_call sl_inv Size l zs" "call_sim sl_call sl_inv IsEmpty l zs"
proof -
  obtain h d xs where zs: "zs = (h, d) # xs" using sl_size [OF inv] by (cases zs) auto
  show "call_sim sl_call sl_inv Size l zs" "call_sim sl_call sl_inv IsEmpty l zs"
    using sl_size [OF inv] by (intro sim_query [of sl_inv, OF inv]; simp add: zs list_size_def ll_isEmpty_def)+
  show "call_sim sl_call sl_inv GetFirst l zs"
  proof (cases xs)
    case Nil
    with inv show ?thesis
      by (intro sim_query [of sl_inv, OF inv]) (auto simp: zs sl_inv_def sl_getFirst_def ll_isEmpty_def)
  next
    case (Cons x ws)
    with inv show ?thesis
      by (cases x) (intro sim_query [of sl_inv, OF inv], auto simp: zs sl_inv_def sl_getFirst_def ll_isEmpty_def)
  qed
  show "call_sim sl_call sl_inv GetLast l zs"
  proof (cases xs rule: rev_cases)
    case Nil
    with inv show ?thesis
      by (intro sim_query [of sl_inv, OF inv]) (auto simp: zs sl_inv_def sl_getLast_def ll_isEmpty_def)
  next
    case (snoc ws x)
    with inv show ?thesis
      by (cases x) (intro sim_query [of sl_inv, OF inv], auto simp: zs sl_inv_def sl_getLast_def ll_isEmpty_def)
  qed
qed

lemma sl_simulates: "sl_inv l zs \<Longrightarrow> call_sim sl_call sl_inv op l zs"
  by (cases op) (simp_all add: sl_sim_addFirst sl_sim_addLast sl_sim_add sl_sim_removeFirst sl_sim_removeLast
      sl_sim_remove sl_sim_ends sl_sim_get sl_sim_set)

interpretation single: linked_list sl_call sl_inv sl_abs
  by unfold_locales (rule sl_simulates sl_abs_eq, assumption)+

lemma sl_free_linked:
  "linked (ll_mem l) zs None \<Longrightarrow> distinct (map fst zs) \<Longrightarrow> dom (ll_mem l) = fst ` set zs \<Longrightarrow>
   \<exists>l'. sl_free l (first_of zs None) = Some l' \<and> ll_mem l' = Map.empty"
proof (induction zs arbitrary: l)
  case Nil
  then show ?case by (subst sl_free.simps) auto
next
  case (Cons z zs)
  obtain a v where z: "z = (a, v)" by (cases z)
  with Cons.prems obtain n where n: "ll_mem l a = Some n" "nd_next n = first_of zs None" by auto
  let ?l = "l\<lparr> ll_mem := (ll_mem l)(a := None) \<rparr>"
  have "\<exists>l'. sl_free ?l (first_of zs None) = Some l' \<and> ll_mem l' = Map.empty"
  proof (rule Cons.IH)
    show "linked (ll_mem ?l) zs None" "distinct (map fst zs)" using Cons.prems z by auto
    show "dom (ll_mem ?l) = fst ` set zs" using Cons.prems(2,3) z by simp
  qed
  with n z show ?case by (subst sl_free.simps) simp
qed

lemma sl_destroy_frees: "sl_inv l zs \<Longrightarrow> \<exists>l'. SingleLinkedList_destroy l = Some l' \<and> ll_mem l' = Map.empty"
  using sl_free_linked unfolding sl_inv_def SingleLinkedList_destroy_def by metis

lemma sl_new_inv: "sl_inv (SingleLinkedList_new d) [(0, d)]"
  by (simp add: sl_inv_def SingleLinkedList_new_def SNode_def)


section \<open>The double list refines a list\<close>

fun dlinked :: "(addr \<rightharpoonup> 'a dnode) \<Rightarrow> ptr \<Rightarrow> (addr \<times> 'a) list \<Rightarrow> ptr \<Rightarrow> bool" where
  "dlinked m pr [] nx \<longleftrightarrow> True"
| "dlinked m pr ((a, v) # zs) nx \<longleftrightarrow>
     m a = Some \<lparr> nd_val = v, nd_next = first_of zs nx, nd_prev = pr \<rparr> \<and> dlinked m (Some a) zs nx"

lemma dlinked_append [simp]:
  "dlinked m pr (xs @ ys) nx \<longleftrightarrow> dlinked m pr xs (first_of ys nx) \<and> dlinked m (last_of pr xs) ys nx"
proof (induction xs arbitrary: pr)
  case (Cons z xs)
  then show ?case by (cases z) simp
qed simp

lemma dlinked_frame [simp]: "a \<notin> fst ` set zs \<Longrightarrow> dlinked (m(a := k)) pr zs nx \<longleftrightarrow> dlinked m pr zs nx"
proof (induction zs arbitrary: pr)
  case (Cons z zs)
  then show ?case by (cases z) simp
qed simp

lemma dlinked_linked: "dlinked m pr zs nx \<Longrightarrow> linked m zs nx"
  by (induction zs arbitrary: pr) auto

text \<open>All the nodes, the sentinels at both ends included.\<close>

definition dl_full :: "'a dnode llist \<Rightarrow> (addr \<times> 'a) list \<Rightarrow> bool" where
  "dl_full l zs \<longleftrightarrow>
     dlinked (ll_mem l) None zs None \<and> distinct (map fst zs) \<and> dom (ll_mem l) = fst ` set zs \<and>
     (\<forall>a \<in> fst ` set zs. a < ll_brk l) \<and> ll_head l = first_of zs None \<and>
     ll_tail l = last_of None zs \<and> ll_size l = int (length zs) - 2"

lemma dl_fresh: "dl_full l zs \<Longrightarrow> ll_brk l \<notin> fst ` set zs"
  unfolding dl_full_def by blast

lemma dl_insert:
  assumes "dl_full l (us @ (a, v) # (b, w) # ws)" "ll_mem l a = Some n" "ll_mem l b = Some k"
  shows "dl_full (l\<lparr> ll_mem := (ll_mem l)(ll_brk l \<mapsto> \<lparr> nd_val = e, nd_next = Some b, nd_prev = Some a \<rparr>,
                        a \<mapsto> n\<lparr> nd_next := Some (ll_brk l) \<rparr>, b \<mapsto> k\<lparr> nd_prev := Some (ll_brk l) \<rparr>),
                     ll_brk := ll_brk l + 1, ll_size := ll_size l + 1 \<rparr>)
           (us @ (a, v) # (ll_brk l, e) # (b, w) # ws)"
proof -
  have new: "ll_brk l \<notin> fst ` set us" "ll_brk l \<notin> fst ` set ws" "ll_brk l \<noteq> a" "ll_brk l \<noteq> b"
    using dl_fresh [OF assms(1)] by auto
  show ?thesis using assms new unfolding dl_full_def by (auto simp: last_of_def less_Suc_eq)
qed

lemma dl_delete:
  assumes "dl_full l (us @ (a, v) # (c, x) # (b, w) # ws)" "ll_mem l a = Some n" "ll_mem l b = Some k"
  shows "dl_full (l\<lparr> ll_mem := (ll_mem l)(a \<mapsto> n\<lparr> nd_next := Some b \<rparr>, b \<mapsto> k\<lparr> nd_prev := Some a \<rparr>, c := None),
                     ll_size := ll_size l - 1 \<rparr>) (us @ (a, v) # (b, w) # ws)"
  using assms unfolding dl_full_def by (auto simp: last_of_def)

definition dl_inv :: "'a dnode llist \<Rightarrow> (addr \<times> 'a) list \<Rightarrow> bool" where
  "dl_inv l zs \<longleftrightarrow> zs \<noteq> [] \<and> (\<exists>t. dl_full l (zs @ [t]))"

definition dl_abs :: "'a dnode llist \<Rightarrow> 'a list" where
  "dl_abs l = snd (the (display l))"

lemma dl_size: "dl_inv l zs \<Longrightarrow> ll_size l = int (length (tl zs)) \<and> zs \<noteq> []"
  by (cases zs) (auto simp: dl_inv_def dl_full_def)

lemma dl_empty: "dl_inv l zs \<Longrightarrow> (ll_size l = 0 \<longleftrightarrow> tl zs = []) \<and> (ll_size l < 1 \<longleftrightarrow> tl zs = [])"
  by (cases zs) (auto simp: dl_inv_def dl_full_def)

lemma dl_display:
  assumes "dl_inv l zs"
  shows "display l = Some (int (length (tl zs)), map snd (tl zs))"
proof -
  obtain h d xs t where zs: "zs = (h, d) # xs" and full: "dl_full l ((h, d) # xs @ [t])"
    using assms by (cases zs) (auto simp: dl_inv_def)
  have "values_to l (ll_tail l) (first_of xs (Some (fst t))) = Some (map snd xs)"
    using linked_values [of l xs "Some (fst t)"] full
    by (cases t) (auto simp: dl_full_def dest: dlinked_linked)
  then show ?thesis
    using full by (cases t) (simp add: zs dl_full_def display_def)
qed

lemma dl_abs_eq: "dl_inv l zs \<Longrightarrow> dl_abs l = map snd (tl zs)"
  by (simp add: dl_abs_def dl_display)


text \<open>\<open>dl_grow\<close> and \<open>dl_shrink\<close>: a call that links a node between \<open>a\<close> and \<open>b\<close>, or unlinks the one there.\<close>

lemma dl_inv_butlast: "dl_full l zs \<Longrightarrow> 2 \<le> length zs \<Longrightarrow> dl_inv l (butlast zs)"
  unfolding dl_inv_def
  by (metis append_butlast_last_id butlast.simps(1) length_butlast length_0_conv diff_is_0_eq not_less_eq_eq
      numeral_2_eq_2 list.size(3) One_nat_def)

lemma dl_pair:
  assumes "dl_full l (us @ (a, v) # (b, w) # ws)"
  obtains n k where "ll_mem l a = Some n" "ll_mem l b = Some k" "a \<noteq> b"
    "n = \<lparr> nd_val = v, nd_next = Some b, nd_prev = last_of None us \<rparr>"
    "k = \<lparr> nd_val = w, nd_next = first_of ws None, nd_prev = Some a \<rparr>"
  using assms by (simp add: dl_full_def)

definition dl_link :: "'a \<Rightarrow> addr \<Rightarrow> 'a dnode \<Rightarrow> addr \<Rightarrow> 'a dnode \<Rightarrow> 'a dnode llist \<Rightarrow> ('a, 'a dnode) list_out" where
  "dl_link e a n b k l =
        (if ll_size l < INT_MAX32
         then Some (Inr Done, l\<lparr> ll_mem := (ll_mem l)(ll_brk l \<mapsto> \<lparr> nd_val = e, nd_next = Some b, nd_prev = Some a \<rparr>,
                        a \<mapsto> n\<lparr> nd_next := Some (ll_brk l) \<rparr>, b \<mapsto> k\<lparr> nd_prev := Some (ll_brk l) \<rparr>),
                     ll_brk := ll_brk l + 1, ll_size := ll_size l + 1 \<rparr>) else None)"

definition dl_unlink :: "addr \<Rightarrow> 'a dnode \<Rightarrow> addr \<times> 'a \<Rightarrow> addr \<Rightarrow> 'a dnode \<Rightarrow> 'a dnode llist \<Rightarrow> ('a, 'a dnode) list_out" where
  "dl_unlink a n cx b k l =
        Some (Inr (Val (snd cx)), l\<lparr> ll_mem := (ll_mem l)(a \<mapsto> n\<lparr> nd_next := Some b \<rparr>, b \<mapsto> k\<lparr> nd_prev := Some a \<rparr>, fst cx := None),
                     ll_size := ll_size l - 1 \<rparr>)"

lemma dl_grow:
  assumes full: "dl_full l (us @ (a, v) # (b, w) # ws)" and zs: "zs = butlast (us @ (a, v) # (b, w) # ws)"
    and n: "ll_mem l a = Some n" and k: "ll_mem l b = Some k"
    and call: "dl_call op l = dl_link e a n b k l"
    and spec: "list_spec op (map snd (tl zs)) =
        grow_spec (map snd (tl zs)) (map snd (tl (butlast (us @ (a, v) # (ll_brk l, e) # (b, w) # ws))))"
  shows "call_sim dl_call dl_inv op l zs"
proof -
  have inv: "dl_inv l zs" unfolding zs by (rule dl_inv_butlast [OF full]) simp
  show ?thesis
  proof (cases "ll_size l < INT_MAX32")
    case True
    then have spec': "list_spec op (map snd (tl zs)) =
        (Some (Inr Done), map snd (tl (butlast (us @ (a, v) # (ll_brk l, e) # (b, w) # ws))))"
      using spec dl_size [OF inv] by (simp add: grow_spec_def)
    show ?thesis
      by (rule sim_update [where call = dl_call and nodes = dl_inv, OF _ dl_inv_butlast [OF dl_insert [OF full n k, of e]] spec'])
        (use True call in \<open>simp_all add: dl_link_def\<close>)
  next
    case False
    with inv call spec dl_size [OF inv] show ?thesis
      by (intro sim_undefined) (auto simp: grow_spec_def dl_link_def)
  qed
qed

lemma dl_shrink:
  assumes full: "dl_full l (us @ (a, v) # (c, x) # (b, w) # ws)"
    and zs: "zs = butlast (us @ (a, v) # (c, x) # (b, w) # ws)"
    and n: "ll_mem l a = Some n" and k: "ll_mem l b = Some k"
    and call: "dl_call op l = dl_unlink a n (c, x) b k l"
    and spec: "list_spec op (map snd (tl zs)) =
        (Some (Inr (Val x)), map snd (tl (butlast (us @ (a, v) # (b, w) # ws))))"
  shows "call_sim dl_call dl_inv op l zs"
  by (rule sim_update [where call = dl_call and nodes = dl_inv, OF call [unfolded dl_unlink_def fst_conv snd_conv] dl_inv_butlast [OF dl_delete [OF full n k]]]) (use spec in simp_all)

lemma dl_sim_addFirst:
  assumes inv: "dl_inv l zs"
  shows "call_sim dl_call dl_inv (AddFirst e) l zs"
proof -
  obtain t where full: "dl_full l (zs @ [t])" and ne: "zs \<noteq> []" using inv by (auto simp: dl_inv_def)
  then have "Suc 0 < length (zs @ [t])" by (cases zs) auto
  then obtain us a v b w ws where s: "zs @ [t] = us @ (a, v) # (b, w) # ws" "length us = 0" by (rule split_pair)
  then have s: "zs @ [t] = [] @ (a, v) # (b, w) # ws" by simp
  note full' = full [unfolded s]
  obtain n k where nk: "ll_mem l a = Some n" "ll_mem l b = Some k" "a \<noteq> b"
    "n = \<lparr> nd_val = v, nd_next = Some b, nd_prev = last_of None [] \<rparr>"
    "k = \<lparr> nd_val = w, nd_next = first_of ws None, nd_prev = Some a \<rparr>"
    by (rule dl_pair [OF full']) simp
  have zs: "zs = butlast ([] @ (a, v) # (b, w) # ws)" using s by (metis butlast_snoc)
  show ?thesis
  proof (rule dl_grow [OF full' zs nk(1,2)])
    show "dl_call (AddFirst e) l = dl_link e a n b k l"
      using full' nk dl_fresh [OF full']
      by (simp add: dl_full_def dl_addFirst_def dl_link_def ll_defs fun_upd_twist)
    show "list_spec (AddFirst e) (map snd (tl zs)) =
        grow_spec (map snd (tl zs)) (map snd (tl (butlast ([] @ (a, v) # (ll_brk l, e) # (b, w) # ws))))"
      by (simp add: zs)
  qed
qed


lemma dl_sim_addLast:
  assumes inv: "dl_inv l zs"
  shows "call_sim dl_call dl_inv (AddLast e) l zs"
proof -
  obtain us a v where zs: "zs = us @ [(a, v)]" using dl_size [OF inv] by (cases zs rule: rev_cases) auto
  obtain b w where full: "dl_full l (us @ (a, v) # (b, w) # [])" using inv by (auto simp: zs dl_inv_def)
  obtain n k where nk: "ll_mem l a = Some n" "ll_mem l b = Some k" "a \<noteq> b"
    "n = \<lparr> nd_val = v, nd_next = Some b, nd_prev = last_of None us \<rparr>"
    "k = \<lparr> nd_val = w, nd_next = None, nd_prev = Some a \<rparr>"
    by (rule dl_pair [OF full]) simp
  have zs': "zs = butlast (us @ (a, v) # (b, w) # [])" by (simp add: zs butlast_append)
  show ?thesis
  proof (rule dl_grow [OF full zs' nk(1,2)])
    show "dl_call (AddLast e) l = dl_link e a n b k l"
      using full nk dl_fresh [OF full]
      by (simp add: dl_full_def dl_addLast_def dl_link_def ll_defs fun_upd_twist)
    show "list_spec (AddLast e) (map snd (tl zs)) =
        grow_spec (map snd (tl zs)) (map snd (tl (butlast (us @ (a, v) # (ll_brk l, e) # (b, w) # []))))"
      by (cases us) (simp_all add: zs butlast_append)
  qed
qed

text \<open>The node at an index and its neighbours.\<close>

lemma dl_at:
  assumes inv: "dl_inv l zs" and i: "0 \<le> i" "i < ll_size l"
  obtains us a v c x b w ws where "dl_full l (us @ (a, v) # (c, x) # (b, w) # ws)" "length us = nat i"
    "zs = butlast (us @ (a, v) # (c, x) # (b, w) # ws)" "dl_getNode l i = (\<lambda>k. k (Some c))"
proof -
  obtain t where full: "dl_full l (zs @ [t])" using inv by (auto simp: dl_inv_def)
  have "Suc (nat i) < length zs" using dl_size [OF inv] i by auto
  then obtain us a v c x rest where zs: "zs = us @ (a, v) # (c, x) # rest" "length us = nat i" by (rule split_pair)
  obtain b w ws where rest: "rest @ [t] = (b, w) # ws" by (cases "rest @ [t]") auto
  have s: "zs @ [t] = us @ (a, v) # (c, x) # (b, w) # ws" using zs(1) rest by simp
  obtain h d ys where ys: "us @ [(a, v)] = (h, d) # ys" by (cases "us @ [(a, v)]") auto
  then have s': "us @ (a, v) # (c, x) # (b, w) # ws = (h, d) # ys @ (c, x) # (b, w) # ws" by simp
  have len: "length ys = nat i" using ys zs(2) by (metis length_append_singleton length_Cons nat.inject)
  have ch: "dlinked (ll_mem l) None ((h, d) # ys @ (c, x) # (b, w) # ws) None" "ll_head l = Some h"
    using full unfolding s s' by (simp_all add: dl_full_def)
  then have "linked (ll_mem l) (ys @ (c, x) # (b, w) # ws) None" using dlinked_linked [OF ch(1)] by simp
  then have "walk l (nat i) (first_of ys (Some c)) = Some (Some c)"
    using linked_walk [of l ys "(c, x) # (b, w) # ws" None] len by simp
  then have "dl_getNode l i = (\<lambda>k. k (Some c))"
    using ch i by (simp add: fun_eq_iff dl_getNode_def ll_defs)
  moreover have "zs = butlast (us @ (a, v) # (c, x) # (b, w) # ws)" using s by (metis butlast_snoc)
  ultimately show thesis using that full zs(2) unfolding s by blast
qed

lemma dl_triple:
  assumes "dl_full l (us @ (a, v) # (c, x) # (b, w) # ws)"
  obtains n m k where "ll_mem l a = Some n" "ll_mem l c = Some m" "ll_mem l b = Some k" "a \<noteq> c" "c \<noteq> b" "a \<noteq> b"
    "n = \<lparr> nd_val = v, nd_next = Some c, nd_prev = last_of None us \<rparr>"
    "m = \<lparr> nd_val = x, nd_next = Some b, nd_prev = Some a \<rparr>"
    "k = \<lparr> nd_val = w, nd_next = first_of ws None, nd_prev = Some c \<rparr>"
  using assms by (simp add: dl_full_def)

lemma dl_sim_add:
  assumes inv: "dl_inv l zs"
  shows "call_sim dl_call dl_inv (Add i e) l zs"
proof (cases "0 \<le> i \<and> i < ll_size l")
  case True
  then have i: "0 \<le> i" "i < ll_size l" by auto
  obtain us a v c x b w ws where at: "dl_full l (us @ (a, v) # (c, x) # (b, w) # ws)" "length us = nat i"
    "zs = butlast (us @ (a, v) # (c, x) # (b, w) # ws)" "dl_getNode l i = (\<lambda>k. k (Some c))"
    by (rule dl_at [OF inv i])
  obtain n m where nm: "ll_mem l a = Some n" "ll_mem l c = Some m" "a \<noteq> c"
    "n = \<lparr> nd_val = v, nd_next = Some c, nd_prev = last_of None us \<rparr>"
    "m = \<lparr> nd_val = x, nd_next = Some b, nd_prev = Some a \<rparr>"
    by (rule dl_pair [OF at(1)]) simp
  show ?thesis
  proof (rule dl_grow [OF at(1,3) nm(1,2)])
    show "dl_call (Add i e) l = dl_link e a n c m l"
      using True at nm dl_fresh [OF at(1)] by (simp add: dl_add_def dl_link_def ll_defs fun_upd_twist)
    show "list_spec (Add i e) (map snd (tl zs)) =
        grow_spec (map snd (tl zs)) (map snd (tl (butlast (us @ (a, v) # (ll_brk l, e) # (c, x) # (b, w) # ws))))"
      using True at(2) [symmetric] dl_size [OF inv]
      by (cases us) (auto simp: at(3) butlast_append)
  qed
next
  case False
  show ?thesis
  proof (cases "i = ll_size l")
    case True
    with dl_size [OF inv] show ?thesis
      by (intro sim_same [OF dl_sim_addLast [OF inv, of e]]) (simp_all add: dl_add_def ll_defs)
  next
    case no: False
    with False dl_size [OF inv] show ?thesis
      by (intro sim_query [of dl_inv, OF inv]) (auto simp: dl_add_def ll_defs)
  qed
qed

lemma dl_sim_remove:
  assumes inv: "dl_inv l zs"
  shows "call_sim dl_call dl_inv (Remove i) l zs"
proof (cases "0 \<le> i \<and> i < ll_size l")
  case True
  then have i: "0 \<le> i" "i < ll_size l" by auto
  obtain us a v c x b w ws where at: "dl_full l (us @ (a, v) # (c, x) # (b, w) # ws)" "length us = nat i"
    "zs = butlast (us @ (a, v) # (c, x) # (b, w) # ws)" "dl_getNode l i = (\<lambda>k. k (Some c))"
    by (rule dl_at [OF inv i])
  obtain n m k where nmk: "ll_mem l a = Some n" "ll_mem l c = Some m" "ll_mem l b = Some k" "a \<noteq> c" "c \<noteq> b" "a \<noteq> b"
    "n = \<lparr> nd_val = v, nd_next = Some c, nd_prev = last_of None us \<rparr>"
    "m = \<lparr> nd_val = x, nd_next = Some b, nd_prev = Some a \<rparr>"
    "k = \<lparr> nd_val = w, nd_next = first_of ws None, nd_prev = Some c \<rparr>"
    by (rule dl_triple [OF at(1)])
  show ?thesis
  proof (rule dl_shrink [OF at(1,3) nmk(1,3)])
    show "dl_call (Remove i) l = dl_unlink a n (c, x) b k l"
      using True at(4) nmk by (simp add: dl_remove_def dl_unlink_def ll_defs fun_upd_twist)
    show "list_spec (Remove i) (map snd (tl zs)) =
        (Some (Inr (Val x)), map snd (tl (butlast (us @ (a, v) # (b, w) # ws))))"
      using True at(2) [symmetric] dl_size [OF inv]
      by (cases us) (auto simp: at(3) butlast_append index_spec_def nth_append)
  qed
next
  case False
  with dl_size [OF inv] show ?thesis
    by (intro sim_query [of dl_inv, OF inv]) (auto simp: dl_remove_def ll_defs index_spec_def)
qed


text \<open>The first element is the one at index 0, the last the one before the sentinel.\<close>

lemma dl_sim_removeFirst:
  assumes inv: "dl_inv l zs"
  shows "call_sim dl_call dl_inv RemoveFirst l zs"
proof (cases "0 < ll_size l")
  case True
  obtain us a v c x b w ws where at: "dl_full l (us @ (a, v) # (c, x) # (b, w) # ws)" "length us = nat 0"
    "zs = butlast (us @ (a, v) # (c, x) # (b, w) # ws)" "dl_getNode l 0 = (\<lambda>k. k (Some c))"
    by (rule dl_at [OF inv _ True]) simp
  obtain n m k where nmk: "ll_mem l a = Some n" "ll_mem l c = Some m" "ll_mem l b = Some k" "a \<noteq> c" "c \<noteq> b" "a \<noteq> b"
    "n = \<lparr> nd_val = v, nd_next = Some c, nd_prev = last_of None us \<rparr>"
    "m = \<lparr> nd_val = x, nd_next = Some b, nd_prev = Some a \<rparr>"
    "k = \<lparr> nd_val = w, nd_next = first_of ws None, nd_prev = Some c \<rparr>"
    by (rule dl_triple [OF at(1)])
  have us: "us = []" using at(2) by simp
  then have hd: "ll_head l = Some a" using at(1) by (simp add: dl_full_def)
  show ?thesis
  proof (rule dl_shrink [OF at(1,3) nmk(1,3)])
    show "dl_call RemoveFirst l = dl_unlink a n (c, x) b k l"
      using True hd nmk by (simp add: dl_removeFirst_def dl_unlink_def ll_defs fun_upd_twist)
    show "list_spec RemoveFirst (map snd (tl zs)) =
        (Some (Inr (Val x)), map snd (tl (butlast (us @ (a, v) # (b, w) # ws))))"
      by (simp add: at(3) us)
  qed
next
  case False
  with dl_empty [OF inv] show ?thesis
    by (intro sim_query [of dl_inv, OF inv]) (auto simp: dl_removeFirst_def)
qed

lemma dl_last:
  assumes inv: "dl_inv l zs" and pos: "0 < ll_size l"
  obtains us a v c x b w where "zs = us @ [(a, v), (c, x)]" "dl_full l (us @ (a, v) # (c, x) # (b, w) # [])"
    "ll_tail l = Some b"
proof -
  obtain t where full: "dl_full l (zs @ [t])" using inv by (auto simp: dl_inv_def)
  have "Suc (length zs - 2) < length zs" using dl_size [OF inv] pos by auto
  then obtain us a v c x rest where zs: "zs = us @ (a, v) # (c, x) # rest" "length us = length zs - 2"
    by (rule split_pair)
  then have rest: "rest = []" by simp
  obtain b w where t: "t = (b, w)" by (cases t)
  have "ll_tail l = Some b" using full t by (simp add: dl_full_def)
  then show thesis using that zs(1) full t rest by simp
qed

lemma dl_sim_removeLast:
  assumes inv: "dl_inv l zs"
  shows "call_sim dl_call dl_inv RemoveLast l zs"
proof (cases "0 < ll_size l")
  case True
  obtain us a v c x b w where la: "zs = us @ [(a, v), (c, x)]" "dl_full l (us @ (a, v) # (c, x) # (b, w) # [])"
    "ll_tail l = Some b" by (rule dl_last [OF inv True])
  obtain n m k where nmk: "ll_mem l a = Some n" "ll_mem l c = Some m" "ll_mem l b = Some k" "a \<noteq> c" "c \<noteq> b" "a \<noteq> b"
    "n = \<lparr> nd_val = v, nd_next = Some c, nd_prev = last_of None us \<rparr>"
    "m = \<lparr> nd_val = x, nd_next = Some b, nd_prev = Some a \<rparr>"
    "k = \<lparr> nd_val = w, nd_next = None, nd_prev = Some c \<rparr>"
    by (rule dl_triple [OF la(2)]) simp
  have zs: "zs = butlast (us @ (a, v) # (c, x) # (b, w) # [])" by (simp add: la(1) butlast_append)
  show ?thesis
  proof (rule dl_shrink [OF la(2) zs nmk(1,3)])
    show "dl_call RemoveLast l = dl_unlink a n (c, x) b k l"
      using True la(3) nmk by (simp add: dl_removeLast_def dl_unlink_def ll_defs fun_upd_twist)
    show "list_spec RemoveLast (map snd (tl zs)) =
        (Some (Inr (Val x)), map snd (tl (butlast (us @ (a, v) # (b, w) # []))))"
      by (cases us) (auto simp: la(1) butlast_append)
  qed
next
  case False
  with dl_empty [OF inv] show ?thesis
    by (intro sim_query [of dl_inv, OF inv]) (auto simp: dl_removeLast_def)
qed

lemma dl_value_at:
  assumes "length us = nat i" "zs = butlast (us @ (a, v) # (c, x) # (b, w) # ws)"
  shows "map snd (tl zs) ! nat i = x"
  using assms by (cases us) (auto simp: butlast_append nth_append)

lemma dl_sim_get:
  assumes inv: "dl_inv l zs"
  shows "call_sim dl_call dl_inv (Get i) l zs"
proof (cases "0 \<le> i \<and> i < ll_size l")
  case True
  then have i: "0 \<le> i" "i < ll_size l" by auto
  obtain us a v c x b w ws where at: "dl_full l (us @ (a, v) # (c, x) # (b, w) # ws)" "length us = nat i"
    "zs = butlast (us @ (a, v) # (c, x) # (b, w) # ws)" "dl_getNode l i = (\<lambda>k. k (Some c))"
    by (rule dl_at [OF inv i])
  have "ll_mem l c = Some \<lparr> nd_val = x, nd_next = Some b, nd_prev = Some a \<rparr>"
    using at(1) by (simp add: dl_full_def)
  with i at(4) dl_value_at [OF at(2,3)] dl_size [OF inv] show ?thesis
    by (intro sim_query [of dl_inv, OF inv]) (auto simp: dl_get_def ll_defs index_spec_def)
next
  case False
  with dl_size [OF inv] show ?thesis
    by (intro sim_query [of dl_inv, OF inv]) (auto simp: dl_get_def ll_defs index_spec_def)
qed

lemma dl_sim_set:
  assumes inv: "dl_inv l zs"
  shows "call_sim dl_call dl_inv (SetAt i e) l zs"
proof (cases "0 \<le> i \<and> i < ll_size l")
  case True
  then have i: "0 \<le> i" "i < ll_size l" by auto
  obtain us a v c x b w ws where at: "dl_full l (us @ (a, v) # (c, x) # (b, w) # ws)" "length us = nat i"
    "zs = butlast (us @ (a, v) # (c, x) # (b, w) # ws)" "dl_getNode l i = (\<lambda>k. k (Some c))"
    by (rule dl_at [OF inv i])
  let ?l = "l\<lparr> ll_mem := (ll_mem l)(c \<mapsto> \<lparr> nd_val = e, nd_next = Some b, nd_prev = Some a \<rparr>) \<rparr>"
  let ?zs = "us @ (a, v) # (c, e) # (b, w) # ws"
  have c: "ll_mem l c = Some \<lparr> nd_val = x, nd_next = Some b, nd_prev = Some a \<rparr>"
    using at(1) by (simp add: dl_full_def)
  have "dl_full ?l ?zs" using at(1) unfolding dl_full_def by (auto simp: last_of_def)
  then have inv': "dl_inv ?l (butlast ?zs)" by (rule dl_inv_butlast) simp
  have call: "dl_call (SetAt i e) l = Some (Inr (Val x), ?l)"
    using i at(4) c by (simp add: dl_set_def ll_defs)
  have "list_spec (SetAt i e) (map snd (tl zs)) = (Some (Inr (Val x)), map snd (tl (butlast ?zs)))"
    using i dl_value_at [OF at(2,3)] dl_size [OF inv] at(2) [symmetric]
    by (cases us) (auto simp: at(3) index_spec_def butlast_append list_update_append)
  with call inv' show ?thesis by (rule sim_update)
next
  case False
  with dl_size [OF inv] show ?thesis
    by (intro sim_query [of dl_inv, OF inv]) (auto simp: dl_set_def ll_defs index_spec_def)
qed

lemma dl_sim_ends:
  assumes inv: "dl_inv l zs"
  shows "call_sim dl_call dl_inv GetFirst l zs" "call_sim dl_call dl_inv GetLast l zs"
    "call_sim dl_call dl_inv Size l zs" "call_sim dl_call dl_inv IsEmpty l zs"
proof -
  have size: "ll_size l = 0 \<longleftrightarrow> tl zs = []" "ll_size l < 1 \<longleftrightarrow> tl zs = []" "ll_size l = int (length (tl zs))"
    using dl_empty [OF inv] dl_size [OF inv] by auto
  show "call_sim dl_call dl_inv Size l zs" "call_sim dl_call dl_inv IsEmpty l zs"
    using size by (intro sim_query [of dl_inv, OF inv]; simp add: list_size_def ll_isEmpty_def)+
  show "call_sim dl_call dl_inv GetFirst l zs"
  proof (cases "0 < ll_size l")
    case True
    obtain us a v c x b w ws where at: "dl_full l (us @ (a, v) # (c, x) # (b, w) # ws)" "length us = nat 0"
      "zs = butlast (us @ (a, v) # (c, x) # (b, w) # ws)" "dl_getNode l 0 = (\<lambda>k. k (Some c))"
      by (rule dl_at [OF inv _ True]) simp
    then show ?thesis using True
      by (intro sim_query [of dl_inv, OF inv]) (auto simp: dl_full_def dl_getFirst_def)
  next
    case False
    with size show ?thesis by (intro sim_query [of dl_inv, OF inv]) (auto simp: dl_getFirst_def)
  qed
  show "call_sim dl_call dl_inv GetLast l zs"
  proof (cases "0 < ll_size l")
    case True
    obtain us a v c x b w where la: "zs = us @ [(a, v), (c, x)]" "dl_full l (us @ (a, v) # (c, x) # (b, w) # [])"
      "ll_tail l = Some b" by (rule dl_last [OF inv True])
    have "tl zs \<noteq> []" "last (map snd (tl zs)) = x" by (cases us; simp add: la(1))+
    with True la(2,3) show ?thesis
      by (intro sim_query [of dl_inv, OF inv]) (auto simp: dl_full_def dl_getLast_def)
  next
    case False
    with size show ?thesis by (intro sim_query [of dl_inv, OF inv]) (auto simp: dl_getLast_def)
  qed
qed

lemma dl_simulates: "dl_inv l zs \<Longrightarrow> call_sim dl_call dl_inv op l zs"
  by (cases op) (simp_all add: dl_sim_addFirst dl_sim_addLast dl_sim_add dl_sim_removeFirst dl_sim_removeLast
      dl_sim_remove dl_sim_ends dl_sim_get dl_sim_set)

interpretation double: linked_list dl_call dl_inv dl_abs
  by unfold_locales (rule dl_simulates dl_abs_eq, assumption)+


text \<open>The destructor: one \<open>removeFirst\<close> per element, then the two sentinels.\<close>

lemma dl_clear_all:
  "dl_inv l zs \<Longrightarrow> \<exists>l' z. dl_clear l = Some l' \<and> dl_inv l' [z]"
proof (induction "length zs" arbitrary: l zs)
  case 0
  then show ?case by (simp add: dl_inv_def)
next
  case (Suc n)
  show ?case
  proof (cases "0 < ll_size l")
    case True
    obtain zs' where zs': "dl_inv (snd (call_step (dl_call RemoveFirst) l)) zs'"
      "(fst (call_step (dl_call RemoveFirst) l), map snd (tl zs')) = list_spec RemoveFirst (map snd (tl zs))"
      using dl_simulates [OF Suc.prems, of RemoveFirst] unfolding call_sim_def by blast
    have ne: "tl zs \<noteq> []" using True dl_empty [OF Suc.prems] by auto
    obtain r l' where rl: "dl_removeFirst l = Some (r, l')"
      using zs'(2) ne by (cases "dl_removeFirst l") (auto simp: call_step_def)
    have "map snd (tl zs') = tl (map snd (tl zs))" using zs'(2) ne by simp
    then have "length (tl zs') = length (tl zs) - 1" by (metis length_map length_tl)
    moreover have inv': "dl_inv l' zs'" using zs'(1) rl by (simp add: call_step_def)
    moreover have "length zs = Suc (length (tl zs))" "length zs' = Suc (length (tl zs'))" "0 < length (tl zs)"
      using ne dl_size [OF inv'] by (cases zs; cases zs'; simp)+
    ultimately have "n = length zs'" using Suc.hyps(2) by linarith
    from Suc.hyps(1) [OF this inv'] True rl show ?thesis by (subst dl_clear.simps) simp
  next
    case False
    then have "tl zs = []" using dl_empty [OF Suc.prems] dl_size [OF Suc.prems] by auto
    then obtain z where "zs = [z]" using dl_size [OF Suc.prems] by (cases zs) auto
    then have "dl_inv l [z]" using Suc.prems by simp
    moreover have "dl_clear l = Some l" using False by (subst dl_clear.simps) simp
    ultimately show ?thesis by blast
  qed
qed

lemma dl_destroy_frees:
  assumes "dl_inv l zs"
  shows "\<exists>l'. DoubleLinkedList_destroy l = Some l' \<and> ll_mem l' = Map.empty"
proof -
  obtain l' z where clear: "dl_clear l = Some l'" and inv: "dl_inv l' [z]" using dl_clear_all [OF assms] by blast
  obtain h d t e where full: "dl_full l' [(h, d), (t, e)]" using inv by (cases z) (auto simp: dl_inv_def)
  then have "\<forall>a. a \<noteq> h \<longrightarrow> a \<noteq> t \<longrightarrow> ll_mem l' a = None"
    unfolding dl_full_def by (metis domIff empty_iff image_insert insert_iff list.set(1) list.set(2) fst_conv image_empty)
  with full clear show ?thesis by (auto simp: DoubleLinkedList_destroy_def dl_full_def)
qed

lemma dl_new_inv: "dl_inv (DoubleLinkedList_new d) [(0, d)]"
  unfolding dl_inv_def
  by (auto intro!: exI [of _ 1] exI [of _ d] simp: dl_full_def DoubleLinkedList_new_def DNode_def)

section \<open>Both lists\<close>

text \<open>
  Claim C37.  Both linked lists refine a list of values.  For every sequence of operations on a new
  list the answers, exceptions and their arguments included, are those of the specification, which
  is the same for both, and the only undefined behaviour is the overflow of the \<open>int\<close> size by a
  list of \<open>2 ^ 31 - 1\<close> elements: no run follows a null or dangling pointer.  Afterwards \<open>display\<close>
  shows the values of the specification and their number.  The destructors return and leave no
  node allocated, having freed each node once.
\<close>

theorem linked_lists_refine:
  "let s = run_ops (\<lambda>op. call_step (sl_call op)) ops (SingleLinkedList_new d);
       t = run_ops (\<lambda>op. call_step (dl_call op)) ops (DoubleLinkedList_new d);
       xs = run_ops list_spec ops []
   in fst s = fst xs \<and> fst t = fst xs
    \<and> sl_abs (snd s) = snd xs \<and> list_size (snd s) = int (length (snd xs))
    \<and> display (snd t) = Some (int (length (snd xs)), snd xs)
    \<and> (\<exists>s'. SingleLinkedList_destroy (snd s) = Some s' \<and> ll_mem s' = Map.empty)
    \<and> (\<exists>t'. DoubleLinkedList_destroy (snd t) = Some t' \<and> ll_mem t' = Map.empty)"
proof -
  let ?s = "snd (run_ops (\<lambda>op. call_step (sl_call op)) ops (SingleLinkedList_new d))"
  let ?t = "snd (run_ops (\<lambda>op. call_step (dl_call op)) ops (DoubleLinkedList_new d))"
  let ?xs = "snd (run_ops list_spec ops [])"
  obtain ys where ys: "sl_inv ?s ys" "map snd (tl ys) = ?xs"
    using single.run_from_empty(2) [OF sl_new_inv, of ops] by blast
  obtain zs where zs: "dl_inv ?t zs" "map snd (tl zs) = ?xs"
    using double.run_from_empty(2) [OF dl_new_inv, of ops] by blast
  have "length ?xs = length (tl ys)" "length ?xs = length (tl zs)" using ys(2) zs(2) by (metis length_map)+
  then show ?thesis
    using single.run_from_empty(1) [OF sl_new_inv, of ops] double.run_from_empty(1) [OF dl_new_inv, of ops]
      sl_abs_eq [OF ys(1)] ys(2) sl_size [OF ys(1)] dl_display [OF zs(1)] zs(2)
      sl_destroy_frees [OF ys(1)] dl_destroy_frees [OF zs(1)]
    by (simp add: list_size_def Let_def)
qed

end
