(* ===== verification/Eulerians.thy ===== *)
theory Eulerians
  imports Prelude "HOL-Library.AList"
begin

text \<open>
  Euler paths and circuits (\<^verbatim>\<open>datastruct/hierholzer.cpp\<close>).

  A graph is the map from a node to its vector of entries, the neighbour and whether the edge has
  been visited; an \<open>unordered_map\<close> is an association list in its order of iteration, which the
  theorems leave arbitrary.  The loop of \<open>hierholzer\<close> is written once per class, as in the
  code, and proved once: the locale \<open>hierholzer_search\<close> states what it needs of a graph, and both
  classes interpret it.  The recursive \<open>dfs\<close> of the source, which nothing calls, is left out.
\<close>

section \<open>Graphs\<close>

type_synonym entries = "(int \<times> bool) list"
type_synonym adjacency = "(int \<times> entries) list"

record eulerian =
  eg_graph :: adjacency
  eg_path :: "(int \<times> int) list"

definition Eulerian_new :: eulerian where
  "Eulerian_new = \<lparr> eg_graph = [], eg_path = [] \<rparr>"

text \<open>\<open>graph[u]\<close> inserts an empty vector for a node that has none.\<close>

definition entries_of :: "adjacency \<Rightarrow> int \<Rightarrow> entries" where
  "entries_of g u = (case map_of g u of None \<Rightarrow> [] | Some es \<Rightarrow> es)"

definition touch :: "int \<Rightarrow> adjacency \<Rightarrow> adjacency" where
  "touch u g = AList.update u (entries_of g u) g"

definition push_entry :: "int \<Rightarrow> int \<Rightarrow> adjacency \<Rightarrow> adjacency" where
  "push_entry u v g = AList.update u (entries_of g u @ [(v, False)]) g"

text \<open>The first unvisited entry, which is marked.\<close>

fun take_entry :: "entries \<Rightarrow> (int \<times> entries) option" where
  "take_entry [] = None"
| "take_entry ((v, visited) # es) =
     (if \<not> visited then Some (v, (v, True) # es)
      else do { (w, es) \<leftarrow> take_entry es; Some (w, (v, visited) # es) })"

text \<open>The first unvisited entry for \<open>u\<close> is marked.\<close>

fun mark_reverse :: "int \<Rightarrow> entries \<Rightarrow> entries" where
  "mark_reverse u [] = []"
| "mark_reverse u ((x, vis) # es) =
     (if x = u \<and> \<not> vis then (x, True) # es else (x, vis) # mark_reverse u es)"

definition entry_count :: "adjacency \<Rightarrow> nat" where
  "entry_count g = sum_list (map (length \<circ> snd) g)"

definition free_count :: "adjacency \<Rightarrow> nat" where
  "free_count g = sum_list (map (\<lambda>(u, es). length (filter (\<lambda>(v, b). \<not> b) es)) g)"

section \<open>The directed class\<close>

definition di_addEdge :: "int \<Rightarrow> int \<Rightarrow> eulerian \<Rightarrow> eulerian" where
  "di_addEdge u v e = e\<lparr> eg_graph := push_entry u v (eg_graph e) \<rparr>"

definition di_next :: "adjacency \<Rightarrow> int \<Rightarrow> int option \<times> adjacency" where
  "di_next g u =
     (let g = touch u g in
      case take_entry (entries_of g u) of
        None \<Rightarrow> (None, g)
      | Some (v, es) \<Rightarrow> (Some v, AList.update u es g))"

lemma free_count_update:
  "free_count (AList.update u es g) + length (filter (\<lambda>(v, b). \<not> b) (entries_of g u)) =
   free_count g + length (filter (\<lambda>(v, b). \<not> b) es)"
  by (induction g) (auto simp: free_count_def entries_of_def)

lemma entry_count_update:
  "entry_count (AList.update u es g) + length (entries_of g u) = entry_count g + length es"
  by (induction g) (auto simp: entry_count_def entries_of_def)

lemma entries_of_update [simp]: "entries_of (AList.update u es g) x = (if x = u then es else entries_of g x)"
  by (simp add: entries_of_def AList.update_conv')

lemma touch_simps [simp]: "entries_of (touch u g) x = entries_of g x" "free_count (touch u g) = free_count g"
  "entry_count (touch u g) = entry_count g"
  using free_count_update [of u "entries_of g u" g] entry_count_update [of u "entries_of g u" g]
  by (auto simp: touch_def)

lemma take_entry_Some:
  "take_entry es = Some (v, es') \<Longrightarrow> \<exists>xs ys. es = xs @ (v, False) # ys \<and> es' = xs @ (v, True) # ys"
proof (induction es arbitrary: es')
  case (Cons e es)
  obtain w b where e: "e = (w, b)" by (cases e)
  show ?case
  proof (cases b)
    case True
    with Cons.prems e obtain fs where fs: "take_entry es = Some (v, fs)" "es' = e # fs"
      by (auto simp: check_simps)
    from Cons.IH [OF fs(1)] obtain xs ys where "es = xs @ (v, False) # ys" "fs = xs @ (v, True) # ys" by blast
    then have "e # es = (e # xs) @ (v, False) # ys \<and> es' = (e # xs) @ (v, True) # ys" using fs(2) by simp
    then show ?thesis by blast
  next
    case False
    with Cons.prems e show ?thesis by auto
  qed
qed simp

lemma take_entry_None: "take_entry es = None \<longleftrightarrow> (\<forall>v. (v, False) \<notin> set es)"
  by (induction es rule: take_entry.induct) (auto split: option.splits bind_split)

lemma di_next_Some:
  "di_next g u = (Some v, g') \<Longrightarrow>
   \<exists>xs ys. entries_of g u = xs @ (v, False) # ys \<and> g' = AList.update u (xs @ (v, True) # ys) (touch u g)"
  by (auto simp: di_next_def Let_def split: option.splits dest!: take_entry_Some)

lemma di_next_None: "di_next g u = (None, g') \<Longrightarrow> g' = touch u g \<and> (\<forall>v. (v, False) \<notin> set (entries_of g u))"
  by (auto simp: di_next_def Let_def take_entry_None split: option.splits)

lemma di_next_free: "di_next g u = (Some v, g') \<Longrightarrow> Suc (free_count g') = free_count g"
proof -
  assume "di_next g u = (Some v, g')"
  then obtain xs ys where "entries_of g u = xs @ (v, False) # ys" "g' = AList.update u (xs @ (v, True) # ys) (touch u g)"
    using di_next_Some by blast
  then show ?thesis using free_count_update [of u "xs @ (v, True) # ys" "touch u g"] by simp
qed

function di_loop :: "int list \<Rightarrow> adjacency \<Rightarrow> (int \<times> int) list \<Rightarrow> adjacency \<times> (int \<times> int) list" where
  "di_loop [] g path = (g, path)"
| "di_loop (u # s) g path =
     (case di_next g u of
        (Some v, g) \<Rightarrow> di_loop (v # u # s) g path
      | (None, g) \<Rightarrow> di_loop s g (if s = [] then path else path @ [(hd s, u)]))"
  by pat_completeness auto
termination
  by (relation "measure (\<lambda>(s, g, path). 2 * free_count g + length s)")
    (auto dest!: di_next_free [OF sym] di_next_None [OF sym])


definition count_entries :: "entries \<Rightarrow> (int \<Rightarrow> nat) \<Rightarrow> int \<Rightarrow> nat" where
  "count_entries es inDegrees = fold (\<lambda>(v, visited) d. d(v := d v + 1)) es inDegrees"

fun degree_step :: "int \<times> entries \<Rightarrow> (int \<Rightarrow> nat) \<times> (int \<Rightarrow> nat) \<Rightarrow> (int \<Rightarrow> nat) \<times> (int \<Rightarrow> nat)" where
  "degree_step (u, es) (inDegrees, outDegrees) = (count_entries es inDegrees, outDegrees(u := length es))"

definition getInOutDegrees :: "adjacency \<Rightarrow> (int \<Rightarrow> nat) \<times> (int \<Rightarrow> nat)" where
  "getInOutDegrees g = fold degree_step g (\<lambda>_. 0, \<lambda>_. 0)"

definition di_hierholzer :: "int \<Rightarrow> eulerian \<Rightarrow> eulerian" where
  "di_hierholzer start e =
     (let (g, path) = di_loop [start] (eg_graph e) (eg_path e) in \<lparr> eg_graph = g, eg_path = path \<rparr>)"

definition di_findEulerCircuit :: "int \<Rightarrow> eulerian \<Rightarrow> bool \<times> eulerian" where
  "di_findEulerCircuit start e =
     (let e = e\<lparr> eg_path := [] \<rparr>;
          (inDegrees, outDegrees) = getInOutDegrees (eg_graph e)
      in if \<exists>(node, es) \<in> set (eg_graph e). inDegrees node \<noteq> outDegrees node then (False, e)
         else let e = di_hierholzer start e;
                  edgeCount = entry_count (eg_graph e)
              in (length (eg_path e) = edgeCount, e))"

text \<open>The loop over the nodes that counts the starts and the ends; \<open>None\<close> is its \<open>return false\<close>.\<close>

fun degree_scan ::
  "(int \<Rightarrow> nat) \<Rightarrow> (int \<Rightarrow> nat) \<Rightarrow> adjacency \<Rightarrow> nat \<times> nat \<times> int \<Rightarrow> (nat \<times> nat \<times> int) option" where
  "degree_scan inDegrees outDegrees [] acc = Some acc"
| "degree_scan inDegrees outDegrees ((node, es) # g) (startCount, endCount, startNode) =
     (let diff = int (outDegrees node) - int (inDegrees node) in
      if diff = 1 then degree_scan inDegrees outDegrees g (startCount + 1, endCount, node)
      else if diff = -1 then degree_scan inDegrees outDegrees g (startCount, endCount + 1, startNode)
      else if diff \<noteq> 0 then None
      else degree_scan inDegrees outDegrees g (startCount, endCount, startNode))"

text \<open>\<open>graph.begin()->first\<close>, undefined for an empty graph.\<close>

definition begin_node :: "adjacency \<Rightarrow> int option" where
  "begin_node g = (case g of [] \<Rightarrow> None | (u, es) # _ \<Rightarrow> Some u)"

definition di_findEulerPath :: "eulerian \<Rightarrow> (bool \<times> eulerian) option" where
  "di_findEulerPath e =
     (let e = e\<lparr> eg_path := [] \<rparr>;
          (inDegrees, outDegrees) = getInOutDegrees (eg_graph e)
      in case degree_scan inDegrees outDegrees (eg_graph e) (0, 0, -1) of
           None \<Rightarrow> Some (False, e)
         | Some (startCount, endCount, startNode) \<Rightarrow>
             if \<not> (startCount = 0 \<and> endCount = 0 \<or> startCount = 1 \<and> endCount = 1) then Some (False, e)
             else do { startNode \<leftarrow> (if startNode = -1 then begin_node (eg_graph e) else Some startNode);
                       let e = di_hierholzer startNode e;
                       let edgeCount = entry_count (eg_graph e);
                       Some (length (eg_path e) = edgeCount, e) })"

text \<open>What \<open>printPath\<close> prints.\<close>

definition printed_path :: "eulerian \<Rightarrow> (int \<times> int) list" where
  "printed_path e = rev (eg_path e)"

section \<open>The undirected class\<close>

definition un_addEdge :: "int \<Rightarrow> int \<Rightarrow> eulerian \<Rightarrow> eulerian" where
  "un_addEdge u v e = e\<lparr> eg_graph := push_entry v u (push_entry u v (eg_graph e)) \<rparr>"

definition un_next :: "adjacency \<Rightarrow> int \<Rightarrow> int option \<times> adjacency" where
  "un_next g u =
     (let g = touch u g in
      case take_entry (entries_of g u) of
        None \<Rightarrow> (None, g)
      | Some (v, es) \<Rightarrow>
          (let g = AList.update u es g in (Some v, AList.update v (mark_reverse u (entries_of g v)) g)))"

lemma mark_reverse_free:
  "length (filter (\<lambda>(v, b). \<not> b) (mark_reverse u es)) \<le> length (filter (\<lambda>(v, b). \<not> b) es)"
  by (induction u es rule: mark_reverse.induct) auto

lemma length_mark_reverse [simp]: "length (mark_reverse u es) = length es"
  by (induction u es rule: mark_reverse.induct) auto

lemma un_next_di: "un_next g u =
  (case di_next g u of (None, g) \<Rightarrow> (None, g)
   | (Some v, g) \<Rightarrow> (Some v, AList.update v (mark_reverse u (entries_of g v)) g))"
  by (simp add: un_next_def di_next_def Let_def split: option.split prod.split)

lemma un_next_free:
  assumes "un_next g u = (Some v, g')"
  shows "free_count g' < free_count g"
proof -
  obtain h where h: "di_next g u = (Some v, h)" "g' = AList.update v (mark_reverse u (entries_of h v)) h"
    using assms by (auto simp: un_next_di split: prod.splits option.splits)
  have "free_count g' \<le> free_count h"
    using free_count_update [of v "mark_reverse u (entries_of h v)" h] mark_reverse_free [of u "entries_of h v"] h(2)
    by simp
  then show ?thesis using di_next_free [OF h(1)] by simp
qed

lemma un_next_None: "un_next g u = (None, g') \<Longrightarrow> g' = touch u g \<and> (\<forall>v. (v, False) \<notin> set (entries_of g u))"
  by (auto simp: un_next_di dest!: di_next_None split: prod.splits option.splits)

function un_loop :: "int list \<Rightarrow> adjacency \<Rightarrow> (int \<times> int) list \<Rightarrow> adjacency \<times> (int \<times> int) list" where
  "un_loop [] g path = (g, path)"
| "un_loop (u # s) g path =
     (case un_next g u of
        (Some v, g) \<Rightarrow> un_loop (v # u # s) g path
      | (None, g) \<Rightarrow> un_loop s g (if s = [] then path else path @ [(hd s, u)]))"
  by pat_completeness auto
termination
  by (relation "measure (\<lambda>(s, g, path). 2 * free_count g + length s)")
    (auto dest!: un_next_free [OF sym] un_next_None [OF sym])

definition un_hierholzer :: "int \<Rightarrow> eulerian \<Rightarrow> eulerian" where
  "un_hierholzer start e =
     (let (g, path) = un_loop [start] (eg_graph e) (eg_path e) in \<lparr> eg_graph = g, eg_path = path \<rparr>)"

definition un_findEulerCircuit :: "int \<Rightarrow> eulerian \<Rightarrow> bool \<times> eulerian" where
  "un_findEulerCircuit start e =
     (let e = e\<lparr> eg_path := [] \<rparr>
      in if \<exists>(node, es) \<in> set (eg_graph e). length es mod 2 \<noteq> 0 then (False, e)
         else let e = un_hierholzer start e;
                  edgeCount = entry_count (eg_graph e) div 2
              in (length (eg_path e) = edgeCount, e))"

definition un_findEulerPath :: "eulerian \<Rightarrow> (bool \<times> eulerian) option" where
  "un_findEulerPath e =
     (let e = e\<lparr> eg_path := [] \<rparr>;
          oddDegreeNodes = map fst (filter (\<lambda>(node, es). length es mod 2 \<noteq> 0) (eg_graph e))
      in if length oddDegreeNodes \<noteq> 0 \<and> length oddDegreeNodes \<noteq> 2 then Some (False, e)
         else do { startNode \<leftarrow> (if length oddDegreeNodes = 2 then Some (oddDegreeNodes ! 0) else begin_node (eg_graph e));
                   let e = un_hierholzer startNode e;
                   let edgeCount = entry_count (eg_graph e) div 2;
                   Some (length (eg_path e) = edgeCount, e) })"


section \<open>The search, for both classes\<close>

text \<open>A walk from \<open>a\<close> to \<open>b\<close>, and the edges not yet visited.\<close>

fun trail :: "int \<Rightarrow> (int \<times> int) list \<Rightarrow> int \<Rightarrow> bool" where
  "trail a [] b \<longleftrightarrow> a = b"
| "trail a ((u, v) # es) b \<longleftrightarrow> u = a \<and> trail v es b"

definition free_edges :: "adjacency \<Rightarrow> (int \<times> int) multiset" where
  "free_edges g = mset (concat (map (\<lambda>(u, es). map (\<lambda>(v, b). (u, v)) (filter (\<lambda>(v, b). \<not> b) es)) g))"

text \<open>The edges between the nodes on the stack.\<close>

fun spine :: "int list \<Rightarrow> (int \<times> int) list" where
  "spine (u # t # s) = (t, u) # spine (t # s)"
| "spine s = []"

text \<open>
  What the loop needs of a class: \<open>next\<close> takes an edge at a node, \<open>contrib e\<close> is what the edge
  \<open>e\<close> has in the multiset of free edges, and \<open>bal M a b\<close> says that the degrees in \<open>M\<close> are those of
  a walk from \<open>a\<close> to \<open>b\<close>.
\<close>

locale hierholzer_search =
  fixes next_edge :: "adjacency \<Rightarrow> int \<Rightarrow> int option \<times> adjacency"
    and loop :: "int list \<Rightarrow> adjacency \<Rightarrow> (int \<times> int) list \<Rightarrow> adjacency \<times> (int \<times> int) list"
    and wf :: "adjacency \<Rightarrow> bool"
    and contrib :: "int \<times> int \<Rightarrow> (int \<times> int) multiset"
    and k :: nat
    and bal :: "(int \<times> int) multiset \<Rightarrow> int \<Rightarrow> int \<Rightarrow> bool"
  assumes loop_Nil: "loop [] g p = (g, p)"
    and loop_Cons: "loop (u # s) g p =
        (case next_edge g u of (Some v, g) \<Rightarrow> loop (v # u # s) g p
         | (None, g) \<Rightarrow> loop s g (if s = [] then p else p @ [(hd s, u)]))"
    and next_Some: "wf g \<Longrightarrow> next_edge g u = (Some v, g') \<Longrightarrow>
        wf g' \<and> free_edges g = free_edges g' + contrib (u, v) \<and> entry_count g' = entry_count g"
    and next_None: "wf g \<Longrightarrow> next_edge g u = (None, g') \<Longrightarrow>
        wf g' \<and> free_edges g' = free_edges g \<and> entry_count g' = entry_count g \<and> (\<forall>v. (u, v) \<notin># free_edges g)"
    and contrib_ends: "e \<in># contrib (u, v) \<Longrightarrow> e = (u, v) \<or> e = (v, u)"
    and contrib_self: "e \<in># contrib e"
    and contrib_size: "size (contrib e) = k"
    and bal_stuck: "bal M a b \<Longrightarrow> \<forall>v. (a, v) \<notin># M \<Longrightarrow> a = b"
    and bal_step: "bal (M + contrib (u, v)) u b \<longleftrightarrow> bal M v b"
    and bal_same: "bal M a a \<Longrightarrow> bal M c c"
    and bal_empty: "bal {#} a a"
begin

lemma k_pos: "0 < k"
  using contrib_self contrib_size by (metis gr0I size_eq_0_iff_empty empty_iff set_mset_empty)

definition contribs :: "(int \<times> int) list \<Rightarrow> (int \<times> int) multiset" where
  "contribs es = sum_list (map contrib es)"

lemma contribs_simps [simp]: "contribs [] = {#}" "contribs (e # es) = contrib e + contribs es"
  "contribs (xs @ ys) = contribs xs + contribs ys"
  by (simp_all add: contribs_def)

lemma contribs_rev [simp]: "contribs (rev es) = contribs es"
  by (induction es) (simp_all add: add.commute)

lemma size_contribs: "size (contribs es) = k * length es"
  by (induction es) (simp_all add: contrib_size)

definition front :: "int \<Rightarrow> (int \<times> int) list \<Rightarrow> int" where
  "front endv p = (if p = [] then endv else fst (last p))"

definition seen :: "int list \<Rightarrow> adjacency \<Rightarrow> int \<Rightarrow> bool" where
  "seen s g v \<longleftrightarrow> v \<in> set s \<or> (\<forall>w. (v, w) \<notin># free_edges g)"

definition search_inv where
  "search_inv E start endv s g p \<longleftrightarrow>
     wf g \<and> free_edges g + contribs (spine s) + contribs p = E \<and>
     (if s = [] then trail start (rev p) endv
      else last s = start \<and> bal (free_edges g) (hd s) (front endv p) \<and> trail (front endv p) (rev p) endv) \<and>
     seen s g start \<and> (\<forall>(u, v) \<in> set_mset E. (u, v) \<notin># free_edges g \<longrightarrow> seen s g v)"

lemma push_inv:
  assumes inv: "search_inv E start endv (u # s) g p" and step: "next_edge g u = (Some v, g')"
  shows "search_inv E start endv (v # u # s) g' p"
proof -
  have wf: "wf g" using inv by (simp add: search_inv_def)
  note n = next_Some [OF wf step]
  have sub: "e \<in># free_edges g' \<Longrightarrow> e \<in># free_edges g" for e using n by simp
  have seen: "seen (u # s) g x \<Longrightarrow> seen (v # u # s) g' x" for x using sub by (auto simp: seen_def)
  have "seen (v # u # s) g' y" if "(x, y) \<in># E" "(x, y) \<notin># free_edges g'" for x y
  proof (cases "(x, y) \<in># free_edges g")
    case True
    then have "(x, y) \<in># contrib (u, v)" using that(2) n by simp
    then show ?thesis using contrib_ends [of "(x, y)" u v] by (auto simp: seen_def)
  next
    case False
    then show ?thesis using inv that(1) seen by (auto simp: search_inv_def)
  qed
  then show ?thesis
    using inv n seen bal_step by (auto simp: search_inv_def ac_simps)
qed

lemma pop_inv:
  assumes inv: "search_inv E start endv (u # s) g p" and step: "next_edge g u = (None, g')"
  shows "search_inv E start endv s g' (if s = [] then p else p @ [(hd s, u)])"
proof -
  have wf: "wf g" using inv by (simp add: search_inv_def)
  note n = next_None [OF wf step]
  have bal: "bal (free_edges g) u (front endv p)" and tr: "trail (front endv p) (rev p) endv"
    using inv by (simp_all add: search_inv_def)
  have u: "front endv p = u" using bal_stuck [OF bal] n by simp
  have seen: "seen (u # s) g x \<Longrightarrow> seen s g' x" for x using n by (auto simp: seen_def)
  show ?thesis
  proof (cases s)
    case Nil
    with inv n u tr seen show ?thesis by (auto simp: search_inv_def)
  next
    case (Cons t r)
    have "bal (free_edges g) t t" using bal bal_same unfolding u by blast
    with inv n u tr seen Cons show ?thesis by (auto simp: search_inv_def front_def ac_simps)
  qed
qed

lemma loop_inv:
  "search_inv E start endv s g p \<Longrightarrow> loop s g p = (g', p') \<Longrightarrow>
   search_inv E start endv [] g' p' \<and> entry_count g' = entry_count g"
proof (induction "2 * size (free_edges g) + length s" arbitrary: s g p rule: less_induct)
  case less
  show ?case
  proof (cases s)
    case Nil
    with less.prems show ?thesis by (simp add: loop_Nil)
  next
    case (Cons u r)
    have wf: "wf g" using less.prems(1) by (simp add: search_inv_def)
    obtain w h where step: "next_edge g u = (w, h)" by fastforce
    show ?thesis
    proof (cases w)
      case None
      note n = next_None [OF wf step [unfolded None]]
      have "2 * size (free_edges h) + length r < 2 * size (free_edges g) + length s" using n Cons by simp
      moreover have "loop r h (if r = [] then p else p @ [(hd r, u)]) = (g', p')"
        using less.prems(2) Cons step None by (simp add: loop_Cons split: if_splits)
      ultimately show ?thesis
        using less.hyps [OF _ pop_inv [OF less.prems(1) [unfolded Cons] step [unfolded None]]] n by simp
    next
      case (Some v)
      note n = next_Some [OF wf step [unfolded Some]]
      have "size (free_edges g) = size (free_edges h) + k" using n contrib_size by simp
      then have "2 * size (free_edges h) + length (v # u # r) < 2 * size (free_edges g) + length s"
        using k_pos Cons by simp
      moreover have "loop (v # u # r) h p = (g', p')"
        using less.prems(2) Cons step Some by (simp add: loop_Cons)
      ultimately show ?thesis
        using less.hyps [OF _ push_inv [OF less.prems(1) [unfolded Cons] step [unfolded Some]]] n by simp
    qed
  qed
qed

end


context hierholzer_search
begin

lemma search_start:
  assumes "wf g" "bal (free_edges g) start endv"
  shows "search_inv (free_edges g) start endv [start] g []"
  using assms by (auto simp: search_inv_def front_def seen_def)

lemma search_walk:
  assumes "wf g" "bal (free_edges g) start endv" "loop [start] g [] = (g', p)"
  shows "trail start (rev p) endv" "free_edges g' + contribs p = free_edges g" "entry_count g' = entry_count g" "wf g'"
  using loop_inv [OF search_start [OF assms(1,2)] assms(3)] by (simp_all add: search_inv_def)

lemma search_covers:
  assumes "wf g" "bal (free_edges g) start endv" "loop [start] g [] = (g', p)"
    and reach: "\<forall>(u, v) \<in> set_mset (free_edges g). (start, u) \<in> (set_mset (free_edges g))\<^sup>*"
  shows "free_edges g' = {#}"
proof -
  have inv: "search_inv (free_edges g) start endv [] g' p"
    using loop_inv [OF search_start [OF assms(1,2)] assms(3)] by simp
  have exhausted: "\<forall>w. (u, w) \<notin># free_edges g'" if "(start, u) \<in> (set_mset (free_edges g))\<^sup>*" for u
    using that
  proof (induction rule: rtrancl_induct)
    case base
    then show ?case using inv by (simp add: search_inv_def seen_def)
  next
    case (step y z)
    then show ?case using inv by (auto simp: search_inv_def seen_def)
  qed
  have "e \<notin># free_edges g'" for e
  proof
    assume e: "e \<in># free_edges g'"
    obtain u v where uv: "e = (u, v)" by fastforce
    have "e \<in># free_edges g" using e search_walk(2) [OF assms(1-3)] by (metis union_iff)
    then show False using reach exhausted uv e by blast
  qed
  then show ?thesis by (meson multiset_nonemptyE)
qed

lemma trail_bal: "trail a es b \<Longrightarrow> bal (contribs es) a b"
proof (induction es arbitrary: a)
  case Nil
  then show ?case by (simp add: bal_empty)
next
  case (Cons e es)
  then obtain v where "e = (a, v)" "trail v es b" by (cases e) auto
  then show ?case using Cons.IH [of v] bal_step [of "contribs es" a v b] by (simp add: add.commute)
qed

lemma trail_reach: "trail a es b \<Longrightarrow> (u, v) \<in># contribs es \<Longrightarrow> (a, u) \<in> (set_mset (contribs es))\<^sup>*"
proof (induction es arbitrary: a)
  case (Cons e es)
  then obtain w where e: "e = (a, w)" "trail w es b" by (cases e) auto
  have aw: "(a, w) \<in> set_mset (contribs (e # es))" using contrib_self [of "(a, w)"] e by simp
  show ?case
  proof (cases "(u, v) \<in># contrib e")
    case True
    then have "u = a \<or> u = w" using contrib_ends [of "(u, v)" a w] e by auto
    then show ?thesis using aw by blast
  next
    case False
    then have "(w, u) \<in> (set_mset (contribs es))\<^sup>*" using Cons.IH [OF e(2)] Cons.prems(2) by simp
    moreover have "set_mset (contribs es) \<subseteq> set_mset (contribs (e # es))" by simp
    ultimately have "(w, u) \<in> (set_mset (contribs (e # es)))\<^sup>*" using rtrancl_mono by blast
    with aw show ?thesis by (rule converse_rtrancl_into_rtrancl)
  qed
qed simp

text \<open>The loop covers the graph exactly if there is a walk over all of it.\<close>

lemma search_complete:
  assumes "wf g" "bal (free_edges g) start endv" "loop [start] g [] = (g', p)"
  shows "free_edges g' = {#} \<longleftrightarrow> (\<exists>es. trail start es endv \<and> contribs es = free_edges g)"
proof
  assume "free_edges g' = {#}"
  then show "\<exists>es. trail start es endv \<and> contribs es = free_edges g"
    using search_walk [OF assms] by (intro exI [of _ "rev p"]) simp
next
  assume "\<exists>es. trail start es endv \<and> contribs es = free_edges g"
  then obtain es where es: "trail start es endv" "contribs es = free_edges g" by blast
  show "free_edges g' = {#}"
    using trail_reach [OF es(1)] unfolding es(2) by (intro search_covers [OF assms]) auto
qed

lemma search_length:
  assumes "wf g" "bal (free_edges g) start endv" "loop [start] g [] = (g', p)"
  shows "size (free_edges g) = k * length p \<longleftrightarrow> free_edges g' = {#}"
proof -
  have "size (free_edges g) = size (free_edges g') + k * length p"
    using search_walk(2) [OF assms] by (metis size_contribs size_union)
  then show ?thesis by auto
qed

end


section \<open>The directed class is a search\<close>

definition free_at :: "int \<Rightarrow> entries \<Rightarrow> (int \<times> int) multiset" where
  "free_at u es = mset (map (\<lambda>(v, b). (u, v)) (filter (\<lambda>(v, b). \<not> b) es))"

lemma free_at_simps [simp]: "free_at u [] = {#}" "free_at u ((v, b) # es) = (if b then {#} else {# (u, v) #}) + free_at u es"
  "free_at u (xs @ ys) = free_at u xs + free_at u ys"
  by (simp_all add: free_at_def)

lemma free_edges_simps [simp]: "free_edges [] = {#}" "free_edges ((u, es) # g) = free_at u es + free_edges g"
  by (simp_all add: free_edges_def free_at_def)

lemma free_edges_update: "free_edges (AList.update u es g) + free_at u (entries_of g u) = free_edges g + free_at u es"
  by (induction g) (auto simp: entries_of_def)

lemma free_edges_touch [simp]: "free_edges (touch u g) = free_edges g"
  using free_edges_update [of u "entries_of g u" g] by (simp add: touch_def)

lemma distinct_touch [simp]: "distinct (map fst g) \<Longrightarrow> distinct (map fst (touch u g))"
  by (simp add: touch_def AList.distinct_update)

lemma mem_free_at: "(x, v) \<in># free_at u es \<longleftrightarrow> x = u \<and> (v, False) \<in> set es"
  by (induction es) (auto split: if_splits)

lemma mem_free_edges:
  "distinct (map fst g) \<Longrightarrow> (u, v) \<in># free_edges g \<longleftrightarrow> (v, False) \<in> set (entries_of g u)"
proof (induction g)
  case (Cons ge g)
  obtain w es where ge: "ge = (w, es)" by fastforce
  have "entries_of g u = []" if "u = w"
    using Cons.prems ge that map_of_eq_None_iff [of g u] by (simp add: entries_of_def)
  then show ?case using Cons ge by (auto simp: mem_free_at entries_of_def split: option.split)
qed (simp add: entries_of_def)

definition out_deg :: "(int \<times> int) multiset \<Rightarrow> int \<Rightarrow> nat" where
  "out_deg M x = size (filter_mset (\<lambda>e. fst e = x) M)"

definition in_deg :: "(int \<times> int) multiset \<Rightarrow> int \<Rightarrow> nat" where
  "in_deg M x = size (filter_mset (\<lambda>e. snd e = x) M)"

lemma out_deg_simps [simp]: "out_deg {#} x = 0" "out_deg (add_mset (u, v) M) x = of_bool (u = x) + out_deg M x"
  "out_deg (M + N) x = out_deg M x + out_deg N x"
  by (auto simp: out_deg_def)

lemma in_deg_simps [simp]: "in_deg {#} x = 0" "in_deg (add_mset (u, v) M) x = of_bool (v = x) + in_deg M x"
  "in_deg (M + N) x = in_deg M x + in_deg N x"
  by (auto simp: in_deg_def)

lemma out_deg_0: "out_deg M a = 0 \<longleftrightarrow> (\<forall>v. (a, v) \<notin># M)"
  by (auto simp: out_deg_def)

definition di_bal :: "(int \<times> int) multiset \<Rightarrow> int \<Rightarrow> int \<Rightarrow> bool" where
  "di_bal M a b \<longleftrightarrow> (\<forall>x. out_deg M x + of_bool (x = b) = in_deg M x + of_bool (x = a))"

definition edge_once :: "int \<times> int \<Rightarrow> (int \<times> int) multiset" where
  "edge_once e = {# e #}"

lemma di_next_takes:
  assumes "distinct (map fst g)" "di_next g u = (Some v, g')"
  shows "distinct (map fst g')" "free_edges g = add_mset (u, v) (free_edges g')" "entry_count g' = entry_count g"
proof -
  obtain xs ys where es: "entries_of g u = xs @ (v, False) # ys" "g' = AList.update u (xs @ (v, True) # ys) (touch u g)"
    using di_next_Some [OF assms(2)] by blast
  show "distinct (map fst g')" using assms(1) es(2) by (simp add: AList.distinct_update)
  show "free_edges g = add_mset (u, v) (free_edges g')"
    using free_edges_update [of u "xs @ (v, True) # ys" "touch u g"] es by simp
  show "entry_count g' = entry_count g"
    using entry_count_update [of u "xs @ (v, True) # ys" "touch u g"] es by simp
qed

interpretation di: hierholzer_search di_next di_loop "\<lambda>g. distinct (map fst g)" edge_once 1 di_bal
proof
  show "di_loop [] g p = (g, p)" for g p by simp
  show "di_loop (u # s) g p =
      (case di_next g u of (Some v, g) \<Rightarrow> di_loop (v # u # s) g p
       | (None, g) \<Rightarrow> di_loop s g (if s = [] then p else p @ [(hd s, u)]))" for u s g p
    by simp
  show "distinct (map fst g) \<Longrightarrow> di_next g u = (Some v, g') \<Longrightarrow>
      distinct (map fst g') \<and> free_edges g = free_edges g' + edge_once (u, v) \<and> entry_count g' = entry_count g" for g u v g'
    using di_next_takes by (simp add: edge_once_def)
  show "distinct (map fst g) \<Longrightarrow> di_next g u = (None, g') \<Longrightarrow>
      distinct (map fst g') \<and> free_edges g' = free_edges g \<and> entry_count g' = entry_count g \<and>
      (\<forall>v. (u, v) \<notin># free_edges g)" for g u g'
    using mem_free_edges [of g u] by (auto dest!: di_next_None)
  show "a = b" if "di_bal M a b" "\<forall>v. (a, v) \<notin># M" for M a b
  proof -
    have "out_deg M a + of_bool (a = b) = in_deg M a + 1" "out_deg M a = 0"
      using that by (auto simp: di_bal_def out_deg_0)
    then show ?thesis by (cases "a = b") auto
  qed
  show "di_bal (M + edge_once (u, v)) u b = di_bal M v b" for M u v b
  proof -
    have "out_deg M x + of_bool (u = x) + of_bool (x = b) = in_deg M x + of_bool (v = x) + of_bool (x = u) \<longleftrightarrow>
        out_deg M x + of_bool (x = b) = in_deg M x + of_bool (x = v)" for x
      by (cases "u = x"; cases "v = x"; cases "x = b") auto
    then show ?thesis by (simp add: di_bal_def edge_once_def add.commute)
  qed
  show "di_bal M a a \<Longrightarrow> di_bal M c c" for M a c by (simp add: di_bal_def)
qed (auto simp: edge_once_def di_bal_def)


section \<open>The undirected class is a search\<close>

text \<open>An undirected edge is free in both directions, a loop therefore twice.\<close>

definition symmetric :: "(int \<times> int) multiset \<Rightarrow> bool" where
  "symmetric M \<longleftrightarrow> (\<forall>u v. Multiset.count M (u, v) = Multiset.count M (v, u)) \<and> (\<forall>u. even (Multiset.count M (u, u)))"

definition un_wf :: "adjacency \<Rightarrow> bool" where
  "un_wf g \<longleftrightarrow> distinct (map fst g) \<and> symmetric (free_edges g)"

definition edge_twice :: "int \<times> int \<Rightarrow> (int \<times> int) multiset" where
  "edge_twice e = {# e, prod.swap e #}"

definition un_bal :: "(int \<times> int) multiset \<Rightarrow> int \<Rightarrow> int \<Rightarrow> bool" where
  "un_bal M a b \<longleftrightarrow> (\<forall>x. even (out_deg M x + of_bool (x = a) + of_bool (x = b)))"

lemma symmetric_edge: "symmetric (M + edge_twice (u, v)) \<longleftrightarrow> symmetric M"
proof -
  have c: "Multiset.count (M + edge_twice (u, v)) (x, y) =
      Multiset.count M (x, y) + (of_bool (u = x \<and> v = y) + of_bool (u = y \<and> v = x))" for x y
    by (cases "u = x"; cases "v = y"; cases "u = y"; cases "v = x"; simp add: edge_twice_def)
  have "Multiset.count (M + edge_twice (u, v)) (x, y) = Multiset.count (M + edge_twice (u, v)) (y, x) \<longleftrightarrow>
      Multiset.count M (x, y) = Multiset.count M (y, x)" for x y
    unfolding c by (simp add: add.commute)
  moreover have "even (Multiset.count (M + edge_twice (u, v)) (x, x)) \<longleftrightarrow> even (Multiset.count M (x, x))" for x
    unfolding c by (simp flip: mult_2)
  ultimately show ?thesis unfolding symmetric_def by blast
qed

lemma mark_reverse_at:
  "(u, False) \<in> set es \<Longrightarrow> \<exists>xs ys. es = xs @ (u, False) # ys \<and> mark_reverse u es = xs @ (u, True) # ys"
proof (induction es)
  case (Cons e es)
  obtain x b where e: "e = (x, b)" by fastforce
  show ?case
  proof (cases "x = u \<and> \<not> b")
    case True
    with e show ?thesis by auto
  next
    case False
    with Cons e obtain xs ys where "es = xs @ (u, False) # ys" "mark_reverse u es = xs @ (u, True) # ys" by auto
    with False e have "e # es = (e # xs) @ (u, False) # ys \<and> mark_reverse u (e # es) = (e # xs) @ (u, True) # ys" by auto
    then show ?thesis by blast
  qed
qed simp

lemma un_next_takes:
  assumes wf: "un_wf g" and step: "un_next g u = (Some v, g')"
  shows "un_wf g'" "free_edges g = free_edges g' + edge_twice (u, v)" "entry_count g' = entry_count g"
proof -
  obtain h where h: "di_next g u = (Some v, h)" "g' = AList.update v (mark_reverse u (entries_of h v)) h"
    using step by (auto simp: un_next_di split: prod.splits option.splits)
  have d: "distinct (map fst g)" and sym: "symmetric (free_edges g)" using wf by (auto simp: un_wf_def)
  note t = di_next_takes [OF d h(1)]
  have "(v, u) \<in># free_edges h"
  proof (cases "u = v")
    case True
    have "even (Multiset.count (free_edges g) (u, u))" using sym by (simp add: symmetric_def)
    then have "odd (Multiset.count (free_edges h) (u, u))" using t(2) True by simp
    then show ?thesis using True by (metis count_eq_zero_iff even_zero)
  next
    case False
    have "Multiset.count (free_edges g) (v, u) = Multiset.count (free_edges g) (u, v)" using sym by (simp add: symmetric_def)
    then show ?thesis using t(2) False by (metis add_mset_remove_trivial_eq insert_noteq_member prod.inject
          count_eq_zero_iff union_single_eq_member)
  qed
  then have "(u, False) \<in> set (entries_of h v)" using mem_free_edges [OF t(1)] by simp
  then obtain xs ys where m: "entries_of h v = xs @ (u, False) # ys"
    "mark_reverse u (entries_of h v) = xs @ (u, True) # ys" using mark_reverse_at by blast
  have "g' = AList.update v (xs @ (u, True) # ys) h" using h(2) m(2) by simp
  then have "free_edges h = add_mset (v, u) (free_edges g')"
    using free_edges_update [of v "xs @ (u, True) # ys" h] m(1) by simp
  with t(2) show fr: "free_edges g = free_edges g' + edge_twice (u, v)" by (simp add: edge_twice_def)
  show "entry_count g' = entry_count g"
    using entry_count_update [of v "mark_reverse u (entries_of h v)" h] h(2) t(3) by simp
  have "distinct (map fst g')" using t(1) h(2) by (simp add: AList.distinct_update)
  moreover have "symmetric (free_edges g')" using sym symmetric_edge unfolding fr by blast
  ultimately show "un_wf g'" by (simp add: un_wf_def)
qed

interpretation un: hierholzer_search un_next un_loop un_wf edge_twice 2 un_bal
proof
  show "un_loop [] g p = (g, p)" for g p by simp
  show "un_loop (u # s) g p =
      (case un_next g u of (Some v, g) \<Rightarrow> un_loop (v # u # s) g p
       | (None, g) \<Rightarrow> un_loop s g (if s = [] then p else p @ [(hd s, u)]))" for u s g p
    by simp
  show "un_wf g \<Longrightarrow> un_next g u = (Some v, g') \<Longrightarrow>
      un_wf g' \<and> free_edges g = free_edges g' + edge_twice (u, v) \<and> entry_count g' = entry_count g" for g u v g'
    using un_next_takes by blast
  show "un_wf g \<Longrightarrow> un_next g u = (None, g') \<Longrightarrow>
      un_wf g' \<and> free_edges g' = free_edges g \<and> entry_count g' = entry_count g \<and>
      (\<forall>v. (u, v) \<notin># free_edges g)" for g u g'
    using mem_free_edges [of g u] by (auto simp: un_wf_def dest!: un_next_None)
  show "a = b" if "un_bal M a b" "\<forall>v. (a, v) \<notin># M" for M a b
  proof -
    have "even (out_deg M a + of_bool (a = a) + of_bool (a = b))" using that(1) unfolding un_bal_def by blast
    moreover have "out_deg M a = 0" using that(2) by (simp add: out_deg_0)
    ultimately show ?thesis by (cases "a = b") auto
  qed
  show "un_bal (M + edge_twice (u, v)) u b = un_bal M v b" for M u v b
  proof -
    have "even (out_deg M x + of_bool (u = x) + of_bool (v = x) + of_bool (x = u) + of_bool (x = b)) \<longleftrightarrow>
        even (out_deg M x + of_bool (x = v) + of_bool (x = b))" for x
      by (cases "u = x"; cases "v = x"; cases "x = b") auto
    then show ?thesis by (simp add: un_bal_def edge_twice_def ac_simps)
  qed
  show "un_bal M a a \<Longrightarrow> un_bal M c c" for M a c
    by (simp add: un_bal_def add.assoc flip: mult_2)
qed (auto simp: edge_twice_def un_bal_def simp flip: mult_2)


section \<open>Graphs as the client builds them\<close>

text \<open>
  \<open>holds M g\<close>: no edge of \<open>g\<close> has been visited, its edges are \<open>M\<close> and every node of the map has one.
  It does not depend on the order of the map.
\<close>

definition holds :: "(int \<times> int) multiset \<Rightarrow> adjacency \<Rightarrow> bool" where
  "holds M g \<longleftrightarrow> distinct (map fst g) \<and> free_edges g = M \<and>
     (\<forall>(u, es) \<in> set g. es \<noteq> [] \<and> (\<forall>(v, b) \<in> set es. \<not> b))"

lemma set_entries_of: "(v, b) \<in> set (entries_of g u) \<Longrightarrow> \<exists>es. (u, es) \<in> set g \<and> (v, b) \<in> set es"
  by (cases "map_of g u") (auto simp: entries_of_def dest: map_of_SomeD)

lemma update_entries:
  "distinct (map fst g) \<Longrightarrow> set (AList.update u es g) = {(x, fs) \<in> set g. x \<noteq> u} \<union> {(u, es)}"
  by (induction g) (auto simp: image_iff)

lemma holds_push: "holds M g \<Longrightarrow> holds (add_mset (u, v) M) (push_entry u v g)"
proof -
  assume h: "holds M g"
  have "free_edges (push_entry u v g) = add_mset (u, v) M"
    using free_edges_update [of u "entries_of g u @ [(v, False)]" g] h by (simp add: push_entry_def holds_def)
  moreover have "\<not> b" if "(w, b) \<in> set (entries_of g u)" for w b
    using set_entries_of [OF that] h by (auto simp: holds_def)
  ultimately show ?thesis
    using h by (auto simp: holds_def push_entry_def AList.distinct_update update_entries)
qed

lemma free_edges_sum: "free_edges g = sum_mset (image_mset (\<lambda>(u, es). free_at u es) (mset g))"
  by (induction g) auto

lemma holds_order: "holds M g \<Longrightarrow> mset g' = mset g \<Longrightarrow> holds M g'"
proof -
  assume h: "holds M g" "mset g' = mset g"
  have "mset (map fst g') = mset (map fst g)" using h(2) by simp
  then have "distinct (map fst g') \<longleftrightarrow> distinct (map fst g)" by (rule mset_eq_imp_distinct_iff)
  moreover have "free_edges g' = free_edges g" using h(2) by (simp add: free_edges_sum)
  ultimately show ?thesis using h(1) mset_eq_setD [OF h(2)] by (simp add: holds_def)
qed

lemma edge_twice_add: "M + edge_twice (u, v) = add_mset (v, u) (add_mset (u, v) M)"
  by (simp add: edge_twice_def add_mset_commute)

lemma edge_once_add: "edge_once e + M = add_mset e M"
  by (simp add: edge_once_def)

text \<open>The edges of the client's calls, in any order of the map.\<close>

definition di_built :: "(int \<times> int) list \<Rightarrow> eulerian \<Rightarrow> bool" where
  "di_built es e \<longleftrightarrow> mset (eg_graph e) = mset (eg_graph (fold (\<lambda>(u, v). di_addEdge u v) es Eulerian_new))"

definition un_built :: "(int \<times> int) list \<Rightarrow> eulerian \<Rightarrow> bool" where
  "un_built es e \<longleftrightarrow> mset (eg_graph e) = mset (eg_graph (fold (\<lambda>(u, v). un_addEdge u v) es Eulerian_new))"

lemma di_built_holds: "di_built es e \<Longrightarrow> holds (mset es) (eg_graph e)"
proof -
  have "holds (mset es) (eg_graph (fold (\<lambda>(u, v). di_addEdge u v) es Eulerian_new))"
  proof (induction es rule: rev_induct)
    case (snoc e es)
    then show ?case by (cases e) (simp add: di_addEdge_def holds_push)
  qed (simp add: Eulerian_new_def holds_def)
  then show "di_built es e \<Longrightarrow> ?thesis" unfolding di_built_def by (rule holds_order)
qed

lemma un_built_holds: "un_built es e \<Longrightarrow> holds (un.contribs es) (eg_graph e)"
proof -
  have "holds (un.contribs es) (eg_graph (fold (\<lambda>(u, v). un_addEdge u v) es Eulerian_new))"
  proof (induction es rule: rev_induct)
    case (snoc e es)
    obtain u v where e: "e = (u, v)" by fastforce
    show ?case
      using holds_push [OF holds_push [OF snoc.IH, of u v], of v u]
      by (simp add: e un_addEdge_def edge_twice_add add_mset_commute)
  qed (simp add: Eulerian_new_def holds_def)
  then show "un_built es e \<Longrightarrow> ?thesis" unfolding un_built_def by (rule holds_order)
qed

lemma di_contribs [simp]: "di.contribs es = mset es"
  by (induction es) (simp_all add: edge_once_add)

lemma fresh_free_at: "\<forall>(v, b) \<in> set es. \<not> b \<Longrightarrow> size (free_at u es) = length es \<and> out_deg (free_at u es) u = length es"
  by (induction es) auto

lemma out_deg_free_at: "x \<noteq> u \<Longrightarrow> out_deg (free_at u es) x = 0"
  by (simp add: out_deg_0 mem_free_at)

lemma holds_count: "holds M g \<Longrightarrow> size M = entry_count g"
proof -
  have "\<forall>(u, es) \<in> set g. \<forall>(v, b) \<in> set es. \<not> b \<Longrightarrow> size (free_edges g) = entry_count g"
    by (induction g) (auto simp: entry_count_def fresh_free_at)
  moreover assume h: "holds M g"
  then have "\<forall>(u, es) \<in> set g. \<forall>(v, b) \<in> set es. \<not> b" unfolding holds_def by fast
  ultimately show ?thesis using h by (simp add: holds_def)
qed

lemma free_edges_out: "x \<notin> fst ` set g \<Longrightarrow> out_deg (free_edges g) x = 0"
  by (induction g) (auto simp: out_deg_free_at)

lemma fresh_out_deg:
  "distinct (map fst g) \<Longrightarrow> (x, es) \<in> set g \<Longrightarrow> \<forall>(v, b) \<in> set es. \<not> b \<Longrightarrow> out_deg (free_edges g) x = length es"
proof (induction g)
  case (Cons ge g)
  obtain u fs where ge: "ge = (u, fs)" by fastforce
  show ?case
  proof (cases "u = x")
    case True
    then have "(x, fs) = (x, es)" using Cons.prems ge by (metis distinct.simps(2) fst_conv image_eqI list.set_map
          list.simps(9) set_ConsD)
    then show ?thesis using Cons.prems ge True free_edges_out [of x g] fresh_free_at [of es x] by simp
  next
    case False
    then show ?thesis using Cons ge by (auto simp: out_deg_free_at)
  qed
qed simp

lemma holds_out_deg: "holds M g \<Longrightarrow> (x, es) \<in> set g \<Longrightarrow> out_deg M x = length es"
  using fresh_out_deg [of g x es] by (auto simp: holds_def)

lemma holds_nodes: "holds M g \<Longrightarrow> fst ` set g = fst ` set_mset M"
proof -
  assume h: "holds M g"
  show ?thesis
  proof (intro set_eqI iffI)
    fix x assume "x \<in> fst ` set g"
    then obtain es where es: "(x, es) \<in> set g" by auto
    then have "out_deg M x \<noteq> 0" using holds_out_deg [OF h es] h by (auto simp: holds_def)
    then obtain v where "(x, v) \<in># M" unfolding out_deg_0 by blast
    then show "x \<in> fst ` set_mset M" by force
  next
    fix x assume "x \<in> fst ` set_mset M"
    then obtain v where "(x, v) \<in># M" by auto
    then have "out_deg M x \<noteq> 0" unfolding out_deg_0 by blast
    then show "x \<in> fst ` set g" using free_edges_out [of x g] h by (auto simp: holds_def)
  qed
qed


section \<open>Degrees in the directed class\<close>

lemma in_fold: "count_entries es d x = d x + length (filter (\<lambda>(v, b). v = x) es)"
  by (induction es arbitrary: d) (auto simp: count_entries_def)

lemma fresh_in_deg: "\<forall>(v, b) \<in> set es. \<not> b \<Longrightarrow> in_deg (free_at u es) x = length (filter (\<lambda>(v, b). v = x) es)"
  by (induction es) auto

lemma in_degrees_fold:
  "\<forall>(u, es) \<in> set g. \<forall>(v, b) \<in> set es. \<not> b \<Longrightarrow>
   fst (fold degree_step g (i, d)) x =
     i x + in_deg (free_edges g) x"
  by (induction g arbitrary: i d) (auto simp: in_fold fresh_in_deg)

lemma out_degrees_fold:
  "distinct (map fst g) \<Longrightarrow> \<forall>(u, es) \<in> set g. \<forall>(v, b) \<in> set es. \<not> b \<Longrightarrow>
   snd (fold degree_step g (i, d)) x =
     (if x \<in> fst ` set g then out_deg (free_edges g) x else d x)"
proof (induction g arbitrary: i d)
  case (Cons ge g)
  obtain u es where ge: "ge = (u, es)" by fastforce
  have fr: "\<forall>(v, b) \<in> set es. \<not> b" using Cons.prems ge by simp
  have "distinct (map fst g)" "\<forall>(u, es) \<in> set g. \<forall>(v, b) \<in> set es. \<not> b" using Cons.prems by auto
  note IH = Cons.IH [OF this, of "count_entries es i" "d(u := length es)"]
  have "fold degree_step (ge # g) (i, d) = fold degree_step g (count_entries es i, d(u := length es))"
    by (simp add: ge del: fun_upd_apply)
  note step = arg_cong [OF this, of "\<lambda>r. snd r x", unfolded IH]
  show ?case
    unfolding step using Cons.prems(1) ge fresh_free_at [OF fr, of u] free_edges_out [of u g] out_deg_free_at [of x u es]
    by (cases "x = u") auto
qed simp

lemma holds_degrees:
  assumes "holds M g"
  shows "fst (getInOutDegrees g) x = in_deg M x" "x \<in> fst ` set g \<Longrightarrow> snd (getInOutDegrees g) x = out_deg M x"
proof -
  have d: "distinct (map fst g)" and f: "\<forall>(u, es) \<in> set g. \<forall>(v, b) \<in> set es. \<not> b"
    using assms unfolding holds_def by fast+
  show "fst (getInOutDegrees g) x = in_deg M x" "x \<in> fst ` set g \<Longrightarrow> snd (getInOutDegrees g) x = out_deg M x"
    using in_degrees_fold [OF f, of "\<lambda>_. 0" "\<lambda>_. 0" x] out_degrees_fold [OF d f, of "\<lambda>_. 0" "\<lambda>_. 0" x] assms
    by (simp_all add: getInOutDegrees_def holds_def)
qed

text \<open>Every edge leaves a node of the map; if the degrees agree in sum, every edge also leads to one.\<close>

lemma sum_out_deg: "finite K \<Longrightarrow> (\<Sum>x\<in>K. out_deg M x) = size (filter_mset (\<lambda>e. fst e \<in> K) M)"
proof (induction M)
  case (add e M)
  then show ?case by (cases e) (auto simp: sum.distrib sum_of_bool_eq)
qed simp

lemma sum_in_deg: "finite K \<Longrightarrow> (\<Sum>x\<in>K. in_deg M x) = size (filter_mset (\<lambda>e. snd e \<in> K) M)"
proof (induction M)
  case (add e M)
  then show ?case by (cases e) (auto simp: sum.distrib sum_of_bool_eq)
qed simp

lemma targets_inside:
  assumes "finite K" "fst ` set_mset M \<subseteq> K" "(\<Sum>x\<in>K. in_deg M x) = (\<Sum>x\<in>K. out_deg M x)" "x \<notin> K"
  shows "in_deg M x = 0" "out_deg M x = 0"
proof -
  have "filter_mset (\<lambda>e. fst e \<in> K) M = M" using assms(2) by (auto simp: filter_mset_eq_conv)
  then have "size (filter_mset (\<lambda>e. snd e \<in> K) M) = size M"
    using assms sum_in_deg [of K M] sum_out_deg [of K M] by simp
  moreover have "size M = size (filter_mset (\<lambda>e. snd e \<in> K) M) + size (filter_mset (\<lambda>e. snd e \<notin> K) M)"
    by (metis multiset_partition size_union)
  ultimately have "\<forall>e \<in># M. snd e \<in> K" by auto
  then show "in_deg M x = 0" using assms(4) by (auto simp: in_deg_def)
  show "out_deg M x = 0" using assms(2,4) unfolding out_deg_0 by force
qed


lemma di_bal_nodes:
  assumes h: "holds M g" and ab: "a = b \<or> a \<in> fst ` set g \<and> b \<in> fst ` set g"
    and deg: "\<forall>x \<in> fst ` set g. out_deg M x + of_bool (x = b) = in_deg M x + of_bool (x = a)"
  shows "di_bal M a b"
  unfolding di_bal_def
proof
  fix x
  let ?K = "fst ` set g"
  have "(\<Sum>x\<in>?K. out_deg M x + of_bool (x = b)) = (\<Sum>x\<in>?K. in_deg M x + of_bool (x = a))"
    using deg by (intro sum.cong) auto
  moreover have "(\<Sum>x\<in>?K. of_bool (x = a)) = ((\<Sum>x\<in>?K. of_bool (x = b)) :: nat)"
  proof (cases "a = b")
    case False
    then have "?K \<inter> {a} = {a}" "?K \<inter> {b} = {b}" using ab by blast+
    then show ?thesis by (simp add: sum_of_bool_eq)
  qed simp
  ultimately have "(\<Sum>x\<in>?K. in_deg M x) = (\<Sum>x\<in>?K. out_deg M x)" by (simp add: sum.distrib)
  note out = targets_inside [OF _ _ this, of x]
  show "out_deg M x + of_bool (x = b) = in_deg M x + of_bool (x = a)"
  proof (cases "x \<in> ?K")
    case True
    with deg show ?thesis by blast
  next
    case False
    with out ab holds_nodes [OF h] show ?thesis by (cases "a = b") auto
  qed
qed

lemma di_check:
  assumes h: "holds M g"
  shows "(\<exists>(node, es) \<in> set g. fst (getInOutDegrees g) node \<noteq> snd (getInOutDegrees g) node) \<longleftrightarrow> \<not> di_bal M a a"
proof -
  have "(\<exists>(node, es) \<in> set g. fst (getInOutDegrees g) node \<noteq> snd (getInOutDegrees g) node) \<longleftrightarrow>
      (\<exists>x \<in> fst ` set g. in_deg M x \<noteq> out_deg M x)"
    using holds_degrees [OF h] by force
  also have "\<dots> \<longleftrightarrow> \<not> di_bal M a a"
    using di_bal_nodes [OF h, of a a] unfolding di_bal_def by (metis add_right_cancel)
  finally show ?thesis .
qed

text \<open>The scan of the nodes.\<close>

definition diff_nodes :: "(int \<Rightarrow> nat) \<Rightarrow> (int \<Rightarrow> nat) \<Rightarrow> adjacency \<Rightarrow> int \<Rightarrow> int list" where
  "diff_nodes i d g c = filter (\<lambda>x. int (d x) - int (i x) = c) (map fst g)"

lemma diff_nodes_simps: "diff_nodes i d [] c = []"
  "diff_nodes i d ((u, es) # g) c = (if int (d u) - int (i u) = c then u # diff_nodes i d g c else diff_nodes i d g c)"
  by (simp_all add: diff_nodes_def)

lemma degree_scan_eq:
  "degree_scan i d g (m, n, s) =
     (if \<exists>x \<in> fst ` set g. int (d x) - int (i x) \<notin> {-1, 0, 1} then None
      else Some (m + length (diff_nodes i d g 1), n + length (diff_nodes i d g (-1)),
             if diff_nodes i d g 1 = [] then s else last (diff_nodes i d g 1)))"
proof (induction g arbitrary: m n s)
  case (Cons ge g)
  obtain u es where ge: "ge = (u, es)" by fastforce
  show ?case
    unfolding ge by (simp add: Cons.IH diff_nodes_simps Let_def)
qed (simp add: diff_nodes_simps)

lemma filter_single: "distinct xs \<Longrightarrow> a \<in> set xs \<Longrightarrow> filter (\<lambda>x. x = a) xs = [a]"
  by (induction xs) (auto simp: filter_empty_conv)


section \<open>Circuits and paths of the directed class\<close>

lemma di_run:
  assumes h: "holds M g" and bal: "di_bal M a b"
  defines "e \<equiv> di_hierholzer a \<lparr> eg_graph = g, eg_path = [] \<rparr>"
  shows "length (eg_path e) = entry_count (eg_graph e) \<longleftrightarrow> free_edges (eg_graph e) = {#}"
    and "free_edges (eg_graph e) = {#} \<Longrightarrow> trail a (printed_path e) b \<and> mset (printed_path e) = M"
    and "\<forall>(u, v) \<in> set_mset M. (a, u) \<in> (set_mset M)\<^sup>* \<Longrightarrow> free_edges (eg_graph e) = {#}"
    and "entry_count (eg_graph e) = size M" "distinct (map fst (eg_graph e))"
proof -
  obtain g' p where loop: "di_loop [a] g [] = (g', p)" by fastforce
  have e: "e = \<lparr> eg_graph = g', eg_path = p \<rparr>" by (simp add: e_def di_hierholzer_def loop del: di_loop.simps)
  have d: "distinct (map fst g)" and M: "free_edges g = M" using h by (auto simp: holds_def)
  note args = d bal [folded M] loop
  note w = di.search_walk [OF args]
  have c: "entry_count g' = size M" using w(3) holds_count [OF h] by simp
  show "length (eg_path e) = entry_count (eg_graph e) \<longleftrightarrow> free_edges (eg_graph e) = {#}"
    using di.search_length [OF args] c by (auto simp: e M)
  show "free_edges (eg_graph e) = {#} \<Longrightarrow> trail a (printed_path e) b \<and> mset (printed_path e) = M"
    using w(1,2) by (simp add: e printed_path_def M)
  show "\<forall>(u, v) \<in> set_mset M. (a, u) \<in> (set_mset M)\<^sup>* \<Longrightarrow> free_edges (eg_graph e) = {#}"
    using di.search_covers [OF args] by (simp add: e M)
  show "entry_count (eg_graph e) = size M" "distinct (map fst (eg_graph e))"
    using c w(4) by (simp_all add: e)
qed

lemma di_circuit_eq:
  assumes h: "holds M (eg_graph e)"
  shows "di_findEulerCircuit a e =
    (if di_bal M a a
     then let e = di_hierholzer a (e\<lparr> eg_path := [] \<rparr>) in (length (eg_path e) = entry_count (eg_graph e), e)
     else (False, e\<lparr> eg_path := [] \<rparr>))"
  using di_check [OF h, of a] by (simp add: di_findEulerCircuit_def case_prod_beta Let_def)

lemma di_circuit:
  assumes h: "holds M (eg_graph e)"
  shows "fst (di_findEulerCircuit a e) \<longleftrightarrow> (\<exists>ws. trail a ws a \<and> mset ws = M)"
    and "fst (di_findEulerCircuit a e) \<Longrightarrow>
      trail a (printed_path (snd (di_findEulerCircuit a e))) a \<and> mset (printed_path (snd (di_findEulerCircuit a e))) = M \<and>
      free_edges (eg_graph (snd (di_findEulerCircuit a e))) = {#} \<and>
      entry_count (eg_graph (snd (di_findEulerCircuit a e))) = size M \<and>
      distinct (map fst (eg_graph (snd (di_findEulerCircuit a e))))"
proof -
  have e: "e\<lparr> eg_path := [] \<rparr> = \<lparr> eg_graph = eg_graph e, eg_path = [] \<rparr>" by simp
  have no: "di_bal M a a" if "trail a ws a" "mset ws = M" for ws
    using di.trail_bal [OF that(1)] that(2) by simp
  show "fst (di_findEulerCircuit a e) \<Longrightarrow>
      trail a (printed_path (snd (di_findEulerCircuit a e))) a \<and> mset (printed_path (snd (di_findEulerCircuit a e))) = M \<and>
      free_edges (eg_graph (snd (di_findEulerCircuit a e))) = {#} \<and>
      entry_count (eg_graph (snd (di_findEulerCircuit a e))) = size M \<and>
      distinct (map fst (eg_graph (snd (di_findEulerCircuit a e))))"
    using di_run [OF h, of a a] by (simp add: di_circuit_eq [OF h] e Let_def split: if_splits)
  show "fst (di_findEulerCircuit a e) \<longleftrightarrow> (\<exists>ws. trail a ws a \<and> mset ws = M)"
  proof
    assume "fst (di_findEulerCircuit a e)"
    then show "\<exists>ws. trail a ws a \<and> mset ws = M"
      using di_run(1,2) [OF h, of a a] by (auto simp: di_circuit_eq [OF h] e Let_def split: if_splits)
  next
    assume "\<exists>ws. trail a ws a \<and> mset ws = M"
    then obtain ws where ws: "trail a ws a" "mset ws = M" by blast
    have "\<forall>(u, v) \<in> set_mset M. (a, u) \<in> (set_mset M)\<^sup>*"
      using di.trail_reach [OF ws(1)] ws(2) by auto
    then show "fst (di_findEulerCircuit a e)"
      using di_run(1,3) [OF h no [OF ws]] no [OF ws] by (simp add: di_circuit_eq [OF h] e Let_def)
  qed
qed

text \<open>The visited flags are never cleared: a search of a graph that has been covered finds nothing.\<close>

lemma di_covered:
  assumes "distinct (map fst (eg_graph e))" "free_edges (eg_graph e) = {#}" "entry_count (eg_graph e) \<noteq> 0"
  shows "\<not> fst (di_findEulerCircuit a e)"
proof -
  have "take_entry (entries_of (eg_graph e) a) = None"
    using mem_free_edges [OF assms(1), of a] assms(2) by (simp add: take_entry_None)
  then have "di_next (eg_graph e) a = (None, touch a (eg_graph e))"
    by (simp add: di_next_def Let_def)
  then have "di_loop [a] (eg_graph e) [] = (touch a (eg_graph e), [])" by simp
  then show ?thesis using assms(3)
    by (simp add: di_findEulerCircuit_def di_hierholzer_def Let_def case_prod_beta)
qed


text \<open>The three outcomes of the scan: balanced, one start and one end, neither.\<close>

definition di_path_from :: "int option \<Rightarrow> eulerian \<Rightarrow> (bool \<times> eulerian) option" where
  "di_path_from start e =
     do { a \<leftarrow> start;
          let e = di_hierholzer a \<lparr> eg_graph = eg_graph e, eg_path = [] \<rparr>;
          Some (length (eg_path e) = entry_count (eg_graph e), e) }"

lemma holds_diff_nodes:
  assumes "holds M g"
  shows "diff_nodes (fst (getInOutDegrees g)) (snd (getInOutDegrees g)) g c =
    filter (\<lambda>x. int (out_deg M x) - int (in_deg M x) = c) (map fst g)"
  using holds_degrees [OF assms] by (auto simp: diff_nodes_def intro!: filter_cong)

lemma di_path_eq:
  assumes h: "holds M (eg_graph e)"
  defines "starts \<equiv> filter (\<lambda>x. int (out_deg M x) - int (in_deg M x) = 1) (map fst (eg_graph e))"
    and "ends \<equiv> filter (\<lambda>x. int (out_deg M x) - int (in_deg M x) = -1) (map fst (eg_graph e))"
  shows "di_findEulerPath e =
    (if (\<exists>x \<in> fst ` set (eg_graph e). int (out_deg M x) - int (in_deg M x) \<notin> {-1, 0, 1}) \<or>
        \<not> (starts = [] \<and> ends = [] \<or> length starts = 1 \<and> length ends = 1)
     then Some (False, \<lparr> eg_graph = eg_graph e, eg_path = [] \<rparr>)
     else di_path_from (if starts = [] \<or> hd starts = -1 then begin_node (eg_graph e) else Some (hd starts)) e)"
proof -
  let ?g = "eg_graph e" and ?i = "fst (getInOutDegrees (eg_graph e))" and ?d = "snd (getInOutDegrees (eg_graph e))"
  have e: "e\<lparr> eg_path := [] \<rparr> = \<lparr> eg_graph = ?g, eg_path = [] \<rparr>" by simp
  have bad: "(\<exists>x \<in> fst ` set ?g. int (?d x) - int (?i x) \<notin> {-1, 0, 1}) \<longleftrightarrow>
      (\<exists>x \<in> fst ` set ?g. int (out_deg M x) - int (in_deg M x) \<notin> {-1, 0, 1})"
    using holds_degrees [OF h] by (intro bex_cong) simp_all
  have last: "last starts = hd starts" if "length starts = 1" using that by (cases starts) auto
  have nodes: "diff_nodes ?i ?d ?g 1 = starts" "diff_nodes ?i ?d ?g (-1) = ends"
    using holds_diff_nodes [OF h] by (simp_all add: starts_def ends_def)
  define B where "B \<longleftrightarrow> (\<exists>x \<in> fst ` set ?g. int (out_deg M x) - int (in_deg M x) \<notin> {-1, 0, 1})"
  have "degree_scan ?i ?d ?g (0, 0, -1) =
      (if B then None else Some (length starts, length ends, if starts = [] then -1 else last starts))"
    unfolding degree_scan_eq bad nodes B_def by simp
  with last show ?thesis
    unfolding di_findEulerPath_def Let_def e B_def [symmetric]
    by (cases "starts = []") (auto simp: case_prod_beta di_path_from_def Let_def)
qed


lemma trail_back: "trail a ws b \<Longrightarrow> (u, v) \<in> set ws \<Longrightarrow> (u, b) \<in> (set ws)\<^sup>*"
proof (induction ws arbitrary: a u v)
  case (Cons w ws)
  then obtain c where w: "w = (a, c)" "trail c ws b" by (cases w) auto
  note IH = Cons.IH [OF w(2)]
  have mono: "(set ws)\<^sup>* \<subseteq> (set (w # ws))\<^sup>*" by (rule rtrancl_mono) auto
  have end_c: "(c, b) \<in> (set ws)\<^sup>*"
  proof (cases ws)
    case Nil
    then show ?thesis using w(2) by simp
  next
    case (Cons x xs)
    then obtain y where "x = (c, y)" using w(2) by (cases x) auto
    then show ?thesis using IH [of c y] Cons by simp
  qed
  show ?case
  proof (cases "(u, v) = w")
    case True
    then have "u = a" "(a, c) \<in> set (w # ws)" using w(1) by auto
    then show ?thesis using end_c mono by (meson converse_rtrancl_into_rtrancl subsetD)
  next
    case False
    then show ?thesis using IH [of u v] Cons.prems(2) mono by auto
  qed
qed simp

lemma di_bal_path:
  assumes h: "holds M g" and bal: "di_bal M a b" and ab: "a \<noteq> b" "a \<in> fst ` set g" "b \<in> fst ` set g"
  shows "filter (\<lambda>x. int (out_deg M x) - int (in_deg M x) = 1) (map fst g) = [a]"
    and "filter (\<lambda>x. int (out_deg M x) - int (in_deg M x) = -1) (map fst g) = [b]"
    and "int (out_deg M x) - int (in_deg M x) \<in> {-1, 0, 1}"
proof -
  have deg: "int (out_deg M x) - int (in_deg M x) = of_bool (x = a) - of_bool (x = b)" for x
    using bal [unfolded di_bal_def, rule_format, of x] by (cases "x = a"; cases "x = b") auto
  have d: "distinct (map fst g)" using h by (simp add: holds_def)
  have "int (out_deg M x) - int (in_deg M x) = 1 \<longleftrightarrow> x = a" "int (out_deg M x) - int (in_deg M x) = -1 \<longleftrightarrow> x = b" for x
    unfolding deg using ab(1) by auto
  then show "filter (\<lambda>x. int (out_deg M x) - int (in_deg M x) = 1) (map fst g) = [a]"
    "filter (\<lambda>x. int (out_deg M x) - int (in_deg M x) = -1) (map fst g) = [b]"
    using filter_single [OF d] ab(2,3) by auto
  show "int (out_deg M x) - int (in_deg M x) \<in> {-1, 0, 1}" unfolding deg by auto
qed

lemma di_bal_circuit:
  assumes "di_bal M c c"
  shows "filter (\<lambda>x. int (out_deg M x) - int (in_deg M x) = 1) xs = []"
    and "filter (\<lambda>x. int (out_deg M x) - int (in_deg M x) = -1) xs = []"
    and "int (out_deg M x) - int (in_deg M x) \<in> {-1, 0, 1}"
  using assms by (simp_all add: di_bal_def)

lemma di_path_from_eq:
  "di_path_from (Some a) e =
    Some (length (eg_path (di_hierholzer a \<lparr> eg_graph = eg_graph e, eg_path = [] \<rparr>)) =
          entry_count (eg_graph (di_hierholzer a \<lparr> eg_graph = eg_graph e, eg_path = [] \<rparr>)),
          di_hierholzer a \<lparr> eg_graph = eg_graph e, eg_path = [] \<rparr>)"
  by (simp add: di_path_from_def Let_def)

text \<open>When the scan succeeds, the search starts at one end of the degrees of a walk.\<close>

lemma di_path_scan:
  assumes h: "holds M (eg_graph e)" and ne: "M \<noteq> {#}" and minus: "-1 \<notin> fst ` set_mset M"
  obtains "di_findEulerPath e = Some (False, \<lparr> eg_graph = eg_graph e, eg_path = [] \<rparr>)"
      "\<nexists>a b. di_bal M a b \<and> (a = b \<or> a \<in> fst ` set_mset M \<and> b \<in> fst ` set_mset M)"
  | a b where "di_findEulerPath e = di_path_from (Some a) e" "di_bal M a b" "a \<in> fst ` set_mset M" "b \<in> fst ` set_mset M"
      "\<And>c. di_bal M c c \<Longrightarrow> a = b" "\<And>c d. di_bal M c d \<Longrightarrow> c \<noteq> d \<Longrightarrow> c \<in> fst ` set_mset M \<Longrightarrow> d \<in> fst ` set_mset M \<Longrightarrow> c = a"
proof -
  let ?g = "eg_graph e"
  let ?starts = "filter (\<lambda>x. int (out_deg M x) - int (in_deg M x) = 1) (map fst ?g)"
  let ?ends = "filter (\<lambda>x. int (out_deg M x) - int (in_deg M x) = -1) (map fst ?g)"
  note K = holds_nodes [OF h]
  obtain k es rest where g: "?g = (k, es) # rest"
    using ne h by (cases ?g) (auto simp: holds_def)
  then have k: "k \<in> fst ` set ?g" "begin_node ?g = Some k" by (simp_all add: begin_node_def)
  consider (circuit) "di_bal M 0 0" | (path) a b where "di_bal M a b" "a \<noteq> b" "a \<in> fst ` set ?g" "b \<in> fst ` set ?g"
    | (neither) "\<nexists>a b. di_bal M a b \<and> (a = b \<or> a \<in> fst ` set ?g \<and> b \<in> fst ` set ?g)"
    by (metis di.bal_same)
  then show thesis
  proof cases
    case circuit
    then have "di_findEulerPath e = di_path_from (Some k) e"
      using di_path_eq [OF h] di_bal_circuit [OF circuit] k by (simp del: insert_iff)
    moreover have "di_bal M k k" using circuit by (rule di.bal_same)
    moreover have "c = d" if "di_bal M c d" "c \<in> fst ` set_mset M" "d \<in> fst ` set_mset M" for c d
      using di_bal_path(1) [OF h that(1)] di_bal_circuit(1) [OF circuit, of "map fst ?g"] that K by force
    ultimately show thesis using that(2) [of k k] k K by blast
  next
    case path
    note p = di_bal_path [OF h path]
    have "a \<noteq> -1" using minus path(3) unfolding K by blast
    then have "di_findEulerPath e = di_path_from (Some a) e"
      using di_path_eq [OF h] p by (simp del: insert_iff)
    moreover have "\<not> di_bal M c c" for c using di_bal_circuit(1) [of M c "map fst ?g"] p(1) by auto
    moreover have "c = a" if "di_bal M c d" "c \<noteq> d" "c \<in> fst ` set_mset M" "d \<in> fst ` set_mset M" for c d
      using di_bal_path(1) [OF h that(1,2)] that(3,4) p(1) K by simp
    ultimately show thesis using that(2) [of a b] path K by blast
  next
    case neither
    have "di_findEulerPath e = Some (False, \<lparr> eg_graph = ?g, eg_path = [] \<rparr>)"
    proof (rule ccontr)
      assume "di_findEulerPath e \<noteq> Some (False, \<lparr> eg_graph = ?g, eg_path = [] \<rparr>)"
      then have ok: "\<forall>x \<in> fst ` set ?g. int (out_deg M x) - int (in_deg M x) \<in> {-1, 0, 1}"
        and cnt: "?starts = [] \<and> ?ends = [] \<or> length ?starts = 1 \<and> length ?ends = 1"
        using di_path_eq [OF h] by (auto split: if_splits)
      show False
      proof (cases "?starts = [] \<and> ?ends = []")
        case True
        have "out_deg M x = in_deg M x" if "x \<in> fst ` set ?g" for x
          using ok True that by (auto simp: filter_empty_conv)
        then have "di_bal M 0 0" by (intro di_bal_nodes [OF h]) auto
        then show False using neither by blast
      next
        case False
        then have len: "length ?starts = Suc 0" "length ?ends = Suc 0" using cnt unfolding One_nat_def by blast+
        then obtain a b where ab: "?starts = [a]" "?ends = [b]" unfolding length_Suc_conv length_0_conv by blast
        have mem: "int (out_deg M x) - int (in_deg M x) = 1 \<longleftrightarrow> x = a" "int (out_deg M x) - int (in_deg M x) = -1 \<longleftrightarrow> x = b"
          if "x \<in> fst ` set ?g" for x
        proof -
          have "x \<in> set ?starts \<longleftrightarrow> x = a" "x \<in> set ?ends \<longleftrightarrow> x = b" unfolding ab by auto
          then show "int (out_deg M x) - int (in_deg M x) = 1 \<longleftrightarrow> x = a" "int (out_deg M x) - int (in_deg M x) = -1 \<longleftrightarrow> x = b"
            using that by auto
        qed
        have in_g: "a \<in> fst ` set ?g" "b \<in> fst ` set ?g"
          using arg_cong [OF ab(1), of set] arg_cong [OF ab(2), of set] by auto
        have "out_deg M x + of_bool (x = b) = in_deg M x + of_bool (x = a)" if x: "x \<in> fst ` set ?g" for x
          using mem [OF x] ok [rule_format, OF x] by (cases "x = a"; cases "x = b") auto
        then have "di_bal M a b" using in_g by (intro di_bal_nodes [OF h]) auto
        then show False using neither in_g by blast
      qed
    qed
    then show thesis using that(1) neither K by auto
  qed
qed

lemma di_path:
  assumes h: "holds M (eg_graph e)" and ne: "M \<noteq> {#}" and minus: "-1 \<notin> fst ` set_mset M"
  shows "\<exists>r e'. di_findEulerPath e = Some (r, e') \<and>
    (r \<longleftrightarrow> (\<exists>a b ws. trail a ws b \<and> mset ws = M \<and> b \<in> fst ` set_mset M)) \<and>
    (r \<longrightarrow> (\<exists>a b. trail a (printed_path e') b \<and> mset (printed_path e') = M))"
  using h ne minus
proof (cases rule: di_path_scan)
  case 1
  have "di_bal M a b \<and> (a = b \<or> a \<in> fst ` set_mset M \<and> b \<in> fst ` set_mset M)"
    if ws: "trail a ws b" "mset ws = M" "b \<in> fst ` set_mset M" for a b ws
  proof -
    have "a \<in> fst ` set_mset M" if "a \<noteq> b" using ws that by (cases ws) force+
    then show ?thesis using di.trail_bal [OF ws(1)] ws(2,3) by auto
  qed
  with 1 show ?thesis by blast
next
  case (2 a b)
  let ?e = "di_hierholzer a \<lparr> eg_graph = eg_graph e, eg_path = [] \<rparr>"
  note run = di_run [OF h 2(2)]
  have full: "free_edges (eg_graph ?e) = {#}"
    if ws: "trail c ws d" "mset ws = M" "d \<in> fst ` set_mset M" for c d ws
  proof (rule run(3))
    have bal: "di_bal M c d" using di.trail_bal [OF ws(1)] ws(2) by simp
    have reach: "(c, u) \<in> (set_mset M)\<^sup>*" if "(u, v) \<in># M" for u v
      using di.trail_reach [OF ws(1), of u v] that ws(2) by auto
    have return: "(u, d) \<in> (set_mset M)\<^sup>*" if "(u, v) \<in># M" for u v
      using trail_back [OF ws(1), of u v] that ws(2) by (metis set_mset_mset)
    have "(a, c) \<in> (set_mset M)\<^sup>*"
    proof (cases "c = d")
      case True
      obtain v where "(a, v) \<in># M" using 2(3) by auto
      then show ?thesis using return True by blast
    next
      case False
      then have "c \<in> fst ` set_mset M" using ws by (cases ws) force+
      then show ?thesis using 2(6) [OF bal False _ ws(3)] by simp
    qed
    then show "\<forall>(u, v) \<in> set_mset M. (a, u) \<in> (set_mset M)\<^sup>*" using reach by (auto intro: rtrancl_trans)
  qed
  have "di_findEulerPath e = Some (free_edges (eg_graph ?e) = {#}, ?e)"
    using 2(1) run(1) by (simp add: di_path_from_eq)
  then show ?thesis using full run(2) 2(4) by blast
qed


section \<open>Circuits and paths of the undirected class\<close>

lemma symmetric_contribs: "symmetric (un.contribs es)"
proof (induction es)
  case (Cons e es)
  then show ?case using symmetric_edge [of "un.contribs es" "fst e" "snd e"] by (simp add: add.commute)
qed (simp add: symmetric_def)

text \<open>\<open>un_graph M g\<close>: an undirected graph that has not been searched.\<close>

definition un_graph :: "(int \<times> int) multiset \<Rightarrow> adjacency \<Rightarrow> bool" where
  "un_graph M g \<longleftrightarrow> holds M g \<and> symmetric M \<and> even (size M)"

lemma un_built_graph: "un_built es e \<Longrightarrow> un_graph (un.contribs es) (eg_graph e)"
  using un_built_holds [of es e] symmetric_contribs [of es] un.size_contribs [of es] by (simp add: un_graph_def)

lemma un_run:
  assumes h: "un_graph M g" and bal: "un_bal M a b"
  defines "e \<equiv> un_hierholzer a \<lparr> eg_graph = g, eg_path = [] \<rparr>"
  shows "length (eg_path e) = entry_count (eg_graph e) div 2 \<longleftrightarrow> free_edges (eg_graph e) = {#}"
    and "free_edges (eg_graph e) = {#} \<Longrightarrow> trail a (printed_path e) b \<and> un.contribs (printed_path e) = M"
    and "\<forall>(u, v) \<in> set_mset M. (a, u) \<in> (set_mset M)\<^sup>* \<Longrightarrow> free_edges (eg_graph e) = {#}"
    and "entry_count (eg_graph e) = size M" "distinct (map fst (eg_graph e))"
proof -
  obtain g' p where loop: "un_loop [a] g [] = (g', p)" by fastforce
  have e: "e = \<lparr> eg_graph = g', eg_path = p \<rparr>" by (simp add: e_def un_hierholzer_def loop del: un_loop.simps)
  have d: "un_wf g" and M: "free_edges g = M" and ev: "even (size M)" and hh: "holds M g"
    using h by (auto simp: un_graph_def holds_def un_wf_def)
  note args = d bal [folded M] loop
  note w = un.search_walk [OF args]
  have c: "entry_count g' = size M" using w(3) holds_count [OF hh] by simp
  have "length p = size M div 2 \<longleftrightarrow> size M = 2 * length p" using ev by auto
  then show "length (eg_path e) = entry_count (eg_graph e) div 2 \<longleftrightarrow> free_edges (eg_graph e) = {#}"
    using un.search_length [OF args] c by (simp add: e M)
  show "free_edges (eg_graph e) = {#} \<Longrightarrow> trail a (printed_path e) b \<and> un.contribs (printed_path e) = M"
    using w(1,2) by (simp add: e printed_path_def M)
  show "\<forall>(u, v) \<in> set_mset M. (a, u) \<in> (set_mset M)\<^sup>* \<Longrightarrow> free_edges (eg_graph e) = {#}"
    using un.search_covers [OF args] by (simp add: e M)
  show "entry_count (eg_graph e) = size M" "distinct (map fst (eg_graph e))"
    using c w(4) by (simp_all add: e un_wf_def)
qed

lemma holds_odd:
  assumes h: "holds M g"
  shows "map fst (filter (\<lambda>(node, es). length es mod 2 \<noteq> 0) g) = filter (\<lambda>x. odd (out_deg M x)) (map fst g)"
  using holds_out_deg [OF h]
  by (auto simp: filter_map comp_def case_prod_beta odd_iff_mod_2_eq_one intro!: arg_cong [of _ _ "map fst"] filter_cong)

lemma holds_even_outside: "holds M g \<Longrightarrow> x \<notin> fst ` set g \<Longrightarrow> out_deg M x = 0"
  using free_edges_out [of x g] by (simp add: holds_def)

lemma un_check:
  assumes h: "holds M g"
  shows "(\<exists>(node, es) \<in> set g. length es mod 2 \<noteq> 0) \<longleftrightarrow> \<not> un_bal M a a"
proof -
  have "(\<exists>(node, es) \<in> set g. length es mod 2 \<noteq> 0) \<longleftrightarrow> (\<exists>x. odd (out_deg M x))"
  proof
    assume "\<exists>(node, es) \<in> set g. length es mod 2 \<noteq> 0"
    then obtain x es where "(x, es) \<in> set g" "odd (length es)" by (auto simp: odd_iff_mod_2_eq_one)
    then show "\<exists>x. odd (out_deg M x)" using holds_out_deg [OF h] by metis
  next
    assume "\<exists>x. odd (out_deg M x)"
    then obtain x where x: "odd (out_deg M x)" by blast
    then have "x \<in> fst ` set g" using holds_even_outside [OF h, of x] by fastforce
    then obtain es where es: "(x, es) \<in> set g" by auto
    with x have "length es mod 2 \<noteq> 0" using holds_out_deg [OF h es] by (simp add: even_iff_mod_2_eq_zero)
    with es show "\<exists>(node, es) \<in> set g. length es mod 2 \<noteq> 0" by blast
  qed
  also have "\<dots> \<longleftrightarrow> \<not> un_bal M a a" by (simp add: un_bal_def add.assoc flip: mult_2)
  finally show ?thesis .
qed

lemma un_circuit_eq:
  assumes h: "holds M (eg_graph e)"
  shows "un_findEulerCircuit a e =
    (if un_bal M a a
     then let e = un_hierholzer a (e\<lparr> eg_path := [] \<rparr>) in (length (eg_path e) = entry_count (eg_graph e) div 2, e)
     else (False, e\<lparr> eg_path := [] \<rparr>))"
proof -
  have "(\<exists>(node, es) \<in> set (eg_graph (e\<lparr> eg_path := [] \<rparr>)). length es mod 2 \<noteq> 0) \<longleftrightarrow> \<not> un_bal M a a"
    using un_check [OF h, of a] by simp
  then show ?thesis unfolding un_findEulerCircuit_def Let_def by (simp only: if_not_P if_P simp_thms split: if_split) simp
qed

lemma un_circuit:
  assumes g: "un_graph M (eg_graph e)"
  shows "fst (un_findEulerCircuit a e) \<longleftrightarrow> (\<exists>ws. trail a ws a \<and> un.contribs ws = M)"
    and "fst (un_findEulerCircuit a e) \<Longrightarrow>
      trail a (printed_path (snd (un_findEulerCircuit a e))) a \<and> un.contribs (printed_path (snd (un_findEulerCircuit a e))) = M"
proof -
  have h: "holds M (eg_graph e)" using g by (simp add: un_graph_def)
  have e: "e\<lparr> eg_path := [] \<rparr> = \<lparr> eg_graph = eg_graph e, eg_path = [] \<rparr>" by simp
  have no: "un_bal M a a" if "trail a ws a" "un.contribs ws = M" for ws
    using un.trail_bal [OF that(1)] that(2) by simp
  show "fst (un_findEulerCircuit a e) \<Longrightarrow>
      trail a (printed_path (snd (un_findEulerCircuit a e))) a \<and> un.contribs (printed_path (snd (un_findEulerCircuit a e))) = M"
    using un_run(1,2) [OF g, of a a] by (simp add: un_circuit_eq [OF h] e Let_def split: if_splits)
  show "fst (un_findEulerCircuit a e) \<longleftrightarrow> (\<exists>ws. trail a ws a \<and> un.contribs ws = M)"
  proof
    assume "fst (un_findEulerCircuit a e)"
    then show "\<exists>ws. trail a ws a \<and> un.contribs ws = M"
      using un_run(1,2) [OF g, of a a] by (auto simp: un_circuit_eq [OF h] e Let_def split: if_splits)
  next
    assume "\<exists>ws. trail a ws a \<and> un.contribs ws = M"
    then obtain ws where ws: "trail a ws a" "un.contribs ws = M" by blast
    have "\<forall>(u, v) \<in> set_mset M. (a, u) \<in> (set_mset M)\<^sup>*"
      using un.trail_reach [OF ws(1)] ws(2) by auto
    then show "fst (un_findEulerCircuit a e)"
      using un_run(1,3) [OF g no [OF ws]] no [OF ws] by (simp add: un_circuit_eq [OF h] e Let_def)
  qed
qed


lemma un_bal_odd: "un_bal M a b \<Longrightarrow> odd (out_deg M x) \<longleftrightarrow> (x = a) \<noteq> (x = b)"
  unfolding un_bal_def by (drule spec [of _ x]) (cases "x = a"; cases "x = b"; simp)

lemma un_balI: "(\<And>x. odd (out_deg M x) \<longleftrightarrow> (x = a) \<noteq> (x = b)) \<Longrightarrow> un_bal M a b"
  unfolding un_bal_def by (auto simp: of_bool_def)

lemma filter_two:
  assumes "distinct xs" "a \<noteq> b" "a \<in> set xs" "b \<in> set xs"
  shows "length (filter (\<lambda>x. x = a \<or> x = b) xs) = 2"
proof -
  have "length (filter (\<lambda>x. x = a \<or> x = b) xs) = card {x \<in> set xs. x = a \<or> x = b}"
    using assms(1) by (simp add: distinct_length_filter Collect_conj_eq Int_commute)
  also have "{x \<in> set xs. x = a \<or> x = b} = {a, b}" using assms(3,4) by auto
  finally show ?thesis using assms(2) by simp
qed

lemma un_path_scan:
  assumes g: "un_graph M (eg_graph e)" and ne: "M \<noteq> {#}"
  obtains "un_findEulerPath e = Some (False, \<lparr> eg_graph = eg_graph e, eg_path = [] \<rparr>)" "\<nexists>a b. un_bal M a b"
  | a b where "un_bal M a b" "a \<in> fst ` set_mset M"
      "un_findEulerPath e =
        Some (length (eg_path (un_hierholzer a \<lparr> eg_graph = eg_graph e, eg_path = [] \<rparr>)) =
              entry_count (eg_graph (un_hierholzer a \<lparr> eg_graph = eg_graph e, eg_path = [] \<rparr>)) div 2,
              un_hierholzer a \<lparr> eg_graph = eg_graph e, eg_path = [] \<rparr>)"
proof -
  let ?g = "eg_graph e"
  define xs where "xs = filter (\<lambda>x. odd (out_deg M x)) (map fst ?g)"
  have h: "holds M ?g" using g by (simp add: un_graph_def)
  have e: "e\<lparr> eg_path := [] \<rparr> = \<lparr> eg_graph = ?g, eg_path = [] \<rparr>" by simp
  have d: "distinct (map fst ?g)" using h by (simp add: holds_def)
  note K = holds_nodes [OF h]
  have in_xs: "x \<in> set xs \<longleftrightarrow> odd (out_deg M x)" for x
    by (cases "x \<in> fst ` set ?g") (auto simp: xs_def holds_even_outside [OF h])
  obtain k es rest where "?g = (k, es) # rest" using ne h by (cases ?g) (auto simp: holds_def)
  then have k: "k \<in> fst ` set_mset M" "begin_node ?g = Some k" using K by (auto simp: begin_node_def)
  have path: "un_findEulerPath e =
      (if length xs \<noteq> 0 \<and> length xs \<noteq> 2 then Some (False, \<lparr> eg_graph = ?g, eg_path = [] \<rparr>)
       else do { a \<leftarrow> (if length xs = 2 then Some (xs ! 0) else begin_node ?g);
                 let e = un_hierholzer a \<lparr> eg_graph = ?g, eg_path = [] \<rparr>;
                 Some (length (eg_path e) = entry_count (eg_graph e) div 2, e) })"
    unfolding un_findEulerPath_def Let_def e using holds_odd [OF h] by (simp add: xs_def)
  consider (none) "length xs = 0" | (two) "length xs = 2" | (other) "length xs \<noteq> 0" "length xs \<noteq> 2" by blast
  then show thesis
  proof cases
    case none
    then have "un_bal M k k" using in_xs by (intro un_balI) auto
    then show thesis using that(2) [of k k] none k path by (simp add: Let_def)
  next
    case two
    then obtain a b where ab: "xs = [a, b]" by (metis One_nat_def Suc_1 length_0_conv length_Suc_conv)
    have "distinct xs" using d by (simp add: xs_def)
    then have "a \<noteq> b" by (simp add: ab)
    then have "un_bal M a b" using in_xs ab by (intro un_balI) auto
    moreover have "a \<in> fst ` set_mset M"
    proof -
      have "odd (out_deg M a)" using in_xs [of a] ab by simp
      then have "out_deg M a \<noteq> 0" by (metis even_zero)
      then show ?thesis unfolding out_deg_0 by force
    qed
    ultimately show thesis using that(2) [of a b] two path ab by (simp add: Let_def)
  next
    case other
    have "\<not> un_bal M a b" for a b
    proof
      assume bal: "un_bal M a b"
      show False
      proof (cases "a = b")
        case True
        then show False using un_bal_odd [OF bal] in_xs other(1) by (metis length_greater_0_conv list.set_intros(1) neq_Nil_conv neq0_conv)
      next
        case False
        then have "xs = filter (\<lambda>x. x = a \<or> x = b) (map fst ?g)"
          unfolding xs_def using un_bal_odd [OF bal] by (intro filter_cong) auto
        moreover have "a \<in> set (map fst ?g)" "b \<in> set (map fst ?g)"
          using in_xs [of a] in_xs [of b] un_bal_odd [OF bal] False by (auto simp: xs_def)
        ultimately show False using filter_two [OF d False] other(2) by simp
      qed
    qed
    then show thesis using that(1) other path by simp
  qed
qed

lemma un_path:
  assumes g: "un_graph M (eg_graph e)" and ne: "M \<noteq> {#}"
  shows "\<exists>r e'. un_findEulerPath e = Some (r, e') \<and>
    (r \<longleftrightarrow> (\<exists>a b ws. trail a ws b \<and> un.contribs ws = M)) \<and>
    (r \<longrightarrow> (\<exists>a b. trail a (printed_path e') b \<and> un.contribs (printed_path e') = M))"
  using g ne
proof (cases rule: un_path_scan)
  case 1
  then have "\<nexists>a b ws. trail a ws b \<and> un.contribs ws = M" using un.trail_bal by blast
  with 1 show ?thesis by blast
next
  case (2 a b)
  let ?e = "un_hierholzer a \<lparr> eg_graph = eg_graph e, eg_path = [] \<rparr>"
  note run = un_run [OF g 2(1)]
  have sym: "sym ((set_mset M)\<^sup>*)"
  proof (rule sym_rtrancl, rule symI)
    fix u v assume "(u, v) \<in># M"
    then show "(v, u) \<in># M" using g unfolding un_graph_def symmetric_def by (metis count_eq_zero_iff)
  qed
  have full: "free_edges (eg_graph ?e) = {#}" if ws: "trail c ws d" "un.contribs ws = M" for c d ws
  proof (rule run(3))
    have reach: "(c, u) \<in> (set_mset M)\<^sup>*" if "(u, v) \<in># M" for u v
      using un.trail_reach [OF ws(1), of u v] that ws(2) by auto
    obtain v where "(a, v) \<in># M" using 2(2) by auto
    then have "(a, c) \<in> (set_mset M)\<^sup>*" using reach sym by (meson symD)
    then show "\<forall>(u, v) \<in> set_mset M. (a, u) \<in> (set_mset M)\<^sup>*" using reach by (auto intro: rtrancl_trans)
  qed
  have "un_findEulerPath e = Some (free_edges (eg_graph ?e) = {#}, ?e)" using 2(3) run(1) by simp
  then show ?thesis using full run(2) by blast
qed


text \<open>Equality of undirected edges.\<close>

definition undirected :: "int \<times> int \<Rightarrow> int \<times> int" where
  "undirected e = (min (fst e) (snd e), max (fst e) (snd e))"

lemma edge_twice_undirected: "edge_twice (undirected e) = edge_twice e"
  by (cases e) (auto simp: edge_twice_def undirected_def min_def max_def add_mset_commute)

lemma un_contribs_mset: "un.contribs es = sum_mset (image_mset edge_twice (mset es))"
  by (induction es) simp_all

lemma count_contribs:
  "u \<le> v \<Longrightarrow> Multiset.count (un.contribs es) (u, v) =
     (if u = v then 2 else 1) * Multiset.count (mset (map undirected es)) (u, v)"
proof (induction es)
  case (Cons e es)
  obtain x y where e: "e = (x, y)" by fastforce
  have "Multiset.count (edge_twice e) (u, v) = (if u = v then 2 else 1) * of_bool (undirected e = (u, v))"
    using Cons.prems unfolding e edge_twice_def undirected_def by (cases "x \<le> y") (auto simp: min_def max_def)
  with Cons show ?case by (simp add: distrib_left)
qed simp

lemma contribs_undirected:
  "un.contribs ws = un.contribs es \<longleftrightarrow> mset (map undirected ws) = mset (map undirected es)"
proof
  assume eq: "un.contribs ws = un.contribs es"
  show "mset (map undirected ws) = mset (map undirected es)"
  proof (rule multiset_eqI)
    fix p :: "int \<times> int"
    obtain u v where p: "p = (u, v)" by fastforce
    show "Multiset.count (mset (map undirected ws)) p = Multiset.count (mset (map undirected es)) p"
    proof (cases "u \<le> v")
      case True
      then show ?thesis
        using count_contribs [OF True, of ws] count_contribs [OF True, of es] eq by (auto simp: p split: if_splits)
    next
      case False
      then have "p \<notin> set (map undirected xs)" for xs by (auto simp: p undirected_def min_def max_def split: if_splits)
      then show ?thesis by (metis count_eq_zero_iff set_mset_mset)
    qed
  qed
next
  have norm: "un.contribs xs = sum_mset (image_mset edge_twice (mset (map undirected xs)))" for xs
    by (simp add: un_contribs_mset multiset.map_comp comp_def edge_twice_undirected)
  assume "mset (map undirected ws) = mset (map undirected es)"
  then show "un.contribs ws = un.contribs es" unfolding norm by simp
qed

section \<open>The results\<close>



text \<open>
  Claim C39.  An undirected graph built by calls of \<open>addEdge\<close>, loops and repeated edges included.  \<open>findEulerCircuit(a)\<close>
  is true exactly if some circuit from \<open>a\<close> uses every edge once, \<open>findEulerPath\<close> exactly if some path
  does, and the printed path is one.
\<close>

theorem undirected_euler:
  assumes "un_built es e"
  shows "(fst (un_findEulerCircuit a e) \<longleftrightarrow> (\<exists>ws. trail a ws a \<and> mset (map undirected ws) = mset (map undirected es)))
    \<and> (fst (un_findEulerCircuit a e) \<longrightarrow>
         trail a (printed_path (snd (un_findEulerCircuit a e))) a
         \<and> mset (map undirected (printed_path (snd (un_findEulerCircuit a e)))) = mset (map undirected es))
    \<and> (es \<noteq> [] \<longrightarrow>
         (\<exists>r e'. un_findEulerPath e = Some (r, e')
            \<and> (r \<longleftrightarrow> (\<exists>x y ws. trail x ws y \<and> mset (map undirected ws) = mset (map undirected es)))
            \<and> (r \<longrightarrow> (\<exists>x y. trail x (printed_path e') y
                  \<and> mset (map undirected (printed_path e')) = mset (map undirected es)))))"
proof -
  note g = un_built_graph [OF assms]
  have "un.contribs es \<noteq> {#}" if "es \<noteq> []"
    using un.size_contribs [of es] that by (metis length_0_conv mult_is_0 size_empty zero_neq_numeral)
  then show ?thesis
    using un_circuit [OF g, of a] un_path [OF g] unfolding contribs_undirected by simp
qed

theorem undirected_euler_witness:
  "fst (un_findEulerCircuit 0 (fold (\<lambda>(u, v). un_addEdge u v) [(0, 1), (2, 1), (2, 0)] Eulerian_new))"
proof -
  have "trail 0 [(0, 1), (1, 2), (2, 0)] 0"
    "mset (map undirected [(0, 1), (1, 2), (2, 0)]) = mset (map undirected [(0, 1), (2, 1), (2, 0)])"
    by (simp_all add: undirected_def)
  then show ?thesis
    using undirected_euler [of "[(0, 1), (2, 1), (2, 0)]" "fold (\<lambda>(u, v). un_addEdge u v) [(0, 1), (2, 1), (2, 0)] Eulerian_new" 0]
    unfolding un_built_def by blast
qed

text \<open>
  Two graphs on which the directed search goes wrong: a path that ends in a node without outgoing edges
  is not found, and with a start called \<open>-1\<close> the search begins elsewhere and prints a sequence that
  is no path, although it answers that it found one.
\<close>

lemma directed_path_missed:
  "trail 0 [(0, 1)] 1 \<and>
   map_option fst (di_findEulerPath (fold (\<lambda>(u, v). di_addEdge u v) [(0, 1)] Eulerian_new)) = Some False"
  by code_simp

lemma directed_path_misled:
  "map_option (\<lambda>(r, e). (r, printed_path e))
     (di_findEulerPath (fold (\<lambda>(u, v). di_addEdge u v) [(0, -1), (-1, 0), (-1, 0)] Eulerian_new)) =
   Some (True, [(0, -1), (-1, 0), (-1, 0)])"
  by code_simp

end
