(* ===== verification/CountingSorts.thy ===== *)
theory CountingSorts
  imports Prelude "HOL-Library.Signed_Division"
begin

text \<open>
  Counting sort and radix sort (\<^verbatim>\<open>datastruct/counting_sort.h\<close>, \<^verbatim>\<open>datastruct/radix_sort.h\<close>).

  Both compute in \<open>int\<close>: \<open>int_result\<close> is \<open>None\<close> where a value does not fit, as is an access outside
  a vector.  The two files have the same three loops over the counters, for the key \<open>x - min_val\<close> and
  for a decimal digit; they are modelled once, with the key as an argument.
\<close>

definition int_result :: "int \<Rightarrow> int option" where
  "int_result x = do { check (- (2 ^ 31) \<le> x \<and> x < 2 ^ 31); Some x }"

definition min_element :: "int list \<Rightarrow> int" where
  "min_element nums = foldl (\<lambda>m x. if x < m then x else m) (hd nums) (tl nums)"

definition max_element :: "int list \<Rightarrow> int" where
  "max_element nums = foldl (\<lambda>m x. if m < x then x else m) (hd nums) (tl nums)"

text \<open>The loops over the counters: counting, the running sums, and filling from the back.\<close>

fun count_keys :: "(int \<Rightarrow> int) \<Rightarrow> int list \<Rightarrow> nat list \<Rightarrow> nat list option" where
  "count_keys key [] c = Some c"
| "count_keys key (x # xs) c =
     do { let k = nat (key x);
          check (0 \<le> key x \<and> k < length c);
          count_keys key xs (c[k := c ! k + 1]) }"

definition prefix_sums :: "nat list \<Rightarrow> nat list" where
  "prefix_sums c = foldl (\<lambda>c i. c[i := c ! i + c ! (i - 1)]) c [1..<length c]"

fun fill_back :: "(int \<Rightarrow> int) \<Rightarrow> int list \<Rightarrow> nat list \<Rightarrow> int list \<Rightarrow> int list option" where
  "fill_back key [] c out = Some out"
| "fill_back key (x # xs) c out =
     do { let k = nat (key x);
          check (0 \<le> key x \<and> k < length c);
          check (0 < c ! k \<and> c ! k - 1 < length out);
          fill_back key xs (c[k := c ! k - 1]) (out[c ! k - 1 := x]) }"

definition countingSort :: "int list \<Rightarrow> int list option" where
  "countingSort nums =
     (if nums = [] then Some []
      else do { let min_val = min_element nums;
                let max_val = max_element nums;
                range \<leftarrow> int_result (max_val - min_val);
                range \<leftarrow> int_result (range + 1);
                cnt \<leftarrow> count_keys (\<lambda>x. x - min_val) nums (replicate (nat range) 0);
                let cnt = prefix_sums cnt;
                fill_back (\<lambda>x. x - min_val) (rev nums) cnt (replicate (length nums) 0) })"

definition digit :: "int \<Rightarrow> int \<Rightarrow> int" where
  "digit ex x = (x sdiv ex) smod 10"

definition countingSortForRadix :: "int list \<Rightarrow> int \<Rightarrow> int list option" where
  "countingSortForRadix arr ex =
     do { cnt \<leftarrow> count_keys (digit ex) arr (replicate 10 0);
          let cnt = prefix_sums cnt;
          fill_back (digit ex) (rev arr) cnt (replicate (length arr) 0) }"

partial_function (option) radix_loop :: "int \<Rightarrow> int \<Rightarrow> int list \<Rightarrow> int list option" where
  "radix_loop max_val ex nums =
     (if max_val sdiv ex > 0
      then do { nums \<leftarrow> countingSortForRadix nums ex;
                ex \<leftarrow> int_result (ex * 10);
                radix_loop max_val ex nums }
      else Some nums)"

declare radix_loop.simps [code]

fun shift_all :: "int \<Rightarrow> int list \<Rightarrow> int list option" where
  "shift_all d [] = Some []"
| "shift_all d (x # xs) = do { y \<leftarrow> int_result (x + d); ys \<leftarrow> shift_all d xs; Some (y # ys) }"

definition radixSort :: "int list \<Rightarrow> int list option" where
  "radixSort nums =
     (if nums = [] then Some []
      else do { let min_val = min_element nums;
                offset \<leftarrow> (if min_val < 0 then int_result (- min_val) else Some 0);
                nums \<leftarrow> (if offset > 0 then shift_all offset nums else Some nums);
                let max_val = max_element nums;
                nums \<leftarrow> radix_loop max_val 1 nums;
                if offset > 0 then shift_all (- offset) nums else Some nums })"

section \<open>Grouping by key\<close>

lemma filter_less_Suc:
  fixes k :: "'a \<Rightarrow> nat"
  shows "sorted (map k ys) \<Longrightarrow> filter (\<lambda>x. k x < n) ys @ filter (\<lambda>x. k x = n) ys = filter (\<lambda>x. k x < Suc n) ys"
proof (induction ys)
  case (Cons y ys)
  show ?case
  proof (cases "k y < n")
    case True
    with Cons show ?thesis by simp
  next
    case False
    then have "\<forall>x \<in> set ys. \<not> k x < n" using Cons.prems by fastforce
    then have "filter (\<lambda>x. k x < n) ys = []" by (simp add: filter_empty_conv)
    with False Cons show ?thesis by auto
  qed
qed simp

lemma groups_of_sorted:
  fixes k :: "'a \<Rightarrow> nat"
  assumes "sorted (map k ys)"
  shows "concat (map (\<lambda>d. filter (\<lambda>x. k x = d) ys) [0..<n]) = filter (\<lambda>x. k x < n) ys"
  using filter_less_Suc [OF assms] by (induction n) simp_all

lemma groups_sort_key:
  fixes k :: "'a \<Rightarrow> nat"
  assumes "\<forall>x \<in> set xs. k x < n"
  shows "concat (map (\<lambda>d. filter (\<lambda>x. k x = d) xs) [0..<n]) = sort_key k xs"
proof -
  have "filter (\<lambda>x. k x = d) (sort_key k xs) = filter (\<lambda>x. k x = d) xs" for d by (rule sort_key_stable)
  then have "concat (map (\<lambda>d. filter (\<lambda>x. k x = d) xs) [0..<n]) =
      concat (map (\<lambda>d. filter (\<lambda>x. k x = d) (sort_key k xs)) [0..<n])" by simp
  also have "\<dots> = filter (\<lambda>x. k x < n) (sort_key k xs)" by (rule groups_of_sorted) simp
  also have "\<dots> = sort_key k xs" using assms by (simp add: filter_id_conv)
  finally show ?thesis .
qed

text \<open>Where the groups lie in their concatenation.\<close>

definition group_start :: "(nat \<Rightarrow> 'a list) \<Rightarrow> nat \<Rightarrow> nat" where
  "group_start L d = (\<Sum>j<d. length (L j))"

lemma group_start_Suc [simp]: "group_start L 0 = 0" "group_start L (Suc d) = group_start L d + length (L d)"
  by (simp_all add: group_start_def)

lemma length_groups: "length (concat (map L [0..<n])) = group_start L n"
  by (induction n) simp_all

lemma group_start_less: "d < n \<Longrightarrow> group_start L d + length (L d) \<le> group_start L n"
proof (induction n)
  case (Suc n)
  then show ?case by (cases "d = n") auto
qed simp

lemma group_start_inj:
  assumes "group_start L d + r = group_start L e + q" "r < length (L d)" "q < length (L e)"
  shows "d = e \<and> r = q"
proof (cases d e rule: linorder_cases)
  case less
  then show ?thesis using group_start_less [OF less, of L] assms by simp
next
  case equal
  then show ?thesis using assms by simp
next
  case greater
  then show ?thesis using group_start_less [OF greater, of L] assms by simp
qed

lemma group_split: "i < group_start L n \<Longrightarrow> \<exists>d<n. \<exists>r<length (L d). i = group_start L d + r"
proof (induction n)
  case (Suc n)
  show ?case
  proof (cases "i < group_start L n")
    case True
    then show ?thesis using Suc.IH less_SucI by blast
  next
    case False
    then have "i = group_start L n + (i - group_start L n)" "i - group_start L n < length (L n)"
      using Suc.prems by auto
    then show ?thesis by blast
  qed
qed simp

lemma groups_nth: "d < n \<Longrightarrow> r < length (L d) \<Longrightarrow> concat (map L [0..<n]) ! (group_start L d + r) = L d ! r"
proof (induction n)
  case (Suc n)
  show ?case
  proof (cases "d = n")
    case True
    with Suc.prems show ?thesis using length_groups [of L n] by (simp add: nth_append)
  next
    case False
    then have "group_start L d + r < group_start L n"
      using Suc.prems group_start_less [of d n L] by simp
    with False Suc show ?thesis using length_groups [of L n] by (simp add: nth_append)
  qed
qed simp


section \<open>The loops over the counters\<close>

definition key_group :: "(int \<Rightarrow> int) \<Rightarrow> int list \<Rightarrow> nat \<Rightarrow> int list" where
  "key_group key xs d = filter (\<lambda>x. nat (key x) = d) xs"

definition keys_below :: "(int \<Rightarrow> int) \<Rightarrow> int list \<Rightarrow> nat \<Rightarrow> bool" where
  "keys_below key xs n \<longleftrightarrow> (\<forall>x \<in> set xs. 0 \<le> key x \<and> nat (key x) < n)"

lemma count_keys_ok:
  "keys_below key xs (length c) \<Longrightarrow>
   \<exists>c'. count_keys key xs c = Some c' \<and> length c' = length c \<and> (\<forall>d < length c. c' ! d = c ! d + length (key_group key xs d))"
proof (induction xs arbitrary: c)
  case (Cons x xs)
  let ?c = "c[nat (key x) := c ! nat (key x) + 1]"
  have x: "0 \<le> key x" "nat (key x) < length c" using Cons.prems by (auto simp: keys_below_def)
  obtain c' where c': "count_keys key xs ?c = Some c'" "length c' = length c"
    "\<forall>d < length c. c' ! d = ?c ! d + length (key_group key xs d)"
    using Cons.IH [of ?c] Cons.prems by (auto simp: keys_below_def)
  moreover have "\<forall>d < length c. c' ! d = c ! d + length (key_group key (x # xs) d)"
    using c'(3) by (auto simp: nth_list_update key_group_def)
  ultimately show ?case using x by (simp add: Let_def)
qed (simp add: key_group_def)

lemma running_sums:
  assumes "n \<le> length c"
  shows "length (foldl (\<lambda>c i. c[i := c ! i + c ! (i - 1)]) c [1..<n]) = length c \<and>
    (\<forall>d < length c. foldl (\<lambda>c i. c[i := c ! i + c ! (i - 1)]) c [1..<n] ! d = (if d < n then \<Sum>j\<le>d. c ! j else c ! d))"
  using assms
proof (induction n)
  case (Suc n)
  let ?c = "foldl (\<lambda>c i. c[i := c ! i + c ! (i - 1)]) c [1..<n]"
  have IH: "length ?c = length c" "\<forall>d < length c. ?c ! d = (if d < n then \<Sum>j\<le>d. c ! j else c ! d)"
    using Suc by simp_all
  show ?case
  proof (cases n)
    case 0
    then show ?thesis by simp
  next
    case (Suc m)
    have "(\<Sum>j\<le>n. c ! j) = c ! n + (\<Sum>j\<le>m. c ! j)" using Suc by (simp add: add.commute)
    then have "?c ! n + ?c ! (n - 1) = (\<Sum>j\<le>n. c ! j)" using IH(2) Suc.prems Suc by simp
    moreover have "[1..<Suc n] = [1..<n] @ [n]" using Suc by simp
    ultimately show ?thesis using IH Suc.prems by (auto simp: nth_list_update less_Suc_eq)
  qed
qed simp

lemma prefix_sums_ok:
  "length (prefix_sums c) = length c \<and> (\<forall>d < length c. prefix_sums c ! d = (\<Sum>j\<le>d. c ! j))"
  using running_sums [of "length c" c] by (simp add: prefix_sums_def)

text \<open>
  Filling from the back: of each group the elements of the part \<open>ys\<close> still to come have their
  places free, and the others stand in theirs.
\<close>

definition filled :: "(int \<Rightarrow> int) \<Rightarrow> int list \<Rightarrow> nat \<Rightarrow> int list \<Rightarrow> nat list \<Rightarrow> int list \<Rightarrow> bool" where
  "filled key xs n ys c out \<longleftrightarrow>
     length c = n \<and> length out = length xs \<and>
     (\<forall>d<n. c ! d = group_start (key_group key xs) d + length (key_group key ys d)) \<and>
     (\<forall>d<n. \<forall>r. length (key_group key ys d) \<le> r \<longrightarrow> r < length (key_group key xs d) \<longrightarrow>
        out ! (group_start (key_group key xs) d + r) = key_group key xs d ! r)"

lemma group_total:
  assumes "keys_below key xs n"
  shows "concat (map (key_group key xs) [0..<n]) = sort_key (\<lambda>x. nat (key x)) xs" "group_start (key_group key xs) n = length xs"
proof -
  show eq: "concat (map (key_group key xs) [0..<n]) = sort_key (\<lambda>x. nat (key x)) xs"
    using groups_sort_key [of xs "\<lambda>x. nat (key x)" n] assms
    by (simp add: keys_below_def key_group_def [abs_def])
  show "group_start (key_group key xs) n = length xs"
    using length_groups [of "key_group key xs" n] by (simp add: eq)
qed

lemma filled_step:
  assumes keys: "keys_below key xs n" and xs: "xs = ys @ x # zs" and f: "filled key xs n (ys @ [x]) c out"
  defines "k \<equiv> nat (key x)"
  shows "0 \<le> key x" "k < length c" "0 < c ! k" "c ! k - 1 < length out"
    and "filled key xs n ys (c[k := c ! k - 1]) (out[c ! k - 1 := x])"
proof -
  let ?S = "group_start (key_group key xs)"
  show k: "0 \<le> key x" "k < length c" using keys f xs by (auto simp: keys_below_def filled_def k_def)
  have n: "length c = n" using f by (simp add: filled_def)
  have gk: "key_group key (ys @ [x]) k = key_group key ys k @ [x]" by (simp add: key_group_def k_def)
  have gd: "key_group key (ys @ [x]) d = key_group key ys d" if "d \<noteq> k" for d using that by (simp add: key_group_def k_def)
  have gx: "key_group key xs k = key_group key ys k @ x # key_group key zs k" by (simp add: key_group_def k_def xs)
  have ck: "c ! k = ?S k + length (key_group key ys k) + 1" using f k(2) n gk by (simp add: filled_def)
  show "0 < c ! k" using ck by simp
  have r: "length (key_group key ys k) < length (key_group key xs k)" by (simp add: gx)
  have "?S k + length (key_group key xs k) \<le> ?S n" using group_start_less [of k n] k(2) n by simp
  then show lt: "c ! k - 1 < length out" using ck r group_total(2) [OF keys] f by (simp add: filled_def)
  have "out[c ! k - 1 := x] ! (?S d + q) = key_group key xs d ! q"
    if d: "d < n" and q: "length (key_group key ys d) \<le> q" "q < length (key_group key xs d)" for d q
  proof (cases "d = k \<and> q = length (key_group key ys k)")
    case True
    then show ?thesis using ck lt by (simp add: gx)
  next
    case False
    then have ne: "?S d + q \<noteq> c ! k - 1"
      using group_start_inj [of "key_group key xs" d q k "length (key_group key ys k)"] q(2) r ck by auto
    have "length (key_group key (ys @ [x]) d) \<le> q"
      using False q(1) by (cases "d = k") (auto simp: gk gd)
    then have "out ! (?S d + q) = key_group key xs d ! q" using f d q(2) by (simp add: filled_def)
    then show ?thesis using ne by simp
  qed
  moreover have "c[k := c ! k - 1] ! d = ?S d + length (key_group key ys d)" if "d < n" for d
    using f that n gd [of d] ck k(2) by (cases "d = k") (auto simp: filled_def)
  ultimately show "filled key xs n ys (c[k := c ! k - 1]) (out[c ! k - 1 := x])"
    using f by (simp add: filled_def)
qed

lemma fill_back_ok:
  "keys_below key xs n \<Longrightarrow> xs = ys @ zs \<Longrightarrow> filled key xs n ys c out \<Longrightarrow>
   \<exists>c' out'. fill_back key (rev ys) c out = Some out' \<and> filled key xs n [] c' out'"
proof (induction ys arbitrary: c out zs rule: rev_induct)
  case (snoc x ys)
  have xs: "xs = ys @ x # zs" using snoc.prems(2) by simp
  note s = filled_step [OF snoc.prems(1) xs snoc.prems(3)]
  show ?case using snoc.IH [OF snoc.prems(1) xs s(5)] s(1-4) by (simp add: Let_def)
qed auto

text \<open>The three loops sort stably by the key.\<close>

lemma counting_pass:
  assumes keys: "keys_below key xs n"
  shows "do { cnt \<leftarrow> count_keys key xs (replicate n 0);
              fill_back key (rev xs) (prefix_sums cnt) (replicate (length xs) 0) } =
         Some (sort_key (\<lambda>x. nat (key x)) xs)"
proof -
  let ?S = "group_start (key_group key xs)"
  obtain c where c: "count_keys key xs (replicate n 0) = Some c" "length c = n" "\<forall>d<n. c ! d = length (key_group key xs d)"
    using count_keys_ok [of key xs "replicate n 0"] keys by auto
  have "prefix_sums c ! d = ?S d + length (key_group key xs d)" if "d < n" for d
  proof -
    have "prefix_sums c ! d = (\<Sum>j\<le>d. length (key_group key xs j))"
      using prefix_sums_ok [of c] c(2,3) that by simp
    then show ?thesis by (simp add: group_start_def lessThan_Suc_atMost [symmetric])
  qed
  then have "filled key xs n xs (prefix_sums c) (replicate (length xs) 0)"
    using prefix_sums_ok [of c] c(2) by (simp add: filled_def)
  from fill_back_ok [OF keys _ this, of "[]"] obtain c' out where
    out: "fill_back key (rev xs) (prefix_sums c) (replicate (length xs) 0) = Some out" "filled key xs n [] c' out" by auto
  have "out = concat (map (key_group key xs) [0..<n])"
  proof (rule nth_equalityI)
    show len: "length out = length (concat (map (key_group key xs) [0..<n]))"
      using out(2) group_total [OF keys] by (simp add: filled_def)
    fix i assume "i < length out"
    then have "i < ?S n" using len length_groups [of "key_group key xs" n] by simp
    then obtain d r where dr: "d < n" "r < length (key_group key xs d)" "i = ?S d + r" using group_split by blast
    then have "out ! i = key_group key xs d ! r" using out(2) by (simp add: filled_def key_group_def [of key "[]"])
    then show "out ! i = concat (map (key_group key xs) [0..<n]) ! i" using groups_nth [of d n r "key_group key xs"] dr by simp
  qed
  with c(1) out(1) show ?thesis by (simp add: group_total(1) [OF keys])
qed


section \<open>Counting sort\<close>

lemma min_element_Min: "nums \<noteq> [] \<Longrightarrow> min_element nums = Min (set nums)"
proof -
  have "foldl (\<lambda>m x. if x < m then x else m) a xs = fold min xs a" for a :: int and xs
  proof -
    have "(\<lambda>m x. if x < m then x else m) = (\<lambda>m x :: int. min x m)" by (auto simp: fun_eq_iff min_def)
    then show ?thesis by (induction xs arbitrary: a) simp_all
  qed
  then have "foldl (\<lambda>m x. if x < m then x else m) a xs = Min (set (a # xs))" for a :: int and xs
    by (simp only: Min.set_eq_fold)
  then show "nums \<noteq> [] \<Longrightarrow> ?thesis" by (cases nums) (auto simp: min_element_def)
qed

lemma max_element_Max: "nums \<noteq> [] \<Longrightarrow> max_element nums = Max (set nums)"
proof -
  have "foldl (\<lambda>m x. if m < x then x else m) a xs = fold max xs a" for a :: int and xs
  proof -
    have "(\<lambda>m x. if m < x then x else m) = (\<lambda>m x :: int. max x m)" by (auto simp: fun_eq_iff max_def)
    then show ?thesis by (induction xs arbitrary: a) simp_all
  qed
  then have "foldl (\<lambda>m x. if m < x then x else m) a xs = Max (set (a # xs))" for a :: int and xs
    by (simp only: Max.set_eq_fold)
  then show "nums \<noteq> [] \<Longrightarrow> ?thesis" by (cases nums) (auto simp: max_element_def)
qed

lemma int_result_eq: "int_result x = (if - (2 ^ 31) \<le> x \<and> x < 2 ^ 31 then Some x else None)"
  by (simp add: int_result_def check_def)

lemma sort_by_monotone:
  fixes f :: "int \<Rightarrow> 'b::linorder"
  assumes "\<And>x y. x \<in> set xs \<Longrightarrow> y \<in> set xs \<Longrightarrow> f x \<le> f y \<Longrightarrow> x \<le> y"
  shows "sort_key f xs = sort xs"
proof -
  have "sorted_wrt (\<lambda>x y. f x \<le> f y) (sort_key f xs)" using sorted_sort_key [of f xs] by (simp add: sorted_map)
  then have "sorted (sort_key f xs)" by (rule sorted_wrt_mono_rel [rotated]) (use assms in auto)
  then show ?thesis using properties_for_sort [of "sort_key f xs" xs] by simp
qed

lemma countingSort_eq:
  assumes "nums \<noteq> []"
  shows "countingSort nums = (if Max (set nums) - Min (set nums) < 2 ^ 31 - 1 then Some (sort nums) else None)"
proof -
  let ?m = "Min (set nums)" and ?M = "Max (set nums)"
  have b: "?m \<le> x" "x \<le> ?M" if "x \<in> set nums" for x using that by simp_all
  have "?m \<in> set nums" using assms by simp
  then have mM: "?m \<le> ?M" by simp
  have keys: "keys_below (\<lambda>x. x - ?m) nums (nat (?M - ?m + 1))"
    unfolding keys_below_def
  proof
    fix x assume "x \<in> set nums"
    then have "0 \<le> x - ?m" "x - ?m < ?M - ?m + 1" using b by fastforce+
    then show "0 \<le> x - ?m \<and> nat (x - ?m) < nat (?M - ?m + 1)" by (simp add: nat_less_iff)
  qed
  have "sort_key (\<lambda>x. nat (x - ?m)) nums = sort nums"
  proof (rule sort_by_monotone)
    fix x y assume "x \<in> set nums" "y \<in> set nums" "nat (x - ?m) \<le> nat (y - ?m)"
    then show "x \<le> y" using b(1) [of x] b(1) [of y] by (simp add: nat_le_iff)
  qed
  moreover have "(- 2147483648 :: int) \<le> ?M - ?m" "(- 2147483648 :: int) \<le> ?M - ?m + 1" using mM by linarith+
  ultimately show ?thesis
    using counting_pass [OF keys] assms by (simp add: countingSort_def min_element_Min max_element_Max int_result_eq Let_def)
qed

section \<open>Radix sort\<close>

lemma digit_nonneg: "0 \<le> x \<Longrightarrow> 0 < ex \<Longrightarrow> digit ex x = x div ex mod 10"
proof -
  assume x: "0 \<le> x" "0 < ex"
  then have "x sdiv ex = x div ex" by (cases "x = 0") (simp_all add: signed_divide_int_def)
  moreover have "0 \<le> x div ex" using x by (simp add: pos_imp_zdiv_nonneg_iff)
  then have "(x div ex) smod 10 = x div ex mod 10"
    by (cases "x div ex = 0") (simp_all add: signed_modulo_int_def signed_divide_int_def minus_div_mult_eq_mod)
  ultimately show ?thesis by (simp add: digit_def)
qed

lemma digit_pass:
  assumes "\<forall>x \<in> set xs. 0 \<le> x" "0 < ex"
  shows "countingSortForRadix xs ex = Some (sort_key (\<lambda>x. nat (x div ex mod 10)) xs)"
proof -
  have "keys_below (digit ex) xs 10" using assms by (auto simp: keys_below_def digit_nonneg)
  note pass = counting_pass [OF this]
  have "sort_key (\<lambda>x. nat (digit ex x)) xs = sort_key (\<lambda>x. nat (x div ex mod 10)) xs"
  proof (rule properties_for_sort_key)
    show "sorted (map (\<lambda>x. nat (digit ex x)) (sort_key (\<lambda>x. nat (x div ex mod 10)) xs))"
    proof -
      have eq: "map (\<lambda>x. nat (digit ex x)) (sort_key (\<lambda>x. nat (x div ex mod 10)) xs) =
          map (\<lambda>x. nat (x div ex mod 10)) (sort_key (\<lambda>x. nat (x div ex mod 10)) xs)"
        using assms by (intro map_cong) (auto simp: digit_nonneg)
      show ?thesis unfolding eq by (rule sorted_sort_key)
    qed
    fix k assume k: "k \<in> set (sort_key (\<lambda>x. nat (x div ex mod 10)) xs)"
    have "filter (\<lambda>x. nat (digit ex k) = nat (digit ex x)) ys = filter (\<lambda>x. nat (x div ex mod 10) = nat (k div ex mod 10)) ys"
      if "set ys = set xs" for ys
      using assms k that by (intro filter_cong) (auto simp: digit_nonneg)
    then show "filter (\<lambda>x. nat (digit ex k) = nat (digit ex x)) (sort_key (\<lambda>x. nat (x div ex mod 10)) xs) =
        filter (\<lambda>x. nat (digit ex k) = nat (digit ex x)) xs"
      using sort_key_stable [of "\<lambda>x. nat (x div ex mod 10)" "nat (k div ex mod 10)" xs] by simp
  qed simp
  with pass show ?thesis by (simp add: countingSortForRadix_def Let_def)
qed

text \<open>A stable sort by the next digit after one by the lower digits sorts by both.\<close>

lemma sorted_by_both:
  fixes d :: "int \<Rightarrow> nat" and m f :: "int \<Rightarrow> int"
  assumes "\<And>x y. d x < d y \<Longrightarrow> f x \<le> f y" "\<And>x y. d x = d y \<Longrightarrow> m x \<le> m y \<Longrightarrow> f x \<le> f y"
  shows "sorted (map d ys) \<Longrightarrow> (\<And>v. sorted (map m (filter (\<lambda>x. d x = v) ys))) \<Longrightarrow> sorted (map f ys)"
proof (induction ys)
  case (Cons y ys)
  have "f y \<le> f x" if "x \<in> set ys" for x
  proof (cases "d y < d x")
    case False
    then have eq: "d x = d y" using Cons.prems(1) that by fastforce
    then have "m y \<le> m x" using Cons.prems(2) [of "d y"] that by auto
    then show ?thesis using assms(2) eq by simp
  qed (use assms(1) in blast)
  moreover have "sorted (map m (filter (\<lambda>x. d x = v) ys))" for v
    using Cons.prems(2) [of v] by (cases "d y = v") auto
  ultimately show ?case using Cons by simp
qed simp

lemma two_passes:
  assumes "0 < ex"
  shows "sort_key (\<lambda>x. nat (x div ex mod 10)) (sort_key (\<lambda>x. x mod ex) xs) = sort_key (\<lambda>x. x mod (ex * 10)) xs"
proof -
  let ?d = "\<lambda>x. nat (x div ex mod 10)" and ?m = "\<lambda>x. x mod ex" and ?f = "\<lambda>x. x mod (ex * 10)"
  let ?ys = "sort_key ?d (sort_key ?m xs)"
  have f: "?f x = ex * (x div ex mod 10) + x mod ex" for x :: int by (rule zmod_zmult2_eq) simp
  have less: "?f x \<le> ?f y" if "?d x < ?d y" for x y :: int
  proof -
    have "x div ex mod 10 + 1 \<le> y div ex mod 10" using that by simp
    then have "ex * (x div ex mod 10) + ex \<le> ex * (y div ex mod 10)"
      using assms by (metis mult_left_mono distrib_left mult.right_neutral less_imp_le)
    moreover have "x mod ex < ex" "0 \<le> y mod ex" using assms by simp_all
    ultimately show ?thesis unfolding f by linarith
  qed
  have both: "?d x = ?d y \<and> ?m x = ?m y" if "?f x = ?f y" for x y :: int
  proof -
    have m: "x mod ex = y mod ex" using that by (metis dvd_triv_left mod_mod_cancel)
    then have "ex * (x div ex mod 10) = ex * (y div ex mod 10)" using that unfolding f by simp
    then show ?thesis using m assms by simp
  qed
  have "sort_key ?f xs = ?ys"
  proof (rule properties_for_sort_key)
    show "sorted (map ?f ?ys)"
    proof (rule sorted_by_both [of ?d ?f ?m, OF less])
      show "?f x \<le> ?f y" if "?d x = ?d y" "?m x \<le> ?m y" for x y :: int
        using that unfolding f by (simp add: eq_nat_nat_iff)
      show "sorted (map ?m (filter (\<lambda>x. ?d x = v) ?ys))" for v
        unfolding sort_key_stable by (rule sorted_filter) simp
    qed simp_all
    fix k assume "k \<in> set ?ys"
    have split: "filter (\<lambda>x. ?f k = ?f x) zs = filter (\<lambda>x. ?f k = ?f x) (filter (\<lambda>x. ?d x = ?d k) zs)"
      "filter (\<lambda>x. ?f k = ?f x) zs = filter (\<lambda>x. ?f k = ?f x) (filter (\<lambda>x. ?m x = ?m k) zs)" for zs
      unfolding filter_filter using both [of k] by (intro filter_cong, simp, metis)+
    show "filter (\<lambda>x. ?f k = ?f x) ?ys = filter (\<lambda>x. ?f k = ?f x) xs"
      using split(1) [of ?ys] split(1) [of "sort_key ?m xs"] split(2) [of "sort_key ?m xs"] split(2) [of xs]
      by (simp only: sort_key_stable)
  qed simp
  then show ?thesis by simp
qed


lemma sdiv_pos: "0 \<le> x \<Longrightarrow> 0 < ex \<Longrightarrow> x sdiv ex > 0 \<longleftrightarrow> ex \<le> x"
  for x ex :: int
  by (cases "x = 0") (simp_all add: signed_divide_int_def pos_imp_zdiv_pos_iff)

lemma radix_step:
  assumes "0 \<le> M" "\<forall>x \<in> set xs. 0 \<le> x" "10 ^ j \<le> M"
  shows "radix_loop M (10 ^ j) (sort_key (\<lambda>x. x mod 10 ^ j) xs) =
    do { ex \<leftarrow> int_result (10 ^ j * 10); radix_loop M ex (sort_key (\<lambda>x. x mod 10 ^ Suc j) xs) }"
  using assms digit_pass [of "sort_key (\<lambda>x. x mod 10 ^ j) xs" "10 ^ j"] two_passes [of "10 ^ j" xs]
  by (subst radix_loop.simps) (simp add: sdiv_pos mult.commute)

lemma radix_end:
  assumes "0 \<le> M" "\<forall>x \<in> set xs. 0 \<le> x \<and> x \<le> M" "M < 10 ^ j"
  shows "radix_loop M (10 ^ j) (sort_key (\<lambda>x. x mod 10 ^ j) xs) = Some (sort xs)"
proof -
  have "x mod 10 ^ j = x" if "x \<in> set xs" for x
    using assms that by (intro mod_pos_pos_trivial) fastforce+
  then have "sort_key (\<lambda>x. x mod 10 ^ j) xs = sort xs" by (intro sort_by_monotone) simp
  moreover have "\<not> M sdiv 10 ^ j > 0" using sdiv_pos [of M "10 ^ j"] assms by simp
  ultimately show ?thesis by (subst radix_loop.simps) simp
qed

lemma radix_loop_ok:
  assumes M: "0 \<le> M" "\<forall>x \<in> set xs. 0 \<le> x \<and> x \<le> M" "M < 10 ^ 9"
  shows "j \<le> 9 \<Longrightarrow> radix_loop M (10 ^ j) (sort_key (\<lambda>x. x mod 10 ^ j) xs) = Some (sort xs)"
proof (induction "9 - j" arbitrary: j)
  case 0
  then show ?case using radix_end [of M xs 9] M by simp
next
  case (Suc n)
  show ?case
  proof (cases "M < 10 ^ j")
    case True
    then show ?thesis using radix_end M by blast
  next
    case False
    have j: "Suc j \<le> 9" "n = 9 - Suc j" using Suc.hyps(2) by auto
    have "(10 :: int) ^ Suc j \<le> 10 ^ 9" using j(1) by (intro power_increasing) simp_all
    then have "(10 :: int) ^ Suc j < 2 ^ 31" by (rule le_less_trans) simp
    moreover have "(- (2 ^ 31) :: int) \<le> 10 ^ Suc j" by (rule order_trans [of _ 0]) simp_all
    ultimately have "int_result (10 ^ Suc j) = Some (10 ^ Suc j)" unfolding int_result_eq by (simp only: simp_thms if_P)
    then have "int_result (10 ^ j * 10) = Some (10 ^ Suc j)" by (simp add: mult.commute)
    then show ?thesis using radix_step [of M xs j] Suc.hyps(1) [OF j(2) j(1)] M False by simp
  qed
qed

lemma radix_loop_overflow:
  assumes M: "10 ^ 9 \<le> M" "\<forall>x \<in> set xs. 0 \<le> x"
  shows "j \<le> 9 \<Longrightarrow> radix_loop M (10 ^ j) (sort_key (\<lambda>x. x mod 10 ^ j) xs) = None"
proof (induction "9 - j" arbitrary: j)
  case 0
  then have "j = 9" by simp
  then show ?case using radix_step [of M xs 9] M by (simp add: int_result_eq)
next
  case (Suc n)
  have j: "Suc j \<le> 9" "n = 9 - Suc j" using Suc.hyps(2) by auto
  have "(10 :: int) ^ j \<le> 10 ^ 9" using j(1) by (intro power_increasing) simp_all
  then have "10 ^ j \<le> M" using M(1) by linarith
  then show ?case using radix_step [of M xs j] Suc.hyps(1) [OF j(2) j(1)] M by (simp add: int_result_eq mult.commute)
qed

lemma radix_loop_eq:
  assumes "\<forall>x \<in> set xs. 0 \<le> x" "xs \<noteq> []"
  shows "radix_loop (Max (set xs)) 1 xs = (if Max (set xs) < 10 ^ 9 then Some (sort xs) else None)"
proof -
  have id: "sort_key (\<lambda>x. x mod 10 ^ 0) xs = xs" using sort_key_const [of 0 xs] by simp
  have "0 \<le> Max (set xs)" using assms by (simp add: Max_ge_iff) (metis list.set_sel(1))
  then show ?thesis
    using radix_loop_ok [of "Max (set xs)" xs 0] radix_loop_overflow [of "Max (set xs)" xs 0] assms(1)
    unfolding id by auto
qed

lemma shift_all_eq:
  "shift_all d xs = (if \<forall>x \<in> set xs. - (2 ^ 31) \<le> x + d \<and> x + d < 2 ^ 31 then Some (map (\<lambda>x. x + d) xs) else None)"
  by (induction xs) (auto simp: int_result_eq)

lemma sort_shift: "map (\<lambda>x. x - d) (sort (map (\<lambda>x. x + d) xs)) = sort xs"
  for d :: int
proof -
  have "sorted (map (\<lambda>x. x - d) (sort (map (\<lambda>x. x + d) xs)))"
    by (simp add: sorted_map)
  moreover have "mset (map (\<lambda>x. x - d) (sort (map (\<lambda>x. x + d) xs))) = mset xs"
    by (simp add: multiset.map_comp comp_def)
  ultimately show ?thesis using properties_for_sort by metis
qed


lemma Max_shift: "nums \<noteq> [] \<Longrightarrow> Max (set (map (\<lambda>x. x + d) nums)) = Max (set nums) + d"
  for d :: int
  using mono_Max_commute [of "\<lambda>x. x + d" "set nums"] by (simp add: mono_def)

lemma radix_shifted:
  assumes ne: "nums \<noteq> []" and int: "\<forall>x \<in> set nums. - (2 ^ 31) \<le> x \<and> x < 2 ^ 31"
    and d: "0 < d" "\<forall>x \<in> set nums. 0 \<le> x + d"
  shows "do { nums \<leftarrow> shift_all d nums; nums \<leftarrow> radix_loop (max_element nums) 1 nums; shift_all (- d) nums } =
    (if Max (set nums) + d < 10 ^ 9 then Some (sort nums) else None)"
proof (cases "Max (set nums) + d < 2 ^ 31")
  case True
  let ?ys = "map (\<lambda>x. x + d) nums"
  have "x + d < 2 ^ 31" if "x \<in> set nums" for x using Max_ge [OF _ that] True by (simp add: order.strict_trans1)
  then have "\<forall>x \<in> set nums. - (2 ^ 31) \<le> x + d \<and> x + d < 2 ^ 31" using d(2) by (auto intro: order_trans [of _ 0])
  then have 1: "shift_all d nums = Some ?ys" unfolding shift_all_eq by (simp only: if_P)
  have 2: "radix_loop (max_element ?ys) 1 ?ys = (if Max (set nums) + d < 10 ^ 9 then Some (sort ?ys) else None)"
  proof -
    have "?ys \<noteq> []" "\<forall>x \<in> set ?ys. 0 \<le> x" using ne d(2) by simp_all
    then show ?thesis using radix_loop_eq [of ?ys] unfolding max_element_Max [OF \<open>?ys \<noteq> []\<close>] Max_shift [OF ne] by blast
  qed
  have "\<forall>x \<in> set (sort ?ys). - (2 ^ 31) \<le> x + - d \<and> x + - d < 2 ^ 31" using int by auto
  then have 3: "shift_all (- d) (sort ?ys) = Some (sort nums)"
    unfolding shift_all_eq using sort_shift [of d nums] by (simp only: if_P) simp
  show ?thesis by (simp only: 1 2 3 bind.simps split: if_split) simp
next
  case False
  have "Max (set nums) \<in> set nums" using ne by simp
  then have "shift_all d nums = None" using False unfolding shift_all_eq by auto
  with False show ?thesis by simp
qed

lemma radixSort_eq:
  assumes ne: "nums \<noteq> []" and int: "\<forall>x \<in> set nums. - (2 ^ 31) \<le> x \<and> x < 2 ^ 31"
  shows "radixSort nums =
    (if - (2 ^ 31) < Min (set nums) \<and> Max (set nums) + max 0 (- Min (set nums)) < 10 ^ 9 then Some (sort nums) else None)"
proof -
  define m M where "m = Min (set nums)" "M = Max (set nums)"
  have el: "min_element nums = m" "max_element nums = M"
    using min_element_Min [OF ne] max_element_Max [OF ne] by (simp_all add: m_M_def)
  have min: "m \<in> set nums" "\<And>x. x \<in> set nums \<Longrightarrow> m \<le> x" using ne by (simp_all add: m_M_def)
  then have lo: "- (2 ^ 31) \<le> m" using int by blast
  consider (pos) "0 \<le> m" | (least) "m = - (2 ^ 31)" | (neg) "m < 0" "- (2 ^ 31) < m" using lo by linarith
  then have "radixSort nums = (if - (2 ^ 31) < m \<and> M + max 0 (- m) < 10 ^ 9 then Some (sort nums) else None)"
  proof cases
    case pos
    then have "\<forall>x \<in> set nums. 0 \<le> x" using min(2) by (meson order_trans)
    then have "radix_loop M 1 nums = (if M < 10 ^ 9 then Some (sort nums) else None)"
      using radix_loop_eq [OF _ ne] unfolding m_M_def by blast
    with pos ne show ?thesis by (simp add: radixSort_def el Let_def max_absorb1)
  next
    case least
    then show ?thesis using ne by (simp add: radixSort_def el int_result_eq)
  next
    case neg
    have "\<forall>x \<in> set nums. 0 \<le> x + - m" using min(2) by simp
    note s = radix_shifted [OF ne int _ this, folded m_M_def(2)]
    have "int_result (- m) = Some (- m)" using neg by (simp add: int_result_eq)
    then show ?thesis using s neg ne by (simp add: radixSort_def el Let_def max_absorb2)
  qed
  then show ?thesis unfolding m_M_def .
qed

text \<open>
  Claim C40.  For fewer than \<open>2 ^ 31\<close> \<open>int\<close>s, counting sort and radix sort stay inside their vectors and
  return the sorted sequence whenever their arithmetic does not overflow, and this is exactly when the
  spread of the values is below \<open>2 ^ 31 - 1\<close> for counting sort, and when the shifted
  maximum is below \<open>10 ^ 9\<close> and the minimum is not \<open>- (2 ^ 31)\<close> for radix sort.
\<close>

theorem counting_sorts_sort:
  assumes "\<forall>x \<in> set nums. - (2 ^ 31) \<le> x \<and> x < 2 ^ 31" "length nums < 2 ^ 31"
  shows "countingSort nums =
      (if nums = [] \<or> Max (set nums) - Min (set nums) < 2 ^ 31 - 1 then Some (sort nums) else None)
    \<and> radixSort nums =
      (if nums = [] \<or> - (2 ^ 31) < Min (set nums) \<and> Max (set nums) + max 0 (- Min (set nums)) < 10 ^ 9
       then Some (sort nums) else None)"
proof (cases "nums = []")
  case True
  then show ?thesis by (simp add: countingSort_def radixSort_def)
next
  case False
  then show ?thesis using countingSort_eq [OF False] radixSort_eq [OF False assms(1)] by simp
qed

theorem counting_sorts_sort_witness:
  "countingSort [3, -1, 2] = Some [-1, 2, 3] \<and> radixSort [1000000000] = None"
  using counting_sorts_sort [of "[3, -1, 2]"] counting_sorts_sort [of "[1000000000]"] by simp

end
