(* ===== verification/Spec2Isabelle.thy ===== *)
theory Spec2Isabelle
  imports NetBuffer Timers Pollers EventLoops TcpConnections Servers Clients Dates TimeZones
    BigUInts BigUIntText LogStreams LogFiles AsyncLogs Monitors ThreadPools Codecs Sorts FastSorts HeapSorts
    RingBuffers PriorityQueues SearchTrees ProbingSets SegTrees EagerStrings QueueLogs Loggers WideInts CountedPtrs
    WaterPours NQueens Sudokus LinkedLists Eulerians CountingSorts
begin

text \<open>
  Verification of the C++ code of \<^verbatim>\<open>recipes\<close>.

  The repository collects the small programs that grew into a network library: a reactor with its TCP
  classes (\<^verbatim>\<open>reactor/\<close>, the last stage is \<^verbatim>\<open>s13\<close>), date and time-zone arithmetic
  (\<^verbatim>\<open>datetime/\<close>), a logging library (\<^verbatim>\<open>logging/\<close>), a thread library (\<^verbatim>\<open>thread/\<close>), a protobuf
  transport format (\<^verbatim>\<open>protobuf/\<close>), wide integers and a smart pointer (\<^verbatim>\<open>basic/\<close>), data structures
  (\<^verbatim>\<open>datastruct/\<close>) and puzzles (\<^verbatim>\<open>puzzle/\<close>, \<^verbatim>\<open>sudoku/\<close>).

  \<^bold>\<open>How the parts interact.\<close>  An \<open>EventLoop\<close> owns a poller and a timer queue and runs the functors
  posted to it by other threads.  A \<open>TcpConnection\<close> registers its \<open>Channel\<close> with the poller of its
  loop and keeps unsent bytes in a \<open>Buffer\<close>; a \<open>TcpServer\<close> hands the sockets its \<open>Acceptor\<close>
  accepts to the loops of an \<open>EventLoopThreadPool\<close>, a \<open>TcpClient\<close> gets its socket from a
  \<open>Connector\<close>.  A log line is formatted in a \<open>LogStream\<close>, collected by
  \<open>AsyncLoggingDoubleBuffering\<close> and written by its thread to a \<open>LogFile\<close>, which names its files by
  the date arithmetic of \<^verbatim>\<open>datetime/\<close>.

  \<^bold>\<open>Theories and what they show.\<close>
  \<^item> \<open>Prelude\<close>: assertions as \<open>option\<close>, \<open>memcpy\<close> and segments of arrays, decimal numerals,
    big-endian integers.
  \<^item> \<open>NetBuffer\<close> (\<^verbatim>\<open>Buffer.h\<close>, \<^verbatim>\<open>Buffer.cc\<close>): the buffer is a byte queue (locale \<open>byte_queue\<close>),
    whatever \<open>makeSpace\<close> moves; \<open>readFd\<close> with its spill area refines appending; \<open>shrink\<close> is wrong.
  \<^item> \<open>Timers\<close> (\<^verbatim>\<open>TimerQueue\<close>, \<^verbatim>\<open>Timer\<close>): a heap of timer objects with the two index sets; no use after
    free, the two sets agree, expired timers fire in order and repeat, cancelling inside a callback.
  \<^item> \<open>Pollers\<close> (\<^verbatim>\<open>Channel\<close>, \<^verbatim>\<open>EPoller\<close>, \<^verbatim>\<open>Poller\<close>): the locale \<open>multiplexer\<close> is interpreted by both
    pollers; the kernel's interest table follows the channels' requests.
  \<^item> \<open>EventLoops\<close> (\<^verbatim>\<open>EventLoop\<close>): an inductive step relation interleaving the loop with posting
    threads; functors run in order, and none waits while the loop sleeps.
  \<^item> \<open>TcpConnections\<close>: the bytes the peer reads are the bytes sent, in order; shutdown waits for
    the output buffer; the channel contract of the poller is kept.
  \<^item> \<open>Servers\<close> and \<open>Clients\<close>: connection tables, callback protocol, round robin, ownership of
    descriptors and retry back-off.
  \<^item> \<open>Dates\<close> and \<open>TimeZones\<close>: Julian day numbers are the Gregorian calendar, round trips of dates,
    UTC times, zone files and local times.
  \<^item> \<open>BigUInts\<close> and \<open>BigUIntText\<close> (\<^verbatim>\<open>basic/uint.h\<close>, \<^verbatim>\<open>basic/uint.cc\<close>): exact arithmetic on
    32-bit limbs with 64-bit intermediates, and decimal text.
  \<^item> \<open>LogStreams\<close>, \<open>LogFiles\<close>, \<open>AsyncLogs\<close> (\<^verbatim>\<open>logging/\<close>): memory safety and text of a log
    line; rolling; the interleaved front and back end.  The locale \<open>log_sink\<close> is the interface
    between the last two, interpreted by \<open>LogFile\<close>.  \<open>QueueLogs\<close> is the queue-based alternative,
    \<open>Loggers\<close> the log statement: header, cached time, trailer, macros.
  \<^item> \<open>Monitors\<close> and \<open>ThreadPools\<close> (\<^verbatim>\<open>thread/\<close>): critical sections of interleaved threads with
    wake-ups; the locale \<open>monitor_queue\<close> is interpreted by the bounded and the unbounded queue.
  \<^item> \<open>Codecs\<close> (\<^verbatim>\<open>protobuf/codec.h\<close>, \<^verbatim>\<open>protobuf/dispatcher.cc\<close>): framing and its round trip, with the
    protobuf runtime as a parameter.
  \<^item> \<open>Sorts\<close>, \<open>FastSorts\<close>, \<open>HeapSorts\<close> (\<^verbatim>\<open>datastruct/*_sort.h\<close>): in-place sorts, all interpretations
    of the locale \<open>sorter\<close>, and binary search.  \<open>CountingSorts\<close> has counting sort and radix sort, with the
    exact bounds below which their \<open>int\<close>s do not overflow.
  \<^item> \<open>DataRefinement\<close>, \<open>RingBuffers\<close>, \<open>PriorityQueues\<close>, \<open>SearchTrees\<close>, \<open>ProbingSets\<close> (\<^verbatim>\<open>datastruct/\<close>): the
    rings refine bounded sequences and the search tree a finite map (locale \<open>data_refinement\<close>), the heap is a
    priority queue (\<open>max_queue\<close>), and the probing hash set returns exactly as long as few elements are erased.
  \<^item> \<open>SegTrees\<close> (\<^verbatim>\<open>segment_tree.cpp\<close>, \<^verbatim>\<open>max_segment_tree.cpp\<close>): the trees of sums and of maxima refine an
    array, both by the locale \<open>combining\<close>, and stay inside their \<open>4 * n\<close> cells.
  \<^item> \<open>LinkedLists\<close> (\<^verbatim>\<open>list.cpp\<close>, \<^verbatim>\<open>double_list.cpp\<close>): the single and the double list, nodes in an explicit memory,
    are interpretations of the locale \<open>linked_list\<close> and so refine the same list of values; their destructors free
    every node once.
  \<^item> \<open>Eulerians\<close> (\<^verbatim>\<open>hierholzer.cpp\<close>): the loops of the directed and the undirected class interpret the locale
    \<open>hierholzer_search\<close>; circuits and paths are found exactly if they exist, apart from the paths that
    the directed class misses.
  \<^item> \<open>WideInts\<close> and \<open>CountedPtrs\<close> (\<^verbatim>\<open>basic/int128.h\<close>, \<^verbatim>\<open>basic/counted_ptr.h\<close>): exact 128-bit arithmetic, and the
    ownership of objects and counts.
  \<^item> \<open>WaterPours\<close> and \<open>NQueens\<close> (\<^verbatim>\<open>puzzle/\<close>): the breadth-first search ends with a shortest path but reads out of
    bounds when there is none; the four counting programs agree with the number of solutions, the three that
    split the search (locale \<open>first_row\<close>) from two queens on.
  \<^item> \<open>Sudokus\<close> (\<^verbatim>\<open>sudoku/\<close>): the three backtracking solvers, interpretations of the locale \<open>solver_laws\<close>, find a
    solution exactly if there is one and restore their caches.
  \<^item> \<open>EagerStrings\<close> (\<^verbatim>\<open>string/StringEager.cc\<close>): a byte string in a growing array, memory-safe below 32 bits.

  \<^bold>\<open>Conventions.\<close>  A failing assertion, an abort, a null dereference or an access outside an object is
  \<open>None\<close>, so a theorem that an operation returns \<open>Some\<close> also says that nothing of this kind happens.
  Heap objects live in maps from addresses.  Integers have their C++ width where wrap-around can be seen
  (limbs, lengths in a packet, formatted integers) and are unbounded where the code's range is
  documented.  Loops are total functions with a measure.  The probing loop of the hash set, the recursion
  of the segment trees, the walks along linked lists, the loop of radix sort and the searches of the
  puzzles are partial functions, whose value is \<open>None\<close> if they do not return, and the theorems show when they do; no fuel is used.  What the kernel or a
  library answers is an argument of the operation.

  \<^bold>\<open>Not modelled.\<close>  Wrappers over system calls (\<^verbatim>\<open>Socket\<close>, \<^verbatim>\<open>InetAddress\<close>, most of \<^verbatim>\<open>SocketsOps\<close>,
  \<^verbatim>\<open>Mutex\<close>, \<^verbatim>\<open>Thread\<close>), because they only call the kernel; the earlier stages of the reactor, which
  \<^verbatim>\<open>s13\<close> supersedes; the bucket sorts, which use floating point, and the remaining containers of \<^verbatim>\<open>datastruct/\<close>;
  standalone programs around files and sockets (\<^verbatim>\<open>esort\<close>, \<^verbatim>\<open>topk\<close>, \<^verbatim>\<open>faketcp\<close>, \<^verbatim>\<open>ssl\<close>,
  the other puzzles, the dancing links of \<^verbatim>\<open>sudoku\<close>, \<^verbatim>\<open>benchmark\<close>, \<^verbatim>\<open>pingpong\<close>); the study material under \<^verbatim>\<open>cpp/\<close>, \<^verbatim>\<open>leetcode/\<close> and
  \<^verbatim>\<open>designpattern/\<close>, with the libraries vendored there; code in other languages.
\<close>

end
